(* ===== verification/Prelude.thy ===== *)
theory Prelude
  imports Main "HOL-Library.Word" "HOL-Library.Monad_Syntax"
begin

unbundle bit_operations_syntax

text \<open>
  Shared vocabulary of the development: the integer types of \<^verbatim>\<open>include/kernel.h\<close>,
  the universal return constants, the configuration constants of
  \<^verbatim>\<open>config/conf.h\<close> and the generic lemmas on lists, words and optional results that the
  component theories use.
\<close>

section \<open>Types and constants\<close>

type_synonym u32 = "32 word"
type_synonym u8 = "8 word"

abbreviation OK :: int where "OK \<equiv> 1"
abbreviation SYSERR :: int where "SYSERR \<equiv> - 1"
abbreviation TIMEOUT :: int where "TIMEOUT \<equiv> - 3"
abbreviation EMPTY :: int where "EMPTY \<equiv> - 1"

abbreviation NPROC :: int where "NPROC \<equiv> 100"
abbreviation NSEM :: int where "NSEM \<equiv> 100"
abbreviation NQENT :: int where "NQENT \<equiv> 304"
abbreviation MAXKEY :: int where "MAXKEY \<equiv> 2147483647"
abbreviation MINKEY :: int where "MINKEY \<equiv> - 2147483648"
abbreviation NULLPROC :: int where "NULLPROC \<equiv> 0"

section \<open>Collections of facts\<close>

named_theorems setter_simps \<open>reading a field of an updated table\<close>
named_theorems macro_defs \<open>the inline macros of the header files\<close>

section \<open>Total results of partial operations\<close>

text \<open>
  An operation whose loop might not end returns an \<open>option\<close>; \<open>None\<close> is "does not
  return". \<open>returns m Q\<close> is the total-correctness reading: the operation does return,
  and its result satisfies \<open>Q\<close>.
\<close>

definition returns :: "'a option \<Rightarrow> ('a \<Rightarrow> bool) \<Rightarrow> bool" where
  "returns m Q \<longleftrightarrow> (\<exists>x. m = Some x \<and> Q x)"

lemma returns_Some [simp]: "returns (Some x) Q \<longleftrightarrow> Q x"
  by (simp add: returns_def)

lemma returns_None [simp]: "\<not> returns None Q"
  by (simp add: returns_def)

lemma returns_bind [simp]: "returns (m \<bind> f) Q \<longleftrightarrow> returns m (\<lambda>x. returns (f x) Q)"
  by (cases m) (auto simp: returns_def)

lemma returns_mono: "returns m P \<Longrightarrow> (\<And>x. P x \<Longrightarrow> Q x) \<Longrightarrow> returns m Q"
  by (auto simp: returns_def)

lemma returnsE: "returns m Q \<Longrightarrow> (\<And>x. m = Some x \<Longrightarrow> Q x \<Longrightarrow> R) \<Longrightarrow> R"
  by (auto simp: returns_def)

section \<open>Words\<close>

lemma unat_u32_less: "unat (x :: u32) < 4294967296"
  using unsigned_less [of x] by simp

lemma unat_of_nat_u32: "n < 4294967296 \<Longrightarrow> unat (of_nat n :: u32) = n"
  by (simp add: unsigned_of_nat take_bit_nat_eq_self)

lemma sint_u32: "sint (x :: u32) = (if uint x < 2147483648 then uint x else uint x - 4294967296)"
proof -
  have r: "0 \<le> uint x" "uint x < 4294967296" using uint_lt2p [of x] by simp_all
  have e: "(2 :: int) ^ 32 = 4294967296" by simp
  have "sint x = take_bit 32 (uint x + 2147483648) - 2147483648"
    by (simp add: sint_uint signed_take_bit_eq_take_bit_shift)
  also have "take_bit 32 (uint x + 2147483648) = (uint x + 2147483648) mod 4294967296" by (simp only: take_bit_eq_mod e)
  also have "\<dots> = (if uint x < 2147483648 then uint x + 2147483648 else uint x - 2147483648)"
  proof (cases "uint x < 2147483648")
    case False
    have "(uint x + 2147483648) mod 4294967296 = (uint x - 2147483648 + 1 * 4294967296) mod 4294967296" by (simp only: mult_1) (simp add: add.commute)
    also have "\<dots> = (uint x - 2147483648) mod 4294967296" by (rule mod_mult_self1)
    finally show ?thesis using False r by (simp add: mod_pos_pos_trivial)
  qed (use r in \<open>simp add: mod_pos_pos_trivial\<close>)
  finally show ?thesis by auto
qed

lemma sint_u32_neg: "sint (x :: u32) < 0 \<longleftrightarrow> 2147483648 \<le> uint x"
proof (cases "uint x < 2147483648")
  case True
  then have "sint x = uint x" by (simp only: sint_u32 if_True)
  then show ?thesis using True uint_nonnegative [of x] by linarith
next
  case False
  then have "sint x = uint x - 4294967296" by (simp only: sint_u32 if_False)
  moreover have "uint x < 4294967296" using uint_lt2p [of x] by simp
  ultimately show ?thesis using False by linarith
qed

lemma and_not7: "unat (x AND NOT (7 :: u32)) = 8 * (unat x div 8)"
proof -
  have m: "(7 :: u32) = mask 3" by (simp add: mask_eq_exp_minus_1)
  have "x AND NOT 7 = push_bit 3 (drop_bit 3 x)"
    unfolding m by (rule bit_eqI) (auto simp: bit_simps)
  moreover have "unat (push_bit 3 (drop_bit 3 x)) = 8 * (unat x div 8)"
  proof -
    have "8 * (unat x div 8) < 4294967296" using unat_u32_less [of x] by simp
    then show ?thesis
      unfolding unsigned_push_bit_eq unat_drop_bit_eq
      by (simp add: push_bit_eq_mult drop_bit_eq_div take_bit_eq_mod)
  qed
  ultimately show ?thesis by simp
qed

section \<open>Lists\<close>

lemma hd_append_if: "hd (xs @ ys) = (if xs = [] then hd ys else hd xs)"
  by simp

lemma distinct_split_notin:
  "distinct (xs @ x # ys) \<Longrightarrow> x \<notin> set xs \<and> x \<notin> set ys"
  by auto

lemma find_map: "find P (map f xs) = map_option f (find (\<lambda>x. P (f x)) xs)"
  by (induction xs) simp_all

end
