(* ===== verification/Interfaces.thy ===== *)
theory Interfaces
  imports Prelude
begin

text \<open>
  The contracts several components share, each with what a client can conclude from it: a queue that
  is first in, first out; a pool of blocks that are handed out and given back; a search round a table
  for a free entry. The components that keep such a contract interpret the locale on their own operations.
\<close>

section \<open>First in, first out\<close>

datatype 'a qop = Put 'a | Take

primrec puts :: "'a qop list \<Rightarrow> 'a list" where
  "puts [] = []"
| "puts (op # ops) = (case op of Put x \<Rightarrow> x # puts ops | Take \<Rightarrow> puts ops)"

locale fifo =
  fixes good :: "'s \<Rightarrow> bool" and contents :: "'s \<Rightarrow> 'a list" and room :: "'s \<Rightarrow> 'a \<Rightarrow> bool"
    and put :: "'a \<Rightarrow> 's \<Rightarrow> 's" and take_first :: "'s \<Rightarrow> 'a \<times> 's"
  assumes put_good: "good s \<Longrightarrow> room s x \<Longrightarrow> good (put x s)"
    and put_contents: "good s \<Longrightarrow> room s x \<Longrightarrow> contents (put x s) = contents s @ [x]"
    and take_good: "good s \<Longrightarrow> contents s \<noteq> [] \<Longrightarrow> good (snd (take_first s))"
    and take_contents: "good s \<Longrightarrow> contents s \<noteq> [] \<Longrightarrow> contents s = fst (take_first s) # contents (snd (take_first s))"
begin

text \<open>A sequence of operations is legal when an element is put where there is room and taken
  where there is one.\<close>

primrec legal :: "'a qop list \<Rightarrow> 's \<Rightarrow> bool" where
  "legal [] s \<longleftrightarrow> True"
| "legal (op # ops) s \<longleftrightarrow> (case op of Put x \<Rightarrow> room s x \<and> legal ops (put x s)
     | Take \<Rightarrow> contents s \<noteq> [] \<and> legal ops (snd (take_first s)))"

primrec out :: "'a qop list \<Rightarrow> 's \<Rightarrow> 'a list" where
  "out [] s = []"
| "out (op # ops) s = (case op of Put x \<Rightarrow> out ops (put x s)
     | Take \<Rightarrow> fst (take_first s) # out ops (snd (take_first s)))"

primrec final :: "'a qop list \<Rightarrow> 's \<Rightarrow> 's" where
  "final [] s = s"
| "final (op # ops) s = (case op of Put x \<Rightarrow> final ops (put x s) | Take \<Rightarrow> final ops (snd (take_first s)))"

lemma first_in_first_out:
  assumes "good s" "legal ops s"
  shows "good (final ops s) \<and> contents s @ puts ops = out ops s @ contents (final ops s)"
  using assms
proof (induction ops arbitrary: s)
  case (Cons op ops)
  then show ?case
  proof (cases op)
    case (Put x)
    then have c: "room s x" "legal ops (put x s)" using Cons.prems(2) by simp_all
    show ?thesis
      using Cons.IH [OF put_good [OF Cons.prems(1) c(1)] c(2)] put_contents [OF Cons.prems(1) c(1)] Put by simp
  next
    case Take
    then show ?thesis using Cons take_good [of s] take_contents [of s] by simp
  qed
qed simp

end

section \<open>A pool of blocks\<close>

datatype 'b pop = Get | Give 'b

locale pool =
  fixes good :: "'s \<Rightarrow> bool" and avail :: "'s \<Rightarrow> 'b set" and get :: "'s \<Rightarrow> 'b \<times> 's" and give_back :: "'b \<Rightarrow> 's \<Rightarrow> 's"
    and mine :: "'s \<Rightarrow> 'b \<Rightarrow> bool"
  assumes get_good: "good s \<Longrightarrow> avail s \<noteq> {} \<Longrightarrow> good (snd (get s))"
    and get_avail: "good s \<Longrightarrow> avail s \<noteq> {} \<Longrightarrow> fst (get s) \<in> avail s \<and> avail (snd (get s)) = avail s - {fst (get s)}"
    and give_good: "good s \<Longrightarrow> b \<notin> avail s \<Longrightarrow> mine s b \<Longrightarrow> good (give_back b s)"
    and give_avail: "good s \<Longrightarrow> b \<notin> avail s \<Longrightarrow> mine s b \<Longrightarrow> avail (give_back b s) = insert b (avail s)"
    and get_mine: "good s \<Longrightarrow> avail s \<noteq> {} \<Longrightarrow> mine (snd (get s)) b \<longleftrightarrow> mine s b \<or> b = fst (get s)"
    and give_mine: "good s \<Longrightarrow> b \<notin> avail s \<Longrightarrow> mine s b \<Longrightarrow> c \<noteq> b \<Longrightarrow> mine (give_back b s) c \<longleftrightarrow> mine s c"
begin

text \<open>The clients hold a set of blocks; they give back only what they hold.\<close>

fun run :: "'b pop list \<Rightarrow> 'b set \<times> 's \<Rightarrow> ('b set \<times> 's) option" where
  "run [] (H, s) = Some (H, s)"
| "run (Get # ops) (H, s) = (if avail s = {} then None else run ops (insert (fst (get s)) H, snd (get s)))"
| "run (Give b # ops) (H, s) = (if b \<in> H then run ops (H - {b}, give_back b s) else None)"

definition separate :: "'b set \<times> 's \<Rightarrow> bool" where
  "separate = (\<lambda>(H, s). good s \<and> H \<inter> avail s = {} \<and> (\<forall>b\<in>H. mine s b))"

lemma no_double_allocation:
  assumes "separate (H, s)" "run ops (H, s) = Some (H', s')"
  shows "separate (H', s') \<and> H' \<union> avail s' = H \<union> avail s"
  using assms
proof (induction ops "(H, s)" arbitrary: H s rule: run.induct)
  case (2 ops H s)
  then have a: "avail s \<noteq> {}" "good s" by (auto simp: separate_def split: if_splits)
  note G = get_good [OF a(2,1)] get_avail [OF a(2,1)] get_mine [OF a(2,1)]
  have s1: "separate (insert (fst (get s)) H, snd (get s))" using 2(2) G by (auto simp: separate_def)
  have r: "run ops (insert (fst (get s)) H, snd (get s)) = Some (H', s')" using 2(3) a by simp
  show ?case using 2(1) [OF a(1) s1 r] G(2) by auto
next
  case (3 b ops H s)
  then have a: "b \<in> H" "good s" "b \<notin> avail s" "mine s b" by (auto simp: separate_def split: if_splits)
  note G = give_good [OF a(2-4)] give_avail [OF a(2-4)] give_mine [OF a(2-4)]
  have s1: "separate (H - {b}, give_back b s)" using 3(2) G by (auto simp: separate_def)
  have r: "run ops (H - {b}, give_back b s) = Some (H', s')" using 3(3) a by simp
  show ?case using 3(1) [OF a(1) s1 r] G(2) a(1) by auto
qed simp

end

section \<open>Searching a table round from a cursor\<close>

locale round_robin =
  fixes n :: int and valid :: "'s \<Rightarrow> bool" and slot :: "'s \<Rightarrow> int" and advance :: "'s \<Rightarrow> 's"
    and free :: "'s \<Rightarrow> int \<Rightarrow> bool" and search :: "nat \<Rightarrow> 's \<Rightarrow> 'r" and none :: "'s \<Rightarrow> 'r" and found :: "'s \<Rightarrow> 'r"
  assumes size: "0 < n"
    and slot_range: "valid s \<Longrightarrow> 0 \<le> slot s \<and> slot s < n"
    and advance_valid: "valid s \<Longrightarrow> valid (advance s)"
    and advance_slot: "valid s \<Longrightarrow> slot (advance s) = (slot s + 1) mod n"
    and advance_free: "free (advance s) = free s"
    and search_0: "search 0 s = none s"
    and search_Suc: "search (Suc k) s = (if free s (slot s) then found s else search k (advance s))"
begin

definition steps :: "nat \<Rightarrow> 's \<Rightarrow> 's" where "steps k = advance ^^ k"

lemma steps_Suc: "steps (Suc k) s = steps k (advance s)" by (simp add: steps_def funpow_swap1)

lemma steps_valid: "valid s \<Longrightarrow> valid (steps k s)"
  by (induction k) (simp_all add: steps_def advance_valid)

lemma steps_slot: "valid s \<Longrightarrow> slot (steps k s) = (slot s + int k) mod n"
proof (induction k)
  case 0
  then show ?case using slot_range by (simp add: steps_def)
next
  case (Suc k)
  have "steps (Suc k) s = advance (steps k s)" by (simp add: steps_def)
  then show ?case using Suc advance_slot [OF steps_valid [OF Suc.prems, of k]] by (simp add: mod_simps ac_simps)
qed

lemma steps_free: "free (steps k s) = free s"
  by (induction k arbitrary: s) (simp add: steps_def, simp add: steps_Suc advance_free)

lemma search_first:
  assumes "valid s"
  shows "search m s = (case find (\<lambda>k. free s ((slot s + int k) mod n)) [0..<m] of
     None \<Rightarrow> none (steps m s) | Some k \<Rightarrow> found (steps k s))"
  using assms
proof (induction m arbitrary: s)
  case 0
  then show ?case by (simp add: search_0 steps_def)
next
  case (Suc m)
  have l: "[0..<Suc m] = 0 # map Suc [0..<m]" by (simp add: upt_conv_Cons map_Suc_upt)
  have z: "(slot s + int 0) mod n = slot s" using slot_range [OF Suc.prems] by simp
  have sh: "(slot (advance s) + int k) mod n = (slot s + int (Suc k)) mod n" for k
    using advance_slot [OF Suc.prems] by (simp add: mod_simps ac_simps)
  show ?case
  proof (cases "free s (slot s)")
    case True
    then show ?thesis unfolding l search_Suc find.simps z by (simp add: steps_def)
  next
    case False
    have IH: "search m (advance s) = (case find (\<lambda>k. free s ((slot s + int (Suc k)) mod n)) [0..<m] of
        None \<Rightarrow> none (steps (Suc m) s) | Some k \<Rightarrow> found (steps (Suc k) s))"
      using Suc.IH [OF advance_valid [OF Suc.prems]] unfolding sh advance_free steps_Suc by simp
    show ?thesis unfolding l search_Suc find.simps z if_not_P [OF False] IH find_map by (simp split: option.split)
  qed
qed

text \<open>A search of the whole table fails only when no entry is free, and otherwise stops at a free entry.\<close>

lemma search_all:
  assumes "valid s"
  shows "(search (nat n) s = none (steps (nat n) s) \<and> (\<forall>i. 0 \<le> i \<longrightarrow> i < n \<longrightarrow> \<not> free s i))
    \<or> (\<exists>s1. search (nat n) s = found s1 \<and> valid s1 \<and> free s (slot s1) \<and> (\<exists>k. s1 = steps k s))"
proof (cases "find (\<lambda>k. free s ((slot s + int k) mod n)) [0..<nat n]")
  case None
  have "\<not> free s i" if i: "0 \<le> i" "i < n" for i
  proof -
    define k where "k = nat ((i - slot s) mod n)"
    have k: "k < nat n" "int k = (i - slot s) mod n" using size by (simp_all add: k_def nat_less_iff)
    have "(slot s + int k) mod n = i" unfolding k(2) using i by (simp add: mod_simps)
    then show ?thesis using None k(1) unfolding find_None_iff by (metis atLeast0LessThan lessThan_iff set_upt)
  qed
  then show ?thesis using search_first [OF assms, of "nat n"] None by simp
next
  case (Some k)
  then have "free s ((slot s + int k) mod n)" by (auto simp: find_Some_iff)
  then show ?thesis
    using search_first [OF assms, of "nat n"] Some steps_valid [OF assms, of k] steps_slot [OF assms, of k] by auto
qed

end

end
