(* ===== verification/Queue.thy ===== *)
theory Queue
  imports Prelude
begin

text \<open>
  The process queues of \<^verbatim>\<open>system/queue.c\<close>, \<^verbatim>\<open>getitem.c\<close>, \<^verbatim>\<open>insert.c\<close>,
  \<^verbatim>\<open>insertd.c\<close> and \<^verbatim>\<open>newqueue.c\<close>: one table \<open>queuetab\<close> holds, for every
  process and for the head and tail of every queue, a key and the indexes of the neighbours.
  The table is a function from indexes to entries; every operation is the code's sequence of
  assignments to it. \<open>qrep nq qt L\<close> says that the table represents the lists \<open>L q\<close>,
  one for each queue created so far, and each operation is shown to implement the list
  operation it stands for.
\<close>

section \<open>The queue table\<close>

record qentry =
  qkey :: int
  qnext :: int
  qprev :: int

type_synonym qtab = "int \<Rightarrow> qentry"

definition set_next :: "int \<Rightarrow> int \<Rightarrow> qtab \<Rightarrow> qtab" where
  "set_next i v qt = qt(i := (qt i)\<lparr>qnext := v\<rparr>)"

definition set_prev :: "int \<Rightarrow> int \<Rightarrow> qtab \<Rightarrow> qtab" where
  "set_prev i v qt = qt(i := (qt i)\<lparr>qprev := v\<rparr>)"

definition set_key :: "int \<Rightarrow> int \<Rightarrow> qtab \<Rightarrow> qtab" where
  "set_key i v qt = qt(i := (qt i)\<lparr>qkey := v\<rparr>)"

lemma setter_reads [setter_simps]:
  "qnext (set_next i v qt j) = (if j = i then v else qnext (qt j))"
  "qprev (set_next i v qt j) = qprev (qt j)"
  "qkey (set_next i v qt j) = qkey (qt j)"
  "qnext (set_prev i v qt j) = qnext (qt j)"
  "qprev (set_prev i v qt j) = (if j = i then v else qprev (qt j))"
  "qkey (set_prev i v qt j) = qkey (qt j)"
  "qnext (set_key i v qt j) = qnext (qt j)"
  "qprev (set_key i v qt j) = qprev (qt j)"
  "qkey (set_key i v qt j) = (if j = i then v else qkey (qt j))"
  by (simp_all add: set_next_def set_prev_def set_key_def)

section \<open>The inline functions of queue.h\<close>

definition queuehead :: "int \<Rightarrow> int" where [macro_defs]: "queuehead q = q"
definition queuetail :: "int \<Rightarrow> int" where [macro_defs]: "queuetail q = q + 1"
definition firstid :: "qtab \<Rightarrow> int \<Rightarrow> int" where [macro_defs]: "firstid qt q = qnext (qt (queuehead q))"
definition lastid :: "qtab \<Rightarrow> int \<Rightarrow> int" where [macro_defs]: "lastid qt q = qprev (qt (queuetail q))"
definition isempty :: "qtab \<Rightarrow> int \<Rightarrow> bool" where "isempty qt q \<longleftrightarrow> NPROC \<le> firstid qt q"
definition nonempty :: "qtab \<Rightarrow> int \<Rightarrow> bool" where "nonempty qt q \<longleftrightarrow> firstid qt q < NPROC"
definition firstkey :: "qtab \<Rightarrow> int \<Rightarrow> int" where "firstkey qt q = qkey (qt (firstid qt q))"
definition lastkey :: "qtab \<Rightarrow> int \<Rightarrow> int" where "lastkey qt q = qkey (qt (lastid qt q))"
definition isbadqid :: "int \<Rightarrow> bool" where "isbadqid x \<longleftrightarrow> x < NPROC \<or> NQENT - 1 \<le> x"

section \<open>Operations\<close>

text \<open>
  \<open>badpid\<close> is the test \<open>isbadpid\<close> of \<^verbatim>\<open>process.h\<close> on the caller's process
  table. A result pairs the value the C function returns with the updated table.
\<close>

definition enqueue :: "(int \<Rightarrow> bool) \<Rightarrow> int \<Rightarrow> int \<Rightarrow> qtab \<Rightarrow> int \<times> qtab" where
  "enqueue badpid pid q qt =
     (if isbadqid q \<or> badpid pid then (SYSERR, qt)
      else let tail = queuetail q; prev = qprev (qt tail);
               qt1 = set_next pid tail qt;
               qt2 = set_prev pid prev qt1;
               qt3 = set_next prev pid qt2;
               qt4 = set_prev tail pid qt3
           in (pid, qt4))"

definition getitem :: "int \<Rightarrow> qtab \<Rightarrow> int \<times> qtab" where
  "getitem pid qt =
     (let next = qnext (qt pid); prev = qprev (qt pid);
          qt1 = set_next prev next qt;
          qt2 = set_prev next prev qt1
      in (pid, qt2))"

definition getfirst :: "int \<Rightarrow> qtab \<Rightarrow> int \<times> qtab" where
  "getfirst q qt =
     (if isempty qt q then (EMPTY, qt)
      else let head = queuehead q in getitem (qnext (qt head)) qt)"

definition getlast :: "int \<Rightarrow> qtab \<Rightarrow> int \<times> qtab" where
  "getlast q qt =
     (if isempty qt q then (EMPTY, qt)
      else let tail = queuetail q in getitem (qprev (qt tail)) qt)"

definition dequeue :: "int \<Rightarrow> qtab \<Rightarrow> int \<times> qtab" where
  "dequeue q qt =
     (if isbadqid q then (SYSERR, qt)
      else if isempty qt q then (EMPTY, qt)
      else let (pid, qt1) = getfirst q qt;
               qt2 = set_prev pid EMPTY qt1;
               qt3 = set_next pid EMPTY qt2
           in (pid, qt3))"

text \<open>
  The search loops of \<open>insert\<close> and \<open>insertd\<close> follow \<open>qnext\<close> links, so on an
  arbitrary table they need not end.
\<close>

partial_function (option) insert_scan :: "qtab \<Rightarrow> int \<Rightarrow> int \<Rightarrow> int option" where
  "insert_scan qt key cur =
     (if key \<le> qkey (qt cur) then insert_scan qt key (qnext (qt cur)) else Some cur)"

declare insert_scan.simps [code]

definition insert_q :: "(int \<Rightarrow> bool) \<Rightarrow> int \<Rightarrow> int \<Rightarrow> int \<Rightarrow> qtab \<Rightarrow> (int \<times> qtab) option" where
  "insert_q badpid pid q key qt =
     (if isbadqid q \<or> badpid pid then Some (SYSERR, qt)
      else insert_scan qt key (firstid qt q) \<bind> (\<lambda>cur.
        let prev = qprev (qt cur);
            qt1 = set_next pid cur qt;
            qt2 = set_prev pid prev qt1;
            qt3 = set_key pid key qt2;
            qt4 = set_next prev pid qt3;
            qt5 = set_prev cur pid qt4
        in Some (OK, qt5)))"

partial_function (option) insertd_scan ::
  "qtab \<Rightarrow> int \<Rightarrow> int \<Rightarrow> int \<Rightarrow> int \<Rightarrow> (int \<times> int \<times> int) option" where
  "insertd_scan qt q prev next key =
     (if next \<noteq> queuetail q \<and> qkey (qt next) \<le> key
      then insertd_scan qt q next (qnext (qt next)) (key - qkey (qt next))
      else Some (prev, next, key))"

declare insertd_scan.simps [code]

definition insertd :: "(int \<Rightarrow> bool) \<Rightarrow> int \<Rightarrow> int \<Rightarrow> int \<Rightarrow> qtab \<Rightarrow> (int \<times> qtab) option" where
  "insertd badpid pid q key qt =
     (if isbadqid q \<or> badpid pid then Some (SYSERR, qt)
      else insertd_scan qt q (queuehead q) (qnext (qt (queuehead q))) key \<bind>
        (\<lambda>(prev, next, key).
        let qt1 = set_next pid next qt;
            qt2 = set_prev pid prev qt1;
            qt3 = set_key pid key qt2;
            qt4 = set_next prev pid qt3;
            qt5 = set_prev next pid qt4;
            qt6 = (if next \<noteq> queuetail q then set_key next (qkey (qt5 next) - key) qt5 else qt5)
        in Some (OK, qt6)))"

text \<open>\<open>newqueue\<close> allocates two consecutive entries; its static \<open>nextqid\<close> is an argument
  and a result.\<close>

definition newqueue :: "int \<Rightarrow> qtab \<Rightarrow> int \<times> int \<times> qtab" where
  "newqueue nextqid qt =
     (let q = nextqid in
      if NQENT \<le> q then (SYSERR, nextqid, qt)
      else let qt1 = set_next (queuehead q) (queuetail q) qt;
               qt2 = set_prev (queuehead q) EMPTY qt1;
               qt3 = set_key (queuehead q) MAXKEY qt2;
               qt4 = set_next (queuetail q) EMPTY qt3;
               qt5 = set_prev (queuetail q) (queuehead q) qt4;
               qt6 = set_key (queuetail q) MINKEY qt5
           in (q, nextqid + 2, qt6))"

section \<open>Doubly linked segments\<close>

text \<open>\<open>dseg qt a xs b\<close>: the links lead from \<open>a\<close> through \<open>xs\<close> to \<open>b\<close>, and the back
  links lead from \<open>b\<close> through the reverse of \<open>xs\<close> to \<open>a\<close>.\<close>

primrec dseg :: "qtab \<Rightarrow> int \<Rightarrow> int list \<Rightarrow> int \<Rightarrow> bool" where
  "dseg qt a [] b \<longleftrightarrow> qnext (qt a) = b \<and> qprev (qt b) = a"
| "dseg qt a (x # xs) b \<longleftrightarrow> qnext (qt a) = x \<and> qprev (qt x) = a \<and> dseg qt x xs b"

lemma dseg_append: "dseg qt a (xs @ y # ys) b \<longleftrightarrow> dseg qt a xs y \<and> dseg qt y ys b"
  by (induction xs arbitrary: a) auto

lemma dseg_next: "dseg qt a xs b \<Longrightarrow> qnext (qt a) = hd (xs @ [b])"
  by (cases xs) auto

lemma dseg_prev: "dseg qt a xs b \<Longrightarrow> qprev (qt b) = last (a # xs)"
  by (induction xs arbitrary: a) auto

lemma dseg_cong:
  assumes "\<And>i. i \<in> insert a (set xs) \<Longrightarrow> qnext (qt' i) = qnext (qt i)"
    and "\<And>i. i \<in> insert b (set xs) \<Longrightarrow> qprev (qt' i) = qprev (qt i)"
  shows "dseg qt' a xs b = dseg qt a xs b"
  using assms by (induction xs arbitrary: a) auto

lemma dseg_set_key [simp]: "dseg (set_key i v qt) a xs b = dseg qt a xs b"
  by (rule dseg_cong) (simp_all add: setter_simps)

text \<open>Linking a fresh entry between two neighbours, the common core of the insertions.\<close>

lemma dseg_link:
  assumes seg: "dseg qt a (xs @ ys) b"
    and fresh: "pid \<notin> set (xs @ ys)" "pid \<noteq> a" "pid \<noteq> b"
    and dist: "distinct (xs @ ys)" "a \<notin> set (xs @ ys)" "b \<notin> set (xs @ ys)" "a \<noteq> b"
    and p: "p = last (a # xs)" and n: "n = hd (ys @ [b])"
    and new: "qnext (qt' pid) = n" "qprev (qt' pid) = p" "qnext (qt' p) = pid" "qprev (qt' n) = pid"
    and frame_next: "\<And>i. i \<noteq> pid \<Longrightarrow> i \<noteq> p \<Longrightarrow> qnext (qt' i) = qnext (qt i)"
    and frame_prev: "\<And>i. i \<noteq> pid \<Longrightarrow> i \<noteq> n \<Longrightarrow> qprev (qt' i) = qprev (qt i)"
  shows "dseg qt' a (xs @ pid # ys) b"
proof -
  have left: "dseg qt' a xs pid"
  proof (cases xs rule: rev_cases)
    case Nil
    then show ?thesis using new p by simp
  next
    case (snoc us u)
    then have "dseg qt a us u" using seg by (simp add: dseg_append)
    moreover have "dseg qt' a us u = dseg qt a us u"
    proof (rule dseg_cong)
      fix i assume "i \<in> insert a (set us)"
      then show "qnext (qt' i) = qnext (qt i)"
        using snoc p fresh dist by (intro frame_next) auto
    next
      fix i assume "i \<in> insert u (set us)"
      moreover have "n \<in> set ys \<or> n = b" using n by (cases ys) auto
      ultimately show "qprev (qt' i) = qprev (qt i)"
        using snoc fresh dist by (intro frame_prev) auto
    qed
    ultimately show ?thesis using snoc new p by (simp add: dseg_append)
  qed
  have right: "dseg qt' pid ys b"
  proof (cases ys)
    case Nil
    then show ?thesis using new n by simp
  next
    case (Cons v vs)
    then have "dseg qt v vs b" using seg by (simp add: dseg_append)
    moreover have "dseg qt' v vs b = dseg qt v vs b"
    proof (rule dseg_cong)
      fix i assume i: "i \<in> insert v (set vs)"
      have "p \<in> set xs \<or> p = a" using p by (cases xs rule: rev_cases) auto
      with i show "qnext (qt' i) = qnext (qt i)"
        using Cons fresh dist by (intro frame_next) auto
    next
      fix i assume "i \<in> insert b (set vs)"
      then show "qprev (qt' i) = qprev (qt i)"
        using Cons n fresh dist by (intro frame_prev) auto
    qed
    ultimately show ?thesis using Cons new n by simp
  qed
  from left right show ?thesis by (simp add: dseg_append)
qed

text \<open>Unlinking an entry.\<close>

lemma dseg_unlink:
  assumes seg: "dseg qt a (xs @ pid # ys) b"
    and dist: "distinct (xs @ pid # ys)" "a \<notin> set (xs @ pid # ys)" "b \<notin> set (xs @ pid # ys)" "a \<noteq> b"
    and p: "p = last (a # xs)" and n: "n = hd (ys @ [b])"
    and new: "qnext (qt' p) = n" "qprev (qt' n) = p"
    and frame_next: "\<And>i. i \<noteq> pid \<Longrightarrow> i \<noteq> p \<Longrightarrow> qnext (qt' i) = qnext (qt i)"
    and frame_prev: "\<And>i. i \<noteq> pid \<Longrightarrow> i \<noteq> n \<Longrightarrow> qprev (qt' i) = qprev (qt i)"
  shows "dseg qt' a (xs @ ys) b"
proof -
  have s1: "dseg qt a xs pid" and s2: "dseg qt pid ys b" using seg by (simp_all add: dseg_append)
  have pin: "p \<in> set xs \<or> p = a" using p by (cases xs rule: rev_cases) auto
  have nin: "n \<in> set ys \<or> n = b" using n by (cases ys) auto
  show ?thesis
  proof (cases xs rule: rev_cases)
    case Nil
    show ?thesis
    proof (cases ys)
      case Nil
      with \<open>xs = []\<close> show ?thesis using new p n by simp
    next
      case (Cons v vs)
      have "dseg qt' v vs b = dseg qt v vs b"
        by (rule dseg_cong; (rule frame_next | rule frame_prev); use Cons Nil dist n p in auto)
      then show ?thesis using s2 Cons Nil new p n by simp
    qed
  next
    case (snoc us u)
    have eq1: "dseg qt' a us u = dseg qt a us u"
      by (rule dseg_cong; (rule frame_next | rule frame_prev); use snoc dist nin p in auto)
    have "dseg qt' u ys b"
    proof (cases ys)
      case Nil
      then show ?thesis using snoc new p n by simp
    next
      case (Cons v vs)
      have "dseg qt' v vs b = dseg qt v vs b"
        by (rule dseg_cong; (rule frame_next | rule frame_prev); use Cons snoc dist n p in auto)
      then show ?thesis using s2 Cons snoc new p n by simp
    qed
    then show ?thesis using s1 snoc eq1 by (simp add: dseg_append)
  qed
qed

section \<open>The lists a table represents\<close>

definition isq :: "int \<Rightarrow> int \<Rightarrow> bool" where
  "isq nq q \<longleftrightarrow> NPROC \<le> q \<and> q < nq \<and> even q"

definition queue_at :: "qtab \<Rightarrow> int \<Rightarrow> int list \<Rightarrow> bool" where
  "queue_at qt q xs \<longleftrightarrow> dseg qt q xs (q + 1) \<and> distinct xs \<and> (\<forall>x\<in>set xs. 0 \<le> x \<and> x < NPROC)
     \<and> qkey (qt q) = MAXKEY \<and> qkey (qt (q + 1)) = MINKEY"

text \<open>\<open>nq\<close> is the next queue identifier \<open>newqueue\<close> would hand out.\<close>

definition qrep :: "int \<Rightarrow> qtab \<Rightarrow> (int \<Rightarrow> int list) \<Rightarrow> bool" where
  "qrep nq qt L \<longleftrightarrow> NPROC \<le> nq \<and> nq \<le> NQENT \<and> even nq
     \<and> (\<forall>q. isq nq q \<longrightarrow> queue_at qt q (L q))
     \<and> (\<forall>q q'. isq nq q \<longrightarrow> isq nq q' \<longrightarrow> q \<noteq> q' \<longrightarrow> set (L q) \<inter> set (L q') = {})"

definition queued :: "int \<Rightarrow> (int \<Rightarrow> int list) \<Rightarrow> int \<Rightarrow> bool" where
  "queued nq L pid \<longleftrightarrow> (\<exists>q. isq nq q \<and> pid \<in> set (L q))"

lemma qrepD:
  assumes "qrep nq qt L" "isq nq q"
  shows "dseg qt q (L q) (q + 1)" "distinct (L q)" "\<And>x. x \<in> set (L q) \<Longrightarrow> 0 \<le> x \<and> x < NPROC"
    "qkey (qt q) = MAXKEY" "qkey (qt (q + 1)) = MINKEY" "NPROC \<le> q" "q < NQENT - 1" "even q"
    "\<not> isbadqid q" "q \<notin> set (L q)" "q + 1 \<notin> set (L q)"
proof -
  show "dseg qt q (L q) (q + 1)" "distinct (L q)" "\<And>x. x \<in> set (L q) \<Longrightarrow> 0 \<le> x \<and> x < NPROC"
    "qkey (qt q) = MAXKEY" "qkey (qt (q + 1)) = MINKEY"
    using assms by (auto simp: qrep_def queue_at_def)
  show q: "NPROC \<le> q" "even q" using assms by (auto simp: isq_def)
  have "q < nq" "nq \<le> NQENT" using assms by (auto simp: qrep_def isq_def)
  with q(2) show "q < NQENT - 1" by presburger
  then show "\<not> isbadqid q" using q by (simp add: isbadqid_def)
  show "q \<notin> set (L q)" "q + 1 \<notin> set (L q)"
    using q \<open>\<And>x. x \<in> set (L q) \<Longrightarrow> 0 \<le> x \<and> x < NPROC\<close> by fastforce+
qed

lemma qrep_disjoint:
  "qrep nq qt L \<Longrightarrow> isq nq q \<Longrightarrow> isq nq q' \<Longrightarrow> x \<in> set (L q) \<Longrightarrow> x \<in> set (L q') \<Longrightarrow> q = q'"
  unfolding qrep_def by blast

lemma not_queuedD: "\<not> queued nq L pid \<Longrightarrow> isq nq q \<Longrightarrow> pid \<notin> set (L q)"
  by (auto simp: queued_def)

text \<open>Changing the links of one queue leaves the others as they were.\<close>

lemma qrep_change_one:
  assumes rep: "qrep nq qt L" and q: "isq nq q"
    and seg: "dseg qt' q xs (q + 1)" and dist: "distinct xs"
    and range: "\<And>x. x \<in> set xs \<Longrightarrow> 0 \<le> x \<and> x < NPROC"
    and new: "\<And>x q'. x \<in> set xs \<Longrightarrow> x \<notin> set (L q) \<Longrightarrow> isq nq q' \<Longrightarrow> q' \<noteq> q \<Longrightarrow> x \<notin> set (L q')"
    and keys: "\<And>i. NPROC \<le> i \<Longrightarrow> qkey (qt' i) = qkey (qt i)"
    and frame_next: "\<And>i. i \<noteq> q \<Longrightarrow> i \<notin> set (L q) \<Longrightarrow> i \<notin> set xs \<Longrightarrow> qnext (qt' i) = qnext (qt i)"
    and frame_prev: "\<And>i. i \<noteq> q + 1 \<Longrightarrow> i \<notin> set (L q) \<Longrightarrow> i \<notin> set xs \<Longrightarrow> qprev (qt' i) = qprev (qt i)"
  shows "qrep nq qt' (L(q := xs))"
proof -
  have other: "dseg qt' q' (L q') (q' + 1)" if q': "isq nq q'" and ne: "q' \<noteq> q" for q'
  proof -
    have out: "i \<notin> set (L q) \<and> i \<notin> set xs" if "i \<in> set (L q')" for i
      using that q q' ne rep new by (metis qrep_disjoint)
    have rng: "i \<notin> set (L q) \<and> i \<notin> set xs" if "i \<ge> NPROC" for i
      using that range qrepD(3) [OF rep q] by force
    have less: "0 \<le> i \<and> i < NPROC" if "i \<in> set (L q')" for i
      using that qrepD(3) [OF rep q'] by simp
    have big: "NPROC \<le> q" "NPROC \<le> q'" "even q" "even q'"
      using q q' by (simp_all add: isq_def)
    have "dseg qt' q' (L q') (q' + 1) = dseg qt q' (L q') (q' + 1)"
    proof (rule dseg_cong)
      fix i assume i: "i \<in> insert q' (set (L q'))"
      show "qnext (qt' i) = qnext (qt i)"
      proof (rule frame_next)
        show "i \<noteq> q" using i ne less big by force
        show "i \<notin> set (L q)" "i \<notin> set xs" using i out rng big by auto
      qed
    next
      fix i assume i: "i \<in> insert (q' + 1) (set (L q'))"
      show "qprev (qt' i) = qprev (qt i)"
      proof (rule frame_prev)
        show "i \<noteq> q + 1" using i ne less big by force
        show "i \<notin> set (L q)" "i \<notin> set xs" using i out rng big by auto
      qed
    qed
    with qrepD(1) [OF rep q'] show ?thesis by simp
  qed
  have at: "queue_at qt' q' ((L(q := xs)) q')" if q': "isq nq q'" for q'
  proof -
    have "NPROC \<le> q'" using q' by (simp add: isq_def)
    then show ?thesis
      using other [OF q'] seg dist range keys rep q' qrepD [OF rep q']
      by (auto simp: queue_at_def)
  qed
  have one: "set xs \<inter> set (L b) = {}" if "isq nq b" "b \<noteq> q" for b
    using that q new qrep_disjoint [OF rep q that(1)] by blast
  have dis: "set ((L(q := xs)) a) \<inter> set ((L(q := xs)) b) = {}"
    if "isq nq a" "isq nq b" "a \<noteq> b" for a b
    using that one [of a] one [of b] qrep_disjoint [OF rep that(1,2)] by auto
  show ?thesis using rep at dis unfolding qrep_def by blast
qed

lemma qrep_link:
  assumes rep: "qrep nq qt L" and q: "isq nq q" and L: "L q = xs @ ys"
    and pid: "0 \<le> pid" "pid < NPROC" "\<not> queued nq L pid"
    and p: "p = last (q # xs)" and n: "n = hd (ys @ [q + 1])"
    and new: "qnext (qt' pid) = n" "qprev (qt' pid) = p" "qnext (qt' p) = pid" "qprev (qt' n) = pid"
    and frame_next: "\<And>i. i \<noteq> pid \<Longrightarrow> i \<noteq> p \<Longrightarrow> qnext (qt' i) = qnext (qt i)"
    and frame_prev: "\<And>i. i \<noteq> pid \<Longrightarrow> i \<noteq> n \<Longrightarrow> qprev (qt' i) = qprev (qt i)"
    and keys: "\<And>i. NPROC \<le> i \<Longrightarrow> qkey (qt' i) = qkey (qt i)"
  shows "qrep nq qt' (L(q := xs @ pid # ys))"
proof -
  note D = qrepD [OF rep q]
  have fresh: "pid \<notin> set (xs @ ys)" using not_queuedD [OF pid(3) q] L by simp
  have pin: "p \<in> set (L q) \<or> p = q" using p L by (cases xs rule: rev_cases) auto
  have nin: "n \<in> set (L q) \<or> n = q + 1" using n L by (cases ys) auto
  show ?thesis
  proof (rule qrep_change_one [OF rep q])
    show "dseg qt' q (xs @ pid # ys) (q + 1)"
      by (rule dseg_link [where qt = qt and p = p and n = n])
        (use D L fresh pid p n new frame_next frame_prev in auto)
    show "distinct (xs @ pid # ys)" using D(2) L fresh by simp
    show "0 \<le> x \<and> x < NPROC" if "x \<in> set (xs @ pid # ys)" for x
      using that D(3) L pid by auto
    show "x \<notin> set (L q')" if "x \<in> set (xs @ pid # ys)" "x \<notin> set (L q)" "isq nq q'" "q' \<noteq> q" for x q'
      using that L not_queuedD [OF pid(3)] by auto
    show "qnext (qt' i) = qnext (qt i)" if "i \<noteq> q" "i \<notin> set (L q)" "i \<notin> set (xs @ pid # ys)" for i
      by (rule frame_next) (use that pin in auto)
    show "qprev (qt' i) = qprev (qt i)" if "i \<noteq> q + 1" "i \<notin> set (L q)" "i \<notin> set (xs @ pid # ys)" for i
      by (rule frame_prev) (use that nin in auto)
  qed (use keys in auto)
qed

lemma qrep_unlink:
  assumes rep: "qrep nq qt L" and q: "isq nq q" and L: "L q = xs @ pid # ys"
    and p: "p = last (q # xs)" and n: "n = hd (ys @ [q + 1])"
    and new: "qnext (qt' p) = n" "qprev (qt' n) = p"
    and frame_next: "\<And>i. i \<noteq> pid \<Longrightarrow> i \<noteq> p \<Longrightarrow> qnext (qt' i) = qnext (qt i)"
    and frame_prev: "\<And>i. i \<noteq> pid \<Longrightarrow> i \<noteq> n \<Longrightarrow> qprev (qt' i) = qprev (qt i)"
    and keys: "\<And>i. NPROC \<le> i \<Longrightarrow> qkey (qt' i) = qkey (qt i)"
  shows "qrep nq qt' (L(q := xs @ ys))"
proof -
  note D = qrepD [OF rep q]
  have pin: "p \<in> set (L q) \<or> p = q" using p L by (cases xs rule: rev_cases) auto
  have nin: "n \<in> set (L q) \<or> n = q + 1" using n L by (cases ys) auto
  show ?thesis
  proof (rule qrep_change_one [OF rep q])
    show "dseg qt' q (xs @ ys) (q + 1)"
      by (rule dseg_unlink [where qt = qt and p = p and n = n and pid = pid])
        (use D L p n new frame_next frame_prev in auto)
    show "distinct (xs @ ys)" using D(2) L by simp
    show "0 \<le> x \<and> x < NPROC" if "x \<in> set (xs @ ys)" for x using that D(3) L by auto
    show "x \<notin> set (L q')" if "x \<in> set (xs @ ys)" "x \<notin> set (L q)" for x q' using that L by auto
    show "qnext (qt' i) = qnext (qt i)" if "i \<noteq> q" "i \<notin> set (L q)" "i \<notin> set (xs @ ys)" for i
      by (rule frame_next) (use that L pin in auto)
    show "qprev (qt' i) = qprev (qt i)" if "i \<noteq> q + 1" "i \<notin> set (L q)" "i \<notin> set (xs @ ys)" for i
      by (rule frame_prev) (use that L nin in auto)
  qed (use keys in auto)
qed

section \<open>The operations implement list operations\<close>

lemma qrep_isempty:
  assumes "qrep nq qt L" "isq nq q"
  shows "isempty qt q \<longleftrightarrow> L q = []" "nonempty qt q \<longleftrightarrow> L q \<noteq> []"
proof -
  note D = qrepD [OF assms]
  have "firstid qt q = hd (L q @ [q + 1])" using dseg_next [OF D(1)] by (simp add: macro_defs)
  moreover have "hd (L q @ [q + 1]) < NPROC \<longleftrightarrow> L q \<noteq> []" using D(3,6) by (cases "L q") auto
  ultimately show "isempty qt q \<longleftrightarrow> L q = []" "nonempty qt q \<longleftrightarrow> L q \<noteq> []"
    by (auto simp: isempty_def nonempty_def)
qed

lemma qrep_firstid:
  assumes "qrep nq qt L" "isq nq q"
  shows "firstid qt q = hd (L q @ [q + 1])"
  using dseg_next [OF qrepD(1) [OF assms]] by (simp add: macro_defs)

lemma enqueue_refines:
  assumes rep: "qrep nq qt L" and q: "isq nq q"
    and pid: "\<not> badpid pid" "0 \<le> pid" "pid < NPROC" "\<not> queued nq L pid"
  obtains qt' where "enqueue badpid pid q qt = (pid, qt')" "qrep nq qt' (L(q := L q @ [pid]))"
    "\<And>i. qkey (qt' i) = qkey (qt i)"
proof -
  note D = qrepD [OF rep q]
  define qt' where "qt' = snd (enqueue badpid pid q qt)"
  have eq: "qt' = set_prev (q + 1) pid (set_next (qprev (qt (q + 1))) pid
      (set_prev pid (qprev (qt (q + 1))) (set_next pid (q + 1) qt)))"
    using D(9) pid(1) by (simp add: qt'_def enqueue_def Let_def macro_defs)
  have prev: "qprev (qt (q + 1)) = last (q # L q)" by (rule dseg_prev [OF D(1)])
  have ne: "last (q # L q) \<noteq> pid"
    using not_queuedD [OF pid(4) q] D(6) pid(3) by (auto split: if_splits)
  have "qrep nq qt' (L(q := L q @ pid # []))"
    by (rule qrep_link [OF rep q _ pid(2-4), where p = "last (q # L q)" and n = "q + 1"])
      (use D(6) pid ne in \<open>auto simp: eq prev setter_simps\<close>)
  moreover have "enqueue badpid pid q qt = (pid, qt')"
    using D(9) pid(1) by (simp add: qt'_def enqueue_def Let_def)
  moreover have "qkey (qt' i) = qkey (qt i)" for i by (simp add: eq setter_simps)
  ultimately show ?thesis using that by simp
qed

lemma getitem_refines:
  assumes rep: "qrep nq qt L" and q: "isq nq q" and pid: "pid \<in> set (L q)"
  obtains qt' where "getitem pid qt = (pid, qt')" "qrep nq qt' (L(q := remove1 pid (L q)))"
    "\<And>i. qkey (qt' i) = qkey (qt i)"
proof -
  note D = qrepD [OF rep q]
  obtain xs ys where L: "L q = xs @ pid # ys" and nin: "pid \<notin> set xs"
    using pid by (meson split_list_first)
  have seg: "dseg qt q xs pid" "dseg qt pid ys (q + 1)" using D(1) L by (simp_all add: dseg_append)
  have nb: "qnext (qt pid) = hd (ys @ [q + 1])" "qprev (qt pid) = last (q # xs)"
    using dseg_next [OF seg(2)] dseg_prev [OF seg(1)] by auto
  define qt' where "qt' = snd (getitem pid qt)"
  have eq: "qt' = set_prev (hd (ys @ [q + 1])) (last (q # xs))
      (set_next (last (q # xs)) (hd (ys @ [q + 1])) qt)"
    unfolding qt'_def getitem_def Let_def nb by simp
  have "qrep nq qt' (L(q := xs @ ys))"
    by (rule qrep_unlink [OF rep q L, where p = "last (q # xs)" and n = "hd (ys @ [q + 1])"])
      (auto simp: eq setter_simps)
  moreover have "remove1 pid (L q) = xs @ ys" using L nin by (simp add: remove1_append)
  moreover have "qkey (qt' i) = qkey (qt i)" for i by (simp add: eq setter_simps)
  moreover have "getitem pid qt = (pid, qt')" by (simp add: qt'_def getitem_def Let_def)
  ultimately show ?thesis using that by simp
qed

lemma getfirst_refines:
  assumes rep: "qrep nq qt L" and q: "isq nq q" and L: "L q = pid # xs"
  obtains qt' where "getfirst q qt = (pid, qt')" "qrep nq qt' (L(q := xs))"
    "\<And>i. qkey (qt' i) = qkey (qt i)"
proof -
  have "\<not> isempty qt q" "qnext (qt q) = pid"
    using qrep_isempty [OF rep q] qrep_firstid [OF rep q] L by (auto simp: macro_defs)
  then have "getfirst q qt = getitem pid qt" by (simp add: getfirst_def macro_defs)
  then show ?thesis using getitem_refines [OF rep q, of pid] L that by auto
qed

lemma getfirst_empty:
  "qrep nq qt L \<Longrightarrow> isq nq q \<Longrightarrow> L q = [] \<Longrightarrow> getfirst q qt = (EMPTY, qt)"
  by (simp add: getfirst_def qrep_isempty)

lemma getlast_refines:
  assumes rep: "qrep nq qt L" and q: "isq nq q" and L: "L q = xs @ [pid]"
  obtains qt' where "getlast q qt = (pid, qt')" "qrep nq qt' (L(q := xs))"
    "\<And>i. qkey (qt' i) = qkey (qt i)"
proof -
  note D = qrepD [OF rep q]
  have "\<not> isempty qt q" "qprev (qt (q + 1)) = pid"
    using qrep_isempty [OF rep q] dseg_prev [OF D(1)] L by auto
  then have "getlast q qt = getitem pid qt" by (simp add: getlast_def macro_defs)
  moreover have "remove1 pid (xs @ [pid]) = xs"
    using D(2) L by (simp add: remove1_append)
  ultimately show ?thesis using getitem_refines [OF rep q, of pid] L that by auto
qed

text \<open>Clearing the links of a process that is on no queue changes no represented list.\<close>

lemma qrep_outside:
  assumes rep: "qrep nq qt L" and out: "\<not> queued nq L pid" "pid < NPROC"
    and eq: "\<And>i. i \<noteq> pid \<Longrightarrow> qt' i = qt i"
  shows "qrep nq qt' L"
proof -
  have "queue_at qt' q (L q)" if q: "isq nq q" for q
  proof -
    note D = qrepD [OF rep q]
    have ne: "i \<noteq> pid" if "i \<in> {q, q + 1} \<union> set (L q)" for i
      using that not_queuedD [OF out(1) q] D(6) out(2) by auto
    have "dseg qt' q (L q) (q + 1) = dseg qt q (L q) (q + 1)"
      by (rule dseg_cong) (use ne eq in auto)
    then show ?thesis using D ne eq by (auto simp: queue_at_def)
  qed
  then show ?thesis using rep by (simp add: qrep_def)
qed

lemma dequeue_refines:
  assumes rep: "qrep nq qt L" and q: "isq nq q" and L: "L q = pid # xs"
  obtains qt' where "dequeue q qt = (pid, qt')" "qrep nq qt' (L(q := xs))"
    "\<And>i. qkey (qt' i) = qkey (qt i)"
proof -
  note D = qrepD [OF rep q]
  obtain qt1 where g: "getfirst q qt = (pid, qt1)" and rep1: "qrep nq qt1 (L(q := xs))"
    and k: "\<And>i. qkey (qt1 i) = qkey (qt i)"
    by (rule getfirst_refines [OF rep q L]) blast
  have out: "\<not> queued nq (L(q := xs)) pid"
    using D(2) L qrep_disjoint [OF rep q] by (auto simp: queued_def)
  have "qrep nq (set_next pid EMPTY (set_prev pid EMPTY qt1)) (L(q := xs))"
    by (rule qrep_outside [OF rep1 out]) (use D(3) L in \<open>auto simp: set_next_def set_prev_def\<close>)
  then show ?thesis
    using that [of "set_next pid EMPTY (set_prev pid EMPTY qt1)"] g k D(9) qrep_isempty [OF rep q] L
    by (simp add: dequeue_def setter_simps)
qed

lemma dequeue_empty:
  assumes "qrep nq qt L" "isq nq q" "L q = []"
  shows "dequeue q qt = (EMPTY, qt)"
  using assms by (simp add: dequeue_def qrep_isempty qrepD(9))

subsection \<open>Insertion by descending key\<close>

definition ins_desc :: "(int \<Rightarrow> int) \<Rightarrow> int \<Rightarrow> int \<Rightarrow> int list \<Rightarrow> int list" where
  "ins_desc k key pid xs = takeWhile (\<lambda>i. key \<le> k i) xs @ pid # dropWhile (\<lambda>i. key \<le> k i) xs"

lemma insert_scan_finds:
  "dseg qt a xs b \<Longrightarrow> qkey (qt b) < key \<Longrightarrow>
   insert_scan qt key (hd (xs @ [b])) = Some (hd (dropWhile (\<lambda>i. key \<le> qkey (qt i)) xs @ [b]))"
proof (induction xs arbitrary: a)
  case Nil
  then show ?case by (simp add: insert_scan.simps)
next
  case (Cons x xs)
  then have "dseg qt x xs b" by simp
  with Cons.IH [OF this Cons.prems(2)] dseg_next [OF this] show ?case
    by (subst insert_scan.simps) simp
qed

lemma insert_refines:
  assumes rep: "qrep nq qt L" and q: "isq nq q"
    and pid: "\<not> badpid pid" "0 \<le> pid" "pid < NPROC" "\<not> queued nq L pid" and key: "MINKEY < key"
  obtains qt' where "insert_q badpid pid q key qt = Some (OK, qt')"
    "qrep nq qt' (L(q := ins_desc (\<lambda>i. qkey (qt i)) key pid (L q)))"
    "\<And>i. qkey (qt' i) = (if i = pid then key else qkey (qt i))"
proof -
  note D = qrepD [OF rep q]
  let ?P = "\<lambda>i. key \<le> qkey (qt i)"
  define xs ys where "xs = takeWhile ?P (L q)" and "ys = dropWhile ?P (L q)"
  have L: "L q = xs @ ys" by (simp add: xs_def ys_def)
  define n p where "n = hd (ys @ [q + 1])" and "p = last (q # xs)"
  have scan: "insert_scan qt key (firstid qt q) = Some n"
    using insert_scan_finds [OF D(1)] D(5) key qrep_firstid [OF rep q] by (simp add: n_def ys_def)
  have "dseg qt q xs n" using D(1) L by (cases ys) (simp_all add: n_def dseg_append)
  then have prev: "qprev (qt n) = p" using dseg_prev [of qt q xs n] by (simp add: p_def)
  have fresh: "pid \<notin> set xs" "pid \<notin> set ys" using not_queuedD [OF pid(4) q] L by auto
  have pn: "p \<noteq> pid" "n \<noteq> pid"
    using fresh pid(3) D(6) unfolding p_def n_def
    by (auto simp: hd_append dest: hd_in_set last_in_set split: if_splits)
  define qt' where "qt' = set_prev n pid (set_next p pid (set_key pid key (set_prev pid p (set_next pid n qt))))"
  have "qrep nq qt' (L(q := xs @ pid # ys))"
    by (rule qrep_link [OF rep q L pid(2-4), where p = p and n = n])
      (use pn pid(3) in \<open>auto simp: qt'_def setter_simps p_def n_def\<close>)
  moreover have "insert_q badpid pid q key qt = Some (OK, qt')"
    using D(9) pid(1) scan prev by (simp add: insert_q_def qt'_def Let_def)
  moreover have "qkey (qt' i) = (if i = pid then key else qkey (qt i))" for i
    by (simp add: qt'_def setter_simps)
  ultimately show ?thesis using that by (simp add: ins_desc_def xs_def ys_def)
qed

lemma set_ins_desc [simp]: "set (ins_desc k key pid xs) = insert pid (set xs)"
  unfolding ins_desc_def by (metis Un_insert_right list.set(2) set_append takeWhile_dropWhile_id)

lemma ins_desc_cong:
  "(\<And>i. i \<in> set xs \<Longrightarrow> k i = k' i) \<Longrightarrow> ins_desc k key pid xs = ins_desc k' key pid xs"
  unfolding ins_desc_def
  by (metis (mono_tags, lifting) dropWhile_cong takeWhile_cong)

text \<open>Descending order, and the place among equals: after all of them.\<close>

definition desc_by :: "(int \<Rightarrow> int) \<Rightarrow> int list \<Rightarrow> bool" where
  "desc_by k xs \<longleftrightarrow> sorted_wrt (\<lambda>x y. k y \<le> k x) xs"

lemma desc_by_simps [simp]: "desc_by k []" "desc_by k (x # xs) \<longleftrightarrow> (\<forall>y\<in>set xs. k y \<le> k x) \<and> desc_by k xs"
  by (simp_all add: desc_by_def)

lemma desc_by_cong: "(\<And>i. i \<in> set xs \<Longrightarrow> k' i = k i) \<Longrightarrow> desc_by k' xs = desc_by k xs"
  by (induction xs) auto

lemma desc_by_remove1: "desc_by k xs \<Longrightarrow> desc_by k (remove1 x xs)"
  by (induction xs) (auto dest: notin_set_remove1 set_remove1_subset [THEN subsetD])

lemma sorted_ins_desc:
  assumes "desc_by k xs" "pid \<notin> set xs" "k' pid = key" "\<And>i. i \<in> set xs \<Longrightarrow> k' i = k i"
  shows "desc_by k' (ins_desc k key pid xs)"
  using assms
proof (induction xs)
  case Nil
  then show ?case by (simp add: ins_desc_def)
next
  case (Cons x xs)
  have "ins_desc k key pid (x # xs) = (if key \<le> k x then x # ins_desc k key pid xs else pid # x # xs)"
    by (simp add: ins_desc_def)
  moreover have "desc_by k' (x # xs)" using Cons.prems by (subst desc_by_cong [of _ _ k]) auto
  ultimately show ?case using Cons by auto
qed

subsection \<open>Insertion into a delta list\<close>

text \<open>In a delta list the key of an entry is its delay relative to its predecessor;
  \<open>delay_of\<close> is the delay relative to now.\<close>

fun delta_split :: "(int \<Rightarrow> int) \<Rightarrow> int \<Rightarrow> int list \<Rightarrow> int list \<times> int list \<times> int" where
  "delta_split k key [] = ([], [], key)"
| "delta_split k key (x # xs) =
     (if k x \<le> key then let (l, r, key') = delta_split k (key - k x) xs in (x # l, r, key')
      else ([], x # xs, key))"

fun delay_of :: "(int \<Rightarrow> int) \<Rightarrow> int list \<Rightarrow> int \<Rightarrow> int" where
  "delay_of k [] i = 0"
| "delay_of k (x # xs) i = k x + (if i = x then 0 else delay_of k xs i)"

lemma delta_split_append: "delta_split k key xs = (l, r, key') \<Longrightarrow> xs = l @ r"
  by (induction k key xs arbitrary: l r key' rule: delta_split.induct) (auto split: if_splits prod.splits)

lemma delta_split_key:
  "delta_split k key xs = (l, r, key') \<Longrightarrow> key' = key - sum_list (map k l) \<and> (r \<noteq> [] \<longrightarrow> key' < k (hd r))"
  by (induction k key xs arbitrary: l r key' rule: delta_split.induct) (auto split: if_splits prod.splits)

lemma delta_split_nonneg: "delta_split k key xs = (l, r, key') \<Longrightarrow> 0 \<le> key \<Longrightarrow> 0 \<le> key'"
  by (induction k key xs arbitrary: l r key' rule: delta_split.induct) (auto split: if_splits prod.splits)

lemma insertd_scan_finds:
  "dseg qt a xs b \<Longrightarrow> b = queuetail q \<Longrightarrow> b \<notin> set xs \<Longrightarrow>
   delta_split (\<lambda>i. qkey (qt i)) key xs = (l, r, key') \<Longrightarrow>
   insertd_scan qt q a (hd (xs @ [b])) key = Some (last (a # l), hd (r @ [b]), key')"
proof (induction xs arbitrary: a key l)
  case Nil
  then show ?case by (simp add: insertd_scan.simps)
next
  case (Cons x xs)
  then have seg: "dseg qt x xs b" by simp
  show ?case
  proof (cases "qkey (qt x) \<le> key")
    case True
    obtain l' where l': "delta_split (\<lambda>i. qkey (qt i)) (key - qkey (qt x)) xs = (l', r, key')" "l = x # l'"
      using Cons.prems(4) True by (auto split: prod.splits)
    from Cons.IH [OF seg Cons.prems(2) _ l'(1)] Cons.prems(3) dseg_next [OF seg] True Cons.prems(2) l'(2)
    show ?thesis by (subst insertd_scan.simps) auto
  next
    case False
    then show ?thesis using Cons.prems by (subst insertd_scan.simps) auto
  qed
qed

definition insd_keys :: "(int \<Rightarrow> int) \<Rightarrow> int \<Rightarrow> int \<Rightarrow> int list \<Rightarrow> int \<Rightarrow> int" where
  "insd_keys k pid key r =
     (if r = [] then k(pid := key) else (k(pid := key))(hd r := k (hd r) - key))"

lemma delay_of_cong: "(\<And>j. j \<in> set xs \<Longrightarrow> k j = k' j) \<Longrightarrow> delay_of k xs i = delay_of k' xs i"
  by (induction xs) auto

lemma delay_of_append:
  "delay_of k (xs @ ys) i = (if i \<in> set xs then delay_of k xs i else sum_list (map k xs) + delay_of k ys i)"
  by (induction xs) auto

text \<open>The new entry gets the requested delay, every other entry keeps its own.\<close>

lemma delay_insd:
  assumes sp: "delta_split k key xs = (l, r, key')" and dist: "distinct xs" "pid \<notin> set xs"
    and i: "i \<in> insert pid (set xs)"
  shows "delay_of (insd_keys k pid key' r) (l @ pid # r) i =
    (if i = pid then key else delay_of k xs i)"
proof -
  have xs: "xs = l @ r" by (rule delta_split_append [OF sp])
  have key': "key' = key - sum_list (map k l)" using delta_split_key [OF sp] by simp
  have kk: "insd_keys k pid key' r j = k j" if "j \<in> set l" for j
    using dist xs that by (cases r) (auto simp: insd_keys_def)
  have kl: "sum_list (map (insd_keys k pid key' r) l) = sum_list (map k l)"
    using kk by (metis map_ext)
  have dl: "delay_of (insd_keys k pid key' r) l i = delay_of k l i"
    using kk by (rule delay_of_cong)
  have kp: "insd_keys k pid key' r pid = key'"
    using dist xs by (cases r) (auto simp: insd_keys_def)
  have dr: "key' + delay_of (insd_keys k pid key' r) r i = delay_of k r i" if "r \<noteq> []" 
  proof (cases r)
    case (Cons y ys)
    have "delay_of (insd_keys k pid key' r) ys i = delay_of k ys i"
      using dist xs Cons by (intro delay_of_cong) (auto simp: insd_keys_def)
    then show ?thesis using Cons dist xs by (auto simp: insd_keys_def)
  qed (use that in simp)
  show ?thesis
  proof (cases "r = []")
    case True
    then show ?thesis using xs dist kl dl kp key' i by (auto simp: delay_of_append)
  next
    case False
    then show ?thesis using xs dist kl dl kp key' dr i by (auto simp: delay_of_append)
  qed
qed

text \<open>Taking \<open>p\<close> out and giving its delay to the next process leaves every other delay as it was.\<close>

lemma delay_unsleep:
  assumes "distinct (xs @ p # ys)" "i \<in> set xs \<union> set ys"
    and k': "\<And>j. k' j = (if ys \<noteq> [] \<and> j = hd ys then k j + k p else k j)"
  shows "delay_of k' (xs @ ys) i = delay_of k (xs @ p # ys) i"
  using assms
proof (induction xs)
  case Nil
  show ?case
  proof (cases ys)
    case (Cons y zs)
    have "delay_of k' zs i = delay_of k zs i" using Nil Cons by (intro delay_of_cong) auto
    moreover have "k' y = k y + k p" using Nil.prems(3) Cons by simp
    ultimately show ?thesis using Nil.prems(1,2) Cons by auto
  qed (use Nil in simp)
next
  case (Cons x xs)
  show ?case
  proof (cases "i = x")
    case True
    then show ?thesis using Cons.prems by (cases ys) auto
  next
    case False
    moreover have "k' x = k x" using Cons.prems by (cases ys) auto
    ultimately show ?thesis using Cons by auto
  qed
qed

lemma insd_nonneg:
  assumes sp: "delta_split k key xs = (l, r, key')" and "0 \<le> key" "\<And>i. i \<in> set xs \<Longrightarrow> 0 \<le> k i"
    and "i \<in> set (l @ pid # r)"
  shows "0 \<le> insd_keys k pid key' r i"
proof -
  have "xs = l @ r" by (rule delta_split_append [OF sp])
  then show ?thesis
    using assms delta_split_key [OF sp] delta_split_nonneg [OF sp] by (auto simp: insd_keys_def)
qed

lemma insertd_refines:
  assumes rep: "qrep nq qt L" and q: "isq nq q"
    and pid: "\<not> badpid pid" "0 \<le> pid" "pid < NPROC" "\<not> queued nq L pid"
    and sp: "delta_split (\<lambda>i. qkey (qt i)) key (L q) = (l, r, key')"
  obtains qt' where "insertd badpid pid q key qt = Some (OK, qt')"
    "qrep nq qt' (L(q := l @ pid # r))"
    "\<And>i. qkey (qt' i) = insd_keys (\<lambda>i. qkey (qt i)) pid key' r i"
proof -
  note D = qrepD [OF rep q]
  have L: "L q = l @ r" by (rule delta_split_append [OF sp])
  define n p where "n = hd (r @ [q + 1])" and "p = last (q # l)"
  have scan: "insertd_scan qt q (queuehead q) (qnext (qt (queuehead q))) key = Some (p, n, key')"
    using insertd_scan_finds [OF D(1) _ D(11) sp, of q] dseg_next [OF D(1)]
    by (simp add: macro_defs p_def n_def)
  have fresh: "pid \<notin> set l" "pid \<notin> set r" using not_queuedD [OF pid(4) q] L by auto
  have pn: "p \<noteq> pid" "n \<noteq> pid"
    using fresh pid(3) D(6) unfolding p_def n_def
    by (auto simp: hd_append dest: hd_in_set last_in_set split: if_splits)
  have tail: "n \<noteq> queuetail q \<longleftrightarrow> r \<noteq> []"
    using D(11) L by (cases r) (auto simp: n_def macro_defs)
  have big: "n < NPROC" if "r \<noteq> []" using that D(3) L by (cases r) (auto simp: n_def)
  define qt5 where "qt5 = set_prev n pid (set_next p pid (set_key pid key' (set_prev pid p (set_next pid n qt))))"
  define qt' where "qt' = (if r \<noteq> [] then set_key n (qkey (qt5 n) - key') qt5 else qt5)"
  have reads: "qnext (qt' i) = qnext (qt5 i)" "qprev (qt' i) = qprev (qt5 i)" for i
    by (simp_all add: qt'_def setter_simps)
  have keys: "qkey (qt' i) = insd_keys (\<lambda>i. qkey (qt i)) pid key' r i" for i
    using pn by (auto simp: qt'_def qt5_def setter_simps insd_keys_def n_def)
  have "qrep nq qt' (L(q := l @ pid # r))"
  proof (rule qrep_link [OF rep q L pid(2-4), where p = p and n = n])
    show "qkey (qt' i) = qkey (qt i)" if "NPROC \<le> i" for i
      using that pid(3) big by (auto simp: qt'_def qt5_def setter_simps)
  qed (use pn in \<open>auto simp: reads qt5_def setter_simps p_def n_def\<close>)
  moreover have "insertd badpid pid q key qt = Some (OK, qt')"
    using D(9) pid(1) scan tail by (simp add: insertd_def qt'_def qt5_def Let_def)
  ultimately show ?thesis using that keys by blast
qed

section \<open>Keys of processes that are on no queue\<close>

lemma qrep_set_key:
  assumes rep: "qrep nq qt L" and i: "i < NPROC"
  shows "qrep nq (set_key i v qt) L"
proof -
  have "queue_at (set_key i v qt) q (L q)" if "isq nq q" for q
  proof -
    have "queue_at qt q (L q)" "NPROC \<le> q" using rep that by (auto simp: qrep_def isq_def)
    then show ?thesis using i by (simp add: queue_at_def setter_simps)
  qed
  then show ?thesis using rep by (auto simp: qrep_def)
qed

text \<open>\<open>insert\<close> never looks at the old key of the process it inserts.\<close>

lemma insert_q_set_key:
  assumes rep: "qrep nq qt L" and q: "isq nq q" and pid: "pid < NPROC" "\<not> queued nq L pid" "\<not> badpid pid"
    and key: "MINKEY < key"
  shows "insert_q badpid pid q key (set_key pid v qt) = insert_q badpid pid q key qt"
proof -
  note D = qrepD [OF rep q]
  let ?qt = "set_key pid v qt"
  have fresh: "pid \<notin> set (L q)" by (rule not_queuedD [OF pid(2) q])
  have rep': "qrep nq ?qt L" by (rule qrep_set_key [OF rep pid(1)])
  note D' = qrepD [OF rep' q]
  let ?n = "\<lambda>qt. hd (dropWhile (\<lambda>i. key \<le> qkey (qt i)) (L q) @ [q + 1])"
  have scan: "insert_scan ?qt key (firstid ?qt q) = Some (?n ?qt)" "insert_scan qt key (firstid qt q) = Some (?n qt)"
    using insert_scan_finds [OF D'(1)] insert_scan_finds [OF D(1)] D(5) D'(5) key
      qrep_firstid [OF rep q] qrep_firstid [OF rep' q] by simp_all
  have same: "dropWhile (\<lambda>i. key \<le> qkey (?qt i)) (L q) = dropWhile (\<lambda>i. key \<le> qkey (qt i)) (L q)"
    using fresh by (intro dropWhile_cong) (auto simp: setter_simps)
  have e: "set_prev n pid (set_next p pid (set_key pid key (set_prev pid p (set_next pid n ?qt))))
      = set_prev n pid (set_next p pid (set_key pid key (set_prev pid p (set_next pid n qt))))" for n p
    by (rule ext) (simp add: set_prev_def set_next_def set_key_def)
  show ?thesis
    unfolding insert_q_def scan same using pid(3) D(9) by (simp add: Let_def e setter_simps)
qed

section \<open>Reading a queue off the table\<close>

fun walk :: "nat \<Rightarrow> qtab \<Rightarrow> int \<Rightarrow> int list" where
  "walk 0 qt x = []"
| "walk (Suc n) qt x = (if x < NPROC then x # walk n qt (qnext (qt x)) else [])"

definition queue_of :: "qtab \<Rightarrow> int \<Rightarrow> int list" where
  "queue_of qt q = walk (nat NPROC) qt (firstid qt q)"

lemma walk_dseg:
  "dseg qt a xs b \<Longrightarrow> (\<And>x. x \<in> set xs \<Longrightarrow> x < NPROC) \<Longrightarrow> NPROC \<le> b \<Longrightarrow> length xs \<le> n \<Longrightarrow>
   walk n qt (qnext (qt a)) = xs"
proof (induction xs arbitrary: a n)
  case Nil
  then show ?case by (cases n) auto
next
  case (Cons x xs)
  then show ?case by (cases n) auto
qed

lemma queue_of_qrep:
  assumes "qrep nq qt L" "isq nq q"
  shows "queue_of qt q = L q"
proof -
  note D = qrepD [OF assms]
  have "set (L q) \<subseteq> {0..<NPROC}" using D(3) by auto
  then have "card (set (L q)) \<le> card {0..<NPROC}" by (intro card_mono) auto
  then have "length (L q) \<le> nat NPROC" using D(2) by (simp add: distinct_card)
  then show ?thesis
    using walk_dseg [OF D(1), of "nat NPROC"] D(3,6) by (simp add: queue_of_def macro_defs)
qed

section \<open>Creating a queue\<close>

lemma newqueue_refines:
  assumes rep: "qrep nq qt L" and room: "nq < NQENT"
  obtains qt' where "newqueue nq qt = (nq, nq + 2, qt')" "qrep (nq + 2) qt' (L(nq := []))"
proof -
  have nq: "NPROC \<le> nq" "even nq" using rep by (simp_all add: qrep_def)
  have nq2: "nq + 2 \<le> NQENT" using nq(2) room by presburger
  define qt' where "qt' = snd (snd (newqueue nq qt))"
  have e: "newqueue nq qt = (nq, nq + 2, qt')" using room by (simp add: newqueue_def qt'_def Let_def)
  have f: "qnext (qt' nq) = nq + 1" "qprev (qt' (nq + 1)) = nq" "qkey (qt' nq) = MAXKEY" "qkey (qt' (nq + 1)) = MINKEY"
    "i \<noteq> nq \<Longrightarrow> i \<noteq> nq + 1 \<Longrightarrow> qt' i = qt i" for i
    using room by (simp_all add: qt'_def newqueue_def Let_def set_next_def set_prev_def set_key_def macro_defs)
  have old: "isq (nq + 2) q \<longleftrightarrow> q = nq \<or> isq nq q" for q using nq nq2 unfolding isq_def by presburger
  have "queue_at qt' q (L q)" if q: "isq nq q" for q
  proof -
    note D = qrepD [OF rep q]
    have o: "q \<noteq> nq" "q + 1 \<noteq> nq" "q \<noteq> nq + 1" using q nq unfolding isq_def by presburger+
    have "qt' i = qt i" if "i \<in> set (q # L q @ [q + 1])" for i
      using that o D(3) nq(1) by (intro f(5)) force+
    then have "dseg qt' q (L q) (q + 1)" using D(1) by (subst dseg_cong) auto
    then show ?thesis using rep q o f(5) [of q] f(5) [of "q + 1"] by (simp add: qrep_def queue_at_def)
  qed
  then have "qrep (nq + 2) qt' (L(nq := []))"
    using rep nq nq2 f(1-4) unfolding qrep_def old by (auto simp: queue_at_def)
  then show thesis using that e by blast
qed

end
