(* ===== verification/Memory.thy ===== *)
theory Memory
  imports Prelude
begin

text \<open>
  The heap allocator of \<^verbatim>\<open>system/getmem.c\<close>, \<^verbatim>\<open>freemem.c\<close>,
  \<^verbatim>\<open>getstk.c\<close> and \<^verbatim>\<open>meminit.c\<close>: a singly linked list of free blocks,
  threaded through the blocks themselves, in ascending address order. The two fields of
  \<open>struct memblk\<close> are two functions from addresses; all arithmetic is that of 32-bit
  unsigned words.
\<close>

section \<open>State and macros\<close>

record heap =
  mnext :: "u32 \<Rightarrow> u32"
  mlength :: "u32 \<Rightarrow> u32"
  memlist_next :: u32
  memlist_len :: u32
  minheap :: u32
  maxheap :: u32

text \<open>A \<open>struct memblk *\<close> is the address of \<open>memlist\<close> or of a block.\<close>

datatype mptr = Memlist | Blk u32

abbreviation NULLp :: u32 where "NULLp \<equiv> 0"
abbreviation SYSERRp :: u32 where "SYSERRp \<equiv> - 1"

definition roundmb :: "u32 \<Rightarrow> u32" where "roundmb x = (7 + x) AND NOT 7"
definition truncmb :: "u32 \<Rightarrow> u32" where "truncmb x = x AND NOT 7"

fun nxt :: "heap \<Rightarrow> mptr \<Rightarrow> u32" where
  "nxt h Memlist = memlist_next h"
| "nxt h (Blk a) = mnext h a"

fun set_nxt :: "mptr \<Rightarrow> u32 \<Rightarrow> heap \<Rightarrow> heap" where
  "set_nxt Memlist v h = h\<lparr>memlist_next := v\<rparr>"
| "set_nxt (Blk a) v h = h\<lparr>mnext := (mnext h)(a := v)\<rparr>"

definition set_len :: "u32 \<Rightarrow> u32 \<Rightarrow> heap \<Rightarrow> heap" where
  "set_len a v h = h\<lparr>mlength := (mlength h)(a := v)\<rparr>"

lemma heap_reads [setter_simps]:
  "nxt (set_nxt p v h) q = (if q = p then v else nxt h q)"
  "mlength (set_nxt p v h) = mlength h"
  "nxt (set_len a v h) q = nxt h q"
  "mlength (set_len a v h) b = (if b = a then v else mlength h b)"
  "nxt (h\<lparr>memlist_len := n\<rparr>) q = nxt h q"
  "memlist_len (set_nxt p v h) = memlist_len h"
  "memlist_len (set_len a v h) = memlist_len h"
  "minheap (set_nxt p v h) = minheap h" "maxheap (set_nxt p v h) = maxheap h"
  "minheap (set_len a v h) = minheap h" "maxheap (set_len a v h) = maxheap h"
  "mnext (set_nxt p v h) b = (if p = Blk b then v else mnext h b)"
  "memlist_next (set_nxt p v h) = (if p = Memlist then v else memlist_next h)"
  "mnext (set_len a v h) = mnext h"
  "memlist_next (set_len a v h) = memlist_next h"
  by (cases p; cases q; simp add: set_len_def)+

declare set_nxt.simps [simp del]

section \<open>Operations\<close>

partial_function (option) getmem_scan :: "heap \<Rightarrow> u32 \<Rightarrow> mptr \<Rightarrow> u32 \<Rightarrow> (u32 \<times> heap) option" where
  "getmem_scan h nbytes prev cur =
     (if cur = NULLp then Some (SYSERRp, h)
      else if mlength h cur = nbytes then
        let h1 = set_nxt prev (mnext h cur) h;
            h2 = h1\<lparr>memlist_len := memlist_len h1 - nbytes\<rparr>
        in Some (cur, h2)
      else if nbytes < mlength h cur then
        let leftover = cur + nbytes;
            h1 = set_nxt prev leftover h;
            h2 = set_nxt (Blk leftover) (mnext h1 cur) h1;
            h3 = set_len leftover (mlength h2 cur - nbytes) h2;
            h4 = h3\<lparr>memlist_len := memlist_len h3 - nbytes\<rparr>
        in Some (cur, h4)
      else getmem_scan h nbytes (Blk cur) (mnext h cur))"

declare getmem_scan.simps [code]

definition getmem :: "u32 \<Rightarrow> heap \<Rightarrow> (u32 \<times> heap) option" where
  "getmem nbytes h =
     (if nbytes = 0 then Some (SYSERRp, h)
      else getmem_scan h (roundmb nbytes) Memlist (memlist_next h))"

partial_function (option) freemem_scan :: "heap \<Rightarrow> u32 \<Rightarrow> mptr \<Rightarrow> u32 \<Rightarrow> (mptr \<times> u32) option" where
  "freemem_scan h block prev next =
     (if next \<noteq> NULLp \<and> next < block then freemem_scan h block (Blk next) (mnext h next)
      else Some (prev, next))"

declare freemem_scan.simps [code]

definition freemem :: "u32 \<Rightarrow> u32 \<Rightarrow> heap \<Rightarrow> (int \<times> heap) option" where
  "freemem blkaddr nbytes0 h =
     (if nbytes0 = 0 \<or> blkaddr < minheap h \<or> maxheap h < blkaddr then Some (SYSERR, h)
      else let nbytes = roundmb nbytes0; block = blkaddr in
        freemem_scan h block Memlist (memlist_next h) \<bind> (\<lambda>(prev, next).
        let top = (case prev of Memlist \<Rightarrow> NULLp | Blk p \<Rightarrow> p + mlength h p) in
        if (prev \<noteq> Memlist \<and> block < top) \<or> (next \<noteq> NULLp \<and> next < block + nbytes)
        then Some (SYSERR, h)
        else
          let h1 = h\<lparr>memlist_len := memlist_len h + nbytes\<rparr>;
              (blk, h2) =
                (if top = block then
                   (prev, case prev of Memlist \<Rightarrow> h1\<lparr>memlist_len := memlist_len h1 + nbytes\<rparr>
                                     | Blk p \<Rightarrow> set_len p (mlength h1 p + nbytes) h1)
                 else (Blk block, set_nxt prev block (set_len block nbytes (set_nxt (Blk block) next h1))));
              (blkadr, blklen) = (case blk of Memlist \<Rightarrow> (NULLp, memlist_len h2) | Blk p \<Rightarrow> (p, mlength h2 p));
              h3 = (if blk \<noteq> Memlist \<and> blkadr + blklen = next
                    then set_nxt blk (mnext h2 next) (set_len blkadr (blklen + mlength h2 next) h2)
                    else h2)
          in Some (OK, h3)))"

partial_function (option) getstk_scan ::
  "heap \<Rightarrow> u32 \<Rightarrow> mptr \<Rightarrow> u32 \<Rightarrow> mptr \<Rightarrow> u32 \<Rightarrow> (mptr \<times> u32) option" where
  "getstk_scan h nbytes prev cur fitsprev fits =
     (if cur = NULLp then Some (fitsprev, fits)
      else if nbytes \<le> mlength h cur then getstk_scan h nbytes (Blk cur) (mnext h cur) prev cur
      else getstk_scan h nbytes (Blk cur) (mnext h cur) fitsprev fits)"

declare getstk_scan.simps [code]

definition getstk :: "u32 \<Rightarrow> heap \<Rightarrow> (u32 \<times> heap) option" where
  "getstk nbytes0 h =
     (if nbytes0 = 0 then Some (SYSERRp, h)
      else let nbytes = roundmb nbytes0 in
        getstk_scan h nbytes Memlist (memlist_next h) Memlist NULLp \<bind> (\<lambda>(fitsprev, fits).
        if fits = NULLp then Some (SYSERRp, h)
        else
          let (fits', h1) =
                (if nbytes = mlength h fits then (fits, set_nxt fitsprev (mnext h fits) h)
                 else let h0 = set_len fits (mlength h fits - nbytes) h
                      in (fits + mlength h0 fits, h0));
              h2 = h1\<lparr>memlist_len := memlist_len h1 - nbytes\<rparr>
          in Some (fits' + nbytes - 4, h2)))"

definition freestk :: "u32 \<Rightarrow> u32 \<Rightarrow> heap \<Rightarrow> (int \<times> heap) option" where
  "freestk p len h = freemem (p - roundmb len + 4) (roundmb len) h"

text \<open>\<open>meminit\<close>: the address of \<open>end\<close> comes from the linker; \<open>maxheap\<close> was set by
  \<open>setsegs\<close>.\<close>

abbreviation HOLESTART :: u32 where "HOLESTART \<equiv> 640 * 1024"
abbreviation HOLEEND :: u32 where "HOLEEND \<equiv> 1024 * 1024"
abbreviation NULLSTK :: u32 where "NULLSTK \<equiv> 8192"

definition meminit :: "u32 \<Rightarrow> heap \<Rightarrow> heap" where
  "meminit end_addr h0 =
     (let h = h0\<lparr>minheap := end_addr\<rparr>;
          memptr = roundmb (minheap h);
          h1 = set_nxt Memlist memptr h
      in if HOLESTART < maxheap h1 + 1 then
           let h2 = set_nxt (Blk memptr) HOLEEND h1;
               h3 = set_len memptr (truncmb (HOLESTART - end_addr - 4)) h2;
               memptr2 = HOLEEND;
               h4 = set_nxt (Blk memptr2) NULLp h3;
               h5 = set_len memptr2 (truncmb (maxheap h4 - HOLEEND - NULLSTK)) h4
           in h5
         else
           let memptr2 = roundmb end_addr;
               h2 = set_nxt Memlist memptr2 h1;
               h3 = set_nxt (Blk memptr2) NULLp h2;
               h4 = set_len memptr2 (truncmb (maxheap h3 - end_addr - NULLSTK)) h3
           in h4)"

section \<open>The free list\<close>

type_synonym block = "u32 \<times> u32"

fun lastN :: "mptr \<Rightarrow> block list \<Rightarrow> mptr" where
  "lastN p [] = p"
| "lastN p (b # bs) = lastN (Blk (fst b)) bs"

fun pathN :: "heap \<Rightarrow> mptr \<Rightarrow> block list \<Rightarrow> bool" where
  "pathN h p [] = True"
| "pathN h p (b # bs) = (nxt h p = fst b \<and> mlength h (fst b) = snd b \<and> pathN h (Blk (fst b)) bs)"

definition start :: "block list \<Rightarrow> u32" where
  "start bs = (case bs of [] \<Rightarrow> NULLp | b # _ \<Rightarrow> fst b)"

definition chain :: "heap \<Rightarrow> mptr \<Rightarrow> block list \<Rightarrow> bool" where
  "chain h p bs \<longleftrightarrow> pathN h p bs \<and> nxt h (lastN p bs) = NULLp"

lemma start_simps [simp]: "start [] = NULLp" "start (b # bs) = fst b"
  by (simp_all add: start_def)

lemma chain_Nil: "chain h p [] \<longleftrightarrow> nxt h p = NULLp"
  by (simp add: chain_def)

lemma chain_Cons: "chain h p (b # bs) \<longleftrightarrow> nxt h p = fst b \<and> mlength h (fst b) = snd b \<and> chain h (Blk (fst b)) bs"
  by (auto simp: chain_def)

lemma chain_nxt: "chain h p bs \<Longrightarrow> nxt h p = start bs"
  by (cases bs) (auto simp: chain_def)

lemma lastN_append: "lastN p (xs @ ys) = lastN (lastN p xs) ys"
  by (induction xs arbitrary: p) auto

lemma chain_append: "chain h p (xs @ ys) \<longleftrightarrow> pathN h p xs \<and> chain h (lastN p xs) ys"
  by (induction xs arbitrary: p) (auto simp: chain_def)

lemma lastN_cases: "lastN p xs = (if xs = [] then p else Blk (fst (last xs)))"
  by (induction xs arbitrary: p) auto

lemma pathN_frame:
  assumes "pathN h p xs" "distinct (p # map (Blk \<circ> fst) xs)"
    and "\<And>q. q \<in> set (p # map (Blk \<circ> fst) xs) \<Longrightarrow> q \<noteq> lastN p xs \<Longrightarrow> nxt h' q = nxt h q"
    and "\<And>b. b \<in> set xs \<Longrightarrow> mlength h' (fst b) = mlength h (fst b)"
  shows "pathN h' p xs"
  using assms
proof (induction xs arbitrary: p)
  case Nil
  then show ?case by simp
next
  case (Cons b bs)
  have "p \<noteq> lastN p (b # bs)"
    using Cons.prems(2) by (cases bs rule: rev_cases) (auto simp: lastN_cases)
  then have "nxt h' p = nxt h p" using Cons.prems(3) by simp
  moreover have "pathN h' (Blk (fst b)) bs"
    by (rule Cons.IH) (use Cons.prems in auto)
  ultimately show ?case using Cons.prems by simp
qed

lemma chain_frame:
  assumes "chain h p xs"
    and "\<And>q. q \<in> set (p # map (Blk \<circ> fst) xs) \<Longrightarrow> nxt h' q = nxt h q"
    and "\<And>b. b \<in> set xs \<Longrightarrow> mlength h' (fst b) = mlength h (fst b)"
  shows "chain h' p xs"
  using assms by (induction xs arbitrary: p) (auto simp: chain_Cons chain_Nil)

text \<open>Ascending, non-empty, 8-byte aligned blocks between two bounds, no two adjacent.\<close>

fun fl_ok :: "nat \<Rightarrow> nat \<Rightarrow> block list \<Rightarrow> bool" where
  "fl_ok lo hi [] = True"
| "fl_ok lo hi (b # bs) =
     (lo \<le> unat (fst b) \<and> 0 < unat (snd b) \<and> 8 dvd unat (fst b) \<and> 8 dvd unat (snd b)
      \<and> unat (fst b) + unat (snd b) \<le> hi \<and> fl_ok (unat (fst b) + unat (snd b) + 1) hi bs)"

definition block_bytes :: "block \<Rightarrow> nat set" where
  "block_bytes b = {unat (fst b) ..< unat (fst b) + unat (snd b)}"

definition free_bytes :: "block list \<Rightarrow> nat set" where
  "free_bytes bs = (\<Union>b\<in>set bs. block_bytes b)"

definition heap_rep :: "heap \<Rightarrow> block list \<Rightarrow> bool" where
  "heap_rep h bs \<longleftrightarrow> chain h Memlist bs \<and> fl_ok 1 (unat (maxheap h) + 1) bs \<and> unat (maxheap h) + 1 < 2 ^ 32"

lemma free_bytes_simps [simp]:
  "free_bytes [] = {}" "free_bytes (b # bs) = block_bytes b \<union> free_bytes bs"
  "free_bytes (xs @ ys) = free_bytes xs \<union> free_bytes ys"
  by (auto simp: free_bytes_def)

lemma fl_ok_mono: "fl_ok lo hi bs \<Longrightarrow> lo' \<le> lo \<Longrightarrow> fl_ok lo' hi bs"
  by (cases bs) auto

lemma fl_ok_append:
  "fl_ok lo hi (xs @ ys) \<longleftrightarrow> fl_ok lo hi xs \<and>
     fl_ok (if xs = [] then lo else unat (fst (last xs)) + unat (snd (last xs)) + 1) hi ys"
  by (induction xs arbitrary: lo) auto

lemma fl_ok_ge: "fl_ok lo hi bs \<Longrightarrow> b \<in> set bs \<Longrightarrow>
   lo \<le> unat (fst b) \<and> 0 < unat (snd b) \<and> unat (fst b) + unat (snd b) \<le> hi \<and> 8 dvd unat (fst b) \<and> 8 dvd unat (snd b)"
  by (induction bs arbitrary: lo) fastforce+

lemma fl_ok_before: "fl_ok lo hi (xs @ b # bs) \<Longrightarrow> d \<in> set xs \<Longrightarrow> unat (fst d) + unat (snd d) < unat (fst b)"
proof (induction xs arbitrary: lo)
  case (Cons x xs)
  have "fl_ok (unat (fst x) + unat (snd x) + 1) hi (xs @ b # bs)" using Cons.prems(1) by simp
  with Cons.IH [OF this] fl_ok_ge [OF this, of b] Cons.prems(2) show ?case by auto
qed simp

lemma fl_ok_bytes: "fl_ok lo hi bs \<Longrightarrow> x \<in> free_bytes bs \<Longrightarrow> lo \<le> x \<and> x < hi"
  by (force dest: fl_ok_ge simp: free_bytes_def block_bytes_def)

lemma fl_ok_distinct: "fl_ok lo hi bs \<Longrightarrow> distinct (map fst bs)"
proof (induction bs arbitrary: lo)
  case (Cons b bs)
  then have "fl_ok (unat (fst b) + unat (snd b) + 1) hi bs" by simp
  with Cons.IH show ?case by (auto dest: fl_ok_ge)
qed simp

lemma fl_ok_nodes: "fl_ok 1 hi bs \<Longrightarrow> distinct (Memlist # map (Blk \<circ> fst) bs)"
  using fl_ok_distinct [of 1 hi bs] by (auto simp: distinct_map inj_on_def)

lemma fl_ok_nonnull: "fl_ok 1 hi bs \<Longrightarrow> b \<in> set bs \<Longrightarrow> fst b \<noteq> 0"
  by (drule fl_ok_ge) auto

section \<open>Rounding\<close>

lemma unat_truncmb: "unat (truncmb x) = 8 * (unat x div 8)"
  by (simp only: truncmb_def and_not7)

lemma unat_roundmb: "unat x + 7 < 2 ^ 32 \<Longrightarrow> unat (roundmb x) = 8 * ((unat x + 7) div 8)"
proof -
  assume "unat x + 7 < 2 ^ 32"
  then have "unat (7 + x) = unat x + 7" by (simp add: unat_word_ariths)
  then show ?thesis unfolding roundmb_def and_not7 by simp
qed

lemma roundmb_bounds:
  assumes "unat x + 7 < 2 ^ 32"
  shows "unat x \<le> unat (roundmb x)" "unat (roundmb x) \<le> unat x + 7" "8 dvd unat (roundmb x)"
    "unat (roundmb x) = 0 \<longleftrightarrow> x = 0"
proof -
  define m where "m = (unat x + 7) div 8"
  have r: "unat (roundmb x) = 8 * m" using unat_roundmb [OF assms] by (simp only: m_def)
  have m: "8 * m \<le> unat x + 7" "unat x \<le> 8 * m" unfolding m_def by linarith+
  show "unat x \<le> unat (roundmb x)" "unat (roundmb x) \<le> unat x + 7" "8 dvd unat (roundmb x)"
    unfolding r using m by (simp_all only: dvd_triv_left)
  have "unat x = 0 \<longleftrightarrow> x = 0" by (rule unat_eq_0)
  then show "unat (roundmb x) = 0 \<longleftrightarrow> x = 0" unfolding r using m by auto
qed

text \<open>A request within seven bytes of the end of the address space rounds to zero.\<close>

lemma roundmb_wraps: "2 ^ 32 \<le> unat x + 7 \<Longrightarrow> roundmb x = 0"
proof -
  assume a: "2 ^ 32 \<le> unat x + 7"
  have "unat (7 + x) = unat x + 7 - 2 ^ 32"
    using a unat_u32_less [of x] by (simp add: unat_word_ariths mod_if)
  then have "unat (roundmb x) = 0"
    unfolding roundmb_def and_not7 using a unat_u32_less [of x] by simp
  then show ?thesis by (simp add: unat_eq_0)
qed

section \<open>getmem takes the first block that fits\<close>

fun first_fit :: "u32 \<Rightarrow> block list \<Rightarrow> (u32 \<times> block list) option" where
  "first_fit n [] = None"
| "first_fit n (b # bs) =
     (if snd b = n then Some (fst b, bs)
      else if n < snd b then Some (fst b, (fst b + n, snd b - n) # bs)
      else map_option (apsnd (Cons b)) (first_fit n bs))"

lemma chain_replace:
  assumes ch: "chain h p (xs @ ys)" and d: "distinct (p # map (Blk \<circ> fst) (xs @ ys))"
    and zs: "chain h' (lastN p xs) zs"
    and frame: "\<And>q. q \<in> set (p # map (Blk \<circ> fst) xs) \<Longrightarrow> q \<noteq> lastN p xs \<Longrightarrow> nxt h' q = nxt h q"
    and len: "\<And>b. b \<in> set xs \<Longrightarrow> mlength h' (fst b) = mlength h (fst b)"
  shows "chain h' p (xs @ zs)"
proof -
  have "pathN h p xs" using ch by (simp add: chain_append)
  moreover have "distinct (p # map (Blk \<circ> fst) xs)" using d by auto
  ultimately have "pathN h' p xs" by (rule pathN_frame) (use frame len in auto)
  with zs show ?thesis by (simp add: chain_append)
qed

lemma chain_remove:
  assumes ch: "chain h Memlist (xs @ b # bs)" and d: "distinct (Memlist # map (Blk \<circ> fst) (xs @ b # bs))"
  shows "chain (set_nxt (lastN Memlist xs) (mnext h (fst b)) h) Memlist (xs @ bs)" (is "chain ?h _ _")
proof -
  have lastbs: "lastN Memlist xs \<notin> set (map (Blk \<circ> fst) bs)"
    using d by (cases xs rule: rev_cases) (auto simp: lastN_cases)
  have cb: "chain h (Blk (fst b)) bs" using ch by (simp add: chain_append chain_Cons)
  then have rest: "mnext h (fst b) = start bs" using chain_nxt [OF cb] by simp
  have "chain ?h (lastN Memlist xs) bs"
  proof (cases bs)
    case Nil
    then show ?thesis using rest by (simp add: chain_Nil setter_simps)
  next
    case (Cons c cs)
    then have "chain h (Blk (fst c)) cs" using cb by (simp add: chain_Cons)
    then have "chain ?h (Blk (fst c)) cs"
      by (rule chain_frame) (use lastbs Cons in \<open>auto simp: setter_simps\<close>)
    then show ?thesis using Cons cb rest by (simp add: chain_Cons setter_simps)
  qed
  with ch d show ?thesis by (rule chain_replace) (auto simp: setter_simps)
qed

lemma unat_block_end:
  assumes "unat a + unat l < 2 ^ 32" "unat n \<le> unat l"
  shows "unat (a + n) = unat a + unat (n :: u32)" "unat (l - n) = unat l - unat n"
  using assms by (simp_all add: unat_add_lem [THEN iffD1] unat_sub word_le_nat_alt)

lemma getmem_scan_refines:
  assumes "chain h Memlist (xs @ ys)" "fl_ok 1 hi (xs @ ys)" "hi < 2 ^ 32" "0 < unat n"
    and "\<And>b. b \<in> set xs \<Longrightarrow> snd b < n"
  shows "case first_fit n ys of
      None \<Rightarrow> getmem_scan h n (lastN Memlist xs) (start ys) = Some (SYSERRp, h)
    | Some (p, ys') \<Rightarrow> \<exists>h'. getmem_scan h n (lastN Memlist xs) (start ys) = Some (p, h')
        \<and> chain h' Memlist (xs @ ys') \<and> memlist_len h' = memlist_len h - n
        \<and> minheap h' = minheap h \<and> maxheap h' = maxheap h"
  using assms
proof (induction ys arbitrary: xs)
  case Nil
  then show ?case by (simp add: getmem_scan.simps)
next
  case (Cons b bs)
  obtain a l where b: "b = (a, l)" by (cases b)
  have nodes: "distinct (Memlist # map (Blk \<circ> fst) (xs @ b # bs))" by (rule fl_ok_nodes [OF Cons.prems(2)])
  have fb: "fl_ok 1 hi (b # bs)"
    using Cons.prems(2) by (auto simp: fl_ok_append elim: fl_ok_mono split: if_splits)
  then have a0: "a \<noteq> 0" and ge: "unat a + unat l \<le> hi" using b by auto
  have cb: "nxt h (lastN Memlist xs) = a" "mlength h a = l" "chain h (Blk a) bs"
    using Cons.prems(1) b by (simp_all add: chain_append chain_Cons)
  have rest: "nxt h (Blk a) = start bs" by (rule chain_nxt [OF cb(3)])
  have lastin: "lastN Memlist xs \<in> set (Memlist # map (Blk \<circ> fst) xs)"
    by (cases xs rule: rev_cases) (auto simp: lastN_cases)
  have anode: "Blk a \<notin> set (Memlist # map (Blk \<circ> fst) xs)" "Blk a \<notin> set (map (Blk \<circ> fst) bs)"
    using nodes b by auto
  have lastbs: "lastN Memlist xs \<notin> set (map (Blk \<circ> fst) bs)"
    using nodes lastin by (cases xs rule: rev_cases) (auto simp: lastN_cases)
  consider (exact) "l = n" | (split) "n < l" | (skip) "l < n" by fastforce
  then show ?case
  proof cases
    case exact
    define h' where "h' = (set_nxt (lastN Memlist xs) (mnext h a) h)\<lparr>memlist_len := memlist_len h - n\<rparr>"
    have "chain (set_nxt (lastN Memlist xs) (mnext h a) h) Memlist (xs @ bs)"
      using chain_remove [OF Cons.prems(1) nodes] b by simp
    then have "chain h' Memlist (xs @ bs)"
      by (rule chain_frame) (simp_all add: h'_def setter_simps)
    then show ?thesis using exact b a0 cb
      by (subst getmem_scan.simps) (simp add: h'_def setter_simps Let_def)
  next
    case split
    have nl: "unat n \<le> unat l" "unat a + unat l < 2 ^ 32"
      using split ge Cons.prems(3) by (auto simp: word_less_nat_alt)
    note un = unat_block_end [OF nl(2,1)]
    define c where "c = a + n"
    have cnode: "c \<notin> fst ` set (xs @ b # bs)"
    proof
      assume "c \<in> fst ` set (xs @ b # bs)"
      then obtain d where d: "d \<in> set (xs @ b # bs)" "fst d = c" by fastforce
      have "unat a < unat c" "unat c < unat a + unat l"
        using un Cons.prems(4) split by (auto simp: c_def word_less_nat_alt)
      moreover have "d \<in> set bs \<Longrightarrow> unat a + unat l < unat (fst d)"
        using fb b by (auto dest: fl_ok_ge)
      moreover have "d \<in> set xs \<Longrightarrow> unat (fst d) < unat a"
        using fl_ok_before [OF Cons.prems(2)] b by fastforce
      ultimately show False using d b by auto
    qed
    define h' where "h' = (set_len c (l - n) (set_nxt (Blk c) (mnext h a)
        (set_nxt (lastN Memlist xs) c h)))\<lparr>memlist_len := memlist_len h - n\<rparr>"
    have "Blk c \<notin> set (Memlist # map (Blk \<circ> fst) xs)" using cnode by (force simp: image_iff)
    with cnode b anode(1) lastin
    have cn: "Blk c \<noteq> Blk a" "lastN Memlist xs \<noteq> Blk a" "lastN Memlist xs \<noteq> Blk c"
      by (auto simp del: set_map list.map(2))
    have h1: "mnext (set_nxt (lastN Memlist xs) c h) a = mnext h a"
      using setter_simps(1) [of "lastN Memlist xs" c h "Blk a"] cn by simp
    have "chain h' (Blk c) bs"
    proof (cases bs)
      case Nil
      then show ?thesis using rest cn by (simp add: chain_Nil h'_def setter_simps)
    next
      case (Cons d ds)
      then have "chain h (Blk (fst d)) ds" using cb(3) by (simp add: chain_Cons)
      then have "chain h' (Blk (fst d)) ds"
      proof (rule chain_frame)
        fix q assume "q \<in> set (Blk (fst d) # map (Blk \<circ> fst) ds)"
        then have "q \<in> set (map (Blk \<circ> fst) bs)" using Cons by simp
        moreover have "Blk c \<notin> set (map (Blk \<circ> fst) bs)" using cnode by (force simp: image_iff)
        ultimately have "q \<noteq> lastN Memlist xs" "q \<noteq> Blk c" using lastbs by metis+
        then show "nxt h' q = nxt h q" by (simp add: h'_def setter_simps)
      qed (use Cons cnode in \<open>auto simp: h'_def setter_simps\<close>)
      then show ?thesis using Cons cb(3) rest cnode cn by (auto simp: chain_Cons h'_def setter_simps)
    qed
    then have "chain h' (lastN Memlist xs) ((c, l - n) # bs)"
      using cn by (auto simp: chain_Cons h'_def setter_simps)
    with Cons.prems(1) nodes have "chain h' Memlist (xs @ (c, l - n) # bs)"
      by (rule chain_replace) (use cnode in \<open>auto simp: h'_def setter_simps\<close>)
    moreover have "getmem_scan h n (lastN Memlist xs) (start (b # bs)) = Some (a, h')"
      using split b a0 cb h1
      by (subst getmem_scan.simps) (simp add: h'_def setter_simps Let_def c_def)
    moreover have "l \<noteq> n" using split by auto
    ultimately show ?thesis using split b by (simp add: c_def h'_def setter_simps)
  next
    case skip
    have step: "getmem_scan h n (lastN Memlist xs) (start (b # bs))
        = getmem_scan h n (lastN Memlist (xs @ [b])) (start bs)"
      using skip b a0 cb rest by (subst getmem_scan.simps) (auto simp: lastN_append)
    have "first_fit n (b # bs) = map_option (apsnd (Cons b)) (first_fit n bs)"
      using skip b by auto
    moreover have small: "snd d < n" if "d \<in> set (xs @ [b])" for d
      using that Cons.prems(5) [of d] skip b by auto
    have "case first_fit n bs of
        None \<Rightarrow> getmem_scan h n (lastN Memlist (xs @ [b])) (start bs) = Some (SYSERRp, h)
      | Some (p, ys') \<Rightarrow> \<exists>h'. getmem_scan h n (lastN Memlist (xs @ [b])) (start bs) = Some (p, h')
          \<and> chain h' Memlist ((xs @ [b]) @ ys') \<and> memlist_len h' = memlist_len h - n
          \<and> minheap h' = minheap h \<and> maxheap h' = maxheap h"
      by (rule Cons.IH) (use Cons.prems small in auto)
    ultimately show ?thesis using step by (auto split: option.splits)
  qed
qed

lemma first_fit_None: "first_fit n bs = None \<longleftrightarrow> (\<forall>b\<in>set bs. snd b < n)"
  by (induction bs) auto

lemma first_fit_Some:
  assumes "fl_ok lo hi bs" "hi < 2 ^ 32" "0 < unat n" "8 dvd unat n" "first_fit n bs = Some (p, bs')"
  shows "fl_ok lo hi bs'" "block_bytes (p, n) \<subseteq> free_bytes bs"
    "free_bytes bs' = free_bytes bs - block_bytes (p, n)"
    "lo \<le> unat p" "unat p + unat n \<le> hi" "8 dvd unat p"
proof -
  have "fl_ok lo hi bs' \<and> block_bytes (p, n) \<subseteq> free_bytes bs
    \<and> free_bytes bs' = free_bytes bs - block_bytes (p, n)
    \<and> lo \<le> unat p \<and> unat p + unat n \<le> hi \<and> 8 dvd unat p"
    using assms
  proof (induction bs arbitrary: lo bs')
    case Nil
    then show ?case by simp
  next
    case (Cons b bs)
    obtain a l where b: "b = (a, l)" by (cases b)
    have after: "unat a + unat l < x" if "x \<in> free_bytes bs" for x
      using that Cons.prems(1) b fl_ok_bytes [of "unat a + unat l + 1" hi bs x] by simp
    consider (exact) "l = n" | (split) "n < l" | (skip) "l < n" by fastforce
    then show ?case
    proof cases
      case exact
      then have "p = a" "bs' = bs" using Cons.prems(5) b by auto
      moreover have "free_bytes bs \<inter> block_bytes (a, n) = {}"
        using after exact by (fastforce simp: block_bytes_def)
      moreover have "fl_ok lo hi bs" using Cons.prems(1) b by (auto elim: fl_ok_mono)
      ultimately show ?thesis using Cons.prems(1) b exact by auto
    next
      case split
      then have "l \<noteq> n" by auto
      with split have eq: "p = a" "bs' = (a + n, l - n) # bs" using Cons.prems(5) b by auto
      have nl: "unat n < unat l" "unat a + unat l < 2 ^ 32"
        using split Cons.prems(1,2) b by (auto simp: word_less_nat_alt)
      note un = unat_block_end [OF nl(2) less_imp_le [OF nl(1)]]
      have dv: "8 dvd unat a + unat n" "8 dvd unat l - unat n"
        using Cons.prems(1,4) b by auto
      have "block_bytes (a + n, l - n) = block_bytes (a, l) - block_bytes (a, n)"
        using un nl by (auto simp: block_bytes_def)
      moreover have "free_bytes bs \<inter> block_bytes (a, n) = {}"
        using after nl by (fastforce simp: block_bytes_def)
      ultimately show ?thesis
        using eq un nl dv Cons.prems(1,3) b by (auto simp: block_bytes_def)
    next
      case skip
      then obtain bs2 where bs2: "first_fit n bs = Some (p, bs2)" "bs' = b # bs2"
        using Cons.prems(5) b by (auto split: if_splits)
      have "fl_ok (unat a + unat l + 1) hi bs" using Cons.prems(1) b by simp
      from Cons.IH [OF this Cons.prems(2-4) bs2(1)] Cons.prems(1) b bs2(2)
      have *: "fl_ok lo hi bs'" "block_bytes (p, n) \<subseteq> free_bytes bs" "8 dvd unat p"
        "free_bytes bs2 = free_bytes bs - block_bytes (p, n)"
        "unat a + unat l + 1 \<le> unat p" "unat p + unat n \<le> hi" by auto
      then have "block_bytes (a, l) \<inter> block_bytes (p, n) = {}" by (auto simp: block_bytes_def)
      with * Cons.prems(1) b bs2(2) show ?thesis by auto
    qed
  qed
  then show "fl_ok lo hi bs'" "block_bytes (p, n) \<subseteq> free_bytes bs"
    "free_bytes bs' = free_bytes bs - block_bytes (p, n)"
    "lo \<le> unat p" "unat p + unat n \<le> hi" "8 dvd unat p" by blast+
qed

lemma heap_repD:
  assumes "heap_rep h bs"
  shows "chain h Memlist bs" "fl_ok 1 (unat (maxheap h) + 1) bs" "unat (maxheap h) + 1 < 2 ^ 32"
    "memlist_next h = start bs"
  using assms chain_nxt [of h Memlist bs] by (auto simp: heap_rep_def)

lemma getmem_refines:
  assumes rep: "heap_rep h bs" and n: "n \<noteq> 0" "unat n + 7 < 2 ^ 32"
  shows "case first_fit (roundmb n) bs of
      None \<Rightarrow> getmem n h = Some (SYSERRp, h)
    | Some (p, bs') \<Rightarrow> \<exists>h'. getmem n h = Some (p, h') \<and> heap_rep h' bs'
        \<and> memlist_len h' = memlist_len h - roundmb n \<and> minheap h' = minheap h \<and> maxheap h' = maxheap h"
proof -
  note H = heap_repD [OF rep]
  have r: "0 < unat (roundmb n)" "8 dvd unat (roundmb n)" using roundmb_bounds [OF n(2)] n(1) by auto
  have g: "getmem n h = getmem_scan h (roundmb n) (lastN Memlist []) (start bs)"
    using n(1) H(4) by (simp add: getmem_def)
  have ref: "case first_fit (roundmb n) bs of
      None \<Rightarrow> getmem_scan h (roundmb n) (lastN Memlist []) (start bs) = Some (SYSERRp, h)
    | Some (p, ys') \<Rightarrow> \<exists>h'. getmem_scan h (roundmb n) (lastN Memlist []) (start bs) = Some (p, h')
        \<and> chain h' Memlist ([] @ ys') \<and> memlist_len h' = memlist_len h - roundmb n
        \<and> minheap h' = minheap h \<and> maxheap h' = maxheap h"
    by (rule getmem_scan_refines) (use H r in auto)
  show ?thesis
  proof (cases "first_fit (roundmb n) bs")
    case None
    with ref g show ?thesis by simp
  next
    case (Some pb)
    obtain p bs' where pb: "pb = (p, bs')" by (cases pb)
    with first_fit_Some [OF H(2,3) r] Some have "fl_ok 1 (unat (maxheap h) + 1) bs'" by blast
    with ref g Some pb H(3) show ?thesis by (auto simp: heap_rep_def)
  qed
qed

section \<open>freemem puts a block back and coalesces\<close>

definition blk_end :: "block \<Rightarrow> u32" where "blk_end b = fst b + snd b"

definition merge_left :: "block list \<Rightarrow> block \<Rightarrow> block list \<times> block" where
  "merge_left xs b = (if xs \<noteq> [] \<and> blk_end (last xs) = fst b
     then (butlast xs, (fst (last xs), snd (last xs) + snd b)) else (xs, b))"

definition merge_right :: "block \<Rightarrow> block list \<Rightarrow> block \<times> block list" where
  "merge_right b ys = (if ys \<noteq> [] \<and> blk_end b = fst (hd ys)
     then ((fst b, snd b + snd (hd ys)), tl ys) else (b, ys))"

text \<open>The free list after \<open>freemem\<close>, or \<open>None\<close> when the block overlaps a free one.\<close>

definition free_block :: "block \<Rightarrow> block list \<Rightarrow> block list option" where
  "free_block b bs =
     (let xs = takeWhile (\<lambda>c. fst c < fst b) bs; ys = dropWhile (\<lambda>c. fst c < fst b) bs in
      if (xs \<noteq> [] \<and> fst b < blk_end (last xs)) \<or> (ys \<noteq> [] \<and> fst (hd ys) < blk_end b) then None
      else let (xs', b') = merge_left xs b; (b'', ys') = merge_right b' ys in Some (xs' @ b'' # ys'))"

lemma freemem_scan_finds:
  assumes "chain h p bs" "\<And>b. b \<in> set bs \<Longrightarrow> fst b \<noteq> 0"
  shows "freemem_scan h blk p (start bs) =
    Some (lastN p (takeWhile (\<lambda>c. fst c < blk) bs), start (dropWhile (\<lambda>c. fst c < blk) bs))"
  using assms
proof (induction bs arbitrary: p)
  case Nil
  then show ?case by (simp add: freemem_scan.simps)
next
  case (Cons b bs)
  then have ch: "chain h (Blk (fst b)) bs" by (simp add: chain_Cons)
  show ?case
  proof (cases "fst b < blk")
    case True
    then show ?thesis using Cons ch chain_nxt [OF ch] by (subst freemem_scan.simps) simp
  next
    case False
    then show ?thesis by (subst freemem_scan.simps) simp
  qed
qed

text \<open>The free bytes after an accepted \<open>freemem\<close>, and that the block was not free before.\<close>

lemma merge_left_ok:
  assumes ok: "fl_ok lo hi xs" and b: "lo \<le> unat (fst b)" "0 < unat (snd b)" "8 dvd unat (fst b)" "8 dvd unat (snd b)"
      "unat (fst b) + unat (snd b) \<le> hi" and hi: "hi < 2 ^ 32"
    and le: "xs \<noteq> [] \<Longrightarrow> blk_end (last xs) \<le> fst b" and m: "merge_left xs b = (xs', b')"
  shows "fl_ok lo hi (xs' @ [b'])" "free_bytes (xs' @ [b']) = free_bytes xs \<union> block_bytes b"
    "unat (fst b') + unat (snd b') = unat (fst b) + unat (snd b)" "free_bytes xs \<inter> block_bytes b = {}"
proof -
  have *: "fl_ok lo hi (xs' @ [b']) \<and> free_bytes (xs' @ [b']) = free_bytes xs \<union> block_bytes b
    \<and> unat (fst b') + unat (snd b') = unat (fst b) + unat (snd b) \<and> free_bytes xs \<inter> block_bytes b = {}"
  proof (cases xs rule: rev_cases)
    case Nil
    then show ?thesis using b m by (auto simp: merge_left_def)
  next
    case (snoc us u)
    have u: "lo \<le> unat (fst u)" "0 < unat (snd u)" "unat (fst u) + unat (snd u) \<le> hi"
        "8 dvd unat (fst u)" "8 dvd unat (snd u)"
      using fl_ok_ge [OF ok, of u] snoc by auto
    have ue: "unat (blk_end u) = unat (fst u) + unat (snd u)"
      unfolding blk_end_def using unat_block_end(1) [of "fst u" "snd u" "snd u"] u hi by simp
    have ltu: "unat (fst d) + unat (snd d) < unat (fst u)" if "d \<in> set us" for d
      using fl_ok_before [of lo hi us u "[]" d] ok snoc that by simp
    have le': "unat (fst u) + unat (snd u) \<le> unat (fst b)"
      using le snoc ue by (simp add: word_le_nat_alt)
    have dj: "free_bytes xs \<inter> block_bytes b = {}"
      using snoc ltu le' by (fastforce simp: free_bytes_def block_bytes_def)
    show ?thesis
    proof (cases "blk_end u = fst b")
      case True
      then have eq: "xs' = us" "b' = (fst u, snd u + snd b)" using m snoc by (auto simp: merge_left_def)
      have f: "unat (fst b) = unat (fst u) + unat (snd u)" using True ue by simp
      have sn: "unat (snd u + snd b) = unat (snd u) + unat (snd b)"
        using f b u hi by (simp add: unat_word_ariths)
      have "block_bytes b' = block_bytes u \<union> block_bytes b"
        using eq f sn by (auto simp: block_bytes_def)
      moreover have "fl_ok lo hi (us @ [b'])"
        using ok snoc eq sn f u b by (auto simp: fl_ok_append)
      ultimately show ?thesis using eq snoc sn f dj by auto
    next
      case False
      then have eq: "xs' = xs" "b' = b" using m snoc by (auto simp: merge_left_def)
      have "unat (fst u) + unat (snd u) \<noteq> unat (fst b)"
        using False ue by (metis unsigned_word_eqI)
      with le' have "fl_ok lo hi (xs @ [b])" using ok snoc b by (auto simp: fl_ok_append)
      then show ?thesis using eq dj by simp
    qed
  qed
  then show "fl_ok lo hi (xs' @ [b'])" "free_bytes (xs' @ [b']) = free_bytes xs \<union> block_bytes b"
    "unat (fst b') + unat (snd b') = unat (fst b) + unat (snd b)" "free_bytes xs \<inter> block_bytes b = {}"
    by blast+
qed

lemma merge_right_ok:
  assumes ok: "fl_ok lo hi (xs @ [b])" "fl_ok l0 hi ys" and hi: "hi < 2 ^ 32"
    and le: "ys \<noteq> [] \<Longrightarrow> blk_end b \<le> fst (hd ys)" and m: "merge_right b ys = (b', ys')"
  shows "fl_ok lo hi (xs @ b' # ys')" "block_bytes b' \<union> free_bytes ys' = block_bytes b \<union> free_bytes ys"
    "block_bytes b \<inter> free_bytes ys = {}"
proof -
  have b: "0 < unat (snd b)" "8 dvd unat (fst b)" "8 dvd unat (snd b)" "unat (fst b) + unat (snd b) \<le> hi"
    using fl_ok_ge [OF ok(1), of b] by auto
  have be: "unat (blk_end b) = unat (fst b) + unat (snd b)"
    unfolding blk_end_def using unat_block_end(1) [of "fst b" "snd b" "snd b"] b hi by simp
  have *: "fl_ok lo hi (xs @ b' # ys') \<and> block_bytes b' \<union> free_bytes ys' = block_bytes b \<union> free_bytes ys
    \<and> block_bytes b \<inter> free_bytes ys = {}"
  proof (cases ys)
    case Nil
    then show ?thesis using ok(1) m by (auto simp: merge_right_def)
  next
    case (Cons c cs)
    have c: "0 < unat (snd c)" "8 dvd unat (fst c)" "8 dvd unat (snd c)" "unat (fst c) + unat (snd c) \<le> hi"
        "fl_ok (unat (fst c) + unat (snd c) + 1) hi cs"
      using ok(2) Cons by auto
    have le': "unat (fst b) + unat (snd b) \<le> unat (fst c)"
      using le Cons be by (simp add: word_le_nat_alt)
    have "x \<in> free_bytes cs \<Longrightarrow> unat (fst c) + unat (snd c) < x" for x
      using fl_ok_bytes [OF c(5)] by fastforce
    then have dj: "block_bytes b \<inter> free_bytes ys = {}"
      using Cons le' by (fastforce simp: block_bytes_def)
    show ?thesis
    proof (cases "blk_end b = fst c")
      case True
      then have eq: "b' = (fst b, snd b + snd c)" "ys' = cs" using m Cons by (auto simp: merge_right_def)
      have f: "unat (fst c) = unat (fst b) + unat (snd b)" using True be by simp
      have sn: "unat (snd b + snd c) = unat (snd b) + unat (snd c)"
        using f b c hi by (simp add: unat_word_ariths)
      have "block_bytes b' = block_bytes b \<union> block_bytes c"
        using eq f sn by (auto simp: block_bytes_def)
      moreover have "fl_ok lo hi (xs @ b' # cs)"
        using ok(1) eq sn f b c by (auto simp: fl_ok_append add.assoc)
      ultimately show ?thesis using eq Cons dj by auto
    next
      case False
      then have eq: "b' = b" "ys' = ys" using m Cons by (auto simp: merge_right_def)
      have "unat (fst b) + unat (snd b) \<noteq> unat (fst c)"
        using False be by (metis unsigned_word_eqI)
      with le' have "fl_ok lo hi (xs @ b # ys)" using ok(1) Cons c by (auto simp: fl_ok_append)
      then show ?thesis using eq dj by simp
    qed
  qed
  then show "fl_ok lo hi (xs @ b' # ys')" "block_bytes b' \<union> free_bytes ys' = block_bytes b \<union> free_bytes ys"
    "block_bytes b \<inter> free_bytes ys = {}" by blast+
qed

lemma free_block_ok:
  assumes ok: "fl_ok lo hi bs" and hi: "hi < 2 ^ 32"
    and b: "lo \<le> unat (fst b)" "0 < unat (snd b)" "8 dvd unat (fst b)" "8 dvd unat (snd b)"
      "unat (fst b) + unat (snd b) \<le> hi"
    and f: "free_block b bs = Some bs'"
  shows "fl_ok lo hi bs'" "free_bytes bs' = free_bytes bs \<union> block_bytes b" "free_bytes bs \<inter> block_bytes b = {}"
proof -
  define xs ys where "xs = takeWhile (\<lambda>c. fst c < fst b) bs" and "ys = dropWhile (\<lambda>c. fst c < fst b) bs"
  obtain xs' b1 where ml: "merge_left xs b = (xs', b1)" by (cases "merge_left xs b") auto
  obtain b2 ys' where mr: "merge_right b1 ys = (b2, ys')" by (cases "merge_right b1 ys") auto
  have bs: "bs = xs @ ys" by (simp add: xs_def ys_def)
  then have okx: "fl_ok lo hi xs" using ok by (simp add: fl_ok_append)
  obtain l0 where oky: "fl_ok l0 hi ys" using ok bs by (auto simp: fl_ok_append split: if_splits)
  have g: "\<not> (xs \<noteq> [] \<and> fst b < blk_end (last xs))" "\<not> (ys \<noteq> [] \<and> fst (hd ys) < blk_end b)"
      "bs' = xs' @ b2 # ys'"
    using f ml mr by (auto simp: free_block_def xs_def ys_def Let_def split: if_splits prod.splits)
  have "xs \<noteq> [] \<Longrightarrow> blk_end (last xs) \<le> fst b" using g(1) by (simp add: not_less)
  note L = merge_left_ok [OF okx b hi this ml]
  have be: "unat (blk_end b) = unat (fst b) + unat (snd b)"
    using b hi unat_block_end(1) [of "fst b" "snd b" "snd b"] by (simp add: blk_end_def)
  have "unat (fst b) + unat (snd b) \<le> x" if "x \<in> free_bytes ys" for x
  proof (cases ys)
    case Nil
    then show ?thesis using that by simp
  next
    case (Cons c cs)
    then have "fl_ok (unat (fst c)) hi ys" using oky by simp
    moreover have "unat (fst b) + unat (snd b) \<le> unat (fst c)"
      using g(2) Cons be by (simp add: not_less word_le_nat_alt)
    ultimately show ?thesis using fl_ok_bytes that by fastforce
  qed
  then have bys: "block_bytes b \<inter> free_bytes ys = {}" by (fastforce simp: block_bytes_def)
  have "unat (blk_end b1) = unat (blk_end b)"
    using L(3) fl_ok_ge [OF L(1), of b1] b hi unat_block_end(1) [of "fst b1" "snd b1" "snd b1"]
      unat_block_end(1) [of "fst b" "snd b" "snd b"] by (simp add: blk_end_def)
  then have "ys \<noteq> [] \<Longrightarrow> blk_end b1 \<le> fst (hd ys)" using g(2) by (simp add: not_less word_le_nat_alt)
  note R = merge_right_ok [OF L(1) oky hi this mr]
  show "fl_ok lo hi bs'" using R(1) g(3) by simp
  show "free_bytes bs' = free_bytes bs \<union> block_bytes b" using R(2) L(2) g(3) bs by auto
  show "free_bytes bs \<inter> block_bytes b = {}" using L(4) bys bs by auto
qed

text \<open>The two pointer updates of \<open>freemem\<close>, on the list they are made for.\<close>

lemma chain_insert:
  assumes ch: "chain h Memlist (xs @ ys)" and d: "distinct (Memlist # map (Blk \<circ> fst) (xs @ ys))"
    and a: "a \<notin> fst ` set (xs @ ys)"
  shows "chain (set_nxt (lastN Memlist xs) a (set_len a m (set_nxt (Blk a) (start ys) h))) Memlist (xs @ (a, m) # ys)"
    (is "chain ?h _ _")
proof -
  have lastin: "lastN Memlist xs \<in> set (Memlist # map (Blk \<circ> fst) xs)"
    by (cases xs rule: rev_cases) (auto simp: lastN_cases)
  have an: "Blk a \<notin> set (Memlist # map (Blk \<circ> fst) (xs @ ys))" using a by (force simp: image_iff)
  have "Blk a \<notin> set (Memlist # map (Blk \<circ> fst) xs)" using an by simp
  with lastin have la: "lastN Memlist xs \<noteq> Blk a" by metis
  have ly: "lastN Memlist xs \<notin> set (map (Blk \<circ> fst) ys)"
    using d lastin by (cases xs rule: rev_cases) (auto simp: lastN_cases)
  have cy: "chain h (lastN Memlist xs) ys" using ch by (simp add: chain_append)
  have "chain ?h (Blk a) ys"
  proof (cases ys)
    case Nil
    then show ?thesis using la by (simp add: chain_Nil setter_simps)
  next
    case (Cons c cs)
    then have "chain h (Blk (fst c)) cs" using cy by (simp add: chain_Cons)
    then have "chain ?h (Blk (fst c)) cs"
    proof (rule chain_frame)
      fix q assume "q \<in> set (Blk (fst c) # map (Blk \<circ> fst) cs)"
      then have "q \<in> set (map (Blk \<circ> fst) ys)" using Cons by simp
      moreover have "Blk a \<notin> set (map (Blk \<circ> fst) ys)" using an by simp
      ultimately have "q \<noteq> Blk a" "q \<noteq> lastN Memlist xs" using ly by metis+
      then show "nxt ?h q = nxt h q" by (simp add: setter_simps)
    qed (use a Cons in \<open>auto simp: setter_simps\<close>)
    then show ?thesis using Cons cy la a by (auto simp: chain_Cons setter_simps)
  qed
  then have "chain ?h (lastN Memlist xs) ((a, m) # ys)" by (simp add: chain_Cons setter_simps)
  with ch d show ?thesis
  proof (rule chain_replace)
    fix q assume "q \<in> set (Memlist # map (Blk \<circ> fst) xs)" "q \<noteq> lastN Memlist xs"
    moreover from this an have "q \<noteq> Blk a" by auto
    ultimately show "nxt ?h q = nxt h q" by (simp add: setter_simps)
  qed (use a in \<open>auto simp: setter_simps\<close>)
qed

lemma chain_resize:
  assumes "chain h p (xs @ b # ys)" "distinct (map fst (xs @ b # ys))"
  shows "chain (set_len (fst b) m h) p (xs @ (fst b, m) # ys)"
  using assms
proof (induction xs arbitrary: p)
  case Nil
  then have "chain h (Blk (fst b)) ys" by (simp add: chain_Cons)
  then have "chain (set_len (fst b) m h) (Blk (fst b)) ys"
  proof (rule chain_frame)
    fix d assume "d \<in> set ys"
    then have "fst d \<noteq> fst b" using Nil.prems(2) by (auto simp: image_iff)
    then show "mlength (set_len (fst b) m h) (fst d) = mlength h (fst d)" by (simp add: setter_simps)
  qed (simp add: setter_simps)
  then show ?case using Nil.prems(1) by (simp add: chain_Cons setter_simps)
next
  case (Cons c xs)
  then show ?case by (auto simp: chain_Cons setter_simps)
qed

lemma chain_absorb:
  assumes "chain h p (xs @ b # c # ys)" "distinct (map fst (xs @ b # c # ys))" "p = Memlist \<or> p \<notin> Blk ` fst ` set (xs @ b # c # ys)"
  shows "chain (set_nxt (Blk (fst b)) (mnext h (fst c)) (set_len (fst b) m h)) p (xs @ (fst b, m) # ys)"
    (is "chain ?h _ _")
  using assms
proof (induction xs arbitrary: p)
  case Nil
  then have cc: "chain h (Blk (fst c)) ys" by (simp add: chain_Cons)
  have "chain ?h (Blk (fst b)) ys"
  proof (cases ys)
    case Nil
    then show ?thesis using cc by (simp add: chain_Nil setter_simps)
  next
    case (Cons d ds)
    then have "chain h (Blk (fst d)) ds" using cc by (simp add: chain_Cons)
    then have "chain ?h (Blk (fst d)) ds"
    proof (rule chain_frame)
      fix e assume "e \<in> set ds"
      then have "fst e \<noteq> fst b" using Nil.prems(2) Cons by (auto simp: image_iff)
      then show "mlength ?h (fst e) = mlength h (fst e)" by (simp add: setter_simps)
    qed (use Nil.prems(2) Cons in \<open>auto simp: setter_simps image_iff\<close>)
    then show ?thesis using Cons cc Nil.prems(2) by (auto simp: chain_Cons setter_simps)
  qed
  then show ?case using Nil.prems(1,3) by (auto simp: chain_Cons setter_simps)
next
  case (Cons e xs)
  have "chain ?h (Blk (fst e)) (xs @ (fst b, m) # ys)"
    by (rule Cons.IH) (use Cons.prems in \<open>auto simp: chain_Cons\<close>)
  then show ?case using Cons.prems by (auto simp: chain_Cons setter_simps)
qed

lemma freemem_refines:
  assumes rep: "heap_rep h bs" and n: "n \<noteq> 0" "unat n + 7 < 2 ^ 32"
    and a: "minheap h \<le> a" "a \<le> maxheap h" "0 < unat a" "8 dvd unat a"
      "unat a + unat (roundmb n) \<le> unat (maxheap h) + 1"
  shows "case free_block (a, roundmb n) bs of
      None \<Rightarrow> freemem a n h = Some (SYSERR, h)
    | Some bs' \<Rightarrow> \<exists>h'. freemem a n h = Some (OK, h') \<and> heap_rep h' bs'
        \<and> memlist_len h' = memlist_len h + roundmb n \<and> minheap h' = minheap h \<and> maxheap h' = maxheap h"
proof -
  note H = heap_repD [OF rep]
  define m where "m = roundmb n"
  define xs ys where "xs = takeWhile (\<lambda>c. fst c < a) bs" and "ys = dropWhile (\<lambda>c. fst c < a) bs"
  have bs: "bs = xs @ ys" by (simp add: xs_def ys_def)
  have m: "0 < unat m" "8 dvd unat m" using roundmb_bounds [OF n(2)] n(1) by (auto simp: m_def)
  have scan: "freemem_scan h a Memlist (memlist_next h) = Some (lastN Memlist xs, start ys)"
    using freemem_scan_finds [OF H(1), of a] fl_ok_nonnull [OF H(2)] H(4) by (simp add: xs_def ys_def)
  have top: "(case lastN Memlist xs of Memlist \<Rightarrow> NULLp | Blk p \<Rightarrow> p + mlength h p) = (if xs = [] then 0 else blk_end (last xs))"
  proof (cases xs rule: rev_cases)
    case (snoc us u)
    then have "mlength h (fst u) = snd u" using H(1) bs by (simp add: chain_append chain_Cons)
    then show ?thesis using snoc by (simp add: lastN_cases blk_end_def)
  qed simp
  have nonnull: "fst c \<noteq> 0" if "c \<in> set ys" for c using fl_ok_nonnull [OF H(2)] bs that by simp
  have ynull: "start ys = 0 \<longleftrightarrow> ys = []" using nonnull by (cases ys) auto
  have a0: "a \<noteq> 0" using a(3) by auto
  show ?thesis
  proof (cases "(xs \<noteq> [] \<and> a < blk_end (last xs)) \<or> (ys \<noteq> [] \<and> fst (hd ys) < blk_end (a, m))")
    case True
    then have "free_block (a, m) bs = None" by (simp add: free_block_def xs_def ys_def Let_def)
    moreover have "freemem a n h = Some (SYSERR, h)"
      using True n a scan ynull top
      by (auto simp: freemem_def m_def blk_end_def not_less lastN_cases start_def split: list.splits if_splits)
    ultimately show ?thesis by (simp add: m_def)
  next
    case False
    obtain xs' b1 where ml: "merge_left xs (a, m) = (xs', b1)" by (cases "merge_left xs (a, m)") auto
    obtain b2 ys' where mr: "merge_right b1 ys = (b2, ys')" by (cases "merge_right b1 ys") auto
    have fb: "free_block (a, m) bs = Some (xs' @ b2 # ys')"
      using False ml mr by (simp add: free_block_def xs_def ys_def Let_def)
    have okx: "fl_ok 1 (unat (maxheap h) + 1) xs" using H(2) bs by (simp add: fl_ok_append)
    have le: "xs \<noteq> [] \<Longrightarrow> blk_end (last xs) \<le> fst (a, m)" using False by auto
    note L = merge_left_ok [OF okx _ _ _ _ _ H(3) le ml]
    have L1: "fl_ok 1 (unat (maxheap h) + 1) (xs' @ [b1])" and L3: "unat (fst b1) + unat (snd b1) = unat a + unat m"
      using L(1,3) a m by (simp_all add: m_def)
    have hi: "unat a + unat m < 2 ^ 32" using a(5) H(3) by (simp add: m_def)
    have e1: "unat (blk_end b1) = unat a + unat m"
      using unat_block_end(1) [of "fst b1" "snd b1" "snd b1"] L3 hi by (simp add: blk_end_def)
    have e: "unat (blk_end (a, m)) = unat a + unat m"
      using unat_block_end(1) [of a m m] hi by (simp add: blk_end_def)
    define h1 where "h1 = h\<lparr>memlist_len := memlist_len h + m\<rparr>"
    have ch1: "chain h1 Memlist (xs @ ys)"
      by (rule chain_frame [OF H(1) [unfolded bs]]) (simp_all add: h1_def setter_simps)
    have nodes: "distinct (Memlist # map (Blk \<circ> fst) (xs @ ys))" using fl_ok_nodes [OF H(2)] bs by simp
    have dfst: "distinct (map fst (xs @ ys))" using fl_ok_distinct [OF H(2)] bs by simp
    have yge: "unat a + unat m \<le> unat (fst d)" if "d \<in> set ys" for d
    proof (cases ys)
      case Nil
      then show ?thesis using that by simp
    next
      case (Cons c cs)
      obtain l0 where "fl_ok l0 (unat (maxheap h) + 1) (c # cs)"
        using H(2) bs Cons by (auto simp: fl_ok_append split: if_splits)
      then have "fl_ok (unat (fst c)) (unat (maxheap h) + 1) ys" using Cons by simp
      moreover have "unat a + unat m \<le> unat (fst c)"
        using False Cons e by (simp add: not_less word_le_nat_alt)
      ultimately show ?thesis using fl_ok_ge that by fastforce
    qed
    have anew: "a \<notin> fst ` set (xs @ ys)"
    proof -
      have "fst d < a" if "d \<in> set xs" for d using that set_takeWhileD by (fastforce simp: xs_def)
      moreover have "fst d \<noteq> a" if "d \<in> set ys" for d using yge [OF that] m by auto
      ultimately show ?thesis by fastforce
    qed
    define merged where "merged \<longleftrightarrow> xs \<noteq> [] \<and> blk_end (last xs) = a"
    define h2 where "h2 = (if merged then set_len (fst (last xs)) (snd (last xs) + m) h1
        else set_nxt (lastN Memlist xs) a (set_len a m (set_nxt (Blk a) (start ys) h1)))"
    have ch2: "chain h2 Memlist (xs' @ b1 # ys)"
    proof (cases merged)
      case True
      then have "xs \<noteq> []" by (simp add: merged_def)
      then obtain us u where u: "xs = us @ [u]" by (cases xs rule: rev_cases) auto
      then show ?thesis
        using chain_resize [of h1 Memlist us u ys "snd u + m"] ch1 dfst ml True
        by (auto simp: h2_def merge_left_def merged_def)
    next
      case False
      then show ?thesis
        using chain_insert [OF ch1 nodes anew, of m] ml by (auto simp: h2_def merge_left_def merged_def)
    qed
    define h3 where "h3 = (if blk_end b1 = start ys
        then set_nxt (Blk (fst b1)) (mnext h2 (start ys)) (set_len (fst b1) (snd b1 + mlength h2 (start ys)) h2) else h2)"
    have okl: "fl_ok 1 (unat (maxheap h) + 1) (xs' @ b2 # ys')"
      using free_block_ok(1) [OF H(2,3) _ _ _ _ _ fb] a m by (simp add: m_def)
    have dl: "distinct (map fst (xs' @ b1 # ys))"
    proof -
      have d1: "distinct (map fst (xs' @ [b1]))" by (rule fl_ok_distinct [OF L1])
      have d2: "distinct (map fst ys)" using dfst by simp
      have "fst d < fst c" if "d \<in> set (xs' @ [b1])" "c \<in> set ys" for c d
      proof -
        have "unat (fst d) < unat a + unat m"
          using that(1) fl_ok_before [of 1 "unat (maxheap h) + 1" xs' b1 "[]" d] L1 L3
            fl_ok_ge [OF L1, of d] by auto
        with yge [OF that(2)] show ?thesis by (simp add: word_less_nat_alt)
      qed
      then have "fst ` set (xs' @ [b1]) \<inter> fst ` set ys = {}" by (blast dest: less_imp_neq)
      moreover have "map fst (xs' @ b1 # ys) = map fst (xs' @ [b1]) @ map fst ys" by simp
      ultimately show ?thesis using d1 d2 by (simp only: distinct_append set_map simp_thms)
    qed
    have ch3: "chain h3 Memlist (xs' @ b2 # ys')"
    proof (cases "ys \<noteq> [] \<and> blk_end b1 = fst (hd ys)")
      case True
      then obtain c cs where ys: "ys = c # cs" by (cases ys) auto
      then have "mlength h2 (fst c) = snd c" using ch2 by (simp add: chain_append chain_Cons)
      then show ?thesis
        using chain_absorb [of h2 Memlist xs' b1 c cs "snd b1 + snd c"] ch2 dl True mr ys
        by (auto simp: h3_def merge_right_def)
    next
      case False
      have "blk_end b1 \<noteq> start ys"
      proof (cases ys)
        case Nil
        then show ?thesis using e1 a(3) by auto
      qed (use False in simp)
      then show ?thesis using ch2 mr False by (auto simp: h3_def merge_right_def)
    qed
    have fm: "freemem a n h = Some (OK, h3)"
    proof -
      have b1: "b1 = (if merged then (fst (last xs), snd (last xs) + m) else (a, m))"
        using ml by (auto simp: merge_left_def merged_def)
      have len1: "mlength h2 (fst b1) = snd b1" using ch2 by (simp add: chain_append chain_Cons)
      have topeq: "(if xs = [] then 0 else blk_end (last xs)) = a \<longleftrightarrow> merged"
        using a0 by (auto simp: merged_def)
      have lst: "lastN Memlist xs = Blk (fst (last xs))" "mlength h1 (fst (last xs)) = snd (last xs)" if merged
      proof -
        have "xs \<noteq> []" using that by (simp add: merged_def)
        then obtain us u where u: "xs = us @ [u]" by (cases xs rule: rev_cases) auto
        show "lastN Memlist xs = Blk (fst (last xs))" using u by (simp add: lastN_cases)
        show "mlength h1 (fst (last xs)) = snd (last xs)" using u ch1 by (simp add: chain_append chain_Cons)
      qed
      have g1: "\<not> (n = 0 \<or> a < minheap h \<or> maxheap h < a)" using n(1) a by auto
      have g2: "\<not> ((lastN Memlist xs \<noteq> Memlist \<and> a < (if xs = [] then 0 else blk_end (last xs)))
          \<or> (start ys \<noteq> NULLp \<and> start ys < a + m))"
        using False by (auto simp: lastN_cases ynull blk_end_def start_def split: list.splits)
      show ?thesis
      proof (cases merged)
        case True
        define u where "u = fst (last xs)"
        have u: "lastN Memlist xs = Blk u" "mlength h u = snd (last xs)" "mlength h1 u = snd (last xs)"
          using lst [OF True] by (simp_all add: u_def h1_def)
        have ua: "u + snd (last xs) = a" "\<not> a < u + snd (last xs)"
          using True by (simp_all add: merged_def blk_end_def u_def)
        have b: "b1 = (u, snd (last xs) + m)" using b1 True by (simp add: u_def)
        have h2: "set_len u (snd (last xs) + m) h1 = h2" using True by (simp add: h2_def u_def)
        have l2: "mlength h2 u = snd (last xs) + m" using len1 b by simp
        have g3: "\<not> (start ys \<noteq> NULLp \<and> start ys < a + m)" using g2 by blast
        show ?thesis
          using g1 g3
          by (simp add: freemem_def Let_def scan m_def [symmetric] h1_def [symmetric] u ua h2 l2 h3_def b
              blk_end_def del: de_Morgan_conj de_Morgan_disj cong: conj_cong)
      next
        case False
        have h2: "set_nxt (lastN Memlist xs) a (set_len a m (set_nxt (Blk a) (start ys) h1)) = h2"
          using False by (simp add: h2_def)
        have b: "b1 = (a, m)" using b1 False by simp
        have l2: "mlength h2 a = m" using len1 b by simp
        have ta: "(if xs = [] then 0 else blk_end (last xs)) \<noteq> a" using topeq False by simp
        show ?thesis
          using g1 g2 ta
          by (simp add: freemem_def Let_def scan top m_def [symmetric] h1_def [symmetric] h2 l2 h3_def b
              blk_end_def del: de_Morgan_conj de_Morgan_disj)
      qed
    qed
    have same: "memlist_len h3 = memlist_len h + m" "minheap h3 = minheap h" "maxheap h3 = maxheap h"
      by (simp_all add: h3_def h2_def h1_def setter_simps)
    have "heap_rep h3 (xs' @ b2 # ys')" using ch3 okl H(3) same by (simp add: heap_rep_def)
    with fb fm same show ?thesis by (simp add: m_def)
  qed
qed

section \<open>getstk takes the top of the last block that fits\<close>

fun last_fit :: "u32 \<Rightarrow> block list \<Rightarrow> (block list \<times> block \<times> block list) option" where
  "last_fit n [] = None"
| "last_fit n (b # bs) =
     (case last_fit n bs of Some (xs, c, ys) \<Rightarrow> Some (b # xs, c, ys)
      | None \<Rightarrow> if n \<le> snd b then Some ([], b, bs) else None)"

definition take_top :: "u32 \<Rightarrow> block list \<Rightarrow> (u32 \<times> block list) option" where
  "take_top n bs =
     (case last_fit n bs of None \<Rightarrow> None
      | Some (xs, (a, l), ys) \<Rightarrow> Some (a + (l - n), if l = n then xs @ ys else xs @ (a, l - n) # ys))"

lemma last_fit_Some:
  "last_fit n bs = Some (xs, b, ys) \<Longrightarrow> bs = xs @ b # ys \<and> n \<le> snd b \<and> (\<forall>c\<in>set ys. snd c < n)"
proof (induction bs arbitrary: xs)
  case (Cons c cs)
  have "last_fit n cs = None \<Longrightarrow> \<forall>d\<in>set cs. snd d < n" for cs :: "block list"
    by (induction cs) (auto split: option.splits if_splits)
  with Cons show ?case by (auto split: option.splits if_splits)
qed simp

lemma last_fit_None: "last_fit n bs = None \<longleftrightarrow> (\<forall>b\<in>set bs. snd b < n)"
  by (induction bs) (auto split: option.splits if_splits)

lemma getstk_scan_finds:
  assumes "chain h p bs" "\<And>b. b \<in> set bs \<Longrightarrow> fst b \<noteq> 0"
  shows "getstk_scan h n p (start bs) fp f =
    Some (case last_fit n bs of None \<Rightarrow> (fp, f) | Some (xs, b, ys) \<Rightarrow> (lastN p xs, fst b))"
  using assms
proof (induction bs arbitrary: p fp f)
  case Nil
  then show ?case by (simp add: getstk_scan.simps)
next
  case (Cons b bs)
  then have ch: "chain h (Blk (fst b)) bs" "mlength h (fst b) = snd b" by (simp_all add: chain_Cons)
  then show ?case
    using Cons chain_nxt [OF ch(1)]
    by (subst getstk_scan.simps) (auto split: option.splits)
qed

lemma take_top_Some:
  assumes "fl_ok lo hi bs" "hi < 2 ^ 32" "0 < unat n" "8 dvd unat n" "take_top n bs = Some (p, bs')"
  shows "fl_ok lo hi bs'" "block_bytes (p, n) \<subseteq> free_bytes bs"
    "free_bytes bs' = free_bytes bs - block_bytes (p, n)"
    "lo \<le> unat p" "unat p + unat n \<le> hi" "8 dvd unat p"
proof -
  obtain xs a l ys where lf: "last_fit n bs = Some (xs, (a, l), ys)" and p: "p = a + (l - n)"
    and bs': "bs' = (if l = n then xs @ ys else xs @ (a, l - n) # ys)"
    using assms(5) by (auto simp: take_top_def split: option.splits)
  have bs: "bs = xs @ (a, l) # ys" and nl: "unat n \<le> unat l"
    using last_fit_Some [OF lf] by (simp_all add: word_le_nat_alt)
  have b: "lo \<le> unat a" "8 dvd unat a" "8 dvd unat l" "unat a + unat l \<le> hi"
    using fl_ok_ge [OF assms(1), of "(a, l)"] bs by auto
  have ul: "unat (l - n) = unat l - unat n" using nl by (simp add: unat_sub word_le_nat_alt)
  have up: "unat p = unat a + (unat l - unat n)"
    unfolding p using unat_block_end(1) [of a l "l - n"] b ul assms(2) by simp
  have dvp: "8 dvd unat l - unat n" using b assms(4) by simp
  have d1: "free_bytes ys \<inter> block_bytes (a, l) = {}"
  proof -
    have "fl_ok (unat a + unat l + 1) hi ys" using assms(1) bs by (auto simp: fl_ok_append split: if_splits)
    then show ?thesis by (fastforce dest: fl_ok_bytes simp: block_bytes_def)
  qed
  have d2: "free_bytes xs \<inter> block_bytes (a, l) = {}"
    using fl_ok_before [OF assms(1) [unfolded bs]] by (fastforce simp: free_bytes_def block_bytes_def)
  have sub: "block_bytes (p, n) \<subseteq> block_bytes (a, l)" using up nl by (auto simp: block_bytes_def)
  have rem: "block_bytes (a, l - n) = block_bytes (a, l) - block_bytes (p, n)"
    using up ul nl by (auto simp: block_bytes_def)
  show "block_bytes (p, n) \<subseteq> free_bytes bs" using sub bs by auto
  show "free_bytes bs' = free_bytes bs - block_bytes (p, n)"
    using bs bs' rem d1 d2 sub p by (auto split: if_splits)
  show "fl_ok lo hi bs'"
  proof (cases "l = n")
    case True
    have "fl_ok (unat a + unat l + 1) hi ys" using assms(1) bs by (auto simp: fl_ok_append split: if_splits)
    then show ?thesis using assms(1) bs bs' True
      by (auto simp: fl_ok_append elim: fl_ok_mono split: if_splits)
  next
    case False
    then have "unat n < unat l" using nl unsigned_word_eqI le_neq_implies_less by metis
    then show ?thesis using assms(1) bs bs' False ul b dvp
      by (auto simp: fl_ok_append elim: fl_ok_mono split: if_splits)
  qed
  show "lo \<le> unat p" "unat p + unat n \<le> hi" "8 dvd unat p"
    using up b nl by (simp, simp, metis dvd_add dvp up)
qed

lemma getstk_refines:
  assumes rep: "heap_rep h bs" and n: "n \<noteq> 0" "unat n + 7 < 2 ^ 32"
  shows "case take_top (roundmb n) bs of
      None \<Rightarrow> getstk n h = Some (SYSERRp, h)
    | Some (p, bs') \<Rightarrow> \<exists>h'. getstk n h = Some (p + roundmb n - 4, h') \<and> heap_rep h' bs'
        \<and> memlist_len h' = memlist_len h - roundmb n \<and> minheap h' = minheap h \<and> maxheap h' = maxheap h"
proof -
  note H = heap_repD [OF rep]
  define m where "m = roundmb n"
  have m: "0 < unat m" "8 dvd unat m" using roundmb_bounds [OF n(2)] n(1) by (auto simp: m_def)
  have nz: "\<And>b. b \<in> set bs \<Longrightarrow> fst b \<noteq> 0" using fl_ok_nonnull [OF H(2)] .
  note scan = getstk_scan_finds [OF H(1) nz, of m Memlist NULLp, folded H(4)]
  show ?thesis
  proof (cases "last_fit m bs")
    case None
    then show ?thesis using scan n(1) by (simp add: getstk_def take_top_def m_def Let_def)
  next
    case (Some xby)
    obtain xs a l ys where xby: "xby = (xs, (a, l), ys)" by (cases xby) auto
    have bs: "bs = xs @ (a, l) # ys" using last_fit_Some Some xby by blast
    have a0: "a \<noteq> 0" and la: "mlength h a = l" using nz [of "(a, l)"] H(1) bs by (auto simp: chain_append chain_Cons)
    have tt: "take_top m bs = Some (a + (l - m), if l = m then xs @ ys else xs @ (a, l - m) # ys)"
      using Some xby by (simp add: take_top_def)
    note ok = take_top_Some(1) [OF H(2,3) m tt]
    define h' where "h' = (if m = l then set_nxt (lastN Memlist xs) (mnext h a) h else set_len a (l - m) h)
        \<lparr>memlist_len := memlist_len h - m\<rparr>"
    have g: "getstk n h = Some (a + (l - m) + m - 4, h')"
      using n(1) scan Some xby a0 la
      by (auto simp: getstk_def m_def [symmetric] Let_def h'_def setter_simps)
    have "chain h' Memlist (if l = m then xs @ ys else xs @ (a, l - m) # ys)"
    proof (cases "l = m")
      case True
      have "chain (set_nxt (lastN Memlist xs) (mnext h a) h) Memlist (xs @ ys)"
        using chain_remove [of h xs "(a, l)" ys] H(1) fl_ok_nodes [OF H(2)] bs by simp
      then have "chain h' Memlist (xs @ ys)"
        by (rule chain_frame) (simp_all add: h'_def True setter_simps)
      then show ?thesis using True by simp
    next
      case False
      have "chain (set_len a (l - m) h) Memlist (xs @ (a, l - m) # ys)"
        using chain_resize [of h Memlist xs "(a, l)" ys "l - m"] H(1) fl_ok_distinct [OF H(2)] bs by simp
      then have "chain h' Memlist (xs @ (a, l - m) # ys)"
        by (rule chain_frame) (use False in \<open>simp_all add: h'_def setter_simps\<close>)
      then show ?thesis using False by simp
    qed
    with ok H(3) have "heap_rep h' (if l = m then xs @ ys else xs @ (a, l - m) # ys)"
      by (cases "l = m") (simp_all add: heap_rep_def h'_def setter_simps)
    with g tt show ?thesis by (auto simp: m_def [symmetric] h'_def setter_simps)
  qed
qed

section \<open>Stacks taken from the heap and given back\<close>

text \<open>Free blocks lie above \<open>minheap\<close>; \<open>in_heap h b\<close>: \<open>b\<close> could be one of them.\<close>

definition heap_wf :: "heap \<Rightarrow> block list \<Rightarrow> bool" where
  "heap_wf h bs \<longleftrightarrow> heap_rep h bs \<and> 0 < unat (minheap h) \<and> fl_ok (unat (minheap h)) (unat (maxheap h) + 1) bs"

definition in_heap :: "heap \<Rightarrow> block \<Rightarrow> bool" where
  "in_heap h b \<longleftrightarrow> unat (minheap h) \<le> unat (fst b) \<and> 0 < unat (snd b) \<and> 8 dvd unat (fst b) \<and> 8 dvd unat (snd b)
     \<and> unat (fst b) + unat (snd b) \<le> unat (maxheap h) + 1"

lemma heap_wfD:
  assumes "heap_wf h bs"
  shows "heap_rep h bs" "0 < unat (minheap h)" "fl_ok (unat (minheap h)) (unat (maxheap h) + 1) bs" "unat (maxheap h) + 1 < 2 ^ 32"
  using assms by (auto simp: heap_wf_def heap_rep_def)

lemma getmem_block:
  assumes wf: "heap_wf h bs" and n: "n \<noteq> 0" "unat n + 7 < 2 ^ 32" and g: "getmem n h = Some (p, h1)" "p \<noteq> SYSERRp"
  shows "0 < unat p" "unat p + unat n < 2 ^ 32" "block_bytes (p, roundmb n) \<subseteq> free_bytes bs"
proof -
  note W = heap_wfD [OF wf]
  have r: "0 < unat (roundmb n)" "8 dvd unat (roundmb n)" "unat n \<le> unat (roundmb n)"
    using roundmb_bounds [OF n(2)] n(1) by auto
  obtain bs1 where ff: "first_fit (roundmb n) bs = Some (p, bs1)"
    using getmem_refines [OF W(1) n] g by (auto split: option.splits prod.splits)
  show "0 < unat p" "unat p + unat n < 2 ^ 32" using first_fit_Some [OF W(3,4) r(1,2) ff] W(2,4) r(3) by linarith+
  show "block_bytes (p, roundmb n) \<subseteq> free_bytes bs" by (rule first_fit_Some(2) [OF W(3,4) r(1,2) ff])
qed

lemma getmem_fails:
  assumes wf: "heap_wf h bs" and n: "n \<noteq> 0" "unat n + 7 < 2 ^ 32" and g: "getmem n h = Some (SYSERRp, h1)"
  shows "h1 = h"
proof -
  note W = heap_wfD [OF wf]
  have r: "0 < unat (roundmb n)" "8 dvd unat (roundmb n)" using roundmb_bounds [OF n(2)] n(1) by auto
  show ?thesis
  proof (cases "first_fit (roundmb n) bs")
    case None
    then show ?thesis using getmem_refines [OF W(1) n] g by simp
  next
    case (Some x)
    obtain q bs1 where ff: "first_fit (roundmb n) bs = Some (q, bs1)" using Some by (cases x) auto
    then have "q = SYSERRp" using getmem_refines [OF W(1) n] g by auto
    moreover have "8 dvd unat q" by (rule first_fit_Some(6) [OF W(3,4) r ff])
    moreover have "unat SYSERRp = 4294967295" by (simp add: unsigned_minus_1_eq_mask mask_eq_exp_minus_1)
    ultimately show ?thesis by simp
  qed
qed

lemma roundmb_zero: "roundmb 0 = 0"
proof -
  have "unat (roundmb 0) = 0" by (subst unat_roundmb) simp_all
  then show ?thesis by (simp add: unat_eq_0)
qed

lemma roundmb_id:
  assumes "8 dvd unat n"
  shows "roundmb n = n" "unat n + 7 < 2 ^ 32"
proof -
  obtain k where k: "unat n = 8 * k" using assms by auto
  then show u: "unat n + 7 < 2 ^ 32" using unat_u32_less [of n] by simp
  have "(8 * k + 7) div 8 = k" by simp
  then have "unat (roundmb n) = unat n" using unat_roundmb [OF u] k by simp
  then show "roundmb n = n" by (simp add: word_unat_eq_iff)
qed

lemma getstk_ok:
  assumes wf: "heap_wf h bs" and n: "8 dvd unat n"
  obtains (fail) "getstk n h = Some (SYSERRp, h)"
  | (ok) a h' bs' where "getstk n h = Some (a + n - 4, h')" "a + n - 4 \<noteq> SYSERRp" "in_heap h (a, n)"
      "block_bytes (a, n) \<subseteq> free_bytes bs" "free_bytes bs' = free_bytes bs - block_bytes (a, n)"
      "heap_wf h' bs'" "minheap h' = minheap h" "maxheap h' = maxheap h"
proof (cases "n = 0")
  case True
  then show thesis using fail by (simp add: getstk_def)
next
  case False
  note W = heap_wfD [OF wf] and N = roundmb_id [OF n]
  have n0: "0 < unat n" using False by (simp add: unat_gt_0)
  show thesis
  proof (cases "take_top n bs")
    case None
    then show thesis using getstk_refines [OF W(1) False N(2)] fail unfolding N(1) by simp
  next
    case (Some r)
    obtain a bs' where r: "r = (a, bs')" by (cases r)
    obtain h' where h': "getstk n h = Some (a + n - 4, h')" "heap_rep h' bs'" "minheap h' = minheap h" "maxheap h' = maxheap h"
      using getstk_refines [OF W(1) False N(2)] Some r unfolding N(1) by auto
    note T = take_top_Some [OF W(3,4) n0 n Some [unfolded r]]
    have "unat (a + n) = unat a + unat n" using T(5) W(4) by (simp add: unat_word_ariths)
    moreover have "4 \<le> unat n" using n n0 by (auto elim: dvdE)
    ultimately have "unat (a + n - 4) = unat a + unat n - 4" by (subst unat_sub) (simp_all add: word_le_nat_alt)
    then have "unat (a + n - 4) \<noteq> unat SYSERRp" using T(5) W(4) by (simp add: unsigned_minus_1_eq_mask mask_eq_exp_minus_1)
    then have "a + n - 4 \<noteq> SYSERRp" by metis
    moreover have "in_heap h (a, n)" using T(4-6) n n0 by (simp add: in_heap_def)
    moreover have "heap_wf h' bs'" using h' T(1) W(2) by (simp add: heap_wf_def)
    ultimately show thesis using ok h' T(2,3) by blast
  qed
qed

lemma free_block_disjoint:
  assumes ok: "fl_ok lo hi bs" and hi: "hi < 2 ^ 32" and b: "0 < unat (snd b)" "unat (fst b) + unat (snd b) \<le> hi"
    and dis: "block_bytes b \<inter> free_bytes bs = {}"
  shows "\<exists>bs'. free_block b bs = Some bs'"
proof -
  define xs ys where "xs = takeWhile (\<lambda>c. fst c < fst b) bs" and "ys = dropWhile (\<lambda>c. fst c < fst b) bs"
  have bs: "bs = xs @ ys" by (simp add: xs_def ys_def)
  have ue: "unat (blk_end c) = unat (fst c) + unat (snd c)" if "unat (fst c) + unat (snd c) \<le> hi" for c
    using that hi by (simp add: blk_end_def unat_word_ariths)
  have mem: "unat (fst c) + unat (snd c) \<le> hi \<and> 0 < unat (snd c)" if "c \<in> set bs" for c using fl_ok_ge [OF ok that] by simp
  have "\<not> fst b < blk_end (last xs)" if ne: "xs \<noteq> []"
  proof
    assume lt: "fst b < blk_end (last xs)"
    have l: "last xs \<in> set xs" "last xs \<in> set bs" using ne bs by auto
    then have "fst (last xs) < fst b" unfolding xs_def using set_takeWhileD by fast
    then have "unat (fst b) \<in> block_bytes (last xs)" using lt ue mem [OF l(2)] by (simp add: block_bytes_def word_less_nat_alt)
    moreover have "unat (fst b) \<in> block_bytes b" using b by (simp add: block_bytes_def)
    ultimately show False using dis l(2) by (auto simp: free_bytes_def)
  qed
  moreover have "\<not> fst (hd ys) < blk_end b" if ne: "ys \<noteq> []"
  proof
    assume lt: "fst (hd ys) < blk_end b"
    have l: "hd ys \<in> set bs" using ne bs by auto
    have "\<not> fst (hd ys) < fst b" using hd_dropWhile [of "\<lambda>c. fst c < fst b" bs] ne by (simp add: ys_def)
    then have "unat (fst (hd ys)) \<in> block_bytes b" using lt ue b by (simp add: block_bytes_def word_less_nat_alt word_le_nat_alt)
    moreover have "unat (fst (hd ys)) \<in> block_bytes (hd ys)" using mem [OF l] by (simp add: block_bytes_def)
    ultimately show False using dis l by (auto simp: free_bytes_def)
  qed
  ultimately show ?thesis
    unfolding free_block_def xs_def [symmetric] ys_def [symmetric] by (auto simp: Let_def split: prod.split)
qed

text \<open>What \<open>getmem\<close> returned can be given back, and the same bytes are free again.\<close>

lemma getmem_freemem:
  assumes "heap_wf h bs" "n \<noteq> 0" "unat n + 7 < 2 ^ 32" "getmem n h = Some (p, h1)" "p \<noteq> SYSERRp"
  shows "\<exists>h2 bs2. freemem p n h1 = Some (OK, h2) \<and> heap_wf h2 bs2 \<and> free_bytes bs2 = free_bytes bs"
proof -
  note W = heap_wfD [OF assms(1)]
  have "0 < unat n" using assms(2) by (simp add: unat_gt_0)
  then have r: "0 < unat (roundmb n)" "8 dvd unat (roundmb n)" using unat_roundmb [OF assms(3)] by simp_all
  obtain bs1 where ff: "first_fit (roundmb n) bs = Some (p, bs1)" and h1: "heap_rep h1 bs1" "minheap h1 = minheap h" "maxheap h1 = maxheap h"
    using getmem_refines [OF W(1) assms(2,3)] assms(4,5) by (auto split: option.splits prod.splits)
  note F = first_fit_Some [OF W(3,4) r ff]
  have wf1: "fl_ok (unat (minheap h1)) (unat (maxheap h1) + 1) bs1" using F(1) h1 by simp
  have hi: "unat (maxheap h1) + 1 < 2 ^ 32" using W(4) h1 by simp
  have b: "unat (minheap h1) \<le> unat p" "unat p + unat (roundmb n) \<le> unat (maxheap h1) + 1" using F h1 by simp_all
  have dis: "block_bytes (p, roundmb n) \<inter> free_bytes bs1 = {}" using F(3) by auto
  obtain bs2 where fb: "free_block (p, roundmb n) bs1 = Some bs2"
    using free_block_disjoint [OF wf1 hi, of "(p, roundmb n)"] r b dis by auto
  note G = free_block_ok [OF wf1 hi _ _ _ _ _ fb]
  have a: "minheap h1 \<le> p" "p \<le> maxheap h1" "0 < unat p" using b r W(2) h1 by (simp_all add: word_le_nat_alt)
  obtain h2 where h2: "freemem p n h1 = Some (OK, h2)" "heap_rep h2 bs2" "minheap h2 = minheap h1" "maxheap h2 = maxheap h1"
    using freemem_refines [OF h1(1) assms(2,3) a F(6) b(2)] fb by auto
  have "heap_wf h2 bs2" using h2 G(1) b r F(6) W(2) h1 by (simp add: heap_wf_def)
  moreover have "free_bytes bs2 = free_bytes bs" using G(2) b r F(2,3,6) by auto
  ultimately show ?thesis using h2(1) by blast
qed

lemma freestk_ok:
  assumes wf: "heap_wf h bs" and b: "in_heap h (a, n)" and dis: "block_bytes (a, n) \<inter> free_bytes bs = {}"
  obtains h' bs' where "freestk (a + n - 4) n h = Some (OK, h')" "heap_wf h' bs'" "free_bytes bs' = free_bytes bs \<union> block_bytes (a, n)"
    "minheap h' = minheap h" "maxheap h' = maxheap h"
proof -
  note W = heap_wfD [OF wf]
  have B: "unat (minheap h) \<le> unat a" "0 < unat n" "8 dvd unat a" "8 dvd unat n" "unat a + unat n \<le> unat (maxheap h) + 1"
    using b by (simp_all add: in_heap_def)
  note N = roundmb_id [OF B(4)]
  obtain bs' where f: "free_block (a, n) bs = Some bs'"
    using free_block_disjoint [OF W(3,4), of "(a, n)"] B dis by auto
  have n: "n \<noteq> 0" using B(2) by auto
  have a: "minheap h \<le> a" "a \<le> maxheap h" "0 < unat a" using B W(2) by (auto simp: word_le_nat_alt)
  obtain h' where h': "freemem a n h = Some (OK, h')" "heap_rep h' bs'" "minheap h' = minheap h" "maxheap h' = maxheap h"
    using freemem_refines [OF W(1) n N(2) a B(3)] B(5) f unfolding N(1) by auto
  note F = free_block_ok [OF W(3,4) _ _ _ _ _ f]
  have "heap_wf h' bs'" using F(1) h'(2-4) W(2) B by (simp add: heap_wf_def)
  moreover have "free_bytes bs' = free_bytes bs \<union> block_bytes (a, n)" using F(2) B by simp
  ultimately show thesis using that h' by (simp add: freestk_def N(1))
qed

text \<open>\<open>freestk\<close> returns whatever it is given.\<close>

lemma freemem_returns:
  assumes "heap_rep h bs"
  shows "\<exists>r h'. freemem a n h = Some (r, h')"
proof -
  have "\<exists>x. freemem_scan h a Memlist (memlist_next h) = Some x"
    using freemem_scan_finds [OF heap_repD(1) [OF assms] fl_ok_nonnull [OF heap_repD(2) [OF assms]]] heap_repD(4) [OF assms]
    by auto
  then show ?thesis by (auto simp: freemem_def Let_def split: prod.split)
qed

section \<open>The allocator interface\<close>

text \<open>
  What a client of the heap relies on: a successful allocation hands out bytes that were
  free and are free no longer, a successful release makes exactly the block's bytes free
  again, and neither touches any other byte.
\<close>

locale allocator =
  fixes inv :: "'h \<Rightarrow> bool"
    and avail :: "'h \<Rightarrow> nat set"
    and alloc :: "nat \<Rightarrow> 'h \<Rightarrow> (nat \<times> 'h) option"
    and release :: "nat \<Rightarrow> nat \<Rightarrow> 'h \<Rightarrow> 'h option"
    and ok_size :: "nat \<Rightarrow> bool"
  assumes alloc_ok: "inv h \<Longrightarrow> ok_size n \<Longrightarrow> alloc n h = Some (p, h') \<Longrightarrow>
      inv h' \<and> {p ..< p + n} \<subseteq> avail h \<and> avail h' = avail h - {p ..< p + n}"
    and release_ok: "inv h \<Longrightarrow> ok_size n \<Longrightarrow> release p n h = Some h' \<Longrightarrow>
      inv h' \<and> avail h \<inter> {p ..< p + n} = {} \<and> avail h' = avail h \<union> {p ..< p + n}"
begin

text \<open>A run of allocations; the blocks handed out never overlap.\<close>

primrec alloc_all :: "nat list \<Rightarrow> 'h \<Rightarrow> ((nat \<times> nat) list \<times> 'h) option" where
  "alloc_all [] h = Some ([], h)"
| "alloc_all (n # ns) h = alloc n h \<bind> (\<lambda>(p, h1). alloc_all ns h1 \<bind> (\<lambda>(bs, h2). Some ((p, n) # bs, h2)))"

lemma alloc_all_disjoint:
  assumes "inv h" "\<forall>n\<in>set ns. ok_size n" "alloc_all ns h = Some (bs, h')"
  shows "inv h' \<and> (\<Union>(p, n)\<in>set bs. {p ..< p + n}) \<subseteq> avail h
    \<and> avail h' = avail h - (\<Union>(p, n)\<in>set bs. {p ..< p + n})
    \<and> sorted_wrt (\<lambda>(p, n) (q, m). {p ..< p + n} \<inter> {q ..< q + m} = {}) bs"
  using assms
proof (induction ns arbitrary: h bs)
  case Nil
  then show ?case by simp
next
  case (Cons n ns)
  obtain p h1 bs1 where a: "alloc n h = Some (p, h1)" "alloc_all ns h1 = Some (bs1, h')" "bs = (p, n) # bs1"
    using Cons.prems(3) by (auto split: Option.bind_splits prod.splits)
  have ok: "inv h1" "{p ..< p + n} \<subseteq> avail h" "avail h1 = avail h - {p ..< p + n}"
    using alloc_ok [OF Cons.prems(1) _ a(1)] Cons.prems(2) by auto
  have IH: "inv h'" "(\<Union>(p, n)\<in>set bs1. {p ..< p + n}) \<subseteq> avail h1"
    "avail h' = avail h1 - (\<Union>(p, n)\<in>set bs1. {p ..< p + n})"
    "sorted_wrt (\<lambda>(p, n) (q, m). {p ..< p + n} \<inter> {q ..< q + m} = {}) bs1"
    using Cons.IH [OF ok(1) _ a(2)] Cons.prems(2) by auto
  have "{p ..< p + n} \<inter> {q ..< q + m} = {}" if "(q, m) \<in> set bs1" for q m
    using that IH(2) ok(3) by blast
  then show ?case using IH ok a(3) by auto
qed

lemma release_alloc:
  assumes "inv h" "ok_size n" "alloc n h = Some (p, h1)" "release p n h1 = Some h2"
  shows "inv h2 \<and> avail h2 = avail h"
  using alloc_ok [OF assms(1-3)] release_ok [OF _ assms(2,4)] by blast

end

text \<open>The code's allocator as an instance: the state is the heap with the free list it
  represents.\<close>

definition heap_inv :: "heap \<times> block list \<Rightarrow> bool" where
  "heap_inv s \<longleftrightarrow> heap_rep (fst s) (snd s) \<and> 0 < unat (minheap (fst s))"

definition heap_alloc :: "nat \<Rightarrow> heap \<times> block list \<Rightarrow> (nat \<times> heap \<times> block list) option" where
  "heap_alloc n s = getmem (of_nat n) (fst s) \<bind> (\<lambda>(p, h').
     first_fit (roundmb (of_nat n)) (snd s) \<bind> (\<lambda>(p', bs'). Some (unat p, h', bs')))"

definition heap_release :: "nat \<Rightarrow> nat \<Rightarrow> heap \<times> block list \<Rightarrow> (heap \<times> block list) option" where
  "heap_release p n s =
     (if 2 ^ 32 \<le> p \<or> \<not> 8 dvd p \<or> unat (maxheap (fst s)) + 1 < p + n then None else
      freemem (of_nat p) (of_nat n) (fst s) \<bind> (\<lambda>(r, h').
       if r = OK then free_block (of_nat p, roundmb (of_nat n)) (snd s) \<bind> (\<lambda>bs'. Some (h', bs')) else None))"

definition heap_size :: "nat \<Rightarrow> bool" where
  "heap_size n \<longleftrightarrow> 0 < n \<and> n + 7 < 2 ^ 32 \<and> 8 dvd n"

lemma heap_size_round:
  assumes "heap_size n"
  shows "unat (of_nat n :: u32) = n" "(of_nat n :: u32) \<noteq> 0" "unat (roundmb (of_nat n)) = n"
proof -
  show u: "unat (of_nat n :: u32) = n" using assms by (simp add: heap_size_def unat_of_nat)
  then show "(of_nat n :: u32) \<noteq> 0" using assms by (auto simp: heap_size_def)
  obtain k where k: "n = 8 * k" using assms by (auto simp: heap_size_def)
  have "(8 * k + 7) div 8 = k" by simp
  then show "unat (roundmb (of_nat n)) = n"
    using unat_roundmb [of "of_nat n"] u assms k by (simp add: heap_size_def)
qed

interpretation heap_allocator: allocator heap_inv "\<lambda>s. free_bytes (snd s)" heap_alloc heap_release heap_size
proof
  fix s n p s'
  assume inv: "heap_inv s" and sz: "heap_size n" and al: "heap_alloc n s = Some (p, s')"
  obtain h bs where s: "s = (h, bs)" by (cases s)
  have rep: "heap_rep h bs" using inv s by (simp add: heap_inv_def)
  note R = heap_size_round [OF sz] and H = heap_repD [OF rep]
  have n7: "unat (of_nat n :: u32) + 7 < 2 ^ 32" using R sz by (simp add: heap_size_def)
  obtain a bs' where ff: "first_fit (roundmb (of_nat n)) bs = Some (a, bs')"
    using al s by (auto simp: heap_alloc_def split: Option.bind_splits)
  have "0 < unat (roundmb (of_nat n))" "8 dvd unat (roundmb (of_nat n))"
    using R(3) sz by (auto simp: heap_size_def)
  note F = first_fit_Some [OF H(2,3) this ff]
  show "heap_inv s' \<and> {p ..< p + n} \<subseteq> free_bytes (snd s) \<and> free_bytes (snd s') = free_bytes (snd s) - {p ..< p + n}"
    using getmem_refines [OF rep R(2) n7] ff al s F inv R(3)
    by (auto simp: heap_alloc_def heap_inv_def block_bytes_def)
next
  fix s n p s'
  assume inv: "heap_inv s" and sz: "heap_size n" and re: "heap_release p n s = Some s'"
  obtain h bs where s: "s = (h, bs)" by (cases s)
  have rep: "heap_rep h bs" and mh: "0 < unat (minheap h)" using inv s by (simp_all add: heap_inv_def)
  note R = heap_size_round [OF sz] and H = heap_repD [OF rep]
  have n7: "unat (of_nat n :: u32) + 7 < 2 ^ 32" using R sz by (simp add: heap_size_def)
  have p: "p < 2 ^ 32" "8 dvd p" "p + n \<le> unat (maxheap h) + 1" using re s by (auto simp: heap_release_def split: if_splits)
  have up: "unat (of_nat p :: u32) = p" using p(1) by (simp add: unat_of_nat)
  obtain h' bs' where fm: "freemem (of_nat p) (of_nat n) h = Some (OK, h')"
    and fb: "free_block (of_nat p, roundmb (of_nat n)) bs = Some bs'" and s': "s' = (h', bs')"
    using re s by (auto simp: heap_release_def split: Option.bind_splits if_splits)
  have "minheap h \<le> of_nat p"
    using fm R(2) by (auto simp: freemem_def not_less split: if_splits)
  moreover from this have "0 < unat (of_nat p :: u32)" using mh by (simp add: word_le_nat_alt)
  moreover have "of_nat p \<le> maxheap h" using fm R(2) by (auto simp: freemem_def not_less split: if_splits)
  ultimately have A: "minheap h \<le> of_nat p" "of_nat p \<le> maxheap h" "0 < unat (of_nat p :: u32)"
    "8 dvd unat (of_nat p :: u32)" "unat (of_nat p :: u32) + unat (roundmb (of_nat n)) \<le> unat (maxheap h) + 1"
    using p up R(3) by simp_all
  have F: "fl_ok 1 (unat (maxheap h) + 1) bs'"
    "free_bytes bs' = free_bytes bs \<union> block_bytes (of_nat p, roundmb (of_nat n))"
    "free_bytes bs \<inter> block_bytes (of_nat p, roundmb (of_nat n)) = {}"
    using free_block_ok [OF H(2,3) _ _ _ _ _ fb] A R(3) sz by (simp_all add: heap_size_def)
  show "heap_inv s' \<and> free_bytes (snd s) \<inter> {p ..< p + n} = {} \<and> free_bytes (snd s') = free_bytes (snd s) \<union> {p ..< p + n}"
    using freemem_refines [OF rep R(2) n7 A] fb fm s s' F mh up R(3)
    by (auto simp: heap_inv_def block_bytes_def)
qed

end
