(* ===== verification/Paging.thy ===== *)
theory Paging
  imports Prelude
begin

text \<open>
  The page tables of the paging project: \<^verbatim>\<open>include/paging.h\<close>, the set-up of the system
  page directory (\<^verbatim>\<open>system/initialize.c\<close>), the creation of a user page directory
  (\<^verbatim>\<open>system/vcreate.c\<close>), its destruction (\<^verbatim>\<open>kill_vm\<close> in
  \<^verbatim>\<open>system/kill.c\<close>) and the statistics of \<^verbatim>\<open>system/utility_functions.c\<close>.

  Physical memory is seen as an array of 4-byte entries: entry \<open>e\<close> is the word at address
  \<open>4 * e\<close>, so \<open>pt[j]\<close> of the page table in frame \<open>f\<close> is entry \<open>1024 * f + j\<close>, also when
  \<open>j\<close> runs past the end of the page, as it does for the 16 consecutive tables of the frame
  (FFS) area. \<open>pd_t\<close> and \<open>pt_t\<close> are two views of the same word and the code reads a page
  through either (\<open>pt[0].pt_avail\<close> of a page directory), so one record stands for both:
  \<open>p_b6\<close> is \<open>pd_mbz\<close> or \<open>pt_dirty\<close>, \<open>p_b7\<close> is \<open>pd_fmb\<close> or \<open>pt_mbz\<close>.
  Frame numbers (addresses divided by 4096) are natural numbers.
\<close>

section \<open>Entries and tables\<close>

record pte =
  p_pres :: bool
  p_write :: bool
  p_user :: bool
  p_pwt :: bool
  p_pcd :: bool
  p_acc :: bool
  p_b6 :: bool
  p_b7 :: bool
  p_global :: bool
  p_avail :: nat
  p_base :: nat

type_synonym pmem = "nat \<Rightarrow> pte"

abbreviation XINU_PAGES :: nat where "XINU_PAGES \<equiv> 8192"
abbreviation MAX_FFS_SIZE :: nat where "MAX_FFS_SIZE \<equiv> 16384"
abbreviation MAX_PT_SIZE :: nat where "MAX_PT_SIZE \<equiv> 1024"

text \<open>\<open>PAGE_DIR_ADDR_START\<close> and \<open>PD_PT_AREA_END\<close> as frame numbers, and the first of the
  page tables that describe the FFS area,
  \<open>PAGE_DIR_ADDR_START + XINU_PAGES * 4 + PAGE_SIZE\<close>.\<close>

abbreviation PD_START :: nat where "PD_START \<equiv> 24576"
abbreviation PD_END :: nat where "PD_END \<equiv> 25600"
abbreviation FFS_PT :: nat where "FFS_PT \<equiv> 24585"

lemma area_constants:
  "PD_START = XINU_PAGES + MAX_FFS_SIZE" "PD_END = PD_START + MAX_PT_SIZE"
  "4096 * FFS_PT = 4096 * PD_START + XINU_PAGES * 4 + 4096"
  by simp_all

definition ent :: "nat \<Rightarrow> nat \<Rightarrow> nat" where "ent f j = 1024 * f + j"

lemma ent_div [simp]: "j < 1024 \<Longrightarrow> ent f j div 1024 = f" "j < 1024 \<Longrightarrow> ent f j mod 1024 = j"
  by (simp_all add: ent_def)

lemma ent_split: "ent (e div 1024) (e mod 1024) = e"
  by (simp add: ent_def)

lemma ent_eq_iff: "j < 1024 \<Longrightarrow> e = ent f j \<longleftrightarrow> e div 1024 = f \<and> e mod 1024 = j"
  by (metis ent_div ent_split)

lemma ent_inject [simp]: "j < 1024 \<Longrightarrow> j' < 1024 \<Longrightarrow> ent f j = ent f' j' \<longleftrightarrow> f = f' \<and> j = j'"
  by (metis ent_div)

lemma ent_page: "ent f 0 \<le> e \<and> e < ent f 0 + 1024 \<longleftrightarrow> e div 1024 = f"
  by (auto simp: ent_def div_nat_eqI)

lemma ent_page_offset: "e div 1024 = f \<Longrightarrow> e - ent f 0 = e mod 1024"
  by (auto simp: ent_def modulo_nat_def mult.commute)

definition upd :: "nat \<Rightarrow> (pte \<Rightarrow> pte) \<Rightarrow> pmem \<Rightarrow> pmem" where
  "upd e g m = m(e := g (m e))"

text \<open>The loop \<open>for (j = 0; j < n; j++) t[j] = g(j, t[j])\<close> over the entries from \<open>e\<close> on.\<close>

definition for_upd :: "nat \<Rightarrow> nat \<Rightarrow> (nat \<Rightarrow> pte \<Rightarrow> pte) \<Rightarrow> pmem \<Rightarrow> pmem" where
  "for_upd e n g m = fold (\<lambda>j. upd (e + j) (g j)) [0..<n] m"

lemma for_upd_apply:
  "for_upd e n g m x = (if e \<le> x \<and> x < e + n then g (x - e) (m x) else m x)"
proof (induction n)
  case 0
  then show ?case by (auto simp: for_upd_def)
next
  case (Suc n)
  have "for_upd e (Suc n) g m = upd (e + n) (g n) (for_upd e n g m)" by (simp add: for_upd_def)
  then show ?case using Suc by (auto simp: upd_def)
qed

lemma for_upd_page:
  "for_upd (ent f 0) 1024 g m e = (if e div 1024 = f then g (e mod 1024) (m e) else m e)"
  unfolding for_upd_apply ent_page using ent_page_offset by auto

definition pt_valid :: "pte \<Rightarrow> bool" where "pt_valid p \<longleftrightarrow> bit (p_avail p) 0"
definition pt_exists :: "pte \<Rightarrow> bool" where "pt_exists p \<longleftrightarrow> bit (p_avail p) 1"

text \<open>The address-space state: the table words, the control registers the code uses and the
  interrupt flag that \<open>disable\<close> saves and \<open>restore\<close> puts back.\<close>

record vm =
  pmem :: pmem
  cr3 :: u32
  cr2 :: u32
  ints :: bool

definition disable :: "vm \<Rightarrow> bool \<times> vm" where "disable v = (ints v, v\<lparr>ints := False\<rparr>)"
definition restore :: "bool \<Rightarrow> vm \<Rightarrow> vm" where "restore saved v = v\<lparr>ints := saved\<rparr>"

definition read_cr3 :: "vm \<Rightarrow> u32" where "read_cr3 v = cr3 v"
definition write_cr3 :: "u32 \<Rightarrow> vm \<Rightarrow> vm" where "write_cr3 n v = v\<lparr>cr3 := n\<rparr>"

abbreviation PAGE_DIR_ADDR_START :: u32 where "PAGE_DIR_ADDR_START \<equiv> 100663296"

text \<open>Switching to another page directory while keeping the twelve flag bits of CR3, as every
  caller spells it out.\<close>

definition load_pd :: "u32 \<Rightarrow> vm \<Rightarrow> vm" where
  "load_pd addr v = write_cr3 ((addr AND 0xFFFFF000) OR (read_cr3 v AND 0x00000FFF)) v"

definition frame_of :: "u32 \<Rightarrow> nat" where "frame_of a = unat a div 4096"

section \<open>Address translation\<close>

text \<open>What the processor does with the tables: two levels, ten bits of index each. Not code of
  the repository but the reading of the tables the properties are stated against.\<close>

definition translate :: "pmem \<Rightarrow> nat \<Rightarrow> nat \<Rightarrow> nat option" where
  "translate m pd va =
     (let pde = m (ent pd (va div 4194304)) in
      if \<not> p_pres pde then None
      else let e = m (ent (p_base pde) (va div 4096 mod 1024)) in
        if p_pres e then Some (4096 * p_base e + va mod 4096) else None)"

section \<open>The system page directory\<close>

definition pd_clear :: "pte \<Rightarrow> pte" where
  "pd_clear p = p\<lparr>p_pres := False, p_write := True, p_user := False, p_pwt := False, p_pcd := False,
     p_acc := False, p_b6 := False, p_b7 := False, p_global := False, p_avail := 2, p_base := 0\<rparr>"

definition pd_set :: "nat \<Rightarrow> pte \<Rightarrow> pte" where
  "pd_set f p = p\<lparr>p_base := f, p_pres := True, p_pwt := True, p_pcd := True, p_acc := True, p_avail := 3\<rparr>"

definition sys_pte :: "nat \<Rightarrow> nat \<Rightarrow> pte \<Rightarrow> pte" where
  "sys_pte i j p = p\<lparr>p_pres := True, p_write := True, p_user := False, p_pwt := True, p_pcd := True,
     p_acc := True, p_b6 := False, p_b7 := False, p_global := False,
     p_avail := (if i < 8 then 3 else 2), p_base := 1024 * i + j\<rparr>"

definition init_sys_table :: "nat \<Rightarrow> pmem \<Rightarrow> pmem" where
  "init_sys_table i m =
     (let base = PD_START + Suc i;
          m1 = upd (ent PD_START i) (pd_set base) m
      in for_upd (ent base 0) 1024 (\<lambda>j. sys_pte i j) m1)"

definition initialize_page_table :: "vm \<Rightarrow> u32 \<times> vm" where
  "initialize_page_table v =
     (let (saved, v1) = disable v;
          m1 = for_upd (ent PD_START 0) 1024 (\<lambda>_. pd_clear) (pmem v1);
          pd_entries = (XINU_PAGES + MAX_FFS_SIZE + MAX_PT_SIZE) div 1024;
          m2 = fold init_sys_table [0..<pd_entries] m1;
          v2 = v1\<lparr>pmem := m2\<rparr>;
          v3 = load_pd PAGE_DIR_ADDR_START v2
      in (cr3 v3, restore saved v3))"

lemma init_sys_table_apply:
  "i < 1024 \<Longrightarrow> init_sys_table i m e =
    (if e div 1024 = PD_START + Suc i then sys_pte i (e mod 1024) (m e)
     else if e div 1024 = PD_START \<and> e mod 1024 = i then pd_set (PD_START + Suc i) (m e) else m e)"
  unfolding init_sys_table_def Let_def for_upd_page upd_def
  using ent_eq_iff [of i e PD_START] by auto

lemma init_sys_tables:
  "n \<le> 1000 \<Longrightarrow> fold init_sys_table [0..<n] m e =
    (if PD_START < e div 1024 \<and> e div 1024 \<le> PD_START + n then sys_pte (e div 1024 - PD_START - 1) (e mod 1024) (m e)
     else if e div 1024 = PD_START \<and> e mod 1024 < n then pd_set (PD_START + Suc (e mod 1024)) (m e) else m e)"
proof (induction n)
  case 0
  then show ?case by auto
next
  case (Suc n)
  then show ?case by (auto simp: init_sys_table_apply)
qed

lemma initialize_page_table_entry:
  fixes e :: nat and v :: vm
  defines "m' \<equiv> pmem (snd (initialize_page_table v))"
  shows "m' e =
    (if PD_START < e div 1024 \<and> e div 1024 \<le> PD_START + 25
     then sys_pte (e div 1024 - PD_START - 1) (e mod 1024) (pmem v e)
     else if e div 1024 = PD_START
     then if e mod 1024 < 25 then pd_set (PD_START + Suc (e mod 1024)) (pd_clear (pmem v e)) else pd_clear (pmem v e)
     else pmem v e)"
proof -
  have "m' = fold init_sys_table [0..<25] (for_upd (ent PD_START 0) 1024 (\<lambda>_. pd_clear) (pmem v))"
    by (simp add: m'_def initialize_page_table_def disable_def restore_def load_pd_def write_cr3_def Let_def)
  moreover have "(25::nat) \<le> 1000" by simp
  note init_sys_tables [OF this, of "for_upd (ent PD_START 0) 1024 (\<lambda>_. pd_clear) (pmem v)" e]
  ultimately show ?thesis by (auto simp: for_upd_page)
qed

section \<open>User page directories\<close>

text \<open>\<open>initialize_user_page_dir\<close> walks the pages from \<open>PAGE_DIR_ADDR_START\<close> on until it finds
  one whose first entry does not have the "exists" bit; the walk has no bound of its own.\<close>

partial_function (option) free_page_scan :: "pmem \<Rightarrow> nat \<Rightarrow> nat option" where
  "free_page_scan m f = (if pt_exists (m (ent f 0)) then free_page_scan m ((f + 1) mod 2 ^ 20) else Some f)"

declare free_page_scan.simps [code]

definition initialize_user_page_dir :: "pmem \<Rightarrow> (nat \<times> pmem) option" where
  "initialize_user_page_dir m =
     free_page_scan m PD_START \<bind> (\<lambda>f.
       let m1 = for_upd (ent f 0) 1024 (\<lambda>_. pd_clear) m;
           pd_entries = XINU_PAGES div 1024;
           m2 = fold (\<lambda>i. upd (ent f i) (pd_set (PD_START + Suc i))) [0..<pd_entries] m1
       in Some (f, m2))"

lemma free_page_scan_finds:
  assumes "f \<le> g" "g < 2 ^ 20" "\<And>k. f \<le> k \<Longrightarrow> k < g \<Longrightarrow> pt_exists (m (ent k 0))" "\<not> pt_exists (m (ent g 0))"
  shows "free_page_scan m f = Some g"
  using assms
proof (induction "g - f" arbitrary: f)
  case 0
  then show ?case by (subst free_page_scan.simps) simp
next
  case (Suc n)
  then have "free_page_scan m (f + 1) = Some g" by (intro Suc.hyps(1)) auto
  moreover have "(f + 1) mod 2 ^ 20 = f + 1" using Suc by simp
  moreover have "pt_exists (m (ent f 0))" using Suc by simp
  ultimately show ?case by (subst free_page_scan.simps) simp
qed

lemma fold_upd_entries:
  "n \<le> 1024 \<Longrightarrow> fold (\<lambda>i. upd (ent f i) (g i)) [0..<n] m e =
    (if e div 1024 = f \<and> e mod 1024 < n then g (e mod 1024) (m e) else m e)"
proof (induction n)
  case (Suc n)
  then show ?case using ent_eq_iff [of n e f] by (auto simp: upd_def)
qed simp

lemma user_page_dir_entry:
  assumes "initialize_user_page_dir m = Some (f, m')"
  shows "m' e =
    (if e div 1024 = f
     then if e mod 1024 < 8 then pd_set (PD_START + Suc (e mod 1024)) (pd_clear (m e)) else pd_clear (m e)
     else m e)"
  using assms fold_upd_entries [of 8 f "\<lambda>i. pd_set (PD_START + Suc i)"]
  by (auto simp: initialize_user_page_dir_def for_upd_page split: Option.bind_splits)

lemma user_page_dir_returns:
  assumes "PD_START \<le> g" "g < 2 ^ 20" "\<And>k. PD_START \<le> k \<Longrightarrow> k < g \<Longrightarrow> pt_exists (m (ent k 0))"
    "\<not> pt_exists (m (ent g 0))"
  shows "\<exists>m'. initialize_user_page_dir m = Some (g, m')"
  using free_page_scan_finds [of PD_START g m, OF assms] by (simp add: initialize_user_page_dir_def Let_def)

text \<open>With every page of memory in use the walk never ends.\<close>

lemma free_page_scan_full:
  assumes "\<And>f. f < 2 ^ 20 \<Longrightarrow> pt_exists (m (ent f 0))" "f < 2 ^ 20"
  shows "free_page_scan m f = None"
proof (rule ccontr)
  assume "free_page_scan m f \<noteq> None"
  then obtain r where r: "free_page_scan m f = Some r" by auto
  have "m = m \<longrightarrow> f < 2 ^ 20 \<longrightarrow> False"
  proof (rule free_page_scan.raw_induct [where P = "\<lambda>m' f r. m' = m \<longrightarrow> f < 2 ^ 20 \<longrightarrow> False", OF _ r])
    fix scan m' f r
    assume IH: "\<And>m' f r. scan m' f = Some r \<Longrightarrow> m' = m \<longrightarrow> f < 2 ^ 20 \<longrightarrow> False"
      and eq: "(if pt_exists (m' (ent f 0)) then scan m' ((f + 1) mod 2 ^ 20) else Some f) = Some r"
    show "m' = m \<longrightarrow> f < 2 ^ 20 \<longrightarrow> False"
      using eq assms(1) IH [of m "(f + 1) mod 2 ^ 20" r] by (auto split: if_splits)
  qed
  with assms(2) show False by simp
qed

section \<open>Frames of the FFS area\<close>

abbreviation ffs :: "nat \<Rightarrow> nat" where "ffs k \<equiv> ent FFS_PT 0 + k"

definition ffs_entry :: "nat \<Rightarrow> bool" where
  "ffs_entry e \<longleftrightarrow> ent FFS_PT 0 \<le> e \<and> e < ent FFS_PT 0 + MAX_FFS_SIZE"

text \<open>The inner loop of \<open>kill_vm\<close> and \<open>vfree\<close>: every FFS entry with this base is marked free.\<close>

definition release_ffs :: "nat \<Rightarrow> pmem \<Rightarrow> pmem" where
  "release_ffs b m = for_upd (ent FFS_PT 0) MAX_FFS_SIZE
     (\<lambda>_ p. if p_base p = b then p\<lparr>p_avail := 2\<rparr> else p) m"

definition pte_zero :: pte where
  "pte_zero = \<lparr>p_pres = False, p_write = False, p_user = False, p_pwt = False, p_pcd = False, p_acc = False,
     p_b6 = False, p_b7 = False, p_global = False, p_avail = 0, p_base = 0\<rparr>"

definition kill_pte :: "nat \<Rightarrow> pmem \<Rightarrow> pmem" where
  "kill_pte e m = upd e (\<lambda>_. pte_zero) (if p_pres (m e) then release_ffs (p_base (m e)) m else m)"

definition kill_pde :: "nat \<Rightarrow> nat \<Rightarrow> pmem \<Rightarrow> pmem" where
  "kill_pde pd i m =
     (let pde = m (ent pd i);
          m1 = (if p_pres pde \<and> XINU_PAGES div MAX_PT_SIZE \<le> i
                then fold (\<lambda>j. kill_pte (ent (p_base pde) j)) [0..<1024] m else m)
      in upd (ent pd i) (\<lambda>_. pte_zero) m1)"

definition kill_vm :: "u32 \<Rightarrow> vm \<Rightarrow> vm" where
  "kill_vm page_addr v =
     (let v1 = load_pd PAGE_DIR_ADDR_START v in
      if page_addr \<noteq> PAGE_DIR_ADDR_START
      then v1\<lparr>pmem := fold (kill_pde (frame_of page_addr)) [0..<1024] (pmem v1)\<rparr>
      else v1)"

text \<open>The loop of the page-fault handler that takes the first frame whose valid bit is clear.\<close>

definition find_ffs :: "pmem \<Rightarrow> nat option" where
  "find_ffs m = find (\<lambda>i. \<not> pt_valid (m (ffs i))) [0..<MAX_FFS_SIZE]"

definition map_page :: "nat \<Rightarrow> pmem \<Rightarrow> pmem" where
  "map_page e m =
     (case find_ffs m of None \<Rightarrow> m
      | Some i \<Rightarrow>
        let m1 = upd e (\<lambda>p. p\<lparr>p_base := p_base (m (ffs i))\<rparr>) m;
            m2 = upd e (\<lambda>p. p\<lparr>p_pres := True\<rparr>) m1
        in upd (ffs i) (\<lambda>p. p\<lparr>p_avail := 3\<rparr>) m2)"

section \<open>Statistics\<close>

definition free_ffs_count :: "pmem \<Rightarrow> nat" where
  "free_ffs_count m = fold (\<lambda>i n. if pt_valid (m (ffs i)) then n else Suc n) [0..<MAX_FFS_SIZE] 0"

text \<open>The three functions bracket the count with a switch to the system directory and back to the
  directory of the current process, and with \<open>disable\<close> and \<open>restore\<close>.\<close>

definition bracket :: "u32 \<Rightarrow> (pmem \<Rightarrow> nat) \<Rightarrow> vm \<Rightarrow> nat \<times> vm" where
  "bracket curr_page_addr count v =
     (let (saved, v1) = disable v;
          v2 = load_pd PAGE_DIR_ADDR_START v1;
          n = count (pmem v2);
          v3 = load_pd curr_page_addr v2
      in (n, restore saved v3))"

definition free_ffs_pages :: "u32 \<Rightarrow> vm \<Rightarrow> nat \<times> vm" where
  "free_ffs_pages curr_page_addr v = bracket curr_page_addr free_ffs_count v"

definition free_swap_pages :: nat where "free_swap_pages = 0"

definition count_entries :: "(pte \<Rightarrow> bool) \<Rightarrow> nat \<Rightarrow> nat \<Rightarrow> pmem \<Rightarrow> nat" where
  "count_entries P pd from m =
     fold (\<lambda>i n. if p_pres (m (ent pd i))
                 then fold (\<lambda>j n. if P (m (ent (p_base (m (ent pd i))) j)) then Suc n else n) [0..<1024] n
                 else n) [from..<1024] 0"

definition allocated_virtual_pages :: "u32 \<Rightarrow> u32 \<Rightarrow> vm \<Rightarrow> nat \<times> vm" where
  "allocated_virtual_pages curr_page_addr page_addr v =
     bracket curr_page_addr (count_entries pt_valid (frame_of page_addr) 0) v"

definition used_ffs_frames :: "u32 \<Rightarrow> u32 \<Rightarrow> vm \<Rightarrow> nat \<times> vm" where
  "used_ffs_frames curr_page_addr page_addr v =
     bracket curr_page_addr (count_entries p_pres (frame_of page_addr) (XINU_PAGES div MAX_PT_SIZE)) v"

section \<open>Isolation: no frame is mapped twice\<close>

text \<open>\<open>P\<close> is the set of page-table entries of the private heaps. Every present one maps a frame
  of the FFS area that is marked taken, and no two map the same frame.\<close>

definition frames_ok :: "pmem \<Rightarrow> bool" where
  "frames_ok m \<longleftrightarrow> (\<forall>k<MAX_FFS_SIZE. p_base (m (ffs k)) = XINU_PAGES + k)"

definition isolated :: "nat set \<Rightarrow> pmem \<Rightarrow> bool" where
  "isolated P m \<longleftrightarrow> frames_ok m \<and> (\<forall>e\<in>P. \<not> ffs_entry e)
     \<and> (\<forall>e\<in>P. p_pres (m e) \<longrightarrow> (\<exists>k<MAX_FFS_SIZE. p_base (m e) = XINU_PAGES + k \<and> pt_valid (m (ffs k))))
     \<and> (\<forall>e\<in>P. \<forall>e'\<in>P. p_pres (m e) \<longrightarrow> p_pres (m e') \<longrightarrow> p_base (m e) = p_base (m e') \<longrightarrow> e = e')"

lemma ffs_entry_ffs [simp]: "k < MAX_FFS_SIZE \<Longrightarrow> ffs_entry (ffs k)"
  by (simp add: ffs_entry_def)

lemma find_Some: "find Q xs = Some x \<Longrightarrow> x \<in> set xs \<and> Q x"
  by (induction xs) (auto split: if_splits)

lemma find_ffs_Some:
  "find_ffs m = Some i \<Longrightarrow> i < MAX_FFS_SIZE \<and> \<not> pt_valid (m (ffs i))"
  unfolding find_ffs_def by (drule find_Some) simp

lemma find_ffs_None: "find_ffs m = None \<longleftrightarrow> (\<forall>i<MAX_FFS_SIZE. pt_valid (m (ffs i)))"
  unfolding find_ffs_def find_None_iff by auto

lemma map_page_apply:
  assumes "find_ffs m = Some i" "frames_ok m" "\<not> ffs_entry e"
  shows "map_page e m x =
    (if x = e then (m e)\<lparr>p_base := XINU_PAGES + i, p_pres := True\<rparr>
     else if x = ffs i then (m x)\<lparr>p_avail := 3\<rparr> else m x)"
proof -
  have i: "i < MAX_FFS_SIZE" using find_ffs_Some [OF assms(1)] by simp
  have "e \<noteq> ffs i" using assms(3) i ffs_entry_ffs by metis
  then show ?thesis using assms(1,2) i by (auto simp: map_page_def upd_def Let_def frames_ok_def)
qed

lemma pt_valid_avail: "p_avail p = 3 \<Longrightarrow> pt_valid p" "p_avail p = 2 \<Longrightarrow> \<not> pt_valid p"
    "p_avail p = 0 \<Longrightarrow> \<not> pt_valid p" "p_avail p = 2 \<Longrightarrow> pt_exists p" "p_avail p = 3 \<Longrightarrow> pt_exists p"
    "p_avail p = 0 \<Longrightarrow> \<not> pt_exists p"
  by (simp_all add: pt_valid_def pt_exists_def bit_iff_odd)

lemma map_page_isolated:
  assumes iso: "isolated P m" and e: "e \<in> P"
  shows "isolated P (map_page e m)"
proof (cases "find_ffs m")
  case None
  then show ?thesis using iso by (simp add: map_page_def)
next
  case (Some i)
  note i = find_ffs_Some [OF Some]
  have ne: "\<not> ffs_entry e" and fr: "frames_ok m" using iso e by (auto simp: isolated_def)
  note A = map_page_apply [OF Some fr ne]
  have Pf: "x \<noteq> ffs k" if "x \<in> P" "k < MAX_FFS_SIZE" for x k
    using iso that ffs_entry_ffs [OF that(2)] unfolding isolated_def by metis
  have pe: "map_page e m x = m x" if "x \<in> P" "x \<noteq> e" for x using A that Pf i by auto
  have ee: "p_pres (map_page e m e)" "p_base (map_page e m e) = XINU_PAGES + i" using A by simp_all
  have vk: "pt_valid (map_page e m (ffs k))" if "k < MAX_FFS_SIZE" "pt_valid (m (ffs k)) \<or> k = i" for k
    using that A Pf [OF e that(1)] by (auto simp: pt_valid_def)
  have "frames_ok (map_page e m)"
    unfolding frames_ok_def
  proof (intro allI impI)
    fix k assume "k < MAX_FFS_SIZE"
    then show "p_base (map_page e m (ffs k)) = XINU_PAGES + k"
      using A [of "ffs k"] Pf [OF e] fr by (auto simp: frames_ok_def)
  qed
  moreover have "\<exists>k<MAX_FFS_SIZE. p_base (map_page e m x) = XINU_PAGES + k \<and> pt_valid (map_page e m (ffs k))"
    if "x \<in> P" "p_pres (map_page e m x)" for x
  proof (cases "x = e")
    case True
    then show ?thesis using i vk ee by blast
  next
    case False
    then have "\<exists>k<MAX_FFS_SIZE. p_base (m x) = XINU_PAGES + k \<and> pt_valid (m (ffs k))"
      using that pe iso by (simp add: isolated_def)
    then show ?thesis using pe [OF that(1) False] vk by auto
  qed
  moreover have "x = y" if "x \<in> P" "y \<in> P" "p_pres (map_page e m x)" "p_pres (map_page e m y)"
    "p_base (map_page e m x) = p_base (map_page e m y)" for x y
  proof -
    have other: False if "z \<in> P" "z \<noteq> e" "p_pres (m z)" "p_base (m z) = XINU_PAGES + i" for z
      using that iso i unfolding isolated_def by fastforce
    show ?thesis
    proof (cases "x = e \<or> y = e")
      case True
      then show ?thesis using that pe ee other by metis
    next
      case False
      then show ?thesis using that pe iso unfolding isolated_def by metis
    qed
  qed
  ultimately show ?thesis using iso unfolding isolated_def by blast
qed

section \<open>Tearing down an address space\<close>

lemma release_ffs_apply:
  "release_ffs b m x = (if ffs_entry x \<and> p_base (m x) = b then (m x)\<lparr>p_avail := 2\<rparr> else m x)"
  unfolding release_ffs_def for_upd_apply by (auto simp: ffs_entry_def)

lemma kill_pte_apply:
  "kill_pte e m x = (if x = e then pte_zero
    else if ffs_entry x \<and> p_pres (m e) \<and> p_base (m e) = p_base (m x) then (m x)\<lparr>p_avail := 2\<rparr> else m x)"
  by (auto simp: kill_pte_def upd_def release_ffs_apply)

lemma kill_ptes_apply:
  assumes "distinct es" "\<And>e. e \<in> set es \<Longrightarrow> \<not> ffs_entry e"
  shows "fold kill_pte es m x = (if x \<in> set es then pte_zero
    else if ffs_entry x \<and> (\<exists>e\<in>set es. p_pres (m e) \<and> p_base (m e) = p_base (m x)) then (m x)\<lparr>p_avail := 2\<rparr>
    else m x)"
  using assms
proof (induction es arbitrary: m)
  case (Cons e es)
  have k: "kill_pte e m y = m y" if "y \<in> set es" for y
    using that Cons.prems by (auto simp: kill_pte_apply)
  have ex: "(\<exists>y\<in>set es. p_pres (kill_pte e m y) \<and> p_base (kill_pte e m y) = b)
      \<longleftrightarrow> (\<exists>y\<in>set es. p_pres (m y) \<and> p_base (m y) = b)" for b
    using k by (simp cong: bex_cong)
  have IH: "fold kill_pte es (kill_pte e m) x = (if x \<in> set es then pte_zero
    else if ffs_entry x \<and> (\<exists>y\<in>set es. p_pres (m y) \<and> p_base (m y) = p_base (kill_pte e m x))
    then (kill_pte e m x)\<lparr>p_avail := 2\<rparr> else kill_pte e m x)"
    using Cons.IH [of "kill_pte e m"] Cons.prems unfolding ex by simp
  show ?case
  proof (cases "x = e")
    case True
    then have "kill_pte e m x = pte_zero" "\<not> ffs_entry x" using Cons.prems by (simp_all add: kill_pte_apply)
    then show ?thesis using IH True by simp
  next
    case False
    then have "p_base (kill_pte e m x) = p_base (m x)" by (simp add: kill_pte_apply)
    then show ?thesis using IH False kill_pte_apply [of e m x] by auto
  qed
qed simp

text \<open>The tables of an address space: page-table frames of the present directory entries above the
  shared kernel ones, and the entries they hold.\<close>

definition heap_tables :: "pmem \<Rightarrow> nat \<Rightarrow> nat \<Rightarrow> nat set" where
  "heap_tables m pd n = {p_base (m (ent pd i)) |i. 8 \<le> i \<and> i < n \<and> p_pres (m (ent pd i))}"

definition heap_entries :: "pmem \<Rightarrow> nat \<Rightarrow> nat \<Rightarrow> nat set" where
  "heap_entries m pd n = {e. e div 1024 \<in> heap_tables m pd n}"

definition space_ok :: "pmem \<Rightarrow> nat \<Rightarrow> bool" where
  "space_ok m pd \<longleftrightarrow> \<not> (FFS_PT \<le> pd \<and> pd < FFS_PT + 16)
     \<and> (\<forall>f\<in>heap_tables m pd 1024. f \<noteq> pd \<and> \<not> (FFS_PT \<le> f \<and> f < FFS_PT + 16))
     \<and> (\<forall>i<1024. \<forall>i'<1024. 8 \<le> i \<longrightarrow> 8 \<le> i' \<longrightarrow> p_pres (m (ent pd i)) \<longrightarrow> p_pres (m (ent pd i')) \<longrightarrow>
          p_base (m (ent pd i)) = p_base (m (ent pd i')) \<longrightarrow> i = i')"

lemma space_ok_inj:
  "space_ok m pd \<Longrightarrow> i < 1024 \<Longrightarrow> i' < 1024 \<Longrightarrow> 8 \<le> i \<Longrightarrow> 8 \<le> i' \<Longrightarrow> p_pres (m (ent pd i)) \<Longrightarrow>
   p_pres (m (ent pd i')) \<Longrightarrow> p_base (m (ent pd i)) = p_base (m (ent pd i')) \<Longrightarrow> i = i'"
  unfolding space_ok_def by blast

lemma ffs_entry_page: "ffs_entry e \<longleftrightarrow> FFS_PT \<le> e div 1024 \<and> e div 1024 < FFS_PT + 16"
proof -
  have "25175040 \<le> e \<longleftrightarrow> 24585 \<le> e div 1024" by (subst less_eq_div_iff_mult_less_eq) auto
  moreover have "e < 25191424 \<longleftrightarrow> e div 1024 < 24601" by (subst div_less_iff_less_mult) auto
  ultimately show ?thesis by (simp add: ffs_entry_def ent_def)
qed

lemma heap_tables_Suc:
  "heap_tables m pd (Suc n) = heap_tables m pd n \<union> (if 8 \<le> n \<and> p_pres (m (ent pd n)) then {p_base (m (ent pd n))} else {})"
  by (auto simp: heap_tables_def less_Suc_eq)

lemma table_entries: "set (map (ent f) [0..<1024]) = {e. e div 1024 = f}"
proof -
  have "e \<in> ent f ` {0..<1024}" if "e div 1024 = f" for e
    using that ent_split [of e] by (intro image_eqI [of _ _ "e mod 1024"]) auto
  then show ?thesis by auto
qed

lemma kill_pde_apply:
  assumes i: "i < 1024" and f: "p_pres (m (ent pd i)) \<Longrightarrow> 8 \<le> i \<Longrightarrow>
      p_base (m (ent pd i)) \<noteq> pd \<and> \<not> (FFS_PT \<le> p_base (m (ent pd i)) \<and> p_base (m (ent pd i)) < FFS_PT + 16)"
  shows "kill_pde pd i m x =
    (let pde = m (ent pd i); live = p_pres pde \<and> 8 \<le> i in
     if x = ent pd i \<or> (live \<and> x div 1024 = p_base pde) then pte_zero
     else if ffs_entry x \<and> live \<and> (\<exists>e. e div 1024 = p_base pde \<and> p_pres (m e) \<and> p_base (m e) = p_base (m x))
     then (m x)\<lparr>p_avail := 2\<rparr> else m x)"
proof (cases "p_pres (m (ent pd i)) \<and> 8 \<le> i")
  case True
  let ?f = "p_base (m (ent pd i))"
  have S: "set (map (ent ?f) [0..<1024]) = {e. e div 1024 = ?f}" by (rule table_entries)
  have D: "distinct (map (ent ?f) [0..<1024])" by (auto simp: distinct_map inj_on_def)
  have N: "\<not> ffs_entry e" if "e \<in> set (map (ent ?f) [0..<1024])" for e
    using that f True unfolding S ffs_entry_page by simp
  have "fold (\<lambda>j. kill_pte (ent ?f j)) [0..<1024] m = fold kill_pte (map (ent ?f) [0..<1024]) m"
    by (simp add: fold_map comp_def)
  then have eq: "fold (\<lambda>j. kill_pte (ent ?f j)) [0..<1024] m y = (if y div 1024 = ?f then pte_zero
    else if ffs_entry y \<and> (\<exists>e. e div 1024 = ?f \<and> p_pres (m e) \<and> p_base (m e) = p_base (m y)) then (m y)\<lparr>p_avail := 2\<rparr>
    else m y)" for y
    using kill_ptes_apply [OF D N, of m y] unfolding S by simp
  show ?thesis using True by (simp add: kill_pde_def upd_def Let_def eq)
next
  case False
  then show ?thesis by (auto simp: kill_pde_def upd_def Let_def)
qed

lemma kill_pdes_apply:
  assumes ok: "space_ok m pd" and n: "n \<le> 1024"
  shows "fold (kill_pde pd) [0..<n] m x =
    (if (x div 1024 = pd \<and> x mod 1024 < n) \<or> x \<in> heap_entries m pd n then pte_zero
     else if ffs_entry x \<and> (\<exists>e\<in>heap_entries m pd n. p_pres (m e) \<and> p_base (m e) = p_base (m x))
     then (m x)\<lparr>p_avail := 2\<rparr> else m x)"
  using n
proof (induction n arbitrary: x)
  case 0
  then show ?case by (simp add: heap_entries_def heap_tables_def)
next
  case (Suc n)
  define m' where "m' = fold (kill_pde pd) [0..<n] m"
  have n: "n < 1024" using Suc.prems by simp
  note IH = Suc.IH [OF less_imp_le [OF n], folded m'_def]
  have sub: "f \<in> heap_tables m pd 1024" if "f \<in> heap_tables m pd k" "k \<le> 1024" for f k
    using that by (auto simp: heap_tables_def)
  have nd: "f \<noteq> pd" "\<not> (FFS_PT \<le> f \<and> f < FFS_PT + 16)" if "f \<in> heap_tables m pd 1024" for f
    using ok that by (auto simp: space_ok_def)
  have pdn: "\<not> ffs_entry (ent pd n)" using ok n by (simp add: ffs_entry_page space_ok_def)
  have pde: "m' (ent pd n) = m (ent pd n)"
    using IH [of "ent pd n"] n nd(1) [OF sub, of _ n] pdn by (auto simp: heap_entries_def)
  define f where "f = p_base (m (ent pd n))"
  have S: "fold (kill_pde pd) [0..<Suc n] m x = kill_pde pd n m' x" by (simp add: m'_def)
  have sp: "(x div 1024 = pd \<and> x mod 1024 < Suc n) \<longleftrightarrow> (x div 1024 = pd \<and> x mod 1024 < n) \<or> x = ent pd n"
    using ent_eq_iff [OF n, of x pd] by auto
  show ?case
  proof (cases "p_pres (m (ent pd n)) \<and> 8 \<le> n")
    case False
    have "heap_entries m pd (Suc n) = heap_entries m pd n"
      using False by (auto simp: heap_entries_def heap_tables_Suc)
    moreover have K: "kill_pde pd n m' x = (if x = ent pd n then pte_zero else m' x)"
      using False pde by (auto simp: kill_pde_def upd_def Let_def)
    ultimately show ?thesis unfolding S K sp using IH [of x] by simp
  next
    case True
    have fin: "f \<in> heap_tables m pd 1024" using True n by (auto simp: heap_tables_def f_def)
    have fnew: "f \<notin> heap_tables m pd n"
    proof
      assume "f \<in> heap_tables m pd n"
      then obtain i where "8 \<le> i" "i < n" "p_pres (m (ent pd i))" "p_base (m (ent pd i)) = f"
        by (auto simp: heap_tables_def)
      then have "i = n"
        using space_ok_inj [OF ok, of i n] True n unfolding f_def by linarith
      with \<open>i < n\<close> show False by simp
    qed
    have E: "heap_entries m pd (Suc n) = heap_entries m pd n \<union> {e. e div 1024 = f}"
      using True by (auto simp: heap_entries_def heap_tables_Suc f_def)
    have old: "m' e = m e" if "e div 1024 = f" for e
    proof -
      have "\<not> ffs_entry e" using nd(2) [OF fin] that by (simp add: ffs_entry_page)
      moreover have "e \<notin> heap_entries m pd n" using fnew that by (simp add: heap_entries_def)
      ultimately show ?thesis using IH [of e] nd(1) [OF fin] that by simp
    qed
    have nf: "x div 1024 \<noteq> pd \<and> x \<notin> heap_entries m pd n" if "ffs_entry x"
      using that ok nd(2) [OF sub, of "x div 1024" n] n
      by (auto simp: ffs_entry_page space_ok_def heap_entries_def)
    have base: "p_base (m' x) = p_base (m x)" if "ffs_entry x"
      using IH [of x] nf [OF that] by auto
    have ex: "(\<exists>e. e div 1024 = f \<and> p_pres (m' e) \<and> p_base (m' e) = b)
        \<longleftrightarrow> (\<exists>e. e div 1024 = f \<and> p_pres (m e) \<and> p_base (m e) = b)" for b
      using old by metis
    have "kill_pde pd n m' x =
      (if x = ent pd n \<or> x div 1024 = f then pte_zero
       else if ffs_entry x \<and> (\<exists>e. e div 1024 = f \<and> p_pres (m' e) \<and> p_base (m' e) = p_base (m' x))
       then (m' x)\<lparr>p_avail := 2\<rparr> else m' x)"
      using kill_pde_apply [of n m' pd x] n True nd [OF fin] unfolding pde f_def [symmetric] Let_def
      by (simp only: simp_thms)
    then have K: "kill_pde pd n m' x =
      (if x = ent pd n \<or> x div 1024 = f then pte_zero
       else if ffs_entry x \<and> (\<exists>e. e div 1024 = f \<and> p_pres (m e) \<and> p_base (m e) = p_base (m x))
       then (m' x)\<lparr>p_avail := 2\<rparr> else m' x)"
      unfolding ex using base by (cases "ffs_entry x") (simp_all only: simp_thms if_True if_False)
    define A B where "A \<longleftrightarrow> (\<exists>e\<in>heap_entries m pd n. p_pres (m e) \<and> p_base (m e) = p_base (m x))"
      and "B \<longleftrightarrow> (\<exists>e. e div 1024 = f \<and> p_pres (m e) \<and> p_base (m e) = p_base (m x))"
    have AB: "(\<exists>e\<in>heap_entries m pd (Suc n). p_pres (m e) \<and> p_base (m e) = p_base (m x)) \<longleftrightarrow> A \<or> B"
      unfolding E A_def B_def by blast
    have inE: "x \<in> heap_entries m pd (Suc n) \<longleftrightarrow> x \<in> heap_entries m pd n \<or> x div 1024 = f"
      unfolding E by blast
    note eqs = S AB sp inE K [folded B_def] IH [of x, folded A_def]
    show ?thesis
    proof (cases "ffs_entry x")
      case True
      then show ?thesis unfolding eqs using nf by (cases A; cases B) simp_all
    next
      case False
      then show ?thesis unfolding eqs by (simp only: simp_thms if_False) simp
    qed
  qed
qed

end
