(* ===== verification/Vmalloc.thy ===== *)
theory Vmalloc
  imports Paging
begin

text \<open>
  The private-heap allocator of \<^verbatim>\<open>system/vmalloc.c\<close> and its inverse
  \<^verbatim>\<open>system/vfree.c\<close>, branch for branch. The outer loop of \<open>vmalloc\<close> over the page
  directory (\<open>vmalloc_loop\<close>) and the search over several page tables (\<open>big_scan\<close>) change
  their own loop variables, so they need not end; they are partial functions and \<open>None\<close> is
  "does not return". The uninitialised locals \<open>counter\<close> and \<open>va_pt_addr\<close> are arguments.
\<close>

section \<open>Entries\<close>

text \<open>The frames from \<open>PAGE_DIR_ADDR_START\<close> up to \<open>PD_PT_AREA_END\<close>.\<close>

definition area_pages :: "nat list" where "area_pages = [PD_START..<PD_END]"

definition vm_pde :: "nat \<Rightarrow> pte" where
  "vm_pde f = \<lparr>p_pres = True, p_write = True, p_user = False, p_pwt = True, p_pcd = True, p_acc = True,
     p_b6 = False, p_b7 = False, p_global = False, p_avail = 3, p_base = f\<rparr>"

definition vm_pte :: pte where
  "vm_pte = \<lparr>p_pres = False, p_write = True, p_user = False, p_pwt = True, p_pcd = True, p_acc = True,
     p_b6 = False, p_b7 = False, p_global = False, p_avail = 2, p_base = 0\<rparr>"

definition mark :: "nat \<Rightarrow> nat \<Rightarrow> nat \<Rightarrow> pmem \<Rightarrow> pmem" where
  "mark t j n m = for_upd (ent t j) n (\<lambda>_ p. p\<lparr>p_avail := 3\<rparr>) m"

definition used :: "pmem \<Rightarrow> nat \<Rightarrow> nat \<Rightarrow> bool" where
  "used m t j \<longleftrightarrow> p_avail (m (ent t j)) = 3"

definition count_unused :: "pmem \<Rightarrow> nat \<Rightarrow> nat \<Rightarrow> nat \<Rightarrow> nat" where
  "count_unused m t lo hi = fold (\<lambda>k n. if \<not> used m t k then Suc n else n) [lo..<hi] 0"

text \<open>Addresses are computed in 32 bits.\<close>

definition heap_addr :: "nat \<Rightarrow> nat \<Rightarrow> u32" where
  "heap_addr i j = of_nat i * 4096 * 1024 + 4096 * of_nat j"

section \<open>A directory entry that is absent\<close>

text \<open>The search for a run of \<open>need\<close> pages whose first word has \<open>avail = 0\<close>.\<close>

fun run_scan :: "pmem \<Rightarrow> int \<Rightarrow> nat list \<Rightarrow> nat \<Rightarrow> int \<Rightarrow> nat \<times> int" where
  "run_scan m need [] counter pde_counter = (counter, pde_counter)"
| "run_scan m need (f # fs) counter pde_counter =
     (let counter' = counter + 1;
          pde' = (if p_avail (m (ent f 0)) = 0 then pde_counter - 1 else need)
      in if pde' = 0 then (counter', pde') else run_scan m need fs counter' pde')"

definition alloc_table :: "nat \<Rightarrow> nat \<Rightarrow> nat \<Rightarrow> nat \<Rightarrow> nat \<times> pmem \<Rightarrow> nat \<times> pmem" where
  "alloc_table pd frames end_frame f s =
     (let (i, m) = s;
          m1 = upd (ent pd i) (\<lambda>_. vm_pde f) m;
          m2 = for_upd (ent f 0) 1024 (\<lambda>_ _. vm_pte) m1;
          m3 = (if 0 < frames \<and> f + 1 = end_frame then mark f 0 frames m2 else mark f 0 1024 m2)
      in (i + 1, m3))"

definition alloc_run :: "nat \<Rightarrow> nat \<Rightarrow> nat \<Rightarrow> nat \<Rightarrow> nat \<Rightarrow> pmem \<Rightarrow> nat \<times> pmem" where
  "alloc_run pd i frames need counter m =
     (let end_frame = PD_START + counter
      in fold (alloc_table pd frames end_frame) [end_frame - need..<end_frame] (i, m))"

section \<open>A small request, directory entry present\<close>

text \<open>\<open>NotHere\<close> carries the value the loop leaves in \<open>counter\<close>, which the next table may read.\<close>

datatype scan_result = NotHere nat | Fit nat | SpanAbsent nat nat | SpanPresent nat nat nat

lemma fold_last_ge:
  "n \<le> fold (\<lambda>k n. if P k then k else n) [n..<hi] (n :: nat)"
proof -
  have "n \<le> fold (\<lambda>k n. if P k then k else n) ks x" if "\<forall>k\<in>set ks. n \<le> k" "n \<le> x" for ks x
    using that by (induction ks arbitrary: x) auto
  then show ?thesis by simp
qed

function small_scan :: "pmem \<Rightarrow> nat \<Rightarrow> nat \<Rightarrow> nat \<Rightarrow> nat \<Rightarrow> nat \<Rightarrow> scan_result" where
  "small_scan m pd i frames j c =
     (if 1024 \<le> j then NotHere c
      else let t = p_base (m (ent pd i)) in
        if used m t j then small_scan m pd i frames (j + 1) c
        else if j + frames \<le> 1024 then
          (let counter = count_unused m t j (j + frames) in
           if counter = frames then Fit j
           else let next_index = fold (\<lambda>k n. if used m t k then k else n) [j..<j + frames] j
                in small_scan m pd i frames (next_index + 1) counter)
        else
          (let counter = count_unused m t j 1024 in
           if counter = 1024 - j \<and> i \<noteq> 1023 then
             (if \<not> p_pres (m (ent pd (i + 1))) then SpanAbsent j counter
              else let temp_pt = p_base (m (ent pd (i + 1)));
                       counter_v2 = count_unused m temp_pt 0 frames
                   in if counter + counter_v2 = frames then SpanPresent j counter counter_v2
                      else NotHere counter)
           else small_scan m pd i frames (j + 1) counter))"
  by pat_completeness auto

termination
proof (relation "measure (\<lambda>(m, pd, i, frames, j, c). 1024 - j)", goal_cases)
  case (3 m pd i frames j c t counter next_index)
  have "j \<le> next_index" unfolding 3 by (rule fold_last_ge)
  then show ?case using 3(1) by simp
qed auto

declare small_scan.simps [simp del]

text \<open>The branch that runs over the end of the table into an absent directory entry. The search for
  a page for the new table leaves its loop after the first page it looks at.\<close>

definition span_absent :: "nat \<Rightarrow> nat \<Rightarrow> nat \<Rightarrow> nat \<Rightarrow> nat \<Rightarrow> pmem \<Rightarrow> pmem" where
  "span_absent pd i frames j counter m =
     (let frames' = frames - counter;
          t = p_base (m (ent pd i));
          m1 = mark t j (1024 - j) m;
          m2 = (if p_avail (m1 (ent PD_START 0)) = 0
                then for_upd (ent PD_START 0) 1024 (\<lambda>_ _. vm_pte) (upd (ent pd (i + 1)) (\<lambda>_. vm_pde PD_START) m1)
                else m1);
          t2 = p_base (m2 (ent pd i))
      in mark t2 0 frames' m2)"

definition span_present :: "nat \<Rightarrow> nat \<Rightarrow> nat \<Rightarrow> nat \<Rightarrow> pmem \<Rightarrow> pmem" where
  "span_present pd i j counter_v2 m =
     (let t = p_base (m (ent pd i)); temp_pt = p_base (m (ent pd (i + 1)));
          m1 = mark t j (1024 - j) m
      in mark temp_pt 0 counter_v2 m1)"

section \<open>A request for several tables, directory entry present\<close>

text \<open>One pass over a table: the value of \<open>k\<close> after the loop and the length of the last run.\<close>

fun count_run :: "pmem \<Rightarrow> nat \<Rightarrow> nat \<Rightarrow> nat list \<Rightarrow> nat \<Rightarrow> nat \<times> nat" where
  "count_run m t tot [] counter = (1024, counter)"
| "count_run m t tot (k # ks) counter =
     (let counter' = (if \<not> used m t k then (counter + 1) mod 2 ^ 32 else 0)
      in if counter' = tot then (1025, counter') else count_run m t tot ks counter')"

type_synonym big_state = "nat \<times> nat \<times> nat \<times> u32"

definition big_body :: "pmem \<Rightarrow> nat \<Rightarrow> nat \<Rightarrow> nat \<Rightarrow> nat \<Rightarrow> big_state \<Rightarrow> big_state" where
  "big_body m pd i ipc frames s =
     (let (j, t, counter, va) = s;
          tot = frames + ipc * 1024;
          (k, counter1) = count_run m t tot [0..<1024] counter
      in if 0 < counter1 \<or> counter1 = tot then
           let j1 = j + 1;
               va1 = (if j1 = 1 then of_nat i * 4096 * 1024 + 4096 * (of_nat k - of_nat counter1) else va)
           in if i + j1 < 1024 then
                if \<not> p_pres (m (ent pd (i + j1))) then
                  if 2 < j1 then
                    if (j1 - 2) * 1024 < counter1 then (ipc, t, tot, va1) else (j1, t, counter1, va1)
                  else (ipc, t, tot, va1)
                else (j1, p_base (m (ent pd (i + j1))), counter1, va1)
              else (j1, t, counter1, va1)
         else (ipc + of_bool (0 < frames), t, counter1, va))"

partial_function (option) big_scan ::
  "pmem \<Rightarrow> nat \<Rightarrow> nat \<Rightarrow> nat \<Rightarrow> nat \<Rightarrow> big_state \<Rightarrow> (nat \<times> u32) option" where
  "big_scan m pd i ipc frames s =
     (if fst s < ipc + of_bool (0 < frames)
      then big_scan m pd i ipc frames (big_body m pd i ipc frames s)
      else Some (snd (snd s)))"

declare big_scan.simps [code]

text \<open>The allocation that follows a successful search: the rest of the first table, then as many
  further tables as it takes, creating those that are absent.\<close>

definition fresh_table :: "nat \<Rightarrow> nat \<Rightarrow> pmem \<Rightarrow> pmem" where
  "fresh_table pd i m =
     (case find (\<lambda>f. p_avail (m (ent f 0)) = 0) area_pages of
        None \<Rightarrow> m
      | Some f \<Rightarrow> for_upd (ent f 0) 1024 (\<lambda>_ _. vm_pte) (upd (ent pd i) (\<lambda>_. vm_pde f) m))"

function big_alloc :: "nat \<Rightarrow> nat \<Rightarrow> nat \<Rightarrow> pmem \<Rightarrow> nat \<times> pmem" where
  "big_alloc pd i counter m =
     (if 0 < counter then
        let i1 = i + 1;
            m1 = (if \<not> p_pres (m (ent pd i1)) then fresh_table pd i1 m else m);
            t = p_base (m1 (ent pd i1))
        in big_alloc pd i1 (counter - min 1024 counter) (mark t 0 (min 1024 counter) m1)
      else (i, m))"
  by pat_completeness auto
termination
  by (relation "measure (\<lambda>(pd, i, counter, m). counter)") (auto simp: min_def)

declare big_alloc.simps [simp del]

definition big_alloc_first :: "nat \<Rightarrow> nat \<Rightarrow> nat \<Rightarrow> u32 \<Rightarrow> pmem \<Rightarrow> nat \<times> pmem" where
  "big_alloc_first pd i counter va m =
     (let j = unat ((va - of_nat i * 4096 * 1024) div 4096);
          t = p_base (m (ent pd i));
          m1 = mark t j (1024 - j) m
      in big_alloc pd i (counter - (1024 - j)) m1)"

section \<open>vmalloc\<close>

text \<open>A finished call: the returned pointer, the table words, and whether the branch passed through
  \<open>restore\<close> before it returned.\<close>

datatype vm_exit = VmExit u32 pmem bool

abbreviation VM_SYSERR :: u32 where "VM_SYSERR \<equiv> - 1"

partial_function (option) vmalloc_loop ::
  "nat \<Rightarrow> nat \<Rightarrow> nat \<Rightarrow> nat \<Rightarrow> nat \<Rightarrow> u32 \<Rightarrow> pmem \<Rightarrow> vm_exit option" where
  "vmalloc_loop pd ipc i frames counter va m =
     (if i = 1024 then Some (VmExit VM_SYSERR m True)
      else if \<not> p_pres (m (ent pd i)) then
        if ipc = 0 \<or> i + ipc + of_bool (0 < frames) < 1024 then
          let need = ipc + of_bool (0 < frames);
              r = run_scan m (int need) area_pages 0 (int need);
              counter1 = fst r
          in if snd r = 0
             then Some (VmExit (heap_addr i 0) (snd (alloc_run pd i frames need counter1 m)) True)
             else Some (VmExit VM_SYSERR m False)
        else Some (VmExit VM_SYSERR m True)
      else if ipc = 0 \<or> (ipc = 1 \<and> frames = 0) then
        let frames1 = frames + ipc * 1024
        in case small_scan m pd i frames1 0 counter of
             Fit j \<Rightarrow> Some (VmExit (heap_addr i j) (mark (p_base (m (ent pd i))) j frames1 m) True)
           | SpanAbsent j c \<Rightarrow> Some (VmExit (heap_addr i j) (span_absent pd i frames1 j c m) True)
           | SpanPresent j c c2 \<Rightarrow> Some (VmExit (heap_addr i j) (span_present pd i j c2 m) True)
           | NotHere c \<Rightarrow> vmalloc_loop pd ipc (i + 1) frames1 c va m
      else
        big_scan m pd i ipc frames (0, p_base (m (ent pd i)), counter, va) \<bind> (\<lambda>cv.
          let counter1 = fst cv; va1 = snd cv in
          if counter1 = frames + ipc * 1024 then
            let r = big_alloc_first pd i counter1 va1 m
            in vmalloc_loop pd ipc (fst r + 1) frames 0 va1 (snd r)
          else vmalloc_loop pd ipc (i + 1) frames counter1 va1 m))"

declare vmalloc_loop.simps [code]

text \<open>\<open>page_addr\<close> is the current process's; \<open>g\<close> and \<open>gva\<close> are what the two uninitialised locals
  happen to hold.\<close>

definition vmalloc :: "u32 \<Rightarrow> u32 \<Rightarrow> nat \<Rightarrow> u32 \<Rightarrow> vm \<Rightarrow> (u32 \<times> vm) option" where
  "vmalloc page_addr nbytes g gva v =
     (let user_cr3 = read_cr3 v;
          v1 = load_pd PAGE_DIR_ADDR_START v;
          frames0 = unat nbytes div 4096;
          frames1 = (if frames0 < 1 then 1 else frames0);
          ipc = frames1 div 1024;
          frames = frames1 - ipc * 1024
      in if ipc + of_bool (0 < frames) < 1024 then
           vmalloc_loop (frame_of page_addr) ipc 8 frames g gva (pmem v1) \<bind>
             (\<lambda>e. case e of VmExit r m restored \<Rightarrow>
               Some (r, write_cr3 user_cr3 (v1\<lparr>pmem := m, ints := (if restored then ints v1 else False)\<rparr>)))
         else Some (VM_SYSERR, write_cr3 user_cr3 v1))"

section \<open>vfree\<close>

text \<open>The search for the upper bound: the first absent directory entry from 8 on gives \<open>j\<close>, and
  the table below it is searched downwards for a page in use. When the whole directory is present
  the last entry is taken for both.\<close>

definition bound_pde :: "pmem \<Rightarrow> nat \<Rightarrow> nat \<times> nat" where
  "bound_pde m pd =
     (case find (\<lambda>i. \<not> p_pres (m (ent pd i))) [8..<1024] of
        Some i \<Rightarrow> (p_base (m (ent pd (i - 1))), i)
      | None \<Rightarrow> (p_base (m (ent pd 1023)), 1023))"

definition vfree_bound :: "pmem \<Rightarrow> nat \<Rightarrow> u32" where
  "vfree_bound m pd =
     (let (t, j) = bound_pde m pd in
      case find (\<lambda>i. used m t i) (rev [0..<1024]) of
        Some i \<Rightarrow> heap_addr j i
      | None \<Rightarrow> of_nat t * 4096)"

text \<open>\<open>pd[i]\<close> and \<open>pt[j]\<close> with signed indices: \<open>(int)ptr\<close> is negative from 2 GB on.\<close>

definition ient :: "nat \<Rightarrow> int \<Rightarrow> nat" where
  "ient f i = nat ((int (ent f 0) + i) mod 2 ^ 30)"

definition vfree_index :: "u32 \<Rightarrow> int \<times> int" where
  "vfree_index p =
     (let i = sgn (sint p) * (\<bar>sint p\<bar> div 4194304);
          j = sint p - i * 4194304
      in (i, sgn j * (\<bar>j\<bar> div 4096)))"

definition free_pte :: "nat \<Rightarrow> pmem \<Rightarrow> pmem" where
  "free_pte e m = upd e (\<lambda>p. p\<lparr>p_pres := False, p_avail := 2, p_base := 0\<rparr>)
     (if p_pres (m e) then release_ffs (p_base (m e)) m else m)"

text \<open>The comparison \<open>i < (j + pages)\<close> is unsigned.\<close>

definition vfree_pages :: "pmem \<Rightarrow> nat \<Rightarrow> u32 \<Rightarrow> nat \<Rightarrow> pmem option" where
  "vfree_pages m pd p pages =
     (let (i, j) = vfree_index p;
          t = p_base (m (ient pd i));
          counter = fold (\<lambda>k n. if p_avail (m (ient t (j + int k))) = 3 then Suc n else n) [0..<pages] 0;
          uj = (of_int j :: u32)
      in if counter = pages then
           Some (if uj < uj + of_nat pages
                 then fold (\<lambda>k. free_pte (ient t (j + int k))) [0..<pages] m else m)
         else None)"

definition vfree :: "u32 \<Rightarrow> u32 \<Rightarrow> u32 \<Rightarrow> vm \<Rightarrow> int \<times> vm" where
  "vfree page_addr p nbytes v =
     (let (saved, v1) = disable v;
          user_cr3 = read_cr3 v1;
          v2 = load_pd PAGE_DIR_ADDR_START v1;
          pd = frame_of page_addr;
          pages = unat nbytes div 4096
      in case (if p < vfree_bound (pmem v2) pd then vfree_pages (pmem v2) pd p pages else None) of
           Some m \<Rightarrow> (OK, restore saved (write_cr3 user_cr3 (v2\<lparr>pmem := m\<rparr>)))
         | None \<Rightarrow> (SYSERR, restore saved (write_cr3 user_cr3 v2)))"

section \<open>Lemmas on the searches\<close>

lemma mark_apply:
  "mark t j n m e = (if ent t j \<le> e \<and> e < ent t j + n then (m e)\<lparr>p_avail := 3\<rparr> else m e)"
  by (simp add: mark_def for_upd_apply)

lemma mark_ent:
  "j + n \<le> 1024 \<Longrightarrow> mark t j n m e =
    (if e div 1024 = t \<and> j \<le> e mod 1024 \<and> e mod 1024 < j + n then (m e)\<lparr>p_avail := 3\<rparr> else m e)"
proof -
  assume le: "j + n \<le> 1024"
  define q r where "q = e div 1024" and "r = e mod 1024"
  have e: "e = 1024 * q + r" "r < 1024" by (simp_all add: q_def r_def)
  have "ent t j \<le> e \<and> e < ent t j + n \<longleftrightarrow> q = t \<and> j \<le> r \<and> r < j + n"
  proof (cases q t rule: linorder_cases)
    case less
    then have "1024 * q + 1024 \<le> 1024 * t" by simp
    then show ?thesis using e less by (simp add: ent_def)
  next
    case greater
    then have "1024 * t + 1024 \<le> 1024 * q" by simp
    then show ?thesis using e greater le by (simp add: ent_def)
  qed (simp add: e ent_def)
  then show ?thesis by (simp add: mark_apply q_def r_def)
qed

lemma count_unused_filter: "count_unused m t lo hi = length (filter (\<lambda>k. \<not> used m t k) [lo..<hi])"
proof -
  have "fold (\<lambda>k n. if \<not> used m t k then Suc n else n) ks n = n + length (filter (\<lambda>k. \<not> used m t k) ks)" for ks n
    by (induction ks arbitrary: n) simp_all
  then show ?thesis by (simp add: count_unused_def)
qed

lemma count_unused_all: "count_unused m t lo hi = hi - lo \<longleftrightarrow> (\<forall>k. lo \<le> k \<longrightarrow> k < hi \<longrightarrow> \<not> used m t k)"
proof -
  have "length (filter P xs) = length xs \<longleftrightarrow> (\<forall>x\<in>set xs. P x)" for P and xs :: "nat list"
    using length_filter_less [of _ xs P] filter_True [of xs P] by (metis less_irrefl)
  from this [of "\<lambda>k. \<not> used m t k" "[lo..<hi]"] show ?thesis by (auto simp: count_unused_filter)
qed

lemma fold_last_sat:
  "(\<exists>k\<in>set ks. P k) \<Longrightarrow> P (fold (\<lambda>k n. if P k then k else n) ks x) \<and> fold (\<lambda>k n. if P k then k else n) ks x \<in> set ks"
proof (induction ks arbitrary: x)
  case (Cons k ks)
  have "fold (\<lambda>k n. if P k then k else n) ks y = y" if "\<not> (\<exists>k\<in>set ks. P k)" for y
    using that by (induction ks arbitrary: y) auto
  then show ?case using Cons by (cases "\<exists>k\<in>set ks. P k") auto
qed simp

text \<open>\<open>j0\<close> is the first place from \<open>j\<close> on where \<open>n\<close> consecutive pages of table \<open>t\<close> are unused.\<close>

definition run_at :: "pmem \<Rightarrow> nat \<Rightarrow> nat \<Rightarrow> nat \<Rightarrow> bool" where
  "run_at m t n j \<longleftrightarrow> j + n \<le> 1024 \<and> (\<forall>k. j \<le> k \<longrightarrow> k < j + n \<longrightarrow> \<not> used m t k)"

lemma small_scan_first_fit:
  assumes "j \<le> j0" "0 < n" "run_at m (p_base (m (ent pd i))) n j0"
    "\<And>k. j \<le> k \<Longrightarrow> k < j0 \<Longrightarrow> \<not> run_at m (p_base (m (ent pd i))) n k"
  shows "small_scan m pd i n j c = Fit j0"
  using assms
proof (induction "j0 - j" arbitrary: j c rule: less_induct)
  case less
  let ?t = "p_base (m (ent pd i))"
  have b: "j0 + n \<le> 1024" and un: "\<And>k. j0 \<le> k \<Longrightarrow> k < j0 + n \<Longrightarrow> \<not> used m ?t k"
    using less.prems(3) by (auto simp: run_at_def)
  have j: "\<not> 1024 \<le> j" "j + n \<le> 1024" using b less.prems(1,2) by auto
  show ?case
  proof (cases "used m ?t j")
    case True
    then have "j \<noteq> j0" using un [of j0] less.prems(2) by auto
    then have "small_scan m pd i n (j + 1) c = Fit j0"
      using less.prems by (intro less.hyps) auto
    then show ?thesis using True j by (subst small_scan.simps) simp
  next
    case False
    show ?thesis
    proof (cases "run_at m ?t n j")
      case True
      then have "j = j0" using less.prems(1,4) by (metis le_neq_implies_less le_refl)
      moreover have "count_unused m ?t j (j + n) = n"
        using True count_unused_all [of m ?t j "j + n"] by (simp add: run_at_def)
      ultimately show ?thesis using False j by (subst small_scan.simps) simp
    next
      case notrun: False
      then obtain k where "j \<le> k" "k < j + n" "used m ?t k" using j by (auto simp: run_at_def)
      then have ex: "\<exists>k\<in>set [j..<j + n]. used m ?t k" by auto
      define x where "x = fold (\<lambda>k n. if used m ?t k then k else n) [j..<j + n] j"
      have x: "used m ?t x" "j \<le> x" "x < j + n" using fold_last_sat [OF ex, of j] by (auto simp: x_def)
      have "x < j0" using x un less.prems(1) by (meson add_le_mono1 leI less_le_trans)
      moreover have "\<not> run_at m ?t n k" if "x + 1 \<le> k" "k < j0" for k
        using less.prems(4) x that by simp
      ultimately have "small_scan m pd i n (x + 1) (count_unused m ?t j (j + n)) = Fit j0"
        using less.prems x(2) by (intro less.hyps) auto
      moreover have "count_unused m ?t j (j + n) \<noteq> n"
        using ex count_unused_all [of m ?t j "j + n"] by auto
      ultimately show ?thesis using False j by (subst small_scan.simps) (simp add: Let_def x_def)
    qed
  qed
qed

lemma small_scan_no_room:
  assumes "0 < n" "\<And>k. \<not> run_at m (p_base (m (ent pd i))) n k" "used m (p_base (m (ent pd i))) 1023"
  shows "\<exists>c'. small_scan m pd i n j c = NotHere c'"
proof (induction "1024 - j" arbitrary: j c rule: less_induct)
  case less
  let ?t = "p_base (m (ent pd i))"
  show ?case
  proof (cases "1024 \<le> j")
    case True
    then show ?thesis by (subst small_scan.simps) simp
  next
    case False
    have next_j: "\<exists>c'. small_scan m pd i n x d = NotHere c'" if "j < x" for x d using False that by (intro less.hyps) simp
    have tail: "count_unused m ?t j 1024 \<noteq> 1024 - j"
    proof
      assume "count_unused m ?t j 1024 = 1024 - j"
      then have "\<not> used m ?t 1023" using False by (auto simp: count_unused_all dest: spec [of _ 1023])
      then show False using assms(3) by simp
    qed
    show ?thesis
    proof (cases "used m ?t j")
      case True
      then show ?thesis using next_j [of "j + 1"] False by (subst small_scan.simps) simp
    next
      case unused: False
      have "count_unused m ?t j (j + n) \<noteq> n" if "j + n \<le> 1024"
        using assms(2) [of j] count_unused_all [of m ?t j "j + n"] that by (simp add: run_at_def)
      moreover have "j < fold (\<lambda>k n. if used m ?t k then k else n) [j..<j + n] j + 1" using fold_last_ge [of j "used m ?t" "j + n"] by simp
      ultimately show ?thesis using next_j False unused tail by (subst small_scan.simps) (simp add: Let_def)
    qed
  qed
qed

section \<open>Requests below 4 MB\<close>

definition request_pages :: "u32 \<Rightarrow> nat" where
  "request_pages nbytes = max 1 (unat nbytes div 4096)"

lemma request_pages_small:
  "unat nbytes < 4194304 \<Longrightarrow> request_pages nbytes < 1024 \<and> 0 < request_pages nbytes"
  by (auto simp: request_pages_def)

lemma vm_eta [simp]: "v\<lparr>cr3 := cr3 v\<rparr> = v" "v\<lparr>pmem := pmem v\<rparr> = v" "v\<lparr>ints := ints v\<rparr> = v"
  by simp_all

lemma vmalloc_small:
  assumes "unat nbytes < 4194304"
    "vmalloc_loop (frame_of pa) 0 8 (request_pages nbytes) g gva (pmem v) = Some (VmExit r m b)"
  shows "vmalloc pa nbytes g gva v = Some (r, v\<lparr>pmem := m, ints := (if b then ints v else False)\<rparr>)"
proof -
  have p: "(if unat nbytes div 4096 < 1 then 1 else unat nbytes div 4096) = request_pages nbytes"
    by (simp add: request_pages_def)
  have z: "request_pages nbytes div 1024 = 0" "request_pages nbytes - 0 * 1024 = request_pages nbytes"
    using request_pages_small [OF assms(1)] by simp_all
  have eta: "v\<lparr>cr3 := c, pmem := m, ints := i, cr3 := cr3 v\<rparr> = v\<lparr>pmem := m, ints := i\<rparr>" for c i by simp
  show ?thesis
    unfolding vmalloc_def Let_def p z load_pd_def write_cr3_def read_cr3_def
    using request_pages_small [OF assms(1)] assms(2) by (simp add: eta)
qed

text \<open>Every table below \<open>i0\<close> is present, has no \<open>n\<close> consecutive unused pages, and ends in a page in use.\<close>

definition no_room :: "pmem \<Rightarrow> nat \<Rightarrow> nat \<Rightarrow> nat \<Rightarrow> bool" where
  "no_room m pd n i0 \<longleftrightarrow> (\<forall>i. 8 \<le> i \<longrightarrow> i < i0 \<longrightarrow> p_pres (m (ent pd i))
     \<and> (\<forall>k. \<not> run_at m (p_base (m (ent pd i))) n k) \<and> used m (p_base (m (ent pd i))) 1023)"

lemma vmalloc_loop_skip:
  assumes "no_room m pd n i0" "8 \<le> i" "i \<le> i0" "i0 \<le> 1024" "0 < n"
  shows "\<exists>g'. vmalloc_loop pd 0 i n g gva m = vmalloc_loop pd 0 i0 n g' gva m"
  using assms
proof (induction "i0 - i" arbitrary: i g)
  case (Suc x)
  then have i: "p_pres (m (ent pd i))" "i < i0" "i \<noteq> 1024" "\<And>k. \<not> run_at m (p_base (m (ent pd i))) n k"
    "used m (p_base (m (ent pd i))) 1023"
    by (auto simp: no_room_def)
  obtain c where "small_scan m pd i n 0 g = NotHere c" using small_scan_no_room [OF Suc.prems(5) i(4,5)] by blast
  then have "vmalloc_loop pd 0 i n g gva m = vmalloc_loop pd 0 (i + 1) n c gva m"
    using i by (subst vmalloc_loop.simps) simp
  moreover have "\<exists>g'. vmalloc_loop pd 0 (i + 1) n c gva m = vmalloc_loop pd 0 i0 n g' gva m" using Suc by (intro Suc.hyps(1)) auto
  ultimately show ?case by simp
qed auto

lemma run_scan_one:
  "run_scan m 1 fs c 1 =
    (case find (\<lambda>f. p_avail (m (ent f 0)) = 0) fs of
       None \<Rightarrow> (c + length fs, 1)
     | Some f \<Rightarrow> (c + length (takeWhile (\<lambda>f. p_avail (m (ent f 0)) \<noteq> 0) fs) + 1, 0))"
  by (induction fs arbitrary: c) (auto split: option.splits)

text \<open>The page chosen for a new table: the first of the area whose first word is all zero in
  its \<open>avail\<close> bits.\<close>

definition table_page :: "pmem \<Rightarrow> nat option" where
  "table_page m = find (\<lambda>f. p_avail (m (ent f 0)) = 0) area_pages"

lemma find_upt_takeWhile:
  "find P [a..<b] = Some f \<Longrightarrow> f = a + length (takeWhile (\<lambda>x. \<not> P x) [a..<b])"
proof (induction "b - a" arbitrary: a)
  case (Suc x)
  have c: "[a..<b] = a # [Suc a..<b]" using Suc.hyps(2) by (simp add: upt_conv_Cons)
  have "f = Suc a + length (takeWhile (\<lambda>x. \<not> P x) [Suc a..<b])" if "\<not> P a"
    using Suc.hyps(2) Suc.prems that unfolding c by (intro Suc.hyps(1)) auto
  with Suc.prems show ?case unfolding c by (cases "P a") auto
qed simp

definition new_table :: "nat \<Rightarrow> nat \<Rightarrow> nat \<Rightarrow> nat \<Rightarrow> pmem \<Rightarrow> pmem" where
  "new_table pd i f n m = mark f 0 n (for_upd (ent f 0) 1024 (\<lambda>_ _. vm_pte) (upd (ent pd i) (\<lambda>_. vm_pde f) m))"

lemma vmalloc_loop_absent:
  assumes i: "i < 1024" "\<not> p_pres (m (ent pd i))" and n: "0 < n"
  shows "vmalloc_loop pd 0 i n g gva m = Some
    (case table_page m of None \<Rightarrow> VmExit VM_SYSERR m False
     | Some f \<Rightarrow> VmExit (heap_addr i 0) (new_table pd i f n m) True)"
proof (cases "table_page m")
  case None
  then show ?thesis
    using i n run_scan_one [of m "area_pages" 0] by (subst vmalloc_loop.simps) (simp add: table_page_def)
next
  case (Some f)
  have f: "f = PD_START + length (takeWhile (\<lambda>f. p_avail (m (ent f 0)) \<noteq> 0) area_pages)"
    using find_upt_takeWhile [OF Some [unfolded table_page_def area_pages_def]] by (simp add: area_pages_def del: upt_rec_numeral)
  define c where "c = length (takeWhile (\<lambda>f. p_avail (m (ent f 0)) \<noteq> 0) area_pages) + 1"
  have c: "run_scan m 1 area_pages 0 1 = (c, 0)"
    using run_scan_one [of m "area_pages" 0] Some by (simp add: table_page_def c_def)
  have "PD_START + c = Suc f" by (simp add: f c_def)
  then have "snd (alloc_run pd i n 1 c m) = new_table pd i f n m"
    using n unfolding alloc_run_def Let_def \<open>PD_START + c = Suc f\<close>
    by (simp add: alloc_table_def new_table_def Let_def)
  then show ?thesis
    using i n c Some by (subst vmalloc_loop.simps) simp
qed

lemma vmalloc_loop_fit:
  assumes i: "i < 1024" "p_pres (m (ent pd i))" and n: "0 < n"
    and fit: "run_at m (p_base (m (ent pd i))) n j" "\<And>k. k < j \<Longrightarrow> \<not> run_at m (p_base (m (ent pd i))) n k"
  shows "vmalloc_loop pd 0 i n g gva m = Some (VmExit (heap_addr i j) (mark (p_base (m (ent pd i))) j n m) True)"
proof -
  have "small_scan m pd i n 0 g = Fit j" using small_scan_first_fit [OF _ n fit(1)] fit(2) by simp
  then show ?thesis using i by (subst vmalloc_loop.simps) simp
qed

lemma heap_addr_no_error: "heap_addr i j \<noteq> VM_SYSERR"
proof -
  have "even (heap_addr i j)" by (simp add: heap_addr_def)
  moreover have "odd VM_SYSERR" by simp
  ultimately show ?thesis by metis
qed

lemma vmalloc_loop_returns:
  "0 < n \<Longrightarrow> i \<le> 1024 \<Longrightarrow> \<exists>r m' b. vmalloc_loop pd 0 i n g gva m = Some (VmExit r m' b)
    \<and> (r = VM_SYSERR \<longrightarrow> m' = m) \<and> (b \<or> r = VM_SYSERR \<and> table_page m = None)"
proof (induction "1024 - i" arbitrary: i g)
  case 0
  then show ?case by (subst vmalloc_loop.simps) auto
next
  case (Suc x)
  then have i: "i < 1024" by simp
  show ?case
  proof (cases "p_pres (m (ent pd i))")
    case False
    then show ?thesis
      using vmalloc_loop_absent [OF i _ Suc.prems(1)] heap_addr_no_error by (cases "table_page m") auto
  next
    case True
    have "\<exists>r m' b. vmalloc_loop pd 0 (i + 1) n c gva m = Some (VmExit r m' b)
      \<and> (r = VM_SYSERR \<longrightarrow> m' = m) \<and> (b \<or> r = VM_SYSERR \<and> table_page m = None)" for c
      using Suc by (intro Suc.hyps(1)) auto
    then show ?thesis
      using i True heap_addr_no_error by (cases "small_scan m pd i n 0 g") (subst vmalloc_loop.simps, auto)+
  qed
qed

lemma heap_addr_word:
  "i < 1024 \<Longrightarrow> j < 1024 \<Longrightarrow> unat (heap_addr i j) = 4194304 * i + 4096 * j"
proof -
  assume "i < 1024" "j < 1024"
  moreover have "heap_addr i j = of_nat (4194304 * i + 4096 * j)" by (simp add: heap_addr_def)
  ultimately show ?thesis by (simp add: unat_of_nat_u32 del: of_nat_add of_nat_mult)
qed

lemma new_table_apply:
  assumes "n \<le> 1024" "f \<noteq> pd" "i < 1024"
  shows "new_table pd i f n m e =
    (if e = ent pd i then vm_pde f
     else if e div 1024 = f then vm_pte\<lparr>p_avail := (if e mod 1024 < n then 3 else 2)\<rparr> else m e)"
  using assms ent_eq_iff [of i e pd]
  unfolding new_table_def for_upd_page upd_def by (auto simp: mark_ent for_upd_page vm_pte_def)

section \<open>Properties of vmalloc\<close>

text \<open>C2. A request for \<open>n\<close> pages, below 4 MB, is served first-fit when every earlier table is present, has no \<open>n\<close> consecutive
  unused pages and ends in a page in use (so that no block is placed over its end): it gets the lowest place with room in the
  first table that has one, all pages of the block were unused, they and only they are now reserved
  (\<^verbatim>\<open>pt_avail = 3\<close>, still without a frame), and CR3 and the interrupt flag are as before.\<close>

theorem vmalloc_first_fit:
  fixes v :: vm and pa nbytes gva :: u32 and i j g :: nat
  defines "m \<equiv> pmem v" and "pd \<equiv> frame_of pa" and "n \<equiv> request_pages nbytes"
  defines "t \<equiv> p_base (m (ent pd i))"
  assumes small: "unat nbytes < 4194304" and i: "8 \<le> i" "i < 1024" and full: "no_room m pd n i"
    and pres: "p_pres (m (ent pd i))" and fit: "run_at m t n j" "\<And>k. k < j \<Longrightarrow> \<not> run_at m t n k"
  shows "\<exists>m'. vmalloc pa nbytes g gva v = Some (heap_addr i j, v\<lparr>pmem := m'\<rparr>)
    \<and> unat (heap_addr i j) = 4194304 * i + 4096 * j
    \<and> (\<forall>k. j \<le> k \<and> k < j + n \<longrightarrow> \<not> used m t k \<and> used m' t k)
    \<and> (\<forall>e. m' e = (if e div 1024 = t \<and> j \<le> e mod 1024 \<and> e mod 1024 < j + n then (m e)\<lparr>p_avail := 3\<rparr> else m e))"
proof -
  have n: "0 < n" using request_pages_small [OF small] by (simp add: n_def)
  let ?m = "mark t j n m"
  have "vmalloc_loop pd 0 8 n g gva m = Some (VmExit (heap_addr i j) ?m True)"
    using vmalloc_loop_skip [OF full, of 8 g gva] vmalloc_loop_fit [OF i(2) pres n fit [unfolded t_def], of _ gva] i n
    by (auto simp: t_def)
  then have "vmalloc pa nbytes g gva v = Some (heap_addr i j, v\<lparr>pmem := ?m\<rparr>)"
    using vmalloc_small [OF small, of pa g gva v] by (simp add: n_def m_def pd_def)
  moreover have "j < 1024" "j + n \<le> 1024" "\<And>k. j \<le> k \<Longrightarrow> k < j + n \<Longrightarrow> \<not> used m t k"
    using fit(1) n by (auto simp: run_at_def)
  ultimately show ?thesis
    using i heap_addr_word [of i j] by (intro exI [of _ ?m]) (auto simp: mark_ent used_def)
qed

text \<open>When the first directory entry that is not full is absent and the page-table area has a
  free page, the request gets a fresh table there: the entry is installed, the table's first
  pages are reserved, the others exist unreserved, none has a frame, and nothing else changes.\<close>

theorem vmalloc_new_table:
  fixes v :: vm and pa nbytes gva :: u32 and i f g :: nat
  defines "m \<equiv> pmem v" and "pd \<equiv> frame_of pa" and "n \<equiv> request_pages nbytes"
  assumes small: "unat nbytes < 4194304" and i: "8 \<le> i" "i < 1024" and full: "no_room m pd n i"
    and abs: "\<not> p_pres (m (ent pd i))" and f: "table_page m = Some f" and own: "f \<noteq> pd"
  shows "\<exists>m'. vmalloc pa nbytes g gva v = Some (heap_addr i 0, v\<lparr>pmem := m'\<rparr>)
    \<and> unat (heap_addr i 0) = 4194304 * i
    \<and> (\<forall>e. m' e = (if e = ent pd i then vm_pde f
         else if e div 1024 = f then vm_pte\<lparr>p_avail := (if e mod 1024 < n then 3 else 2)\<rparr> else m e))"
proof -
  have n: "0 < n" "n \<le> 1024" using request_pages_small [OF small] by (auto simp: n_def)
  have "vmalloc_loop pd 0 8 n g gva m = Some (VmExit (heap_addr i 0) (new_table pd i f n m) True)"
    using vmalloc_loop_skip [OF full, of 8 g gva] vmalloc_loop_absent [of i m pd n _ gva] n abs i f by auto
  then have "vmalloc pa nbytes g gva v = Some (heap_addr i 0, v\<lparr>pmem := new_table pd i f n m\<rparr>)"
    using vmalloc_small [OF small, of pa g gva v] by (simp add: n_def m_def pd_def)
  then show ?thesis
    using i heap_addr_word [of i 0] new_table_apply [OF n(2) own i(2), of m]
    by (intro exI [of _ "new_table pd i f n m"]) simp
qed

text \<open>With no page left for a page table the call fails with SYSERR and no table word changes;
  but it returns on a path that never reaches \<open>restore\<close>, with interrupts disabled.\<close>

theorem vmalloc_no_table:
  assumes "unat nbytes < 4194304" "8 \<le> i" "i < 1024" "no_room (pmem v) (frame_of pa) (request_pages nbytes) i"
    "\<not> p_pres (pmem v (ent (frame_of pa) i))" "table_page (pmem v) = None"
  shows "vmalloc pa nbytes g gva v = Some (VM_SYSERR, v\<lparr>ints := False\<rparr>)"
proof -
  have n: "0 < request_pages nbytes" using request_pages_small [OF assms(1)] by simp
  have "vmalloc_loop (frame_of pa) 0 8 (request_pages nbytes) g gva (pmem v) = Some (VmExit VM_SYSERR (pmem v) False)"
    using vmalloc_loop_skip [OF assms(4), of 8 g gva] vmalloc_loop_absent [of i "pmem v" "frame_of pa" "request_pages nbytes" _ gva] n assms(2,3,5,6)
    by auto
  from vmalloc_small [OF assms(1) this] show ?thesis by simp
qed

text \<open>C16. Every request below 4 MB returns, whatever the tables hold, with CR3 and CR2 as before; SYSERR means that no
  table word has changed, and interrupts are as before unless the request failed because no page was left for a table: then
  they are disabled.\<close>

theorem vmalloc_small_returns:
  assumes "unat nbytes < 4194304"
  shows "\<exists>r v'. vmalloc pa nbytes g gva v = Some (r, v') \<and> cr3 v' = cr3 v \<and> cr2 v' = cr2 v
    \<and> (r = VM_SYSERR \<longrightarrow> pmem v' = pmem v)
    \<and> (ints v' = ints v \<or> r = VM_SYSERR \<and> \<not> ints v' \<and> table_page (pmem v) = None)"
proof -
  obtain r m' b where e: "vmalloc_loop (frame_of pa) 0 8 (request_pages nbytes) g gva (pmem v) = Some (VmExit r m' b)"
    "r = VM_SYSERR \<longrightarrow> m' = pmem v" "b \<or> r = VM_SYSERR \<and> table_page (pmem v) = None"
    using vmalloc_loop_returns [of "request_pages nbytes" 8 "frame_of pa" g gva "pmem v"] request_pages_small [OF assms] by auto
  show ?thesis using vmalloc_small [OF assms e(1)] e(2,3) by (cases b) auto
qed

lemma count_run_past:
  "(\<And>k. k \<in> set ks \<Longrightarrow> \<not> used m t k) \<Longrightarrow> tot \<le> c \<Longrightarrow> c + length ks < 2 ^ 32 \<Longrightarrow>
   count_run m t tot ks c = (1024, c + length ks)"
  by (induction ks arbitrary: c) auto

lemma count_run_pos:
  "(\<And>k. k \<in> set ks \<Longrightarrow> \<not> used m t k) \<Longrightarrow> c + length ks < 2 ^ 32 \<Longrightarrow> ks \<noteq> [] \<Longrightarrow>
   0 < snd (count_run m t tot ks c)"
proof (induction ks arbitrary: c)
  case (Cons k ks)
  then have k: "\<not> used m t k" "(c + 1) mod 2 ^ 32 = c + 1" by auto
  have "0 < snd (count_run m t tot ks (c + 1))"
    using Cons by (cases ks) auto
  with k show ?case by simp
qed simp

lemma big_scan_stuck:
  assumes "big_body m pd i ipc frames s = s" "fst s < ipc + of_bool (0 < frames)"
  shows "big_scan m pd i ipc frames s = None"
proof (rule ccontr)
  assume "big_scan m pd i ipc frames s \<noteq> None"
  then obtain r where r: "big_scan m pd i ipc frames s = Some r" by auto
  have "(m, pd, i, ipc, frames, s) = (m, pd, i, ipc, frames, s) \<longrightarrow> False"
  proof (rule big_scan.raw_induct [where P = "\<lambda>m' pd' i' ipc' f' s' r. (m', pd', i', ipc', f', s') = (m, pd, i, ipc, frames, s) \<longrightarrow> False", OF _ r])
    fix scan m' pd' i' ipc' f' s' r'
    assume IH: "\<And>m' pd' i' ipc' f' s' r'. scan m' pd' i' ipc' f' s' = Some r' \<Longrightarrow>
        (m', pd', i', ipc', f', s') = (m, pd, i, ipc, frames, s) \<longrightarrow> False"
      and eq: "(if fst s' < ipc' + of_bool (0 < f') then scan m' pd' i' ipc' f' (big_body m' pd' i' ipc' f' s')
        else Some (snd (snd s'))) = Some r'"
    show "(m', pd', i', ipc', f', s') = (m, pd, i, ipc, frames, s) \<longrightarrow> False"
      using eq assms IH [of m pd i ipc frames s r'] by (auto split: if_splits)
  qed
  then show False by simp
qed

text \<open>C17. A request of 1025 to 2047 pages does not return when the heap's first table exists with every page unused (as
  after one page was allocated and freed) and the next two directory entries are absent, if the uninitialised counter holds less
  than \<open>2\<^sup>3\<^sup>1\<close>: the search resets its own loop variable.\<close>

theorem vmalloc_hangs:
  fixes v :: vm and pa nbytes gva :: u32 and g :: nat
  defines "m \<equiv> pmem v" and "pd \<equiv> frame_of pa"
  assumes size: "4198400 \<le> unat nbytes" "unat nbytes < 8388608" and g: "g < 2147483648"
    and t: "p_pres (m (ent pd 8))" "\<And>k. k < 1024 \<Longrightarrow> \<not> used m (p_base (m (ent pd 8))) k"
    and next_absent: "\<not> p_pres (m (ent pd 9))" "\<not> p_pres (m (ent pd 10))"
  shows "vmalloc pa nbytes g gva v = None"
proof -
  define n r where "n = unat nbytes div 4096" and "r = n - 1024"
  have nr: "n = 1024 + r" "0 < r" "r < 1024" using size by (auto simp: n_def r_def)
  have div: "n div 1024 = 1" using nr by simp
  define tot where "tot = r + 1024"
  let ?t = "p_base (m (ent pd 8))"
  have un: "\<And>k. k \<in> set [0..<1024] \<Longrightarrow> \<not> used m ?t k" using t(2) by (simp del: upt_rec_numeral)
  have len: "length [0..<1024] = (1024 :: nat)" by (simp del: upt_rec_numeral)
  have c2: "count_run m ?t tot [0..<1024] tot = (1024, tot + 1024)"
    using count_run_past [where ks = "[0..<1024]" and tot = tot and c = tot, OF un] nr unfolding len by (simp add: tot_def)
  have ne: "[0..<1024] \<noteq> ([] :: nat list)" by (simp del: upt_rec_numeral)
  have c1: "0 < snd (count_run m ?t tot [0..<1024] g)"
    using count_run_pos [where ks = "[0..<1024]" and tot = tot and c = g, OF un _ ne] g unfolding len by simp
  have stuck: "big_body m pd 8 1 r (1, ?t, tot, va) = (1, ?t, tot, va)" for va
    using c2 nr next_absent by (simp add: big_body_def tot_def Let_def del: upt_rec_numeral)
  have "\<exists>va. big_body m pd 8 1 r (0, ?t, g, gva) = (1, ?t, tot, va)"
    using c1 nr next_absent by (cases "count_run m ?t tot [0..<1024] g")
      (simp add: big_body_def tot_def Let_def del: upt_rec_numeral)
  then have "big_scan m pd 8 1 r (0, ?t, g, gva) = None"
    using big_scan_stuck [OF stuck] nr by (subst big_scan.simps) auto
  then have "vmalloc_loop pd 1 8 r g gva m = None"
    using t(1) nr by (subst vmalloc_loop.simps) simp
  moreover have p: "(if n < 1 then 1 else n) = n" and s: "n - 1 * 1024 = r" using nr by auto
  ultimately show ?thesis
    unfolding vmalloc_def Let_def n_def [symmetric] p div s
    using nr(2) by (simp add: load_pd_def write_cr3_def m_def pd_def)
qed

lemma count_unused_but_one:
  assumes "u < n" "used m t u" "\<And>k. k < n \<Longrightarrow> k \<noteq> u \<Longrightarrow> \<not> used m t k"
  shows "count_unused m t 0 n = n - 1"
proof -
  have "distinct (filter (\<lambda>k. \<not> used m t k) [0..<n])" by simp
  moreover have "set (filter (\<lambda>k. \<not> used m t k) [0..<n]) = {0..<n} - {u}" using assms(2,3) by auto
  ultimately show ?thesis using assms(1) distinct_card by (fastforce simp: count_unused_filter)
qed

text \<open>C18. A request for \<open>n\<close> pages that finds only the last page of a table unused counts the unused pages among the first
  \<open>n\<close> of the next table without asking that they come first. If page \<open>u\<close> there is in use and the others are not, the call
  marks the last page of the one table and the first \<open>n - 1\<close> of the other, page \<open>u\<close> among them: it is handed out a second
  time, as page \<open>u + 1\<close> of the block, while page \<open>n - 1\<close>, which was counted, stays unused.\<close>

theorem vmalloc_double_allocation:
  fixes v :: vm and pa nbytes gva :: u32 and g u :: nat
  defines "m \<equiv> pmem v" and "pd \<equiv> frame_of pa" and "n \<equiv> request_pages nbytes"
  defines "t \<equiv> p_base (m (ent pd 8))" and "t' \<equiv> p_base (m (ent pd 9))"
  assumes size: "unat nbytes < 4194304" and pres: "p_pres (m (ent pd 8))" "p_pres (m (ent pd 9))"
    and t: "\<And>k. k < 1023 \<Longrightarrow> used m t k" "\<not> used m t 1023"
    and t': "u + 1 < n" "used m t' u" "\<And>k. k < n \<Longrightarrow> k \<noteq> u \<Longrightarrow> \<not> used m t' k"
  shows "\<exists>m'. vmalloc pa nbytes g gva v = Some (heap_addr 8 1023, v\<lparr>pmem := m'\<rparr>)
    \<and> (\<forall>e. m' e = (if e = ent t 1023 \<or> e div 1024 = t' \<and> e mod 1024 < n - 1 then (m e)\<lparr>p_avail := 3\<rparr> else m e))
    \<and> used m t' u \<and> heap_addr 9 u = heap_addr 8 1023 + 4096 * of_nat (u + 1) \<and> u + 1 < n \<and> \<not> used m' t' (n - 1)"
proof -
  have n: "0 < n" "n < 1024" using request_pages_small [OF size] by (simp_all add: n_def)
  have scan: "small_scan m pd 8 n j c = SpanPresent 1023 1 (n - 1)" if "j \<le> 1023" for j c
    using that
  proof (induction "1023 - j" arbitrary: j)
    case 0
    then have j: "j = 1023" by simp
    have "count_unused m t 1023 1024 = 1" using t by (simp add: count_unused_def upt_rec)
    moreover have "count_unused m t' 0 n = n - 1" using t' by (intro count_unused_but_one [of u]) simp_all
    ultimately show ?case using t(2) t'(1) pres n unfolding j t_def t'_def by (subst small_scan.simps) simp
  next
    case (Suc x)
    then have "small_scan m pd 8 n (j + 1) c = SpanPresent 1023 1 (n - 1)" by (intro Suc.hyps(1)) auto
    then show ?case using t(1) [of j] Suc.hyps(2) unfolding t_def by (subst small_scan.simps) simp
  qed
  let ?m = "span_present pd 8 1023 (n - 1) m"
  have "vmalloc_loop pd 0 8 n g gva m = Some (VmExit (heap_addr 8 1023) ?m True)"
    using scan [of 0 g] pres by (subst vmalloc_loop.simps) simp
  then have r: "vmalloc pa nbytes g gva v = Some (heap_addr 8 1023, v\<lparr>pmem := ?m\<rparr>)"
    using vmalloc_small [OF size, of pa g gva v] by (simp add: m_def pd_def n_def)
  have "used m t (n - 1)" "\<not> used m t' (n - 1)" using t(1) [of "n - 1"] t' n by simp_all
  then have tt: "t \<noteq> t'" by metis
  have "e div 1024 = t \<and> 1023 \<le> e mod 1024 \<longleftrightarrow> e = ent t 1023" for e using ent_eq_iff [of 1023 e t] mod_less_divisor [of 1024 e] by auto
  then have me: "?m e = (if e = ent t 1023 \<or> e div 1024 = t' \<and> e mod 1024 < n - 1 then (m e)\<lparr>p_avail := 3\<rparr> else m e)" for e
    using n tt by (auto simp: span_present_def Let_def mark_ent t_def [symmetric] t'_def [symmetric])
  have "heap_addr 9 u = heap_addr 8 1023 + 4096 * of_nat (u + 1)" by (simp add: heap_addr_def)
  moreover have "\<not> used ?m t' (n - 1)"
    using \<open>\<not> used m t' (n - 1)\<close> n tt unfolding used_def me [of "ent t' (n - 1)"] by simp
  ultimately show ?thesis using r me t'(1,2) by blast
qed

section \<open>Lemmas on vfree\<close>

lemma sint_small: "unat (p :: u32) < 2147483648 \<Longrightarrow> sint p = int (unat p)"
proof -
  assume p: "unat p < 2147483648"
  have "signed_take_bit 31 (int n) = int n" if "n < 2147483648" for n
    using that by (intro signed_take_bit_int_eq_self) simp_all
  from this [OF p] have "signed_take_bit 31 (int (unat p)) = int (unat p)" .
  moreover have "sint p = signed_take_bit 31 (uint p)" by (simp add: sint_uint)
  moreover have "uint p = int (unat p)" by simp
  ultimately show ?thesis by presburger
qed

lemma trunc_nat: "sgn (int n) * (\<bar>int n\<bar> div int c) = int (n div c)"
  by (cases "n = 0") (simp_all add: zdiv_int)

lemma ient_eq: "f < 2 ^ 20 \<Longrightarrow> j < 1024 \<Longrightarrow> ient f (int j) = ent f j"
  by (simp add: ient_def ent_def)

lemma vfree_index_small:
  assumes "unat p < 2147483648"
  shows "vfree_index p = (int (unat p div 4194304), int (unat p div 4096 mod 1024))"
proof -
  define n where "n = unat p"
  have s: "sint p = int n" using sint_small [OF assms] by (simp only: n_def)
  have i: "sgn (sint p) * (\<bar>sint p\<bar> div 4194304) = int (n div 4194304)"
    unfolding s using trunc_nat [of n 4194304] by simp
  have "int n = int (n div 4194304 * 4194304 + n mod 4194304)" by (simp only: div_mult_mod_eq)
  then have j: "int n - int (n div 4194304) * 4194304 = int (n mod 4194304)" by (simp only: of_nat_add of_nat_mult of_nat_numeral)
  have d: "n mod 4194304 div 4096 = n div 4096 mod 1024"
    using mod_mult2_eq [of n 4096 1024] by simp
  then have k: "sgn (int (n mod 4194304)) * (\<bar>int (n mod 4194304)\<bar> div 4096) = int (n div 4096 mod 1024)"
    using trunc_nat [of "n mod 4194304" 4096] by simp
  show ?thesis unfolding vfree_index_def Let_def i n_def [symmetric] unfolding s j k ..
qed

lemma free_pte_apply:
  "\<not> ffs_entry e \<Longrightarrow> free_pte e m x =
    (if x = e then (m e)\<lparr>p_pres := False, p_avail := 2, p_base := 0\<rparr>
     else if ffs_entry x \<and> p_pres (m e) \<and> p_base (m e) = p_base (m x) then (m x)\<lparr>p_avail := 2\<rparr> else m x)"
  by (cases "x = e"; cases "p_pres (m e)") (simp_all add: free_pte_def upd_def release_ffs_apply)

lemma free_ptes_apply:
  assumes "distinct es" "\<And>e. e \<in> set es \<Longrightarrow> \<not> ffs_entry e"
  shows "fold free_pte es m x = (if x \<in> set es then (m x)\<lparr>p_pres := False, p_avail := 2, p_base := 0\<rparr>
    else if ffs_entry x \<and> (\<exists>e\<in>set es. p_pres (m e) \<and> p_base (m e) = p_base (m x)) then (m x)\<lparr>p_avail := 2\<rparr>
    else m x)"
  using assms
proof (induction es arbitrary: m)
  case (Cons e es)
  have ne: "\<not> ffs_entry e" "\<And>y. y \<in> set es \<Longrightarrow> \<not> ffs_entry y" using Cons.prems by auto
  have k: "free_pte e m y = m y" if "y \<in> set es" for y
    using that Cons.prems by (auto simp: free_pte_apply)
  have ex: "(\<exists>y\<in>set es. p_pres (free_pte e m y) \<and> p_base (free_pte e m y) = b)
      \<longleftrightarrow> (\<exists>y\<in>set es. p_pres (m y) \<and> p_base (m y) = b)" for b
    using k by (simp cong: bex_cong)
  have IH: "fold free_pte es (free_pte e m) x = (if x \<in> set es then (m x)\<lparr>p_pres := False, p_avail := 2, p_base := 0\<rparr>
    else if ffs_entry x \<and> (\<exists>y\<in>set es. p_pres (m y) \<and> p_base (m y) = p_base (free_pte e m x))
    then (free_pte e m x)\<lparr>p_avail := 2\<rparr> else free_pte e m x)"
    using Cons.IH [of "free_pte e m"] Cons.prems k unfolding ex by simp
  show ?case
  proof (cases "x = e")
    case True
    then show ?thesis using IH Cons.prems(1) ne(1) by (simp add: free_pte_apply)
  next
    case False
    then have "p_base (free_pte e m x) = p_base (m x)" using ne(1) by (simp add: free_pte_apply)
    then show ?thesis using IH False free_pte_apply [OF ne(1), of m x] by auto
  qed
qed simp

lemma fold_count: "fold (\<lambda>k n. if P k then Suc n else n) ks n = n + length (filter P ks)"
  by (induction ks arbitrary: n) simp_all

lemma filter_all_length: "length (filter P xs) = length xs \<longleftrightarrow> (\<forall>x\<in>set xs. P x)"
  using length_filter_less [of _ xs P] filter_True [of xs P] by (metis less_irrefl)

text \<open>The pages from \<open>p\<close> on are the \<open>n\<close> words from the entry of the first one on, also where these words run over the end
  of the table.\<close>

lemma vfree_pages_words:
  fixes p :: u32 and m :: pmem and pd n :: nat
  defines "a \<equiv> ent (p_base (m (ent pd (unat p div 4194304)))) (unat p div 4096 mod 1024)"
  assumes p: "unat p < 2147483648" and n: "a + n \<le> 2 ^ 30" and b: "pd < 2 ^ 20"
  shows "vfree_pages m pd p n = (if \<forall>k<n. p_avail (m (a + k)) = 3 then Some (fold free_pte [a..<a + n] m) else None)"
proof -
  let ?t = "p_base (m (ent pd (unat p div 4194304)))" and ?j = "unat p div 4096 mod 1024"
  have "ient pd (int (unat p div 4194304)) = ent pd (unat p div 4194304)"
    using p b by (intro ient_eq) auto
  then have t: "p_base (m (ient pd (int (unat p div 4194304)))) = ?t" by simp
  have e: "ient ?t (int ?j + int k) = a + k" if "k < n" for k
  proof -
    have "int (ent ?t 0) + (int ?j + int k) = int (a + k)" by (simp add: a_def ent_def)
    moreover have "nat (int (a + k) mod 2 ^ 30) = a + k" using that n by simp
    ultimately show ?thesis unfolding ient_def by (simp only:)
  qed
  have "(\<forall>k\<in>set [0..<n]. p_avail (m (ient ?t (int ?j + int k))) = 3) \<longleftrightarrow> (\<forall>k<n. p_avail (m (a + k)) = 3)"
    using e by auto
  then have c: "fold (\<lambda>k c. if p_avail (m (ient ?t (int ?j + int k))) = 3 then Suc c else c) [0..<n] 0 = n
      \<longleftrightarrow> (\<forall>k<n. p_avail (m (a + k)) = 3)"
    using filter_all_length [of _ "[0..<n]"] unfolding fold_count by simp
  have l: "((of_int (int ?j) :: u32) < of_int (int ?j) + of_nat n) \<longleftrightarrow> 0 < n"
  proof -
    have "?j < 1024" "n \<le> 2 ^ 30" using n by simp_all
    then have "unat (of_nat ?j :: u32) = ?j" "unat (of_nat (?j + n) :: u32) = ?j + n"
      by (simp_all add: unat_of_nat_u32 del: of_nat_add)
    then show ?thesis by (simp add: word_less_nat_alt)
  qed
  have "[a..<a + n] = map (\<lambda>k. ient ?t (int ?j + int k)) [0..<n]"
    using e by (intro nth_equalityI) auto
  then have f: "fold (\<lambda>k. free_pte (ient ?t (int ?j + int k))) [0..<n] m = fold free_pte [a..<a + n] m"
    by (simp add: fold_map comp_def)
  have i: "vfree_index p = (int (unat p div 4194304), int ?j)"
    using vfree_index_small [OF p] by simp
  show ?thesis
    unfolding vfree_pages_def i Let_def prod.case t c l f by (cases "n = 0") simp_all
qed

lemma vfree_pages_in_table:
  fixes p :: u32 and m :: pmem and pd n :: nat
  defines "t \<equiv> p_base (m (ent pd (unat p div 4194304)))" and "j \<equiv> unat p div 4096 mod 1024"
  assumes p: "unat p < 2147483648" and n: "j + n \<le> 1024" and b: "pd < 2 ^ 20" "t < 2 ^ 20"
  shows "vfree_pages m pd p n =
    (if \<forall>k<n. used m t (j + k) then Some (fold free_pte (map (ent t) [j..<j + n]) m) else None)"
proof -
  have "ent t j + n \<le> 2 ^ 30" using n b(2) by (simp add: ent_def)
  moreover have "map (ent t) [j..<j + n] = [ent t j..<ent t j + n]" by (intro nth_equalityI) (simp_all add: ent_def)
  moreover have "used m t (j + k) \<longleftrightarrow> p_avail (m (ent t j + k)) = 3" for k by (simp add: used_def ent_def add.assoc)
  ultimately show ?thesis using vfree_pages_words [OF p, of m pd n] b(1) by (simp add: t_def j_def)
qed

lemma vfree_eq:
  "vfree pa p nbytes v =
    (case (if p < vfree_bound (pmem v) (frame_of pa)
           then vfree_pages (pmem v) (frame_of pa) p (unat nbytes div 4096) else None) of
       Some m \<Rightarrow> (OK, v\<lparr>pmem := m\<rparr>) | None \<Rightarrow> (SYSERR, v))"
proof -
  have eta: "v\<lparr>pmem := m, ints := ints v\<rparr> = v\<lparr>pmem := m\<rparr>" for m by simp
  have eta': "v\<lparr>ints := False, cr3 := c, cr3 := cr3 v, ints := ints v\<rparr> = v"
    "v\<lparr>ints := False, cr3 := c, pmem := m, cr3 := cr3 v, ints := ints v\<rparr> = v\<lparr>pmem := m\<rparr>" for c m by simp_all
  have p: "pmem (v\<lparr>ints := False, cr3 := c\<rparr>) = pmem v" "cr3 (v\<lparr>ints := False\<rparr>) = cr3 v" for c by simp_all
  show ?thesis
    by (simp only: vfree_def disable_def restore_def read_cr3_def write_cr3_def load_pd_def Let_def
        prod.case vm.simps p eta eta')
qed

lemma frame_of_less: "frame_of pa < 2 ^ 20"
  using unat_u32_less [of pa] by (simp add: frame_of_def less_mult_imp_div_less)

lemma find_first:
  "a \<le> x \<Longrightarrow> x < b \<Longrightarrow> P x \<Longrightarrow> (\<And>y. a \<le> y \<Longrightarrow> y < x \<Longrightarrow> \<not> P y) \<Longrightarrow> find P [a..<b] = Some (x :: nat)"
proof (induction "x - a" arbitrary: a)
  case 0
  then show ?case by (simp add: upt_conv_Cons)
next
  case (Suc k)
  then have "find P [Suc a..<b] = Some x" by (intro Suc.hyps(1)) auto
  then show ?case using Suc by (simp add: upt_conv_Cons)
qed

lemma vfree_bound_next:
  assumes "7 \<le> i" "i < 1023" "\<And>k. 8 \<le> k \<Longrightarrow> k \<le> i \<Longrightarrow> p_pres (m (ent pd k))" "\<not> p_pres (m (ent pd (i + 1)))"
    "used m (p_base (m (ent pd i))) k" "k < 1024"
  shows "4194304 * (i + 1) \<le> unat (vfree_bound m pd)"
proof -
  have "find (\<lambda>i. \<not> p_pres (m (ent pd i))) [8..<1024] = Some (i + 1)"
    using assms by (intro find_first) auto
  then have b: "bound_pde m pd = (p_base (m (ent pd i)), i + 1)" by (simp add: bound_pde_def)
  obtain l where l: "find (\<lambda>k. used m (p_base (m (ent pd i))) k) (rev [0..<1024]) = Some l"
    using assms(5,6) find_None_iff [of "\<lambda>k. used m (p_base (m (ent pd i))) k" "rev [0..<1024]"]
    by (metis atLeastLessThan_iff le0 not_None_eq set_rev set_upt)
  then have "l \<in> set (rev [0..<1024])" using find_Some by metis
  then have "l < 1024" unfolding set_rev set_upt by simp
  then show ?thesis using heap_addr_word [of "i + 1" l] assms(2) l by (simp add: vfree_bound_def b)
qed

text \<open>C12. \<open>vfree\<close> of pages below 2 GB and below the process's bound, all in use: the call returns OK with CR3 and interrupts
  as before, exactly the words of these pages are unreserved and unmapped, the FFS frames they mapped are free again, and no
  other word changes. The words are consecutive in memory: where the range runs over the end of its table they are those of the next
  frame, whatever that frame is.\<close>

theorem vfree_releases:
  fixes v :: vm and pa p nbytes :: u32
  defines "m \<equiv> pmem v" and "pd \<equiv> frame_of pa" and "n \<equiv> unat nbytes div 4096"
  defines "a \<equiv> ent (p_base (m (ent pd (unat p div 4194304)))) (unat p div 4096 mod 1024)"
  assumes p: "unat p < 2147483648" "p < vfree_bound m pd" and n: "a + n \<le> 2 ^ 30"
    and ffs: "\<forall>k<n. \<not> ffs_entry (a + k)" and own: "\<forall>k<n. p_avail (m (a + k)) = 3"
  shows "\<exists>m'. vfree pa p nbytes v = (OK, v\<lparr>pmem := m'\<rparr>)
    \<and> (\<forall>e. m' e = (if a \<le> e \<and> e < a + n then (m e)\<lparr>p_pres := False, p_avail := 2, p_base := 0\<rparr>
                  else if ffs_entry e \<and> (\<exists>k<n. p_pres (m (a + k)) \<and> p_base (m (a + k)) = p_base (m e))
                  then (m e)\<lparr>p_avail := 2\<rparr> else m e))"
proof -
  let ?es = "[a..<a + n]"
  have off: "\<exists>k<n. e = a + k" if "e \<in> set ?es" for e using that by (intro exI [of _ "e - a"]) auto
  have ex: "(\<exists>e\<in>set ?es. Q e) \<longleftrightarrow> (\<exists>k<n. Q (a + k))" for Q using off by fastforce
  have "vfree_pages m pd p n = Some (fold free_pte ?es m)"
    using vfree_pages_words [OF p(1), of m pd n] n own frame_of_less [of pa] by (simp add: a_def pd_def)
  then have "vfree pa p nbytes v = (OK, v\<lparr>pmem := fold free_pte ?es m\<rparr>)"
    using p(2) by (simp add: vfree_eq m_def pd_def n_def)
  moreover have "distinct ?es" by simp
  moreover have "\<not> ffs_entry e" if "e \<in> set ?es" for e using off [OF that] ffs by blast
  moreover have "e \<in> set ?es \<longleftrightarrow> a \<le> e \<and> e < a + n" for e by auto
  ultimately show ?thesis using free_ptes_apply [of ?es m] unfolding ex by (intro exI [of _ "fold free_pte ?es m"]) simp
qed

text \<open>C15. \<open>vfree\<close> of a pointer below 2 GB gives SYSERR and changes nothing when the pointer is not below the bound or one of
  the words it takes for the entries of the range, consecutive from the entry of the first page on, is not in use.\<close>

theorem vfree_refuses:
  fixes v :: vm and pa p nbytes :: u32
  defines "m \<equiv> pmem v" and "pd \<equiv> frame_of pa" and "n \<equiv> unat nbytes div 4096"
  defines "a \<equiv> ent (p_base (m (ent pd (unat p div 4194304)))) (unat p div 4096 mod 1024)"
  assumes p: "unat p < 2147483648" "a + n \<le> 2 ^ 30"
    and bad: "vfree_bound m pd \<le> p \<or> (\<exists>k<n. p_avail (m (a + k)) \<noteq> 3)"
  shows "vfree pa p nbytes v = (SYSERR, v)"
proof (cases "p < vfree_bound m pd")
  case True
  then have "vfree_pages m pd p n = None"
    using vfree_pages_words [OF p(1), of m pd n] p bad frame_of_less [of pa] by (auto simp: a_def pd_def)
  with True show ?thesis by (simp add: vfree_eq m_def pd_def n_def)
qed (simp add: vfree_eq m_def pd_def)

lemma heap_addr_index:
  "i < 1024 \<Longrightarrow> j < 1024 \<Longrightarrow>
   unat (heap_addr i j) div 4194304 = i \<and> unat (heap_addr i j) div 4096 mod 1024 = j"
proof -
  assume ij: "i < 1024" "j < 1024"
  have "(4194304 * i + 4096 * j) div 4096 = 1024 * i + j" by simp
  then show ?thesis using ij unfolding heap_addr_word [OF ij] by simp
qed

text \<open>C5. Allocating from the last table of a heap below 2 GB, whose unused pages are fresh, and freeing the block with the
  same size gives back the very same state, for every size from one page to just below 4 MB. A size below one page is rounded up by
  \<open>vmalloc\<close> and down by \<open>vfree\<close>, which returns OK and frees nothing.\<close>

theorem vmalloc_vfree_roundtrip:
  fixes v :: vm and pa nbytes gva :: u32 and i j g :: nat
  defines "m \<equiv> pmem v" and "pd \<equiv> frame_of pa" and "n \<equiv> request_pages nbytes"
  defines "t \<equiv> p_base (m (ent pd i))"
  assumes size: "unat nbytes < 4194304" and i: "8 \<le> i" "i < 511" and full: "no_room m pd n i"
    and pres: "p_pres (m (ent pd i))" and last: "\<not> p_pres (m (ent pd (i + 1)))"
    and t: "t < 2 ^ 20" "\<not> (FFS_PT \<le> t \<and> t < FFS_PT + 16)" "t \<noteq> pd"
    and fit: "run_at m t n j" "\<And>k. k < j \<Longrightarrow> \<not> run_at m t n k"
    and fresh: "\<And>k. j \<le> k \<Longrightarrow> k < j + n \<Longrightarrow> m (ent t k) = vm_pte"
  shows "\<exists>v'. vmalloc pa nbytes g gva v = Some (heap_addr i j, v')
    \<and> vfree pa (heap_addr i j) nbytes v' = (OK, if unat nbytes < 4096 then v' else v)"
proof -
  define n0 where "n0 = unat nbytes div 4096"
  have n: "0 < n" "n0 = (if unat nbytes < 4096 then 0 else n)" by (auto simp: n_def n0_def request_pages_def)
  have jn: "j + n \<le> 1024" "j < 1024" using fit(1) n(1) by (auto simp: run_at_def)
  let ?p = "heap_addr i j"
  have i1: "i < 1024" using i by simp
  define m' where "m' = mark t j n m"
  have m'e: "m' e = (if e div 1024 = t \<and> j \<le> e mod 1024 \<and> e mod 1024 < j + n then (m e)\<lparr>p_avail := 3\<rparr> else m e)" for e
    unfolding m'_def by (rule mark_ent [OF jn(1)])
  have "vmalloc_loop pd 0 8 n g gva m = Some (VmExit ?p m' True)"
    using vmalloc_loop_skip [OF full, of 8 g gva] vmalloc_loop_fit [OF i1 pres n(1) fit [unfolded t_def], of _ gva] i n(1)
    by (auto simp: t_def m'_def)
  then have alloc: "vmalloc pa nbytes g gva v = Some (?p, v\<lparr>pmem := m'\<rparr>)"
    using vmalloc_small [OF size, of pa g gva v] by (simp add: n_def m_def pd_def)
  have pde: "m' (ent pd k) = m (ent pd k)" if "k < 1024" for k using that t(3) m'e by simp
  have idx: "unat ?p div 4194304 = i" "unat ?p div 4096 mod 1024 = j"
    using heap_addr_index [OF i1 jn(2)] by simp_all
  have w: "unat ?p = 4194304 * i + 4096 * j" by (rule heap_addr_word [OF i1 jn(2)])
  then have p: "unat ?p < 2147483648" using i jn(2) by simp
  have used': "used m' t (j + k)" if "k < n" for k using that jn m'e by (simp add: used_def)
  have "4194304 * (i + 1) \<le> unat (vfree_bound m' pd)"
    using i pde full pres last used' [OF n(1)] jn(2)
    by (intro vfree_bound_next [of i m' pd j]) (auto simp: no_room_def t_def le_less)
  then have b: "?p < vfree_bound m' pd" using w jn(2) by (simp add: word_less_nat_alt)
  have "n0 \<le> n" using n(2) by simp
  then have "vfree_pages m' pd ?p n0 = Some (fold free_pte (map (ent t) [j..<j + n0]) m')"
    using vfree_pages_in_table [OF p, of n0 pd m'] jn(1) t(1) used' frame_of_less [of pa] pde [OF i1] idx
    by (simp add: t_def pd_def)
  moreover have "fold free_pte (map (ent t) [j..<j + n]) m' = m"
  proof
    fix e
    let ?es = "map (ent t) [j..<j + n]"
    have "distinct ?es" using jn by (auto simp: distinct_map inj_on_def)
    moreover have in_es: "x \<in> set ?es \<longleftrightarrow> x div 1024 = t \<and> j \<le> x mod 1024 \<and> x mod 1024 < j + n" for x
      using ent_split [of x] jn by (auto simp: image_iff intro!: bexI [of _ "x mod 1024"])
    moreover have old: "m x = vm_pte" if "x \<in> set ?es" for x
      using that fresh by auto
    moreover have "\<not> ffs_entry x" if "x \<in> set ?es" for x
      using that t(2) unfolding in_es ffs_entry_page by simp
    moreover have "\<not> p_pres (m' x)" if "x \<in> set ?es" for x
      using old [OF that] by (simp add: m'e vm_pte_def)
    ultimately have "fold free_pte ?es m' e
      = (if e \<in> set ?es then (m' e)\<lparr>p_pres := False, p_avail := 2, p_base := 0\<rparr> else m' e)"
      using free_ptes_apply [of ?es m' e] by auto
    then show "fold free_pte ?es m' e = m e"
      using old [of e] in_es [of e] by (cases "e \<in> set ?es") (simp_all add: m'e vm_pte_def)
  qed
  ultimately have "vfree_pages m' pd ?p n0 = Some (if unat nbytes < 4096 then m' else m)" using n(2) by simp
  then have "vfree pa ?p nbytes (v\<lparr>pmem := m'\<rparr>) = (OK, if unat nbytes < 4096 then v\<lparr>pmem := m'\<rparr> else v)"
    using b by (simp add: vfree_eq pd_def [symmetric] n0_def [symmetric]) (simp add: m_def)
  with alloc show ?thesis by (intro exI [of _ "v\<lparr>pmem := m'\<rparr>"]) simp
qed

text \<open>A process created with a fresh page directory may free kernel memory: \<open>vfree(0, 4096)\<close>
  returns OK and unmaps the first page of the kernel in the tables that every process shares.\<close>

theorem vfree_unmaps_kernel:
  fixes v0 :: vm and f :: nat and pa :: u32
  defines "v \<equiv> snd (initialize_page_table v0)"
  assumes dir: "initialize_user_page_dir (pmem v) = Some (f, m)" and pa: "unat pa = 4096 * f"
    and f: "PD_START + 25 < f"
  shows "\<exists>m'. vfree pa 0 4096 (v\<lparr>pmem := m\<rparr>) = (OK, v\<lparr>pmem := m'\<rparr>)
    \<and> translate m PD_START 0 = Some 0 \<and> translate m' PD_START 0 = None \<and> translate m' f 0 = None"
proof -
  note E = user_page_dir_entry [OF dir] initialize_page_table_entry [of v0, folded v_def]
  have fo: "frame_of pa = f" using pa by (simp add: frame_of_def)
  have d: "m (ent f i) = (if i < 8 then pd_set (PD_START + Suc i) (pd_clear (pmem v (ent f i))) else pd_clear (pmem v (ent f i)))"
    if "i < 1024" for i using that by (simp add: E(1))
  have base: "p_base (m (ent f i)) = PD_START + Suc i" "p_pres (m (ent f i))" if "i < 8" for i
    using that d [of i] by (simp_all add: pd_set_def)
  have k: "m (ent (PD_START + Suc i) j) = sys_pte i j (pmem v0 (ent (PD_START + Suc i) j))" if "i < 25" "j < 1024" for i j
    using that f by (simp add: E)
  have s: "m (ent PD_START 0) = pd_set (PD_START + 1) (pd_clear (pmem v0 (ent PD_START 0)))"
    using f by (simp add: E)
  have a: "used m (PD_START + Suc i) j" if "i < 8" "j < 1024" for i j
    using that k [of i j] by (simp add: used_def sys_pte_def)
  have "\<not> p_pres (m (ent f 8))" using d [of 8] by (simp add: pd_clear_def)
  moreover have "used m (p_base (m (ent f 7))) 0" using a [of 7 0] base [of 7] by simp
  ultimately have "4194304 * 8 \<le> unat (vfree_bound m f)"
    using vfree_bound_next [of 7 m f 0] by simp
  then have b: "(0 :: u32) < vfree_bound m f" by (simp add: word_less_nat_alt)
  have b0: "p_base (m (ent f 0)) = PD_START + 1" using base [of 0] by simp
  have "f < 2 ^ 20" using frame_of_less [of pa] by (simp add: fo)
  then have "vfree_pages m f 0 1 = Some (free_pte (ent (PD_START + 1) 0) m)"
    using vfree_pages_in_table [of 0 1 f m] b0 a [of 0 0] by simp
  then have free: "vfree pa 0 4096 (v\<lparr>pmem := m\<rparr>) = (OK, v\<lparr>pmem := free_pte (ent (PD_START + 1) 0) m\<rparr>)"
    using b by (simp add: vfree_eq fo)
  have nf: "\<not> ffs_entry (ent (PD_START + 1) 0)" by (simp add: ffs_entry_page)
  let ?m = "free_pte (ent (PD_START + 1) 0) m"
  have pte: "\<not> p_pres (?m (ent (PD_START + 1) 0))" unfolding free_pte_apply [OF nf] by simp
  have pde: "p_base (?m (ent PD_START 0)) = PD_START + 1" "p_base (?m (ent f 0)) = PD_START + 1"
    unfolding free_pte_apply [OF nf] using f b0 s by (simp_all add: pd_set_def ffs_entry_page)
  have "translate m PD_START 0 = Some 0"
    using s k [of 0 0] by (simp add: translate_def pd_set_def sys_pte_def)
  moreover have "translate ?m PD_START 0 = None" "translate ?m f 0 = None"
    using pte pde by (simp_all add: translate_def Let_def)
  ultimately show ?thesis using free by blast
qed

section \<open>Concrete heaps\<close>

text \<open>A directory in frame 24610 whose ninth entry points at a table in frame 24611, all of whose
  pages are fresh except the first \<open>n\<close>, which are reserved and, from 4 on, mapped.\<close>

definition demo_mem :: "nat \<Rightarrow> pmem" where
  "demo_mem n e =
     (if e = ent 24610 8 then vm_pde 24611
      else if e div 1024 = 24611 then
        if e mod 1024 < n then vm_pte\<lparr>p_avail := 3, p_pres := (4 \<le> e mod 1024), p_base := 8192 + e mod 1024\<rparr> else vm_pte
      else pte_zero)"

definition demo_vm :: "nat \<Rightarrow> vm" where
  "demo_vm n = \<lparr>pmem = demo_mem n, cr3 = 100802560, cr2 = 0, ints = True\<rparr>"

abbreviation demo_dir :: u32 where "demo_dir \<equiv> 100802560"

lemma demo_reads:
  "pmem (demo_vm n) = demo_mem n" "frame_of demo_dir = 24610" "demo_mem n (ent 24610 8) = vm_pde 24611"
  "p_base (vm_pde f) = f" "p_pres (vm_pde f)" "\<not> p_pres pte_zero" "8 < i \<Longrightarrow> i < 1024 \<Longrightarrow> demo_mem n (ent 24610 i) = pte_zero"
  "k < 1024 \<Longrightarrow> used (demo_mem n) 24611 k \<longleftrightarrow> k < n"
  by (simp_all add: demo_vm_def frame_of_def demo_mem_def vm_pde_def pte_zero_def used_def vm_pte_def)

theorem vmalloc_first_fit_witness:
  "\<exists>m'. vmalloc demo_dir 8192 0 0 (demo_vm 5) = Some (heap_addr 8 5, (demo_vm 5)\<lparr>pmem := m'\<rparr>) \<and> used m' 24611 6"
proof -
  have n: "request_pages 8192 = 2" by (simp add: request_pages_def)
  have full: "no_room (pmem (demo_vm 5)) (frame_of demo_dir) nn 8" for nn by (simp add: no_room_def)
  have fit: "run_at (demo_mem 5) 24611 2 5" "\<And>k. k < 5 \<Longrightarrow> \<not> run_at (demo_mem 5) 24611 2 k"
    by (auto simp: run_at_def demo_reads)
  show ?thesis
    using vmalloc_first_fit [of 8192 8 "demo_vm 5" demo_dir 5 0 0] full fit
    by (auto simp: n demo_reads)
qed

theorem vmalloc_new_table_witness:
  "\<exists>m'. vmalloc demo_dir 100 0 0 \<lparr>pmem = \<lambda>_. pte_zero, cr3 = 0, cr2 = 0, ints = True\<rparr>
      = Some (heap_addr 8 0, \<lparr>pmem = m', cr3 = 0, cr2 = 0, ints = True\<rparr>)
    \<and> m' (ent 24610 8) = vm_pde 24576"
proof -
  let ?v = "\<lparr>pmem = \<lambda>_. pte_zero, cr3 = 0, cr2 = 0, ints = True\<rparr>"
  have t: "table_page (pmem ?v) = Some 24576"
    unfolding table_page_def area_pages_def by (rule find_first) (simp_all add: pte_zero_def)
  have full: "no_room (pmem ?v) (frame_of demo_dir) nn 8" for nn by (simp add: no_room_def)
  show ?thesis
    using vmalloc_new_table [of 100 8 ?v demo_dir 24576 0 0] t full by (auto simp: demo_reads)
qed

theorem vmalloc_no_table_witness:
  "vmalloc demo_dir 100 0 0 \<lparr>pmem = \<lambda>_. vm_pte, cr3 = 0, cr2 = 0, ints = True\<rparr>
    = Some (VM_SYSERR, \<lparr>pmem = \<lambda>_. vm_pte, cr3 = 0, cr2 = 0, ints = False\<rparr>)"
proof -
  let ?v = "\<lparr>pmem = \<lambda>_. vm_pte, cr3 = 0, cr2 = 0, ints = True\<rparr>"
  have t: "table_page (pmem ?v) = None"
    by (simp add: table_page_def find_None_iff vm_pte_def)
  have full: "no_room (pmem ?v) (frame_of demo_dir) nn 8" for nn by (simp add: no_room_def)
  show ?thesis
    using vmalloc_no_table [of 100 8 ?v demo_dir 0 0] t full by (simp add: vm_pte_def)
qed

theorem vmalloc_small_returns_witness:
  "\<exists>r v'. vmalloc demo_dir 4194303 7 0 (demo_vm 1000) = Some (r, v') \<and> cr3 v' = demo_dir"
  using vmalloc_small_returns [of 4194303 demo_dir 7 0 "demo_vm 1000"] by (auto simp: demo_vm_def)

theorem vmalloc_hangs_witness: "vmalloc demo_dir 4198400 0 0 (demo_vm 0) = None"
  using vmalloc_hangs [of 4198400 0 "demo_vm 0" demo_dir 0] by (simp add: demo_reads)

theorem vmalloc_double_allocation_witness:
  "\<exists>m'. vmalloc demo_dir 8192 0 0
      \<lparr>pmem = (demo_mem 1023)(ent 24610 9 := vm_pde 24612, ent 24612 0 := vm_pte\<lparr>p_avail := 3\<rparr>), cr3 = 0, cr2 = 0, ints = True\<rparr>
    = Some (heap_addr 8 1023, \<lparr>pmem = m', cr3 = 0, cr2 = 0, ints = True\<rparr>) \<and> \<not> used m' 24612 1"
proof -
  let ?m = "(demo_mem 1023)(ent 24610 9 := vm_pde 24612, ent 24612 0 := vm_pte\<lparr>p_avail := 3\<rparr>)"
  let ?v = "\<lparr>pmem = ?m, cr3 = 0, cr2 = 0, ints = True\<rparr>"
  have n: "request_pages 8192 = 2" by (simp add: request_pages_def)
  have e: "?m (ent 24610 8) = vm_pde 24611" "?m (ent 24610 9) = vm_pde 24612" by (simp_all add: demo_reads)
  have u: "used ?m 24611 k \<longleftrightarrow> k < 1023" if "k < 1024" for k
    using that demo_reads(8) [OF that, of 1023] by (simp add: used_def)
  have u': "used ?m 24612 0" by (simp add: used_def)
  have u1: "\<not> used ?m 24612 k" if "k < 2" "k \<noteq> 0" for k
  proof -
    have "k = 1" using that by simp
    then show ?thesis by (simp add: used_def demo_mem_def pte_zero_def)
  qed
  have h: "unat (8192 :: u32) < 4194304" "p_pres (pmem ?v (ent (frame_of demo_dir) 8))" "p_pres (pmem ?v (ent (frame_of demo_dir) 9))"
    by (simp_all add: demo_reads)
  show ?thesis
    using vmalloc_double_allocation [of 8192 ?v demo_dir 0 0 0, OF h] u u' u1 unfolding vm.select_convs demo_reads(2) e n
    by (simp add: demo_reads) blast
qed

lemma demo_bound: "0 < n \<Longrightarrow> n \<le> 1024 \<Longrightarrow> p < 37748736 \<Longrightarrow> p < vfree_bound (demo_mem n) 24610"
proof -
  assume n: "0 < n" "n \<le> 1024" and p: "p < 37748736"
  have "4194304 * (8 + 1) \<le> unat (vfree_bound (demo_mem n) 24610)"
  proof (rule vfree_bound_next [of 8 _ _ 0])
    fix k :: nat assume "8 \<le> k" "k \<le> 8"
    then show "p_pres (demo_mem n (ent 24610 k))" by (simp add: demo_reads)
  qed (use n in \<open>simp_all add: demo_reads\<close>)
  then show ?thesis using p by (simp add: word_less_nat_alt)
qed

lemma demo_index:
  "unat (heap_addr 8 4) = 33570816" "heap_addr 8 4 < 37748736" "unat (heap_addr 8 4) div 4194304 = 8"
  "unat (heap_addr 8 4) div 4096 mod 1024 = 4" "unat (8192 :: u32) div 4096 = 2"
  by (simp_all add: heap_addr_def)

theorem vfree_releases_witness:
  "\<exists>m'. vfree demo_dir (heap_addr 8 4) 8192 (demo_vm 6) = (OK, (demo_vm 6)\<lparr>pmem := m'\<rparr>) \<and> \<not> p_pres (m' (ent 24611 5))"
proof -
  have b: "heap_addr 8 4 < vfree_bound (demo_mem 6) 24610" using demo_bound [of 6 "heap_addr 8 4"] demo_index(2) by simp
  have a: "ent 24611 4 = 25201668" "ent 24611 5 = 25201669" by (simp_all add: ent_def)
  have own: "\<forall>k<2. p_avail (demo_mem 6 (25201668 + k)) = 3"
  proof (intro allI impI)
    fix k :: nat assume k: "k < 2"
    then have "used (demo_mem 6) 24611 (4 + k)" by (simp add: demo_reads)
    then show "p_avail (demo_mem 6 (25201668 + k)) = 3" by (simp add: used_def ent_def)
  qed
  have ffs: "\<forall>k<2. \<not> ffs_entry (25201668 + k)"
  proof (intro allI impI)
    fix k :: nat assume "k < 2"
    then have "k = 0 \<or> k = 1" by auto
    then show "\<not> ffs_entry (25201668 + k)" by (auto simp: ffs_entry_page)
  qed
  have i: "unat (heap_addr 8 4) = 33570816" by (simp add: heap_addr_def)
  show ?thesis
    using vfree_releases [of "heap_addr 8 4" "demo_vm 6" demo_dir 8192] b own ffs i
    by (simp add: demo_reads a) auto
qed

theorem vfree_refuses_witness: "vfree demo_dir (heap_addr 8 4) 8192 (demo_vm 5) = (SYSERR, demo_vm 5)"
proof -
  have i: "unat (heap_addr 8 4) = 33570816" by (simp add: heap_addr_def)
  have a: "ent 24611 4 = 25201668" by (simp add: ent_def)
  have "\<not> used (demo_mem 5) 24611 5" by (simp add: demo_reads)
  then have "\<exists>k<2. p_avail (demo_mem 5 (25201668 + k)) \<noteq> 3" by (intro exI [of _ 1]) (simp add: used_def ent_def)
  then show ?thesis
    using vfree_refuses [of "heap_addr 8 4" "demo_vm 5" demo_dir 8192] i by (simp add: demo_reads a)
qed

theorem vmalloc_vfree_roundtrip_witness:
  "\<exists>v'. vmalloc demo_dir 8192 0 0 (demo_vm 5) = Some (heap_addr 8 5, v') \<and> vfree demo_dir (heap_addr 8 5) 8192 v' = (OK, demo_vm 5)"
proof -
  have full: "no_room (demo_mem 5) 24610 nn 8" for nn by (simp add: no_room_def)
  have fit: "run_at (demo_mem 5) 24611 2 5" "\<And>k. k < 5 \<Longrightarrow> \<not> run_at (demo_mem 5) 24611 2 k"
    by (auto simp: run_at_def demo_reads)
  have fresh: "demo_mem 5 (ent 24611 k) = vm_pte" if "5 \<le> k" "k < 7" for k using that by (simp add: demo_mem_def)
  have n: "request_pages 8192 = 2" by (simp add: request_pages_def)
  show ?thesis
    using vmalloc_vfree_roundtrip [of 8192 8 "demo_vm 5" demo_dir 5 0 0] full fit fresh unfolding n by (simp add: demo_reads)
qed

definition boot_vm :: vm where
  "boot_vm = snd (initialize_page_table \<lparr>pmem = \<lambda>_. pte_zero, cr3 = 0, cr2 = 0, ints = True\<rparr>)"

lemma boot_first_dir: "\<exists>m. initialize_user_page_dir (pmem boot_vm) = Some (24602, m)"
proof (rule user_page_dir_returns)
  note E = initialize_page_table_entry [of "\<lparr>pmem = \<lambda>_. pte_zero, cr3 = 0, cr2 = 0, ints = True\<rparr>", folded boot_vm_def]
  fix k :: nat assume "PD_START \<le> k" "k < 24602"
  then show "pt_exists (pmem boot_vm (ent k 0))"
    by (auto simp: E pd_set_def sys_pte_def pt_valid_avail)
next
  show "\<not> pt_exists (pmem boot_vm (ent 24602 0))"
    by (simp add: initialize_page_table_entry boot_vm_def pte_zero_def pt_valid_avail)
qed simp_all

theorem vfree_unmaps_kernel_witness:
  "\<exists>m m'. initialize_user_page_dir (pmem boot_vm) = Some (24602, m)
    \<and> vfree 100769792 0 4096 (boot_vm\<lparr>pmem := m\<rparr>) = (OK, boot_vm\<lparr>pmem := m'\<rparr>)
    \<and> translate m PD_START 0 = Some 0 \<and> translate m' PD_START 0 = None"
proof -
  obtain m where m: "initialize_user_page_dir (pmem boot_vm) = Some (24602, m)" using boot_first_dir by blast
  have pa: "unat (100769792 :: u32) = 4096 * 24602" by simp
  show ?thesis
    using vfree_unmaps_kernel [of "\<lparr>pmem = \<lambda>_. pte_zero, cr3 = 0, cr2 = 0, ints = True\<rparr>" 24602 m 100769792] m pa
    unfolding boot_vm_def [symmetric] by fastforce
qed

end
