(* ===== verification/Kernel.thy ===== *)
theory Kernel
  imports Queue Memory Paging
begin

text \<open>
  The state of the kernel and its dispatcher: the process and semaphore tables of
  \<^verbatim>\<open>include/process.h\<close> and \<^verbatim>\<open>semaphore.h\<close>, the system variables,
  \<^verbatim>\<open>system/resched.c\<close>, \<^verbatim>\<open>ready.c\<close>, \<^verbatim>\<open>newqueue.c\<close> and the tables'
  initialization in \<^verbatim>\<open>initialize.c\<close>.

  Every system call runs between \<open>disable\<close> and \<open>restore\<close>, so it is one uninterrupted
  state transformer, up to a call of \<open>resched\<close> that switches the processor to another process.
  What the old process does after the switch is a separate transformer; \<open>conts\<close> records, for
  each process, which one is due when it gets the processor back (\<open>Ret\<close>: none, the call is over
  and returned that value). Signed 32-bit counters are integers: C leaves their overflow undefined.
\<close>

section \<open>Tables\<close>

datatype pstate = PR_FREE | PR_CURR | PR_READY | PR_RECV | PR_SLEEP | PR_SUSP | PR_WAIT | PR_RECTIM

record procent =
  prstate :: pstate
  prprio :: int
  prstkptr :: u32
  prstkbase :: u32
  prstklen :: u32
  prname :: string
  prsem :: int
  prparent :: int
  prmsg :: u32
  prhasmsg :: bool
  prdesc :: "int list"
  page_addr :: u32

text \<open>The count is an \<open>int32\<close> in the source; here it has no bound, because overflow of it is undefined there.\<close>

datatype sstate = S_FREE | S_USED

record sentry =
  sstate :: sstate
  scount :: int
  squeue :: int

datatype cont = Ret int | RetMsg u32 | RecvK | RecvtimeK | SuspendK int | KillK int | ClkK

record kstate =
  proctab :: "int \<Rightarrow> procent"
  semtab :: "int \<Rightarrow> sentry"
  queuetab :: qtab
  currpid :: int
  prcount :: int
  readylist :: int
  sleepq :: int
  nextqid :: int
  nextsem :: int
  nextpid :: int
  ndefers :: int
  attempt :: bool
  preempt :: u32
  count1000 :: u32
  clktime :: u32
  kheap :: heap
  stack :: "u32 \<Rightarrow> u32"
  kvm :: vm
  conts :: "int \<Rightarrow> cont"
  halted :: bool

abbreviation QUANTUM :: u32 where "QUANTUM \<equiv> 10"

definition upd_proc :: "int \<Rightarrow> (procent \<Rightarrow> procent) \<Rightarrow> kstate \<Rightarrow> kstate" where
  "upd_proc pid f s = s\<lparr>proctab := (proctab s)(pid := f (proctab s pid))\<rparr>"

definition upd_sem :: "int \<Rightarrow> (sentry \<Rightarrow> sentry) \<Rightarrow> kstate \<Rightarrow> kstate" where
  "upd_sem sem f s = s\<lparr>semtab := (semtab s)(sem := f (semtab s sem))\<rparr>"

definition set_cont :: "int \<Rightarrow> cont \<Rightarrow> kstate \<Rightarrow> kstate" where
  "set_cont pid c s = s\<lparr>conts := (conts s)(pid := c)\<rparr>"

abbreviation set_state :: "int \<Rightarrow> pstate \<Rightarrow> kstate \<Rightarrow> kstate" where
  "set_state pid st \<equiv> upd_proc pid (\<lambda>p. p\<lparr>prstate := st\<rparr>)"

definition isbadpid :: "kstate \<Rightarrow> int \<Rightarrow> bool" where
  "isbadpid s x \<longleftrightarrow> x < 0 \<or> NPROC \<le> x \<or> prstate (proctab s x) = PR_FREE"

definition isbadsem :: "int \<Rightarrow> bool" where
  "isbadsem x \<longleftrightarrow> x < 0 \<or> NSEM \<le> x"

section \<open>Queue operations on the kernel state\<close>

definition k_insert :: "int \<Rightarrow> int \<Rightarrow> int \<Rightarrow> kstate \<Rightarrow> (int \<times> kstate) option" where
  "k_insert pid q key s =
     insert_q (isbadpid s) pid q key (queuetab s) \<bind> (\<lambda>(r, qt). Some (r, s\<lparr>queuetab := qt\<rparr>))"

definition k_insertd :: "int \<Rightarrow> int \<Rightarrow> int \<Rightarrow> kstate \<Rightarrow> (int \<times> kstate) option" where
  "k_insertd pid q key s =
     insertd (isbadpid s) pid q key (queuetab s) \<bind> (\<lambda>(r, qt). Some (r, s\<lparr>queuetab := qt\<rparr>))"

definition k_enqueue :: "int \<Rightarrow> int \<Rightarrow> kstate \<Rightarrow> int \<times> kstate" where
  "k_enqueue pid q s = (let (r, qt) = enqueue (isbadpid s) pid q (queuetab s) in (r, s\<lparr>queuetab := qt\<rparr>))"

definition k_dequeue :: "int \<Rightarrow> kstate \<Rightarrow> int \<times> kstate" where
  "k_dequeue q s = (let (r, qt) = dequeue q (queuetab s) in (r, s\<lparr>queuetab := qt\<rparr>))"

definition k_getfirst :: "int \<Rightarrow> kstate \<Rightarrow> int \<times> kstate" where
  "k_getfirst q s = (let (r, qt) = getfirst q (queuetab s) in (r, s\<lparr>queuetab := qt\<rparr>))"

definition k_getitem :: "int \<Rightarrow> kstate \<Rightarrow> int \<times> kstate" where
  "k_getitem pid s = (let (r, qt) = getitem pid (queuetab s) in (r, s\<lparr>queuetab := qt\<rparr>))"

definition k_newqueue :: "kstate \<Rightarrow> int \<times> kstate" where
  "k_newqueue s = (let (r, nq, qt) = newqueue (nextqid s) (queuetab s) in (r, s\<lparr>nextqid := nq, queuetab := qt\<rparr>))"

section \<open>resched, resched_cntl, ready, yield\<close>

text \<open>Loading CR3 with the page directory of a process, inside its own \<open>disable\<close> and \<open>restore\<close>.\<close>

definition switch_cr3 :: "u32 \<Rightarrow> vm \<Rightarrow> vm" where
  "switch_cr3 addr v = (let (saved, v1) = disable v in restore saved (load_pd addr v1))"

definition dispatch :: "kstate \<Rightarrow> kstate" where
  "dispatch s =
     (let (pid, s1) = k_dequeue (readylist s) s;
          s2 = s1\<lparr>currpid := pid\<rparr>;
          s3 = s2\<lparr>kvm := switch_cr3 (page_addr (proctab s2 pid)) (kvm s2)\<rparr>;
          s4 = set_state pid PR_CURR s3
      in s4\<lparr>preempt := QUANTUM\<rparr>)"

definition resched :: "kstate \<Rightarrow> kstate option" where
  "resched s =
     (if 0 < ndefers s then Some (s\<lparr>attempt := True\<rparr>)
      else let old = currpid s; ptold = proctab s old in
        if prstate ptold = PR_CURR then
          if firstkey (queuetab s) (readylist s) < prprio ptold then Some s
          else let s1 = set_state old PR_READY s in
               k_insert old (readylist s1) (prprio ptold) s1 \<bind> (\<lambda>(_, s2). Some (dispatch s2))
        else Some (dispatch s))"

datatype defer_arg = DEFER_START | DEFER_STOP | DEFER_OTHER

definition resched_cntl :: "defer_arg \<Rightarrow> kstate \<Rightarrow> (int \<times> kstate) option" where
  "resched_cntl d s =
     (case d of
        DEFER_START \<Rightarrow>
          let s1 = s\<lparr>ndefers := ndefers s + 1\<rparr>
          in Some (OK, if ndefers s = 0 then s1\<lparr>attempt := False\<rparr> else s1)
      | DEFER_STOP \<Rightarrow>
          if ndefers s \<le> 0 then Some (SYSERR, s)
          else let s1 = s\<lparr>ndefers := ndefers s - 1\<rparr> in
            if ndefers s1 = 0 \<and> attempt s1 then resched s1 \<bind> (\<lambda>s2. Some (OK, s2))
            else Some (OK, s1)
      | DEFER_OTHER \<Rightarrow> Some (SYSERR, s))"

definition make_ready :: "int \<Rightarrow> kstate \<Rightarrow> kstate option" where
  "make_ready pid s =
     (let s1 = set_state pid PR_READY s in
      k_insert pid (readylist s1) (prprio (proctab s1 pid)) s1 \<bind> (\<lambda>(_, s2). Some s2))"

definition ready :: "int \<Rightarrow> kstate \<Rightarrow> (int \<times> kstate) option" where
  "ready pid s =
     (if isbadpid s pid then Some (SYSERR, s)
      else make_ready pid s \<bind> (\<lambda>s1. resched s1 \<bind> (\<lambda>s2. Some (OK, s2))))"

text \<open>The value a call returns is recorded for the process that made it, whoever has the processor
  when the transformer ends.\<close>

definition give :: "int \<Rightarrow> kstate \<Rightarrow> kstate \<Rightarrow> kstate option" where
  "give v s0 s = Some (set_cont (currpid s0) (Ret v) s)"

definition yield :: "kstate \<Rightarrow> kstate option" where
  "yield s = resched s \<bind> give OK s"

section \<open>The tables after initialization\<close>

text \<open>The part of \<open>sysinit\<close> that sets up the tables: memory and devices are initialized by the
  functions it calls. \<open>sem_init\<close> is the loop over the semaphore table.\<close>

definition sem_init :: "int \<Rightarrow> kstate \<Rightarrow> kstate" where
  "sem_init i s =
     (let s1 = upd_sem i (\<lambda>e. e\<lparr>sstate := S_FREE, scount := 0\<rparr>) s;
          (q, s2) = k_newqueue s1
      in upd_sem i (\<lambda>e. e\<lparr>squeue := q\<rparr>) s2)"

definition proc_init :: "int \<Rightarrow> kstate \<Rightarrow> kstate" where
  "proc_init i s = upd_proc i (\<lambda>p. p\<lparr>prstate := PR_FREE, prname := [], prstkbase := 0, prprio := 0\<rparr>) s"

definition sysinit_tables :: "kstate \<Rightarrow> kstate option" where
  "sysinit_tables s =
     (let s1 = s\<lparr>prcount := 1, ndefers := 0\<rparr>;
          s2 = fold proc_init [0..NPROC - 1] s1;
          s3 = upd_proc NULLPROC (\<lambda>p. p\<lparr>prstate := PR_CURR, prprio := 0, prname := ''prnull''\<rparr>) s2
      in getstk NULLSTK (kheap s3) \<bind> (\<lambda>(base, h).
        let s4 = upd_proc NULLPROC (\<lambda>p. p\<lparr>prstkbase := base, prstklen := NULLSTK, prstkptr := 0\<rparr>) (s3\<lparr>kheap := h\<rparr>);
            s5 = s4\<lparr>currpid := NULLPROC\<rparr>;
            s6 = fold sem_init [0..NSEM - 1] s5;
            (rl, s7) = k_newqueue s6
        in Some (s7\<lparr>readylist := rl\<rparr>)))"

text \<open>\<open>clkinit\<close> makes the sleep queue and starts the time slice; the page directory of the null
  process comes from \<open>initialize_page_table\<close>.\<close>

definition clkinit :: "kstate \<Rightarrow> kstate" where
  "clkinit s = (let (q, s1) = k_newqueue s in s1\<lparr>sleepq := q, preempt := QUANTUM, clktime := 0\<rparr>)"

definition paging_init :: "kstate \<Rightarrow> kstate" where
  "paging_init s =
     (let (addr, v) = initialize_page_table (kvm s)
      in upd_proc NULLPROC (\<lambda>p. p\<lparr>page_addr := addr\<rparr>) (s\<lparr>kvm := v\<rparr>))"

end
