(* ===== verification/Invariant.thy ===== *)
theory Invariant
  imports Kernel
begin

text \<open>
  The invariant of the process tables, and what \<open>ready\<close> and \<open>resched\<close> do to it. A process is on
  exactly the queue its state names (\<open>home\<close>): ready processes on the ready list, sleeping ones
  (with or without a pending receive) on the sleep queue, waiting ones on the queue of their
  semaphore, all others on none. \<open>kq L s\<close> is the part that holds throughout a call, also while
  the current process is between two states; \<open>kinv s\<close> is what holds between calls.
\<close>

section \<open>Where a process is\<close>

definition home :: "kstate \<Rightarrow> int \<Rightarrow> int option" where
  "home s p =
     (case prstate (proctab s p) of
        PR_READY \<Rightarrow> Some (readylist s)
      | PR_SLEEP \<Rightarrow> Some (sleepq s)
      | PR_RECTIM \<Rightarrow> Some (sleepq s)
      | PR_WAIT \<Rightarrow> Some (squeue (semtab s (prsem (proctab s p))))
      | _ \<Rightarrow> None)"

definition placed :: "int \<Rightarrow> (int \<Rightarrow> int list) \<Rightarrow> (int \<Rightarrow> int option) \<Rightarrow> bool" where
  "placed nq L H \<longleftrightarrow> (\<forall>p q. 0 \<le> p \<longrightarrow> p < NPROC \<longrightarrow> isq nq q \<longrightarrow> (p \<in> set (L q) \<longleftrightarrow> H p = Some q))"

lemma placed_iff: "placed nq L H \<Longrightarrow> 0 \<le> p \<Longrightarrow> p < NPROC \<Longrightarrow> isq nq q \<Longrightarrow> p \<in> set (L q) \<longleftrightarrow> H p = Some q"
  by (simp add: placed_def)

lemma placed_not_queued: "placed nq L H \<Longrightarrow> H p = None \<Longrightarrow> 0 \<le> p \<Longrightarrow> p < NPROC \<Longrightarrow> \<not> queued nq L p"
  by (auto simp: placed_def queued_def)

lemma placed_add:
  "placed nq L H \<Longrightarrow> H p = None \<Longrightarrow> set xs = insert p (set (L q)) \<Longrightarrow> placed nq (L(q := xs)) (H(p := Some q))"
  unfolding placed_def by auto

lemma placed_del:
  "placed nq L H \<Longrightarrow> H p = Some q \<Longrightarrow> set xs = set (L q) - {p} \<Longrightarrow> placed nq (L(q := xs)) (H(p := None))"
  unfolding placed_def by auto

definition ids_ok :: "kstate \<Rightarrow> bool" where
  "ids_ok s \<longleftrightarrow> isq (nextqid s) (readylist s) \<and> isq (nextqid s) (sleepq s) \<and> readylist s \<noteq> sleepq s
     \<and> (\<forall>i. 0 \<le> i \<longrightarrow> i < NSEM \<longrightarrow> isq (nextqid s) (squeue (semtab s i))
          \<and> squeue (semtab s i) \<noteq> readylist s \<and> squeue (semtab s i) \<noteq> sleepq s)
     \<and> (\<forall>i j. 0 \<le> i \<longrightarrow> i < NSEM \<longrightarrow> 0 \<le> j \<longrightarrow> j < NSEM \<longrightarrow> squeue (semtab s i) = squeue (semtab s j) \<longrightarrow> i = j)"

lemma ids_okD:
  assumes "ids_ok s"
  shows "isq (nextqid s) (readylist s)" "isq (nextqid s) (sleepq s)" "readylist s \<noteq> sleepq s" "sleepq s \<noteq> readylist s"
    "0 \<le> i \<Longrightarrow> i < NSEM \<Longrightarrow> isq (nextqid s) (squeue (semtab s i))"
    "0 \<le> i \<Longrightarrow> i < NSEM \<Longrightarrow> squeue (semtab s i) \<noteq> readylist s"
    "0 \<le> i \<Longrightarrow> i < NSEM \<Longrightarrow> squeue (semtab s i) \<noteq> sleepq s"
    "0 \<le> i \<Longrightarrow> i < NSEM \<Longrightarrow> 0 \<le> j \<Longrightarrow> j < NSEM \<Longrightarrow> squeue (semtab s i) = squeue (semtab s j) \<longleftrightarrow> i = j"
  using assms unfolding ids_ok_def by auto

definition order_ok :: "(int \<Rightarrow> int list) \<Rightarrow> kstate \<Rightarrow> bool" where
  "order_ok L s \<longleftrightarrow> desc_by (\<lambda>i. qkey (queuetab s i)) (L (readylist s))
     \<and> (\<forall>p\<in>set (L (sleepq s)). 0 \<le> qkey (queuetab s p))"

definition procs_ok :: "kstate \<Rightarrow> bool" where
  "procs_ok s \<longleftrightarrow> 0 \<le> currpid s \<and> currpid s < NPROC
     \<and> (\<forall>p. 0 \<le> p \<longrightarrow> p < NPROC \<longrightarrow> - 32768 \<le> prprio (proctab s p) \<and> prprio (proctab s p) \<le> 32767)
     \<and> (\<forall>p. 0 \<le> p \<longrightarrow> p < NPROC \<longrightarrow> prstate (proctab s p) = PR_CURR \<longrightarrow> p = currpid s)
     \<and> (\<forall>p. 0 \<le> p \<longrightarrow> p < NPROC \<longrightarrow> prstate (proctab s p) = PR_WAIT \<longrightarrow>
          0 \<le> prsem (proctab s p) \<and> prsem (proctab s p) < NSEM)
     \<and> (prstate (proctab s 0) = PR_CURR \<or> prstate (proctab s 0) = PR_READY)"

lemma procs_okD:
  assumes "procs_ok s"
  shows "0 \<le> currpid s" "currpid s < NPROC" "prstate (proctab s 0) = PR_CURR \<or> prstate (proctab s 0) = PR_READY"
    "0 \<le> p \<Longrightarrow> p < NPROC \<Longrightarrow> - 32768 \<le> prprio (proctab s p)"
    "0 \<le> p \<Longrightarrow> p < NPROC \<Longrightarrow> prprio (proctab s p) \<le> 32767"
    "0 \<le> p \<Longrightarrow> p < NPROC \<Longrightarrow> prstate (proctab s p) = PR_CURR \<Longrightarrow> p = currpid s"
    "0 \<le> p \<Longrightarrow> p < NPROC \<Longrightarrow> prstate (proctab s p) = PR_WAIT \<Longrightarrow> 0 \<le> prsem (proctab s p)"
    "0 \<le> p \<Longrightarrow> p < NPROC \<Longrightarrow> prstate (proctab s p) = PR_WAIT \<Longrightarrow> prsem (proctab s p) < NSEM"
  using assms unfolding procs_ok_def by blast+

definition kq :: "(int \<Rightarrow> int list) \<Rightarrow> kstate \<Rightarrow> bool" where
  "kq L s \<longleftrightarrow> qrep (nextqid s) (queuetab s) L \<and> ids_ok s \<and> placed (nextqid s) L (home s)
     \<and> order_ok L s \<and> procs_ok s"

lemma kqD:
  assumes "kq L s"
  shows "qrep (nextqid s) (queuetab s) L" "ids_ok s" "placed (nextqid s) L (home s)" "order_ok L s" "procs_ok s"
    "isq (nextqid s) (readylist s)" "isq (nextqid s) (sleepq s)"
  using assms by (auto simp: kq_def ids_ok_def)

text \<open>A negative count is the number of processes waiting; a free entry has none.\<close>

definition sem_entry_ok :: "int list \<Rightarrow> sentry \<Rightarrow> bool" where
  "sem_entry_ok xs e \<longleftrightarrow> (sstate e = S_USED \<longrightarrow> int (length xs) = max 0 (- scount e)) \<and> (sstate e = S_FREE \<longrightarrow> xs = [])"

definition sem_ok :: "(int \<Rightarrow> int list) \<Rightarrow> kstate \<Rightarrow> bool" where
  "sem_ok L s \<longleftrightarrow> (\<forall>i. 0 \<le> i \<longrightarrow> i < NSEM \<longrightarrow> sem_entry_ok (L (squeue (semtab s i))) (semtab s i))"

definition kinv :: "kstate \<Rightarrow> bool" where
  "kinv s \<longleftrightarrow> (\<exists>L. kq L s \<and> sem_ok L s) \<and> prstate (proctab s (currpid s)) = PR_CURR \<and> ndefers s = 0"

section \<open>Making a process ready\<close>

lemma upd_proc_simps [simp]:
  "proctab (upd_proc p f s) = (proctab s)(p := f (proctab s p))"
  "semtab (upd_proc p f s) = semtab s" "queuetab (upd_proc p f s) = queuetab s"
  "currpid (upd_proc p f s) = currpid s" "readylist (upd_proc p f s) = readylist s"
  "sleepq (upd_proc p f s) = sleepq s" "nextqid (upd_proc p f s) = nextqid s"
  "ndefers (upd_proc p f s) = ndefers s" "attempt (upd_proc p f s) = attempt s"
  "conts (upd_proc p f s) = conts s" "halted (upd_proc p f s) = halted s"
  "kheap (upd_proc p f s) = kheap s" "kvm (upd_proc p f s) = kvm s" "prcount (upd_proc p f s) = prcount s"
  by (simp_all add: upd_proc_def)

lemma upd_sem_simps [simp]:
  "semtab (upd_sem i f s) = (semtab s)(i := f (semtab s i))"
  "proctab (upd_sem i f s) = proctab s" "queuetab (upd_sem i f s) = queuetab s"
  "currpid (upd_sem i f s) = currpid s" "readylist (upd_sem i f s) = readylist s"
  "sleepq (upd_sem i f s) = sleepq s" "nextqid (upd_sem i f s) = nextqid s"
  "ndefers (upd_sem i f s) = ndefers s" "attempt (upd_sem i f s) = attempt s"
  "conts (upd_sem i f s) = conts s" "halted (upd_sem i f s) = halted s"
  by (simp_all add: upd_sem_def)

lemma upd_proc_queuetab: "upd_proc p f (s\<lparr>queuetab := qt\<rparr>) = (upd_proc p f s)\<lparr>queuetab := qt\<rparr>"
  by (simp add: upd_proc_def)

lemma home_None:
  "home s p = None \<longleftrightarrow> prstate (proctab s p) \<in> {PR_FREE, PR_CURR, PR_RECV, PR_SUSP}"
  by (auto simp: home_def split: pstate.splits)

lemma home_upd:
  assumes "readylist s' = readylist s" "sleepq s' = sleepq s" "\<And>i. squeue (semtab s' i) = squeue (semtab s i)"
    and "\<And>x. x \<noteq> p \<Longrightarrow> prstate (proctab s' x) = prstate (proctab s x) \<and> prsem (proctab s' x) = prsem (proctab s x)"
  shows "home s' = (home s)(p := home s' p)"
proof (rule ext)
  fix x
  show "home s' x = ((home s)(p := home s' p)) x"
    using assms(1-3) assms(4) [of x] by (cases "x = p") (simp_all add: home_def split: pstate.split)
qed

lemma home_eqI:
  assumes "readylist s' = readylist s" "sleepq s' = sleepq s" "\<And>i. squeue (semtab s' i) = squeue (semtab s i)"
    and "\<And>x. prstate (proctab s' x) = prstate (proctab s x) \<and> prsem (proctab s' x) = prsem (proctab s x)"
  shows "home s' = home s"
proof (rule ext)
  fix x
  show "home s' x = home s x"
    using assms(1-3) assms(4) [of x] by (simp add: home_def split: pstate.split)
qed

lemma kq_cong:
  assumes "nextqid s' = nextqid s" "queuetab s' = queuetab s" "readylist s' = readylist s" "sleepq s' = sleepq s"
    "semtab s' = semtab s" "proctab s' = proctab s" "currpid s' = currpid s"
  shows "kq L s' = kq L s" "sem_ok L s' = sem_ok L s"
proof -
  have "home s' = home s" by (rule home_eqI) (simp_all add: assms)
  then show "kq L s' = kq L s" by (simp add: kq_def ids_ok_def order_ok_def procs_ok_def assms)
  show "sem_ok L s' = sem_ok L s" by (simp add: sem_ok_def assms)
qed

lemma make_ready_kq:
  assumes inv: "kq L s" and p: "0 \<le> p" "p < NPROC" "home s p = None"
  obtains s' where "make_ready p s = Some s'"
    "kq (L(readylist s := ins_desc (\<lambda>i. qkey (queuetab s i)) (prprio (proctab s p)) p (L (readylist s)))) s'"
    "s' = set_state p PR_READY (s\<lparr>queuetab := queuetab s'\<rparr>)"
    "\<And>i. qkey (queuetab s' i) = (if i = p then prprio (proctab s p) else qkey (queuetab s i))"
proof -
  note D = kqD [OF inv]
  let ?r = "readylist s" and ?prio = "prprio (proctab s p)" and ?s1 = "set_state p PR_READY s"
  let ?xs = "ins_desc (\<lambda>i. qkey (queuetab s i)) ?prio p (L ?r)"
  have nq: "\<not> queued (nextqid s) L p" by (rule placed_not_queued [OF D(3) p(3,1,2)])
  have prio: "MINKEY < ?prio" using procs_okD(4) [OF D(5) p(1,2)] by linarith
  have bad: "\<not> isbadpid ?s1 p" using p by (simp add: isbadpid_def)
  obtain qt where qt: "insert_q (isbadpid ?s1) p ?r ?prio (queuetab s) = Some (OK, qt)"
    "qrep (nextqid s) qt (L(?r := ?xs))" "\<And>i. qkey (qt i) = (if i = p then ?prio else qkey (queuetab s i))"
    by (rule insert_refines [where badpid = "isbadpid ?s1", OF D(1,6) bad p(1,2) nq prio]) (rule that)
  let ?s' = "?s1\<lparr>queuetab := qt\<rparr>"
  have step: "make_ready p s = Some ?s'" using qt(1) by (simp add: make_ready_def k_insert_def)
  have "home ?s' p = Some ?r" by (simp add: home_def)
  then have home': "home ?s' = (home s)(p := Some ?r)"
    using home_upd [of ?s' s p] by simp
  have pl: "placed (nextqid s) (L(?r := ?xs)) (home ?s')"
    unfolding home' by (rule placed_add [OF D(3) p(3)]) simp
  have notin: "p \<notin> set (L ?r)" "p \<notin> set (L (sleepq s))"
    using not_queuedD [OF nq] D(6,7) by auto
  have "desc_by (\<lambda>i. qkey (qt i)) ?xs"
    by (rule sorted_ins_desc) (use D(4) notin qt(3) in \<open>auto simp: order_ok_def\<close>)
  then have ord: "order_ok (L(?r := ?xs)) ?s'"
    using D(4) notin ids_okD(4) [OF D(2)] qt(3) by (auto simp: order_ok_def)
  have procs: "procs_ok ?s'" using D(5) p by (auto simp: procs_ok_def)
  have ids: "ids_ok ?s'" using D(2) by (simp add: ids_ok_def)
  have "kq (L(?r := ?xs)) ?s'" unfolding kq_def using qt(2) ids pl ord procs by simp
  moreover have "?s' = set_state p PR_READY (s\<lparr>queuetab := queuetab ?s'\<rparr>)"
    by (simp add: upd_proc_def)
  moreover have "\<And>i. qkey (queuetab ?s' i) = (if i = p then ?prio else qkey (queuetab s i))" using qt(3) by simp
  ultimately show thesis using step that by blast
qed

section \<open>Dispatching\<close>

lemma dispatch_kq:
  assumes inv: "kq L s" and rl: "L (readylist s) = p # xs" and old: "prstate (proctab s (currpid s)) \<noteq> PR_CURR"
  obtains qt v where "kq (L(readylist s := xs)) (dispatch s)"
    "dispatch s = (set_state p PR_CURR s)\<lparr>queuetab := qt, currpid := p, kvm := v, preempt := QUANTUM\<rparr>"
    "\<And>i. qkey (qt i) = qkey (queuetab s i)" "v = switch_cr3 (page_addr (proctab s p)) (kvm s)"
proof -
  note D = kqD [OF inv]
  let ?r = "readylist s"
  obtain qt where qt: "dequeue ?r (queuetab s) = (p, qt)" "qrep (nextqid s) qt (L(?r := xs))"
    "\<And>i. qkey (qt i) = qkey (queuetab s i)"
    by (rule dequeue_refines [OF D(1,6) rl]) (rule that)
  have p: "0 \<le> p" "p < NPROC" "distinct (p # xs)" using qrepD(2,3) [OF D(1,6)] rl by auto
  have hp: "home s p = Some ?r" using placed_iff [OF D(3) p(1,2) D(6)] rl by simp
  let ?v = "switch_cr3 (page_addr (proctab s p)) (kvm s)"
  let ?s' = "(set_state p PR_CURR s)\<lparr>queuetab := qt, currpid := p, kvm := ?v, preempt := QUANTUM\<rparr>"
  have d: "dispatch s = ?s'" using qt(1) by (simp add: dispatch_def k_dequeue_def upd_proc_def Let_def)
  have "home ?s' p = None" by (simp add: home_def)
  then have home': "home ?s' = (home s)(p := None)" using home_upd [of ?s' s p] by simp
  have pl: "placed (nextqid s) (L(?r := xs)) (home ?s')"
    unfolding home' by (rule placed_del [OF D(3) hp]) (use rl p(3) in auto)
  have ord: "order_ok (L(?r := xs)) ?s'" using D(4) rl ids_okD(4) [OF D(2)] qt(3) by (auto simp: order_ok_def)
  have c: "prstate (proctab s q) \<noteq> PR_CURR" if "0 \<le> q" "q < NPROC" for q
    using D(5) old that unfolding procs_ok_def by metis
  have procs: "procs_ok ?s'" using D(5) p c by (auto simp: procs_ok_def)
  have ids: "ids_ok ?s'" using D(2) by (simp add: ids_ok_def)
  have "kq (L(?r := xs)) ?s'" unfolding kq_def using qt(2) ids pl ord procs by simp
  then show thesis using d qt(3) by (intro that [of ?v qt]) simp_all
qed

text \<open>The state after \<open>resched\<close>: either nothing changed or the first process of the ready list, with
  the old one inserted if it was still running, has the processor. Only these two change state.\<close>

definition switched :: "kstate \<Rightarrow> kstate \<Rightarrow> bool" where
  "switched s s' \<longleftrightarrow> (\<exists>qt v st pr. s' = s\<lparr>proctab := st, queuetab := qt, currpid := currpid s', kvm := v, preempt := pr\<rparr>
     \<and> (\<forall>i. (st i)\<lparr>prstate := prstate (proctab s i)\<rparr> = proctab s i)
     \<and> (\<forall>i. prstate (st i) \<noteq> prstate (proctab s i) \<longrightarrow>
          (i = currpid s \<and> prstate (proctab s i) = PR_CURR \<and> prstate (st i) = PR_READY)
          \<or> (i = currpid s' \<and> prstate (proctab s i) = PR_READY \<and> prstate (st i) = PR_CURR)))"

lemma switched_fields:
  assumes "switched s s'"
  shows "semtab s' = semtab s" "readylist s' = readylist s" "sleepq s' = sleepq s" "nextqid s' = nextqid s"
    "ndefers s' = ndefers s" "conts s' = conts s" "halted s' = halted s" "kheap s' = kheap s"
    "prcount s' = prcount s" "attempt s' = attempt s" "nextpid s' = nextpid s" "nextsem s' = nextsem s"
    "prprio (proctab s' i) = prprio (proctab s i)" "prsem (proctab s' i) = prsem (proctab s i)"
    "prhasmsg (proctab s' i) = prhasmsg (proctab s i)" "prmsg (proctab s' i) = prmsg (proctab s i)"
    "page_addr (proctab s' i) = page_addr (proctab s i)" "stack s' = stack s"
    "prparent (proctab s' i) = prparent (proctab s i)"
    "prstate (proctab s' i) = PR_FREE \<longleftrightarrow> prstate (proctab s i) = PR_FREE"
proof -
  obtain qt v st pr where s': "s' = s\<lparr>proctab := st, queuetab := qt, currpid := currpid s', kvm := v, preempt := pr\<rparr>"
    and st: "\<And>i. (st i)\<lparr>prstate := prstate (proctab s i)\<rparr> = proctab s i"
    and ch: "\<And>i. prstate (st i) \<noteq> prstate (proctab s i) \<Longrightarrow> prstate (proctab s i) \<noteq> PR_FREE \<and> prstate (st i) \<noteq> PR_FREE"
    using assms unfolding switched_def by fastforce
  show "semtab s' = semtab s" "readylist s' = readylist s" "sleepq s' = sleepq s" "nextqid s' = nextqid s"
    "ndefers s' = ndefers s" "conts s' = conts s" "halted s' = halted s" "kheap s' = kheap s"
    "prcount s' = prcount s" "attempt s' = attempt s" "nextpid s' = nextpid s" "nextsem s' = nextsem s" "stack s' = stack s"
    by (subst s'; simp)+
  have p: "proctab s' = st" by (subst s') simp
  have e: "f (st i) = f (proctab s i)" if "\<And>x y. f (x\<lparr>prstate := y\<rparr>) = f x" for f :: "procent \<Rightarrow> 'b"
    using st [of i] that by metis
  show "prprio (proctab s' i) = prprio (proctab s i)" "prsem (proctab s' i) = prsem (proctab s i)"
    "prhasmsg (proctab s' i) = prhasmsg (proctab s i)" "prmsg (proctab s' i) = prmsg (proctab s i)"
    "page_addr (proctab s' i) = page_addr (proctab s i)" "prparent (proctab s' i) = prparent (proctab s i)"
    unfolding p by (simp_all add: e)
  show "prstate (proctab s' i) = PR_FREE \<longleftrightarrow> prstate (proctab s i) = PR_FREE"
    unfolding p using ch [of i] by metis
qed

lemma qrep_firstkey:
  assumes "qrep nq qt L" "isq nq q"
  shows "firstkey qt q = (if L q = [] then MINKEY else qkey (qt (hd (L q))))"
  using qrep_firstid [OF assms] qrepD(5) [OF assms] by (simp add: firstkey_def)

lemma kq_range:
  assumes "kq L s" "isq (nextqid s) q" "p \<in> set (L q)"
  shows "0 \<le> p \<and> p < NPROC \<and> home s p = Some q"
  using qrepD(3) [OF kqD(1) [OF assms(1)] assms(2,3)] placed_iff [OF kqD(3) [OF assms(1)] _ _ assms(2)] assms(3)
  by blast

lemma kq_ready:
  assumes inv: "kq L s" and p: "p \<in> set (L (readylist s))"
  shows "prstate (proctab s p) = PR_READY"
proof -
  note D = kqD [OF inv]
  have r: "0 \<le> p" "p < NPROC" "home s p = Some (readylist s)" using kq_range [OF inv D(6) p] by auto
  moreover have "prstate (proctab s p) = PR_WAIT \<Longrightarrow> squeue (semtab s (prsem (proctab s p))) \<noteq> readylist s"
    using D(5) ids_okD(6) [OF D(2)] r by (simp add: procs_ok_def)
  ultimately show ?thesis using ids_okD(3) [OF D(2)] by (simp add: home_def split: pstate.splits)
qed

lemma kq_sleep:
  assumes inv: "kq L s" and p: "p \<in> set (L (sleepq s))"
  shows "prstate (proctab s p) = PR_SLEEP \<or> prstate (proctab s p) = PR_RECTIM"
proof -
  note D = kqD [OF inv]
  have r: "0 \<le> p" "p < NPROC" "home s p = Some (sleepq s)" using kq_range [OF inv D(7) p] by auto
  moreover have "prstate (proctab s p) = PR_WAIT \<Longrightarrow> squeue (semtab s (prsem (proctab s p))) \<noteq> sleepq s"
    using D(5) ids_okD(7) [OF D(2)] r by (simp add: procs_ok_def)
  ultimately show ?thesis using ids_okD(3) [OF D(2)] by (simp add: home_def split: pstate.splits)
qed

lemma kq_waiting:
  assumes inv: "kq L s" and i: "0 \<le> i" "i < NSEM" and p: "p \<in> set (L (squeue (semtab s i)))"
  shows "prstate (proctab s p) = PR_WAIT \<and> prsem (proctab s p) = i"
proof -
  note D = kqD [OF inv]
  note I = ids_okD [OF D(2)]
  have r: "0 \<le> p" "p < NPROC" "home s p = Some (squeue (semtab s i))"
    using kq_range [OF inv I(5) [OF i] p] by auto
  moreover have "prstate (proctab s p) = PR_WAIT \<Longrightarrow> squeue (semtab s (prsem (proctab s p))) = squeue (semtab s i)
      \<longleftrightarrow> prsem (proctab s p) = i"
    using D(5) I(8) [OF _ _ i] r by (simp add: procs_ok_def)
  ultimately show ?thesis using I(6) [OF i] I(7) [OF i] by (simp add: home_def split: pstate.splits)
qed

lemma switched_refl: "switched s s"
  unfolding switched_def
  by (intro exI [of _ "queuetab s"] exI [of _ "kvm s"] exI [of _ "proctab s"] exI [of _ "preempt s"]) simp

lemma resched_kq:
  assumes inv: "kq L s" and nd: "ndefers s = 0" and nr: "prstate (proctab s (currpid s)) \<noteq> PR_READY"
  obtains s' L' where "resched s = Some s'" "kq L' s'" "\<And>q. q \<noteq> readylist s \<Longrightarrow> L' q = L q"
    "prstate (proctab s' (currpid s')) = PR_CURR" "switched s s'"
    "insert (currpid s') (set (L' (readylist s)))
      = (if prstate (proctab s (currpid s)) = PR_CURR then insert (currpid s) (set (L (readylist s))) else set (L (readylist s)))"
    "\<And>i. qkey (queuetab s' i) = (if i = currpid s \<and> currpid s' \<noteq> i \<and> prstate (proctab s i) = PR_CURR
        then prprio (proctab s i) else qkey (queuetab s i))"
    "\<And>q. q \<in> set (L' (readylist s)) \<Longrightarrow> qkey (queuetab s' q)
        \<le> (if currpid s' = currpid s then prprio (proctab s (currpid s)) else qkey (queuetab s (currpid s')))"
proof -
  note D = kqD [OF inv]
  let ?r = "readylist s" and ?old = "currpid s"
  let ?prio = "prprio (proctab s ?old)"
  note old = procs_okD(1,2) [OF D(5)]
  have sorted: "desc_by (\<lambda>i. qkey (queuetab s i)) (L ?r)" using D(4) by (simp add: order_ok_def)
  note fk = qrep_firstkey [OF D(1,6)]
  consider (stay) "prstate (proctab s ?old) = PR_CURR" "firstkey (queuetab s) ?r < ?prio"
    | (leave) "prstate (proctab s ?old) = PR_CURR" "?prio \<le> firstkey (queuetab s) ?r"
    | (blocked) "prstate (proctab s ?old) \<noteq> PR_CURR"
    by linarith
  then show thesis
  proof cases
    case stay
    have "qkey (queuetab s q) \<le> ?prio" if "q \<in> set (L ?r)" for q
      using stay(2) sorted that unfolding fk by (cases "L ?r") (auto simp: le_less_trans)
    then show thesis
      using stay nd inv switched_refl by (intro that [of s L]) (auto simp: resched_def Let_def)
  next
    case leave
    have "MINKEY < ?prio" using procs_okD(4) [OF D(5) old] by linarith
    then have "L ?r \<noteq> []" using leave(2) unfolding fk by (simp split: if_splits)
    then obtain x xs where L: "L ?r = x # xs" by (cases "L ?r") simp_all
    then have xk: "?prio \<le> qkey (queuetab s x)" using leave(2) unfolding fk by simp
    have xr: "prstate (proctab s x) = PR_READY" using kq_ready [OF inv] L by simp
    then have xo: "x \<noteq> ?old" using leave(1) by auto
    have "home s ?old = None" using leave(1) by (simp add: home_def)
    from make_ready_kq [OF inv old this] obtain s1 where s1: "make_ready ?old s = Some s1"
      "kq (L(?r := ins_desc (\<lambda>i. qkey (queuetab s i)) ?prio ?old (L ?r))) s1"
      "s1 = set_state ?old PR_READY (s\<lparr>queuetab := queuetab s1\<rparr>)"
      "\<And>i. qkey (queuetab s1 i) = (if i = ?old then ?prio else qkey (queuetab s i))" by blast
    define ys where "ys = ins_desc (\<lambda>i. qkey (queuetab s i)) ?prio ?old xs"
    have ins: "ins_desc (\<lambda>i. qkey (queuetab s i)) ?prio ?old (L ?r) = x # ys"
      using xk by (simp add: L ins_desc_def ys_def)
    have f1: "proctab s1 = (proctab s)(?old := (proctab s ?old)\<lparr>prstate := PR_READY\<rparr>)" "readylist s1 = ?r"
      "currpid s1 = ?old" "kvm s1 = kvm s"
      by (subst s1(3), simp)+
    have "(L(?r := x # ys)) (readylist s1) = x # ys" "prstate (proctab s1 (currpid s1)) \<noteq> PR_CURR"
      using f1 by simp_all
    from dispatch_kq [OF s1(2) [unfolded ins] this] obtain qt v where d: "kq (L(?r := ys)) (dispatch s1)"
      "dispatch s1 = (set_state x PR_CURR s1)\<lparr>queuetab := qt, currpid := x, kvm := v, preempt := QUANTUM\<rparr>"
      "\<And>i. qkey (qt i) = qkey (queuetab s1 i)"
      by (metis f1(2) fun_upd_upd)
    have step: "resched s = Some (dispatch s1)"
      using leave nd s1(1) by (simp add: resched_def Let_def make_ready_def split: Option.bind_splits prod.splits)
    have st: "proctab (dispatch s1) = (proctab s1)(x := (proctab s1 x)\<lparr>prstate := PR_CURR\<rparr>)" "currpid (dispatch s1) = x"
      "queuetab (dispatch s1) = qt"
      unfolding d(2) by simp_all
    have sw: "switched s (dispatch s1)"
      unfolding switched_def
    proof (intro exI conjI)
      show "dispatch s1 = s\<lparr>proctab := proctab (dispatch s1), queuetab := qt, currpid := currpid (dispatch s1), kvm := v, preempt := QUANTUM\<rparr>"
        unfolding st(1,2) unfolding d(2) f1(1) by (subst s1(3)) (simp add: upd_proc_def xo)
    qed (use xo xr leave(1) in \<open>auto simp: st f1\<close>)
    have keys: "qkey (qt i) = (if i = ?old then ?prio else qkey (queuetab s i))" for i
      using d(3) s1(4) by simp
    have "desc_by (\<lambda>i. qkey (queuetab s1 i)) (x # ys)" using kqD(4) [OF s1(2)] f1 ins by (simp add: order_ok_def)
    then have "qkey (qt q) \<le> qkey (queuetab s x)" if "q \<in> set ys" for q
      using that xo by (simp add: d(3) s1(4))
    then show thesis
      using step d(1) sw xo leave(1) L keys st
      by (intro that [of "dispatch s1" "L(?r := ys)"]) (auto simp: ys_def)
  next
    case blocked
    have "prstate (proctab s 0) = PR_READY"
      using procs_okD(3) [OF D(5)] procs_okD(6) [OF D(5), of 0] blocked by auto
    then have "0 \<in> set (L ?r)" using placed_iff [OF D(3) _ _ D(6), of 0] by (simp add: home_def)
    then obtain x xs where L: "L ?r = x # xs" by (cases "L ?r") auto
    from dispatch_kq [OF inv L blocked] obtain qt v where d: "kq (L(?r := xs)) (dispatch s)"
      "dispatch s = (set_state x PR_CURR s)\<lparr>queuetab := qt, currpid := x, kvm := v, preempt := QUANTUM\<rparr>"
      "\<And>i. qkey (qt i) = qkey (queuetab s i)" by metis
    have step: "resched s = Some (dispatch s)" using blocked nd by (simp add: resched_def Let_def)
    have st: "proctab (dispatch s) = (proctab s)(x := (proctab s x)\<lparr>prstate := PR_CURR\<rparr>)" "currpid (dispatch s) = x"
      "queuetab (dispatch s) = qt"
      unfolding d(2) by simp_all
    have x: "prstate (proctab s x) = PR_READY" using kq_ready [OF inv] L by simp
    then have xo: "x \<noteq> ?old" using nr by auto
    have sw: "switched s (dispatch s)"
      unfolding switched_def
    proof (intro exI conjI)
      show "dispatch s = s\<lparr>proctab := proctab (dispatch s), queuetab := qt, currpid := currpid (dispatch s), kvm := v, preempt := QUANTUM\<rparr>"
        unfolding st(1,2) unfolding d(2) by (simp add: upd_proc_def)
    qed (use x in \<open>auto simp: st\<close>)
    have "qkey (qt q) \<le> qkey (queuetab s x)" if "q \<in> set xs" for q
      using that sorted L by (simp add: d(3))
    then show thesis
      using step d(1,3) sw xo blocked L st by (intro that [of "dispatch s" "L(?r := xs)"]) auto
  qed
qed

section \<open>What a call leaves alone\<close>

text \<open>Rescheduling and readying change the state of processes, the queues, the current process and
  the processor registers, and nothing else.\<close>

definition kframe :: "int set \<Rightarrow> kstate \<Rightarrow> kstate \<Rightarrow> bool" where
  "kframe P s s' \<longleftrightarrow> semtab s' = semtab s \<and> readylist s' = readylist s \<and> sleepq s' = sleepq s
     \<and> nextqid s' = nextqid s \<and> conts s' = conts s \<and> halted s' = halted s \<and> kheap s' = kheap s
     \<and> prcount s' = prcount s \<and> nextpid s' = nextpid s \<and> nextsem s' = nextsem s \<and> stack s' = stack s
     \<and> (\<forall>i. (proctab s' i)\<lparr>prstate := prstate (proctab s i)\<rparr> = proctab s i)
     \<and> (\<forall>i. prstate (proctab s' i) \<noteq> prstate (proctab s i) \<longrightarrow>
          prstate (proctab s' i) \<in> {PR_CURR, PR_READY}
          \<and> (prstate (proctab s i) \<in> {PR_CURR, PR_READY} \<or> i \<in> P))"

lemma kframe_refl [simp]: "kframe P s s" by (simp add: kframe_def)

lemma kframe_trans:
  assumes "kframe P s s'" "kframe Q s' s''"
  shows "kframe (P \<union> Q) s s''"
proof -
  have e: "(proctab s'' i)\<lparr>prstate := prstate (proctab s i)\<rparr> = proctab s i" for i
  proof -
    have "(proctab s' i)\<lparr>prstate := prstate (proctab s i)\<rparr> = proctab s i"
      "(proctab s'' i)\<lparr>prstate := prstate (proctab s' i)\<rparr> = proctab s' i"
      using assms unfolding kframe_def by simp_all
    moreover have "((proctab s'' i)\<lparr>prstate := prstate (proctab s' i)\<rparr>)\<lparr>prstate := x\<rparr> = (proctab s'' i)\<lparr>prstate := x\<rparr>" for x
      by simp
    ultimately show ?thesis by metis
  qed
  have st: "prstate (proctab s'' i) \<in> {PR_CURR, PR_READY} \<and> (prstate (proctab s i) \<in> {PR_CURR, PR_READY} \<or> i \<in> P \<union> Q)"
    if "prstate (proctab s'' i) \<noteq> prstate (proctab s i)" for i
    using assms that unfolding kframe_def by (metis (no_types, lifting) Un_iff)
  show ?thesis using assms e st unfolding kframe_def by simp
qed

lemma kframe_mono: "kframe P s s' \<Longrightarrow> P \<subseteq> Q \<Longrightarrow> kframe Q s s'"
  unfolding kframe_def by blast

lemma kframe_state:
  "kframe P s s' \<Longrightarrow> i \<notin> P \<Longrightarrow> prstate (proctab s i) \<notin> {PR_CURR, PR_READY} \<Longrightarrow> prstate (proctab s' i) = prstate (proctab s i)"
  unfolding kframe_def by blast

lemma kframe_runs:
  "kframe P s s' \<Longrightarrow> prstate (proctab s i) \<in> {PR_CURR, PR_READY} \<Longrightarrow> prstate (proctab s' i) \<in> {PR_CURR, PR_READY}"
  unfolding kframe_def by (cases "prstate (proctab s' i) = prstate (proctab s i)") auto

lemma kframe_fields:
  assumes "kframe P s s'"
  shows "semtab s' = semtab s" "readylist s' = readylist s" "sleepq s' = sleepq s" "nextqid s' = nextqid s"
    "conts s' = conts s" "halted s' = halted s" "prcount s' = prcount s" "kheap s' = kheap s"
    "nextpid s' = nextpid s" "nextsem s' = nextsem s"
    "prprio (proctab s' i) = prprio (proctab s i)" "prsem (proctab s' i) = prsem (proctab s i)"
    "prhasmsg (proctab s' i) = prhasmsg (proctab s i)" "prmsg (proctab s' i) = prmsg (proctab s i)"
    "page_addr (proctab s' i) = page_addr (proctab s i)" "prparent (proctab s' i) = prparent (proctab s i)"
proof -
  show "semtab s' = semtab s" "readylist s' = readylist s" "sleepq s' = sleepq s" "nextqid s' = nextqid s"
    "conts s' = conts s" "halted s' = halted s" "prcount s' = prcount s" "kheap s' = kheap s"
    "nextpid s' = nextpid s" "nextsem s' = nextsem s"
    using assms unfolding kframe_def by simp_all
  have "(proctab s' i)\<lparr>prstate := prstate (proctab s i)\<rparr> = proctab s i" using assms unfolding kframe_def by simp
  then have e: "f (proctab s' i) = f (proctab s i)" if "\<And>x y. f (x\<lparr>prstate := y\<rparr>) = f x" for f :: "procent \<Rightarrow> 'b"
    using that by metis
  show "prprio (proctab s' i) = prprio (proctab s i)" "prsem (proctab s' i) = prsem (proctab s i)"
    "prhasmsg (proctab s' i) = prhasmsg (proctab s i)" "prmsg (proctab s' i) = prmsg (proctab s i)"
    "page_addr (proctab s' i) = page_addr (proctab s i)" "prparent (proctab s' i) = prparent (proctab s i)"
    by (simp_all add: e)
qed

lemma kframe_entry:
  assumes "kframe P s s'" "\<And>x y. f (x\<lparr>prstate := y\<rparr>) = f x"
  shows "f (proctab s' i) = f (proctab s i)"
proof -
  have "(proctab s' i)\<lparr>prstate := prstate (proctab s i)\<rparr> = proctab s i" using assms(1) unfolding kframe_def by simp
  then show ?thesis using assms(2) by metis
qed

lemma kframe_free:
  assumes "kframe P s s'" "i \<notin> P"
  shows "prstate (proctab s' i) = PR_FREE \<longleftrightarrow> prstate (proctab s i) = PR_FREE"
  using assms unfolding kframe_def by (metis insert_iff pstate.distinct(1) pstate.distinct(3) singletonD)

lemma kframe_live: "kframe P s s' \<Longrightarrow> prstate (proctab s i) \<noteq> PR_FREE \<Longrightarrow> prstate (proctab s' i) \<noteq> PR_FREE"
  unfolding kframe_def by (cases "prstate (proctab s' i) = prstate (proctab s i)") auto

lemma switched_kframe: "switched s s' \<Longrightarrow> kframe P s s'"
proof -
  assume "switched s s'"
  then obtain qt v st pr where s': "s' = s\<lparr>proctab := st, queuetab := qt, currpid := currpid s', kvm := v, preempt := pr\<rparr>"
    and st: "\<And>i. (st i)\<lparr>prstate := prstate (proctab s i)\<rparr> = proctab s i"
    and ch: "\<And>i. prstate (st i) \<noteq> prstate (proctab s i) \<Longrightarrow>
        prstate (proctab s i) \<in> {PR_CURR, PR_READY} \<and> prstate (st i) \<in> {PR_CURR, PR_READY}"
    unfolding switched_def by blast
  have "kframe P s (s\<lparr>proctab := st, queuetab := qt, currpid := c, kvm := v, preempt := pr\<rparr>)" for c
    using st ch by (simp add: kframe_def)
  then show ?thesis using s' by metis
qed

lemma make_ready_kframe:
  "s' = set_state p PR_READY (s\<lparr>queuetab := qt\<rparr>) \<Longrightarrow> kframe {p} s s'"
  by (simp add: kframe_def upd_proc_def)

lemma kframe_absorb:
  assumes fr: "kframe {p} (set_state p st (s\<lparr>queuetab := qt\<rparr>)) s'" and run: "prstate (proctab s' p) \<in> {PR_CURR, PR_READY}"
  shows "kframe {p} s s'"
proof -
  let ?s = "set_state p st (s\<lparr>queuetab := qt\<rparr>)"
  have e: "(proctab s' i)\<lparr>prstate := prstate (proctab ?s i)\<rparr> = proctab ?s i" for i using fr unfolding kframe_def by blast
  have a: "(proctab s' i)\<lparr>prstate := prstate (proctab s i)\<rparr> = proctab s i" for i
  proof (cases "i = p")
    case True
    have "((proctab s' p)\<lparr>prstate := st\<rparr>)\<lparr>prstate := prstate (proctab s p)\<rparr>
        = ((proctab s p)\<lparr>prstate := st\<rparr>)\<lparr>prstate := prstate (proctab s p)\<rparr>" using e [of p] by simp
    then show ?thesis using True by simp
  next
    case False
    then show ?thesis using e [of i] by simp
  qed
  have b: "prstate (proctab s' i) \<in> {PR_CURR, PR_READY} \<and> (prstate (proctab s i) \<in> {PR_CURR, PR_READY} \<or> i \<in> {p})"
    if "prstate (proctab s' i) \<noteq> prstate (proctab s i)" for i
  proof (cases "i = p")
    case False
    then have "prstate (proctab s' i) \<noteq> prstate (proctab ?s i)" using that by simp
    then have "prstate (proctab s' i) \<in> {PR_CURR, PR_READY} \<and> (prstate (proctab ?s i) \<in> {PR_CURR, PR_READY} \<or> i \<in> {p})"
      using fr unfolding kframe_def by blast
    then show ?thesis using False by simp
  qed (use run in simp)
  show ?thesis using fr a b unfolding kframe_def by (simp add: upd_proc_def)
qed

lemma sem_ok_frame:
  assumes "ids_ok s" "sem_ok L s" "semtab s' = semtab s" "\<And>q. q \<noteq> readylist s \<Longrightarrow> L' q = L q"
  shows "sem_ok L' s'"
  using assms ids_okD(6) [OF assms(1)] unfolding sem_ok_def by simp

lemma kinv_conts [simp]: "kinv (set_cont p c s) = kinv s"
  using kq_cong [of "set_cont p c s" s] by (simp add: kinv_def set_cont_def)

lemma returns_give [simp]: "returns (give v s0 s) Q \<longleftrightarrow> Q (set_cont (currpid s0) (Ret v) s)"
  by (simp add: give_def)

section \<open>Rescheduling and readying re-establish the invariant\<close>

lemma resched_done:
  assumes "kq L s" "sem_ok L s" "ndefers s = 0" "prstate (proctab s (currpid s)) \<noteq> PR_READY"
  shows "returns (resched s) (\<lambda>s'. kinv s' \<and> kframe {} s s'
    \<and> (\<forall>q. isq (nextqid s) q \<longrightarrow> q \<noteq> readylist s \<longrightarrow> queue_of (queuetab s') q = L q))"
proof -
  obtain s' L' where r: "resched s = Some s'" "kq L' s'" "\<And>q. q \<noteq> readylist s \<Longrightarrow> L' q = L q"
    "prstate (proctab s' (currpid s')) = PR_CURR" "switched s s'"
    using resched_kq [OF assms(1,3,4)] by metis
  have "sem_ok L' s'"
    by (rule sem_ok_frame [OF kqD(2) [OF assms(1)] assms(2) switched_fields(1) [OF r(5)] r(3)])
  then show ?thesis
    using r switched_fields(4,5) [OF r(5)] assms(3) switched_kframe [OF r(5)] queue_of_qrep [OF kqD(1) [OF r(2)]]
    by (auto simp: kinv_def)
qed

text \<open>The keys of processes other than the one that gives the processor up stay what they are.\<close>

lemma resched_keys:
  assumes "kq L s" "ndefers s = 0" "prstate (proctab s (currpid s)) \<noteq> PR_READY" "resched s = Some s'" "i \<noteq> currpid s"
  shows "qkey (queuetab s' i) = qkey (queuetab s i)"
proof -
  obtain s2 where "resched s = Some s2"
    "\<And>i. qkey (queuetab s2 i) = (if i = currpid s \<and> currpid s2 \<noteq> i \<and> prstate (proctab s i) = PR_CURR
        then prprio (proctab s i) else qkey (queuetab s i))"
    by (rule resched_kq [OF assms(1-3)]) (rule that)
  then show ?thesis using assms(4,5) by simp
qed

lemma make_ready_absorb: "make_ready p (set_state p st s) = make_ready p s"
  by (simp add: make_ready_def upd_proc_def)

lemma ready_absorb: "0 \<le> p \<Longrightarrow> p < NPROC \<Longrightarrow> prstate (proctab s p) \<noteq> PR_FREE \<Longrightarrow> st \<noteq> PR_FREE \<Longrightarrow> ready p (set_state p st s) = ready p s"
  by (simp add: ready_def make_ready_absorb isbadpid_def)

lemma ready_done:
  assumes inv: "kq L s" "sem_ok L s" "ndefers s = 0" and p: "0 \<le> p" "p < NPROC" "home s p = None"
    "prstate (proctab s p) \<noteq> PR_FREE" "p \<noteq> currpid s" and cur: "prstate (proctab s (currpid s)) \<noteq> PR_READY"
  shows "returns (ready p s) (\<lambda>(r, s'). r = OK \<and> kinv s' \<and> kframe {p} s s'
    \<and> prstate (proctab s' p) \<in> {PR_CURR, PR_READY}
    \<and> (\<forall>q. isq (nextqid s) q \<longrightarrow> q \<noteq> readylist s \<longrightarrow> queue_of (queuetab s') q = L q))"
proof -
  obtain s1 where s1: "make_ready p s = Some s1"
    "kq (L(readylist s := ins_desc (\<lambda>i. qkey (queuetab s i)) (prprio (proctab s p)) p (L (readylist s)))) s1"
    "s1 = set_state p PR_READY (s\<lparr>queuetab := queuetab s1\<rparr>)"
    using make_ready_kq [OF inv(1) p(1-3)] by metis
  note fr = make_ready_kframe [OF s1(3)]
  have f1: "ndefers s1 = 0" "prstate (proctab s1 (currpid s1)) \<noteq> PR_READY"
    using inv(3) p(5) cur by (subst s1(3), simp)+
  have rdy: "prstate (proctab s1 p) = PR_READY" by (subst s1(3)) simp
  have so: "sem_ok (L(readylist s := ins_desc (\<lambda>i. qkey (queuetab s i)) (prprio (proctab s p)) p (L (readylist s)))) s1"
    by (rule sem_ok_frame [OF kqD(2) [OF inv(1)] inv(2) kframe_fields(1) [OF fr]]) simp
  from resched_done [OF s1(2) so f1] obtain s2 where s2: "resched s1 = Some s2" "kinv s2" "kframe {} s1 s2"
    "\<And>q. isq (nextqid s) q \<Longrightarrow> q \<noteq> readylist s \<Longrightarrow> queue_of (queuetab s2) q = L q"
    by (rule returnsE) (auto simp: kframe_fields [OF fr])
  have "prstate (proctab s2 p) \<in> {PR_CURR, PR_READY}" using kframe_runs [OF s2(3)] rdy by simp
  then show ?thesis using s1(1) p s2 kframe_trans [OF fr s2(3)] by (simp add: ready_def isbadpid_def)
qed

lemma ready_deferred:
  assumes inv: "kq L s" "0 < ndefers s" and p: "0 \<le> p" "p < NPROC" "home s p = None"
    "prstate (proctab s p) \<noteq> PR_FREE"
  obtains s' L' where "ready p s = Some (OK, s')" "kq L' s'" "\<And>q. q \<noteq> readylist s \<Longrightarrow> L' q = L q" "kframe {p} s s'"
    "ndefers s' = ndefers s" "currpid s' = currpid s" "attempt s'" "kvm s' = kvm s"
    "\<And>i. prstate (proctab s' i) = (if i = p then PR_READY else prstate (proctab s i))"
    "\<And>i. qkey (queuetab s' i) = (if i = p then prprio (proctab s p) else qkey (queuetab s i))"
proof -
  let ?L = "L(readylist s := ins_desc (\<lambda>i. qkey (queuetab s i)) (prprio (proctab s p)) p (L (readylist s)))"
  obtain s1 where s1: "make_ready p s = Some s1" "kq ?L s1"
    "s1 = set_state p PR_READY (s\<lparr>queuetab := queuetab s1\<rparr>)"
    "\<And>i. qkey (queuetab s1 i) = (if i = p then prprio (proctab s p) else qkey (queuetab s i))"
    using make_ready_kq [OF inv(1) p(1-3)] by metis
  note fr = make_ready_kframe [OF s1(3)]
  have f1: "ndefers s1 = ndefers s" "currpid s1 = currpid s" "kvm s1 = kvm s"
    "proctab s1 = (proctab s)(p := (proctab s p)\<lparr>prstate := PR_READY\<rparr>)"
    by (subst s1(3), simp)+
  let ?s' = "s1\<lparr>attempt := True\<rparr>"
  have "ready p s = Some (OK, ?s')"
    using s1(1) p inv(2) f1(1) by (simp add: ready_def isbadpid_def resched_def)
  moreover have "kq ?L ?s'" using s1(2) by (subst kq_cong) simp_all
  moreover have "kframe {p} s ?s'" using fr by (simp add: kframe_def)
  ultimately show thesis using f1 s1(4) by (intro that [of ?s' ?L]) simp_all
qed

lemma defer_stop_done:
  assumes "kq L s" "sem_ok L s" "ndefers s = 1" "prstate (proctab s (currpid s)) = PR_CURR"
  shows "returns (resched_cntl DEFER_STOP s) (\<lambda>(r, s'). r = OK \<and> kinv s' \<and> kframe {} s s'
    \<and> (\<forall>q. isq (nextqid s) q \<longrightarrow> q \<noteq> readylist s \<longrightarrow> queue_of (queuetab s') q = L q))"
proof -
  let ?s = "s\<lparr>ndefers := 0\<rparr>"
  have q: "kq L ?s" using assms(1) by (subst kq_cong) simp_all
  have so: "sem_ok L ?s" using assms(2) by (simp add: sem_ok_def)
  have fr: "kframe {} ?s s' \<Longrightarrow> kframe {} s s'" for s' by (simp add: kframe_def)
  have cur: "prstate (proctab ?s (currpid ?s)) = PR_CURR" using assms(4) by simp
  show ?thesis
  proof (cases "attempt s")
    case True
    from resched_done [OF q so] cur obtain s2 where "resched ?s = Some s2" "kinv s2" "kframe {} ?s s2"
      "\<And>q. isq (nextqid s) q \<Longrightarrow> q \<noteq> readylist s \<Longrightarrow> queue_of (queuetab s2) q = L q"
      by (auto elim: returnsE)
    then show ?thesis using True assms(3) fr by (simp add: resched_cntl_def)
  next
    case False
    have "kinv ?s" using q so cur by (auto simp: kinv_def)
    then show ?thesis using False assms(3) fr [of ?s] queue_of_qrep [OF kqD(1) [OF assms(1)]] by (simp add: resched_cntl_def)
  qed
qed

section \<open>Taking a process off a queue and putting it on one\<close>

lemma detach_kq:
  assumes inv: "kq L s" and q: "isq (nextqid s) q" and p: "p \<in> set (L q)" "p \<noteq> 0"
    and qt: "qrep (nextqid s) qt (L(q := remove1 p (L q)))"
    and keys: "\<And>i. i \<in> set (L (readylist s)) \<Longrightarrow> i \<noteq> p \<Longrightarrow> qkey (qt i) = qkey (queuetab s i)"
      "\<And>i. i \<in> set (L (sleepq s)) \<Longrightarrow> i \<noteq> p \<Longrightarrow> 0 \<le> qkey (qt i)"
    and st: "st \<in> {PR_FREE, PR_RECV, PR_SUSP}"
  shows "kq (L(q := remove1 p (L q))) (set_state p st (s\<lparr>queuetab := qt\<rparr>))" (is "kq ?L ?s")
proof -
  note D = kqD [OF inv]
  have r: "0 \<le> p" "p < NPROC" "home s p = Some q" using kq_range [OF inv q p(1)] by auto
  have d: "distinct (L q)" using qrepD(2) [OF D(1) q] .
  have "home ?s p = None" using st by (auto simp: home_def)
  then have h: "home ?s = (home s)(p := None)" using home_upd [of ?s s p] by simp
  have pl: "placed (nextqid s) ?L (home ?s)"
    unfolding h by (rule placed_del [OF D(3) r(3)]) (simp add: set_remove1_eq [OF d])
  have dis: "p \<notin> set (L q')" if "isq (nextqid s) q'" "q' \<noteq> q" for q'
    using placed_iff [OF D(3) r(1,2) that(1)] r(3) that(2) by simp
  have mem: "i \<in> set (?L q') \<Longrightarrow> i \<in> set (L q') \<and> i \<noteq> p" if "isq (nextqid s) q'" for i q'
    using dis [OF that] set_remove1_eq [OF d] by (cases "q' = q") auto
  have "desc_by (\<lambda>i. qkey (queuetab s i)) (?L (readylist s))"
    using D(4) desc_by_remove1 [of "\<lambda>i. qkey (queuetab s i)" "L q" p] by (cases "readylist s = q") (simp_all add: order_ok_def)
  then have "desc_by (\<lambda>i. qkey (qt i)) (?L (readylist s))"
    using desc_by_cong [of "?L (readylist s)" "\<lambda>i. qkey (qt i)" "\<lambda>i. qkey (queuetab s i)"] keys(1) mem [OF D(6)] by blast
  moreover have "\<forall>i\<in>set (?L (sleepq s)). 0 \<le> qkey (qt i)" using keys(2) mem [OF D(7)] by blast
  ultimately have ord: "order_ok ?L ?s" by (simp add: order_ok_def)
  have procs: "procs_ok ?s" using D(5) p(2) st by (auto simp: procs_ok_def)
  have ids: "ids_ok ?s" using D(2) by (simp add: ids_ok_def)
  show ?thesis unfolding kq_def using qt pl ord procs ids by simp
qed

lemma attach_kq:
  assumes inv: "kq L s" and q: "q \<noteq> readylist s"
    and p: "0 \<le> p" "p < NPROC" "p \<noteq> 0" "home s p = None"
    and qt: "qrep (nextqid s) qt (L(q := xs))" "set xs = insert p (set (L q))"
    and keys: "\<And>i. i \<noteq> p \<Longrightarrow> i \<in> set (L (readylist s)) \<Longrightarrow> qkey (qt i) = qkey (queuetab s i)"
      "\<And>i. i \<in> set ((L(q := xs)) (sleepq s)) \<Longrightarrow> 0 \<le> qkey (qt i)"
    and f: "prprio (f (proctab s p)) = prprio (proctab s p)" "prstate (f (proctab s p)) \<noteq> PR_CURR"
      "prstate (f (proctab s p)) = PR_WAIT \<Longrightarrow> 0 \<le> prsem (f (proctab s p)) \<and> prsem (f (proctab s p)) < NSEM"
    and home: "home (upd_proc p f (s\<lparr>queuetab := qt\<rparr>)) p = Some q"
  shows "kq (L(q := xs)) (upd_proc p f (s\<lparr>queuetab := qt\<rparr>))" (is "kq ?L ?s")
proof -
  note D = kqD [OF inv]
  have h: "home ?s = (home s)(p := Some q)" using home_upd [of ?s s p] home by simp
  have pl: "placed (nextqid s) ?L (home ?s)" unfolding h by (rule placed_add [OF D(3) p(4) qt(2)])
  have notin: "p \<notin> set (L (readylist s))"
    using placed_iff [OF D(3) p(1,2) D(6)] p(4) by simp
  have "desc_by (\<lambda>i. qkey (queuetab s i)) (L (readylist s))" using D(4) by (simp add: order_ok_def)
  then have "desc_by (\<lambda>i. qkey (qt i)) (L (readylist s))"
    using desc_by_cong [of "L (readylist s)" "\<lambda>i. qkey (qt i)" "\<lambda>i. qkey (queuetab s i)"] keys(1) notin
    by metis
  then have ord: "order_ok ?L ?s" using keys(2) q by (simp add: order_ok_def)
  have procs: "procs_ok ?s" using D(5) p f by (auto simp: procs_ok_def)
  have ids: "ids_ok ?s" using D(2) by (simp add: ids_ok_def)
  show ?thesis unfolding kq_def using qt(1) pl ord procs ids by simp
qed

text \<open>Changes of a process's entry that do not move it.\<close>

lemma upd_proc_kq:
  assumes inv: "kq L s" and st: "home (upd_proc p f s) p = home s p" and prio: "- 32768 \<le> prprio (f (proctab s p)) \<and> prprio (f (proctab s p)) \<le> 32767"
    and cur: "prstate (f (proctab s p)) = PR_CURR \<Longrightarrow> p = currpid s"
    and wait: "prstate (f (proctab s p)) = PR_WAIT \<Longrightarrow> 0 \<le> prsem (f (proctab s p)) \<and> prsem (f (proctab s p)) < NSEM"
    and null: "p = 0 \<Longrightarrow> prstate (f (proctab s 0)) = PR_CURR \<or> prstate (f (proctab s 0)) = PR_READY"
  shows "kq L (upd_proc p f s)"
proof -
  note D = kqD [OF inv]
  have h: "home (upd_proc p f s) = home s" using home_upd [of "upd_proc p f s" s p] st by (simp add: fun_upd_idem_iff)
  have "procs_ok (upd_proc p f s)" using D(5) prio cur wait null by (auto simp: procs_ok_def)
  then show ?thesis using inv by (simp add: kq_def h ids_ok_def order_ok_def)
qed

lemma kinvE:
  assumes "kinv s"
  obtains L where "kq L s" "sem_ok L s" "prstate (proctab s (currpid s)) = PR_CURR" "ndefers s = 0"
    "0 \<le> currpid s" "currpid s < NPROC" "home s (currpid s) = None"
proof -
  obtain L where L: "kq L s" "sem_ok L s" and c: "prstate (proctab s (currpid s)) = PR_CURR" "ndefers s = 0"
    using assms by (auto simp: kinv_def)
  show thesis using that [OF L c] procs_okD(1,2) [OF kqD(5) [OF L(1)]] c by (simp add: home_def)
qed

lemma upd_sem_kq:
  assumes "\<And>e. squeue (f e) = squeue e"
  shows "kq L (upd_sem i f s) = kq L s"
proof -
  have sq: "squeue (((semtab s)(i := f (semtab s i))) j) = squeue (semtab s j)" for j by (simp add: assms)
  have h: "home (upd_sem i f s) = home s" by (rule home_eqI) (simp_all add: assms)
  show ?thesis by (simp only: kq_def h ids_ok_def order_ok_def procs_ok_def upd_sem_simps sq)
qed

text \<open>Two states of one call while rescheduling is deferred: same current process, still running.\<close>

definition during :: "kstate \<Rightarrow> kstate \<Rightarrow> bool" where
  "during s s' \<longleftrightarrow> readylist s' = readylist s \<and> sleepq s' = sleepq s \<and> nextqid s' = nextqid s
     \<and> currpid s' = currpid s \<and> ndefers s' = ndefers s \<and> halted s' = halted s \<and> conts s' = conts s
     \<and> prstate (proctab s' (currpid s)) = prstate (proctab s (currpid s))
     \<and> (\<forall>i. squeue (semtab s' i) = squeue (semtab s i))"

lemma during_refl [simp]: "during s s" by (simp add: during_def)

lemma during_trans: "during s s' \<Longrightarrow> during s' s'' \<Longrightarrow> during s s''"
  by (simp add: during_def)

lemma duringD:
  assumes "during s s'"
  shows "readylist s' = readylist s" "sleepq s' = sleepq s" "nextqid s' = nextqid s" "currpid s' = currpid s"
    "ndefers s' = ndefers s" "halted s' = halted s" "conts s' = conts s"
    "prstate (proctab s' (currpid s)) = prstate (proctab s (currpid s))" "squeue (semtab s' i) = squeue (semtab s i)"
  using assms by (simp_all add: during_def)

lemma defer_start_kq:
  "kq L s \<Longrightarrow> \<exists>s'. resched_cntl DEFER_START s = Some (OK, s') \<and> kq L s' \<and> sem_ok L s' = sem_ok L s \<and> ndefers s' = ndefers s + 1
     \<and> proctab s' = proctab s \<and> semtab s' = semtab s \<and> queuetab s' = queuetab s \<and> currpid s' = currpid s \<and> readylist s' = readylist s
     \<and> sleepq s' = sleepq s \<and> nextqid s' = nextqid s \<and> conts s' = conts s \<and> halted s' = halted s"
proof -
  assume k: "kq L s"
  let ?s = "if ndefers s = 0 then s\<lparr>ndefers := ndefers s + 1, attempt := False\<rparr> else s\<lparr>ndefers := ndefers s + 1\<rparr>"
  have "resched_cntl DEFER_START s = Some (OK, ?s)" by (simp add: resched_cntl_def)
  moreover have "kq L ?s = kq L s" "sem_ok L ?s = sem_ok L s" by (intro kq_cong; simp)+
  ultimately show ?thesis using k by simp
qed

end
