(* ===== verification/Semaphore.thy ===== *)
theory Semaphore
  imports Invariant Interfaces
begin

text \<open>
  Counting semaphores: \<^verbatim>\<open>system/wait.c\<close>, \<^verbatim>\<open>signal.c\<close>, \<^verbatim>\<open>signaln.c\<close>,
  \<^verbatim>\<open>semcreate.c\<close>, \<^verbatim>\<open>semdelete.c\<close>, \<^verbatim>\<open>semreset.c\<close> and \<^verbatim>\<open>semcount.c\<close>.
  Each call ends with the value it returns recorded in \<open>conts\<close> for the caller. The lemmas show
  that every call returns, keeps the invariant, and what it does to the count and the waiting
  processes.
\<close>

section \<open>Operations\<close>

definition wait :: "int \<Rightarrow> kstate \<Rightarrow> kstate option" where
  "wait sem s =
     (if isbadsem sem then give SYSERR s s
      else if sstate (semtab s sem) = S_FREE then give SYSERR s s
      else
        let s1 = upd_sem sem (\<lambda>e. e\<lparr>scount := scount e - 1\<rparr>) s in
        if scount (semtab s1 sem) < 0 then
          let pid = currpid s1;
              s2 = set_state pid PR_WAIT s1;
              s3 = upd_proc pid (\<lambda>p. p\<lparr>prsem := sem\<rparr>) s2;
              (_, s4) = k_enqueue pid (squeue (semtab s3 sem)) s3
          in resched s4 \<bind> give OK s
        else give OK s s1)"

text \<open>\<open>if ((semptr->scount++) < 0) ready(dequeue(semptr->squeue))\<close>\<close>

definition signal_once :: "int \<Rightarrow> kstate \<Rightarrow> kstate option" where
  "signal_once sem s =
     (let c = scount (semtab s sem);
          s1 = upd_sem sem (\<lambda>e. e\<lparr>scount := scount e + 1\<rparr>) s
      in if c < 0 then
           let (pid, s2) = k_dequeue (squeue (semtab s1 sem)) s1
           in ready pid s2 \<bind> (\<lambda>(_, s3). Some s3)
         else Some s1)"

definition signal :: "int \<Rightarrow> kstate \<Rightarrow> kstate option" where
  "signal sem s =
     (if isbadsem sem then give SYSERR s s
      else if sstate (semtab s sem) = S_FREE then give SYSERR s s
      else signal_once sem s \<bind> give OK s)"

primrec signal_loop :: "int \<Rightarrow> nat \<Rightarrow> kstate \<Rightarrow> kstate option" where
  "signal_loop sem 0 s = Some s"
| "signal_loop sem (Suc n) s = signal_once sem s \<bind> signal_loop sem n"

definition signaln :: "int \<Rightarrow> int \<Rightarrow> kstate \<Rightarrow> kstate option" where
  "signaln sem count s =
     (if isbadsem sem \<or> count < 0 then give SYSERR s s
      else if sstate (semtab s sem) = S_FREE then give SYSERR s s
      else resched_cntl DEFER_START s \<bind> (\<lambda>(_, s1).
           signal_loop sem (nat count) s1 \<bind> (\<lambda>s2.
           resched_cntl DEFER_STOP s2 \<bind> (\<lambda>(_, s3). give OK s s3))))"

primrec newsem_loop :: "nat \<Rightarrow> kstate \<Rightarrow> int \<times> kstate" where
  "newsem_loop 0 s = (SYSERR, s)"
| "newsem_loop (Suc n) s =
     (let sem = nextsem s;
          nx = (if NSEM \<le> sem + 1 then 0 else sem + 1);
          s1 = s\<lparr>nextsem := nx\<rparr>
      in if sstate (semtab s1 sem) = S_FREE
         then (sem, upd_sem sem (\<lambda>e. e\<lparr>sstate := S_USED\<rparr>) s1)
         else newsem_loop n s1)"

definition newsem :: "kstate \<Rightarrow> int \<times> kstate" where
  "newsem s = newsem_loop (nat NSEM) s"

definition semcreate :: "int \<Rightarrow> kstate \<Rightarrow> kstate option" where
  "semcreate count s =
     (if count < 0 then give SYSERR s s
      else let (sem, s1) = newsem s in
        if sem = SYSERR then give SYSERR s s1
        else give sem s (upd_sem sem (\<lambda>e. e\<lparr>scount := count\<rparr>) s1))"

partial_function (option) delete_loop :: "int \<Rightarrow> kstate \<Rightarrow> kstate option" where
  "delete_loop sem s =
     (if scount (semtab s sem) < 0 then
        ready (fst (k_getfirst (squeue (semtab s sem)) (upd_sem sem (\<lambda>e. e\<lparr>scount := scount e + 1\<rparr>) s)))
              (snd (k_getfirst (squeue (semtab s sem)) (upd_sem sem (\<lambda>e. e\<lparr>scount := scount e + 1\<rparr>) s)))
        \<bind> (\<lambda>r. delete_loop sem (snd r))
      else Some (upd_sem sem (\<lambda>e. e\<lparr>scount := scount e + 1\<rparr>) s))"

declare delete_loop.simps [code]

definition semdelete :: "int \<Rightarrow> kstate \<Rightarrow> kstate option" where
  "semdelete sem s =
     (if isbadsem sem then give SYSERR s s
      else if sstate (semtab s sem) = S_FREE then give SYSERR s s
      else let s0 = upd_sem sem (\<lambda>e. e\<lparr>sstate := S_FREE\<rparr>) s in
           resched_cntl DEFER_START s0 \<bind> (\<lambda>(_, s1).
           delete_loop sem s1 \<bind> (\<lambda>s2.
           resched_cntl DEFER_STOP s2 \<bind> (\<lambda>(_, s3). give OK s s3))))"

partial_function (option) reset_loop :: "int \<Rightarrow> kstate \<Rightarrow> kstate option" where
  "reset_loop q s =
     (if fst (k_getfirst q s) = EMPTY then Some (snd (k_getfirst q s))
      else ready (fst (k_getfirst q s)) (snd (k_getfirst q s)) \<bind> (\<lambda>r. reset_loop q (snd r)))"

declare reset_loop.simps [code]

definition semreset :: "int \<Rightarrow> int \<Rightarrow> kstate \<Rightarrow> kstate option" where
  "semreset sem count s =
     (if count < 0 \<or> isbadsem sem \<or> sstate (semtab s sem) = S_FREE then give SYSERR s s
      else let semqueue = squeue (semtab s sem) in
           resched_cntl DEFER_START s \<bind> (\<lambda>(_, s1).
           reset_loop semqueue s1 \<bind> (\<lambda>s2.
           let s3 = upd_sem sem (\<lambda>e. e\<lparr>scount := count\<rparr>) s2 in
           resched_cntl DEFER_STOP s3 \<bind> (\<lambda>(_, s4). give OK s s4))))"

definition semcount :: "int \<Rightarrow> kstate \<Rightarrow> kstate option" where
  "semcount sem s =
     (if isbadsem sem \<or> sstate (semtab s sem) = S_FREE then give SYSERR s s
      else give (scount (semtab s sem)) s s)"

section \<open>Waking the first waiting process\<close>

text \<open>The queues of all semaphores but one stay what they are.\<close>

definition other_waiters :: "int \<Rightarrow> kstate \<Rightarrow> kstate \<Rightarrow> bool" where
  "other_waiters sem s s' \<longleftrightarrow> (\<forall>i. 0 \<le> i \<longrightarrow> i < NSEM \<longrightarrow> i \<noteq> sem \<longrightarrow>
     queue_of (queuetab s') (squeue (semtab s i)) = queue_of (queuetab s) (squeue (semtab s i)))"

lemma other_waiters_cont [simp]: "other_waiters sem s (set_cont p c s') = other_waiters sem s s'"
  by (simp add: other_waiters_def set_cont_def)

lemma other_waitersI:
  assumes "kq L s" "0 \<le> sem" "sem < NSEM"
    "\<And>r. isq (nextqid s) r \<Longrightarrow> r \<noteq> readylist s \<Longrightarrow> r \<noteq> squeue (semtab s sem) \<Longrightarrow> queue_of (queuetab s') r = L r"
  shows "other_waiters sem s s'"
  unfolding other_waiters_def
proof (intro allI impI)
  fix i assume i: "0 \<le> i" "i < NSEM" "i \<noteq> sem"
  note D = ids_okD [OF kqD(2) [OF assms(1)]]
  have "squeue (semtab s i) \<noteq> squeue (semtab s sem)" using D(8) [of i sem] i assms(2,3) by blast
  then show "queue_of (queuetab s') (squeue (semtab s i)) = queue_of (queuetab s) (squeue (semtab s i))"
    using assms(4) D(5,6) [OF i(1,2)] queue_of_qrep [OF kqD(1) [OF assms(1)] D(5) [OF i(1,2)]] by simp
qed

text \<open>\<open>dequeue\<close> and \<open>getfirst\<close> take the first process off a queue; \<open>ready\<close> then finds it as
  though it were suspended.\<close>

lemma take_first_kq:
  assumes inv: "kq L s" and q: "isq (nextqid s) q" and L: "L q = p # xs" and p0: "p \<noteq> 0"
    and keys: "\<And>i. i \<in> set (L (sleepq s)) \<Longrightarrow> i \<noteq> p \<Longrightarrow> 0 \<le> qkey (queuetab s i)"
  obtains qt qt' where
    "k_dequeue q s = (p, s\<lparr>queuetab := qt\<rparr>)" "kq (L(q := xs)) (set_state p PR_SUSP (s\<lparr>queuetab := qt\<rparr>))"
    "\<And>i. qkey (qt i) = qkey (queuetab s i)"
    "k_getfirst q s = (p, s\<lparr>queuetab := qt'\<rparr>)" "kq (L(q := xs)) (set_state p PR_SUSP (s\<lparr>queuetab := qt'\<rparr>))"
    "\<And>i. qkey (qt' i) = qkey (queuetab s i)"
proof -
  note D = kqD [OF inv]
  have r: "remove1 p (L q) = xs" using L by simp
  obtain qt where qt: "dequeue q (queuetab s) = (p, qt)" "qrep (nextqid s) qt (L(q := xs))" "\<And>i. qkey (qt i) = qkey (queuetab s i)"
    by (rule dequeue_refines [OF D(1) q L]) (rule that)
  obtain qt' where qt': "getfirst q (queuetab s) = (p, qt')" "qrep (nextqid s) qt' (L(q := xs))" "\<And>i. qkey (qt' i) = qkey (queuetab s i)"
    by (rule getfirst_refines [OF D(1) q L]) (rule that)
  have pq: "p \<in> set (L q)" using L by simp
  note det = detach_kq [OF inv q pq p0, where st = PR_SUSP, unfolded r]
  have 1: "kq (L(q := xs)) (set_state p PR_SUSP (s\<lparr>queuetab := qt\<rparr>))"
    by (rule det) (use qt keys in simp_all)
  have 2: "kq (L(q := xs)) (set_state p PR_SUSP (s\<lparr>queuetab := qt'\<rparr>))"
    by (rule det) (use qt' keys in simp_all)
  show thesis
    using qt qt' 1 2 by (intro that [of qt qt']) (simp_all add: k_dequeue_def k_getfirst_def)
qed

lemma queue_not_null:
  assumes inv: "kq L s" and q: "isq (nextqid s) q" "q \<noteq> readylist s" and p: "p \<in> set (L q)"
  shows "p \<noteq> 0" "prstate (proctab s p) \<notin> {PR_FREE, PR_CURR, PR_READY}"
proof -
  have h: "home s p = Some q" using kq_range [OF inv q(1) p] by simp
  then show "prstate (proctab s p) \<notin> {PR_FREE, PR_CURR, PR_READY}" using q(2) by (auto simp: home_def)
  then show "p \<noteq> 0" using procs_okD(3) [OF kqD(5) [OF inv]] by auto
qed

lemma sem_entry:
  assumes "sem_ok L s" "0 \<le> sem" "sem < NSEM"
  shows "sstate (semtab s sem) = S_USED \<Longrightarrow> int (length (L (squeue (semtab s sem)))) = max 0 (- scount (semtab s sem))"
    "sstate (semtab s sem) = S_FREE \<Longrightarrow> L (squeue (semtab s sem)) = []"
  using assms by (auto simp: sem_ok_def sem_entry_ok_def)

lemma sem_ok_change:
  assumes ids: "ids_ok s" and ok: "sem_ok L s" and sem: "0 \<le> sem" "sem < NSEM"
    and e: "squeue e = squeue (semtab s sem)" "sem_entry_ok xs e" and tab: "semtab s' = (semtab s)(sem := e)"
  shows "sem_ok (L(squeue (semtab s sem) := xs)) s'"
  using ok e ids_okD(8) [OF ids _ _ sem] unfolding sem_ok_def tab by auto

lemma signal_core:
  assumes inv: "kq L s" "sem_ok L s" and cur: "prstate (proctab s (currpid s)) = PR_CURR"
    and sem: "0 \<le> sem" "sem < NSEM" "sstate (semtab s sem) = S_USED" "scount (semtab s sem) < 0"
  obtains p xs s3 qt where "L (squeue (semtab s sem)) = p # xs" "signal_once sem s = ready p s3 \<bind> (\<lambda>(_, s'). Some s')"
    "s3 = set_state p PR_SUSP ((upd_sem sem (\<lambda>e. e\<lparr>scount := scount e + 1\<rparr>) s)\<lparr>queuetab := qt\<rparr>)"
    "kq (L(squeue (semtab s sem) := xs)) s3" "sem_ok (L(squeue (semtab s sem) := xs)) s3"
    "home s3 p = None" "0 \<le> p" "p < NPROC" "p \<noteq> currpid s" "prstate (proctab s p) = PR_WAIT"
proof -
  let ?q = "squeue (semtab s sem)" and ?s1 = "upd_sem sem (\<lambda>e. e\<lparr>scount := scount e + 1\<rparr>) s"
  note D = kqD [OF inv(1)]
  have q: "isq (nextqid s) ?q" "?q \<noteq> readylist s" using ids_okD(5,6) [OF D(2) sem(1,2)] by simp_all
  have len: "int (length (L ?q)) = - scount (semtab s sem)" using sem_entry(1) [OF inv(2) sem(1-3)] sem(4) by simp
  then have "L ?q \<noteq> []" using sem(4) by auto
  then obtain p xs where L: "L ?q = p # xs" by (cases "L ?q") simp_all
  have k1: "kq L ?s1" using inv(1) by (subst upd_sem_kq) simp_all
  have pq: "p \<in> set (L ?q)" using L by simp
  have p: "p \<noteq> 0" "prstate (proctab s p) = PR_WAIT" "0 \<le> p" "p < NPROC"
    using queue_not_null(1) [OF inv(1) q pq] kq_waiting [OF inv(1) sem(1,2) pq] kq_range [OF inv(1) q(1) pq] by simp_all
  have sl: "\<And>i. i \<in> set (L (sleepq ?s1)) \<Longrightarrow> 0 \<le> qkey (queuetab ?s1 i)" using kqD(4) [OF k1] by (simp add: order_ok_def)
  obtain qt where qt: "k_dequeue ?q ?s1 = (p, ?s1\<lparr>queuetab := qt\<rparr>)"
    "kq (L(?q := xs)) (set_state p PR_SUSP (?s1\<lparr>queuetab := qt\<rparr>))"
    by (rule take_first_kq [OF k1 _ L p(1) sl]) (use q in auto)
  let ?s3 = "set_state p PR_SUSP (?s1\<lparr>queuetab := qt\<rparr>)"
  have "signal_once sem s = ready p (?s1\<lparr>queuetab := qt\<rparr>) \<bind> (\<lambda>(_, s'). Some s')"
    using sem(4) qt(1) by (simp add: signal_once_def Let_def)
  also have "ready p (?s1\<lparr>queuetab := qt\<rparr>) = ready p ?s3"
    using p by (subst ready_absorb) simp_all
  finally have step: "signal_once sem s = ready p ?s3 \<bind> (\<lambda>(_, s'). Some s')" .
  have "sem_entry_ok xs ((semtab s sem)\<lparr>scount := scount (semtab s sem) + 1\<rparr>)"
    using len L sem(3) by (simp add: sem_entry_ok_def)
  then have so: "sem_ok (L(?q := xs)) ?s3"
    by (intro sem_ok_change [OF D(2) inv(2) sem(1,2), where e = "(semtab s sem)\<lparr>scount := scount (semtab s sem) + 1\<rparr>"]) simp_all
  have "p \<noteq> currpid s" using p(2) cur by auto
  then show thesis using that [OF L step refl qt(2) so] p by (simp add: home_def)
qed

lemma signal_once_done:
  assumes inv: "kinv s" and sem: "0 \<le> sem" "sem < NSEM" "sstate (semtab s sem) = S_USED"
  defines "q \<equiv> squeue (semtab s sem)" and "c \<equiv> scount (semtab s sem)"
  shows "returns (signal_once sem s) (\<lambda>s'. kinv s' \<and> conts s' = conts s
    \<and> semtab s' = (semtab s)(sem := (semtab s sem)\<lparr>scount := c + 1\<rparr>)
    \<and> (if c < 0 then queue_of (queuetab s) q \<noteq> [] \<and> queue_of (queuetab s') q = tl (queue_of (queuetab s) q)
          \<and> prstate (proctab s' (hd (queue_of (queuetab s) q))) \<in> {PR_CURR, PR_READY}
       else s' = upd_sem sem (\<lambda>e. e\<lparr>scount := c + 1\<rparr>) s)
    \<and> other_waiters sem s s')"
proof -
  obtain L where L: "kq L s" "sem_ok L s" and cur: "prstate (proctab s (currpid s)) = PR_CURR" "ndefers s = 0"
    using kinvE [OF inv] by metis
  note D = kqD [OF L(1)]
  have q: "isq (nextqid s) q" "q \<noteq> readylist s" using ids_okD(5,6) [OF D(2) sem(1,2)] by (simp_all add: q_def)
  have qo: "queue_of (queuetab s) q = L q" by (rule queue_of_qrep [OF D(1) q(1)])
  show ?thesis
  proof (cases "c < 0")
    case False
    let ?s1 = "upd_sem sem (\<lambda>e. e\<lparr>scount := scount e + 1\<rparr>) s"
    have "kq L ?s1" using L(1) by (subst upd_sem_kq) simp_all
    moreover have "L(q := L q) = L" by simp
    then have "sem_ok L ?s1"
      using sem_ok_change [OF D(2) L(2) sem(1,2), where xs = "L q" and s' = ?s1 and e = "(semtab s sem)\<lparr>scount := c + 1\<rparr>"]
        sem_entry(1) [OF L(2) sem] False sem(3)
      by (simp add: sem_entry_ok_def c_def q_def)
    ultimately have "kinv ?s1" using cur by (auto simp: kinv_def)
    then show ?thesis using False by (simp add: signal_once_def c_def upd_sem_def Let_def other_waiters_def)
  next
    case True
    obtain p xs s3 qt where c: "L q = p # xs" "signal_once sem s = ready p s3 \<bind> (\<lambda>(_, s'). Some s')"
      "s3 = set_state p PR_SUSP ((upd_sem sem (\<lambda>e. e\<lparr>scount := scount e + 1\<rparr>) s)\<lparr>queuetab := qt\<rparr>)"
      "kq (L(q := xs)) s3" "sem_ok (L(q := xs)) s3" "home s3 p = None" "0 \<le> p" "p < NPROC" "p \<noteq> currpid s" "prstate (proctab s p) = PR_WAIT"
      by (rule signal_core [OF L cur(1) sem True [unfolded c_def], folded q_def]) (rule that)
    have s3: "ndefers s3 = 0" "prstate (proctab s3 p) \<noteq> PR_FREE" "currpid s3 = currpid s"
      "prstate (proctab s3 (currpid s)) = PR_CURR" "nextqid s3 = nextqid s" "readylist s3 = readylist s"
      "conts s3 = conts s" "semtab s3 = (semtab s)(sem := (semtab s sem)\<lparr>scount := c + 1\<rparr>)"
      using cur c(9) by (simp_all add: c(3) c_def)
    have "returns (ready p s3) (\<lambda>(r, s'). r = OK \<and> kinv s' \<and> kframe {p} s3 s' \<and> prstate (proctab s' p) \<in> {PR_CURR, PR_READY}
      \<and> (\<forall>r. isq (nextqid s3) r \<longrightarrow> r \<noteq> readylist s3 \<longrightarrow> queue_of (queuetab s') r = (L(q := xs)) r))"
      by (rule ready_done [OF c(4,5) s3(1) c(7,8,6) s3(2)]) (use c(9) s3(3,4) in simp_all)
    then obtain r s' where r: "ready p s3 = Some (r, s')" "kinv s'" "kframe {p} s3 s'"
      "prstate (proctab s' p) \<in> {PR_CURR, PR_READY}" "queue_of (queuetab s') q = xs"
      "\<And>r. isq (nextqid s) r \<Longrightarrow> r \<noteq> readylist s \<Longrightarrow> r \<noteq> q \<Longrightarrow> queue_of (queuetab s') r = L r"
      using q s3(5,6) by (auto elim!: returnsE)
    have "other_waiters sem s s'" by (rule other_waitersI [OF L(1) sem(1,2) r(6)]) (simp_all add: q_def)
    then show ?thesis
      using True c(1,2) r s3(7,8) kframe_fields(1,5) [OF r(3)] qo by simp
  qed
qed

section \<open>The loops, with rescheduling deferred\<close>

definition runs :: "kstate \<Rightarrow> int \<Rightarrow> bool" where
  "runs s p \<longleftrightarrow> prstate (proctab s p) \<in> {PR_CURR, PR_READY}"

lemma kframe_runs': "kframe P s s' \<Longrightarrow> runs s p \<Longrightarrow> runs s' p"
  unfolding runs_def by (rule kframe_runs)

lemma signal_once_deferred:
  assumes inv: "kq L s" "sem_ok L s" and cur: "prstate (proctab s (currpid s)) = PR_CURR" "0 < ndefers s"
    and sem: "0 \<le> sem" "sem < NSEM" "sstate (semtab s sem) = S_USED"
  defines "q \<equiv> squeue (semtab s sem)" and "c \<equiv> scount (semtab s sem)"
  obtains s' L' where "signal_once sem s = Some s'" "kq L' s'" "sem_ok L' s'" "during s s'"
    "semtab s' = (semtab s)(sem := (semtab s sem)\<lparr>scount := c + 1\<rparr>)" "L' q = tl (L q)"
    "\<And>p. p \<in> set (L q) \<Longrightarrow> p \<in> set (L' q) \<or> runs s' p" "\<And>p. runs s p \<Longrightarrow> runs s' p"
proof (cases "c < 0")
  case False
  note D = kqD [OF inv(1)]
  let ?s1 = "upd_sem sem (\<lambda>e. e\<lparr>scount := scount e + 1\<rparr>) s"
  have e: "L q = []" using sem_entry(1) [OF inv(2) sem] False by (simp add: c_def q_def)
  have k: "kq L ?s1" using inv(1) by (subst upd_sem_kq) simp_all
  have "L(q := []) = L" using e by auto
  then have so: "sem_ok L ?s1"
    using sem_ok_change [OF D(2) inv(2) sem(1,2), where xs = "[]" and s' = ?s1 and e = "(semtab s sem)\<lparr>scount := c + 1\<rparr>"]
      False sem(3) by (simp add: sem_entry_ok_def c_def q_def)
  have "during s ?s1" by (simp add: during_def)
  moreover have "signal_once sem s = Some ?s1" using False by (simp add: signal_once_def c_def Let_def)
  ultimately show thesis using that [of ?s1 L] k so e by (simp add: c_def runs_def)
next
  case True
  note D = kqD [OF inv(1)]
  have q: "isq (nextqid s) q" "q \<noteq> readylist s" using ids_okD(5,6) [OF D(2) sem(1,2)] by (simp_all add: q_def)
  obtain p xs s3 qt where c: "L q = p # xs" "signal_once sem s = ready p s3 \<bind> (\<lambda>(_, s'). Some s')"
    "s3 = set_state p PR_SUSP ((upd_sem sem (\<lambda>e. e\<lparr>scount := scount e + 1\<rparr>) s)\<lparr>queuetab := qt\<rparr>)"
    "kq (L(q := xs)) s3" "sem_ok (L(q := xs)) s3" "home s3 p = None" "0 \<le> p" "p < NPROC" "p \<noteq> currpid s" "prstate (proctab s p) = PR_WAIT"
    by (rule signal_core [OF inv cur(1) sem True [unfolded c_def], folded q_def]) (rule that)
  have s3: "0 < ndefers s3" "prstate (proctab s3 p) \<noteq> PR_FREE" "readylist s3 = readylist s"
    "semtab s3 = (semtab s)(sem := (semtab s sem)\<lparr>scount := c + 1\<rparr>)"
    using cur by (simp_all add: c(3) c_def)
  obtain s' L' where r: "ready p s3 = Some (OK, s')" "kq L' s'" "\<And>r. r \<noteq> readylist s3 \<Longrightarrow> L' r = (L(q := xs)) r" "kframe {p} s3 s'"
    "ndefers s' = ndefers s3" "currpid s' = currpid s3" "\<And>i. prstate (proctab s' i) = (if i = p then PR_READY else prstate (proctab s3 i))"
    using ready_deferred [OF c(4) s3(1) c(7,8,6) s3(2)] by metis
  have so: "sem_ok L' s'"
    by (rule sem_ok_frame [OF kqD(2) [OF c(4)] c(5) kframe_fields(1) [OF r(4)] r(3)])
  have d: "during s s'"
    using r(5,6,7) kframe_fields(1-6) [OF r(4)] c(9) by (auto simp: during_def c(3))
  have st: "prstate (proctab s' i) = (if i = p then PR_READY else prstate (proctab s i))" for i
    using r(7) by (simp add: c(3))
  have w: "i \<in> set (L' q) \<or> runs s' i" if "i \<in> set (L q)" for i
    using that c(1) r(3) [of q] s3(3) q(2) st by (auto simp: runs_def)
  have m: "runs s' i" if "runs s i" for i using that st by (simp add: runs_def)
  have t: "L' q = tl (L q)" using r(3) [of q] s3(3) q(2) c(1) by simp
  have e: "signal_once sem s = Some s'" using c(2) r(1) by simp
  have tab: "semtab s' = (semtab s)(sem := (semtab s sem)\<lparr>scount := c + 1\<rparr>)"
    using kframe_fields(1) [OF r(4)] s3(4) by simp
  show thesis by (rule that [OF e r(2) so d tab t w m])
qed

lemma signal_loop_deferred:
  assumes "kq L s" "sem_ok L s" "prstate (proctab s (currpid s)) = PR_CURR" "0 < ndefers s"
    "0 \<le> sem" "sem < NSEM" "sstate (semtab s sem) = S_USED"
  shows "\<exists>s' L'. signal_loop sem n s = Some s' \<and> kq L' s' \<and> sem_ok L' s' \<and> during s s'
    \<and> semtab s' = (semtab s)(sem := (semtab s sem)\<lparr>scount := scount (semtab s sem) + int n\<rparr>)
    \<and> L' (squeue (semtab s sem)) = drop n (L (squeue (semtab s sem)))
    \<and> (\<forall>p. p \<in> set (L (squeue (semtab s sem))) \<longrightarrow> p \<in> set (L' (squeue (semtab s sem))) \<or> runs s' p)
    \<and> (\<forall>p. runs s p \<longrightarrow> runs s' p)"
  using assms
proof (induction n arbitrary: s L)
  case 0
  then show ?case by (intro exI [of _ s] exI [of _ L]) simp
next
  case (Suc n)
  let ?q = "squeue (semtab s sem)"
  obtain s1 L1 where s1: "signal_once sem s = Some s1" "kq L1 s1" "sem_ok L1 s1" "during s s1"
    "semtab s1 = (semtab s)(sem := (semtab s sem)\<lparr>scount := scount (semtab s sem) + 1\<rparr>)" "L1 ?q = tl (L ?q)"
    "\<And>p. p \<in> set (L ?q) \<Longrightarrow> p \<in> set (L1 ?q) \<or> runs s1 p" "\<And>p. runs s p \<Longrightarrow> runs s1 p"
    by (rule signal_once_deferred [OF Suc.prems]) (rule that)
  note d = duringD [OF s1(4)]
  have pre: "prstate (proctab s1 (currpid s1)) = PR_CURR" "0 < ndefers s1" "sstate (semtab s1 sem) = S_USED"
    using Suc.prems(3,4,7) d s1(5) by simp_all
  obtain s' L' where s': "signal_loop sem n s1 = Some s'" "kq L' s'" "sem_ok L' s'" "during s1 s'"
    "semtab s' = (semtab s1)(sem := (semtab s1 sem)\<lparr>scount := scount (semtab s1 sem) + int n\<rparr>)"
    "L' (squeue (semtab s1 sem)) = drop n (L1 (squeue (semtab s1 sem)))"
    "\<And>p. p \<in> set (L1 (squeue (semtab s1 sem))) \<Longrightarrow> p \<in> set (L' (squeue (semtab s1 sem))) \<or> runs s' p"
    "\<And>p. runs s1 p \<Longrightarrow> runs s' p"
    using Suc.IH [OF s1(2,3) pre(1,2) Suc.prems(5,6) pre(3)] by blast
  have sq: "squeue (semtab s1 sem) = ?q" using d by simp
  have t: "semtab s' = (semtab s)(sem := (semtab s sem)\<lparr>scount := scount (semtab s sem) + int (Suc n)\<rparr>)"
    using s'(5) s1(5) by (simp add: add.assoc)
  have dr: "L' ?q = drop (Suc n) (L ?q)" using s'(6) s1(6) unfolding sq by (simp add: drop_Suc)
  have w: "p \<in> set (L' ?q) \<or> runs s' p" if "p \<in> set (L ?q)" for p
    using s1(7) [OF that] s'(7,8) unfolding sq by blast
  show ?case
    using s1(1) s'(1-3) during_trans [OF s1(4) s'(4)] t dr w s1(8) s'(8)
    by (intro exI [of _ s'] exI [of _ L']) simp
qed

lemma wake_first_deferred:
  assumes inv: "kq L s" and cur: "prstate (proctab s (currpid s)) = PR_CURR" "0 < ndefers s"
    and sem: "0 \<le> sem" "sem < NSEM" and f: "\<And>e. squeue (f e) = squeue e"
    and L: "L (squeue (semtab s sem)) = p # xs"
  obtains s' L' where
    "k_getfirst (squeue (semtab s sem)) (upd_sem sem f s) = (p, snd (k_getfirst (squeue (semtab s sem)) (upd_sem sem f s)))"
    "ready p (snd (k_getfirst (squeue (semtab s sem)) (upd_sem sem f s))) = Some (OK, s')"
    "kq L' s'" "\<And>r. r \<noteq> readylist s \<Longrightarrow> L' r = (L(squeue (semtab s sem) := xs)) r" "during s s'"
    "semtab s' = (semtab s)(sem := f (semtab s sem))" "runs s' p" "\<And>i. runs s i \<Longrightarrow> runs s' i" "0 \<le> p"
proof -
  let ?q = "squeue (semtab s sem)" and ?s1 = "upd_sem sem f s"
  note D = kqD [OF inv]
  have q: "isq (nextqid s) ?q" "?q \<noteq> readylist s" using ids_okD(5,6) [OF D(2) sem] by simp_all
  have k1: "kq L ?s1" using inv by (subst upd_sem_kq [where f = f, OF f])
  have pq: "p \<in> set (L ?q)" using L by simp
  have p: "p \<noteq> 0" "prstate (proctab s p) = PR_WAIT" "0 \<le> p" "p < NPROC"
    using queue_not_null(1) [OF inv q pq] kq_waiting [OF inv sem pq] kq_range [OF inv q(1) pq] by simp_all
  have sl: "\<And>i. i \<in> set (L (sleepq ?s1)) \<Longrightarrow> 0 \<le> qkey (queuetab ?s1 i)" using kqD(4) [OF k1] by (simp add: order_ok_def)
  obtain qt where qt: "k_getfirst ?q ?s1 = (p, ?s1\<lparr>queuetab := qt\<rparr>)"
    "kq (L(?q := xs)) (set_state p PR_SUSP (?s1\<lparr>queuetab := qt\<rparr>))"
    by (rule take_first_kq [OF k1 _ L p(1) sl]) (use q in auto)
  let ?s3 = "set_state p PR_SUSP (?s1\<lparr>queuetab := qt\<rparr>)"
  have ab: "ready p (?s1\<lparr>queuetab := qt\<rparr>) = ready p ?s3" using p by (subst ready_absorb) simp_all
  have pc: "p \<noteq> currpid s" using p(2) cur by auto
  have h3: "home ?s3 p = None" "prstate (proctab ?s3 p) \<noteq> PR_FREE" "0 < ndefers ?s3" using cur by (simp_all add: home_def)
  obtain s' L' where r: "ready p ?s3 = Some (OK, s')" "kq L' s'" "\<And>r. r \<noteq> readylist ?s3 \<Longrightarrow> L' r = (L(?q := xs)) r" "kframe {p} ?s3 s'"
    "ndefers s' = ndefers ?s3" "currpid s' = currpid ?s3" "attempt s'" "kvm s' = kvm ?s3"
    "\<And>i. prstate (proctab s' i) = (if i = p then PR_READY else prstate (proctab ?s3 i))"
    "\<And>i. qkey (queuetab s' i) = (if i = p then prprio (proctab ?s3 p) else qkey (queuetab ?s3 i))"
    by (rule ready_deferred [OF qt(2) h3(3) p(3,4) h3(1,2)]) (rule that)
  have sq: "squeue (semtab s' i) = squeue (semtab s i)" for i using kframe_fields(1) [OF r(4)] f by simp
  have d: "during s s'" using r(5,6,7) kframe_fields(2-6) [OF r(4)] r(9) pc sq by (simp add: during_def)
  have st: "prstate (proctab s' i) = (if i = p then PR_READY else prstate (proctab s i))" for i using r(9) by simp
  have m: "runs s' p" "\<And>i. runs s i \<Longrightarrow> runs s' i" using st by (simp_all add: runs_def)
  have tab: "semtab s' = (semtab s)(sem := f (semtab s sem))" using kframe_fields(1) [OF r(4)] by simp
  have g: "snd (k_getfirst ?q ?s1) = ?s1\<lparr>queuetab := qt\<rparr>" using qt(1) by simp
  show thesis
  proof (rule that)
    show "k_getfirst ?q ?s1 = (p, snd (k_getfirst ?q ?s1))" using qt(1) by simp
    show "ready p (snd (k_getfirst ?q ?s1)) = Some (OK, s')" unfolding g ab r(1) ..
    show "\<And>r. r \<noteq> readylist s \<Longrightarrow> L' r = (L(?q := xs)) r" using r(3) by simp
  qed (use r(2) d tab m p(3) in simp_all)
qed

lemma delete_loop_deferred:
  assumes "kq L s" "prstate (proctab s (currpid s)) = PR_CURR" "0 < ndefers s" "0 \<le> sem" "sem < NSEM"
    and "int (length (L (squeue (semtab s sem)))) = max 0 (- scount (semtab s sem))"
  shows "\<exists>s' L'. delete_loop sem s = Some s' \<and> kq L' s' \<and> during s s'
    \<and> semtab s' = (semtab s)(sem := (semtab s sem)\<lparr>scount := max 0 (scount (semtab s sem)) + 1\<rparr>)
    \<and> (\<forall>r. r \<noteq> readylist s \<longrightarrow> L' r = (L(squeue (semtab s sem) := [])) r)
    \<and> (\<forall>p. p \<in> set (L (squeue (semtab s sem))) \<longrightarrow> runs s' p) \<and> (\<forall>p. runs s p \<longrightarrow> runs s' p)"
  using assms
proof (induction "length (L (squeue (semtab s sem)))" arbitrary: s L)
  case 0
  let ?s1 = "upd_sem sem (\<lambda>e. e\<lparr>scount := scount e + 1\<rparr>) s"
  have c: "0 \<le> scount (semtab s sem)" using 0 by simp
  have "delete_loop sem s = Some ?s1" using c by (subst delete_loop.simps) simp
  moreover have "kq L ?s1" using 0(2) by (subst upd_sem_kq) simp_all
  moreover have "during s ?s1" by (simp add: during_def)
  ultimately show ?case using c 0(1) by (intro exI [of _ ?s1] exI [of _ L]) (auto simp: runs_def)
next
  case (Suc n)
  let ?q = "squeue (semtab s sem)" and ?f = "\<lambda>e. e\<lparr>scount := scount e + 1\<rparr>"
  have c: "scount (semtab s sem) < 0" using Suc.hyps(2) Suc.prems(6) by simp
  obtain p xs where L: "L ?q = p # xs" using Suc.hyps(2) by (cases "L ?q") simp_all
  have f: "\<And>e. squeue (?f e) = squeue e" by simp
  obtain s1 L1 where s1: "k_getfirst ?q (upd_sem sem ?f s) = (p, snd (k_getfirst ?q (upd_sem sem ?f s)))"
    "ready p (snd (k_getfirst ?q (upd_sem sem ?f s))) = Some (OK, s1)" "kq L1 s1"
    "\<And>r. r \<noteq> readylist s \<Longrightarrow> L1 r = (L(?q := xs)) r" "during s s1" "semtab s1 = (semtab s)(sem := ?f (semtab s sem))"
    "runs s1 p" "\<And>i. runs s i \<Longrightarrow> runs s1 i" "0 \<le> p"
    by (rule wake_first_deferred [where f = ?f, OF Suc.prems(1-5) f L]) (rule that)
  note d = duringD [OF s1(5)]
  have qr: "?q \<noteq> readylist s" using ids_okD(6) [OF kqD(2) [OF Suc.prems(1)] Suc.prems(4,5)] .
  have sq: "squeue (semtab s1 sem) = ?q" using d by simp
  have L1: "L1 ?q = xs" using s1(4) [OF qr] by simp
  have cnt: "scount (semtab s1 sem) = scount (semtab s sem) + 1" using s1(6) by simp
  have "\<exists>s' L'. delete_loop sem s1 = Some s' \<and> kq L' s' \<and> during s1 s'
    \<and> semtab s' = (semtab s1)(sem := (semtab s1 sem)\<lparr>scount := max 0 (scount (semtab s1 sem)) + 1\<rparr>)
    \<and> (\<forall>r. r \<noteq> readylist s1 \<longrightarrow> L' r = (L1(squeue (semtab s1 sem) := [])) r)
    \<and> (\<forall>p. p \<in> set (L1 (squeue (semtab s1 sem))) \<longrightarrow> runs s' p) \<and> (\<forall>p. runs s1 p \<longrightarrow> runs s' p)"
    using Suc.hyps(2) Suc.prems s1(3) L L1 sq d cnt by (intro Suc.hyps(1)) simp_all
  then obtain s' L' where s': "delete_loop sem s1 = Some s'" "kq L' s'" "during s1 s'"
    "semtab s' = (semtab s1)(sem := (semtab s1 sem)\<lparr>scount := max 0 (scount (semtab s1 sem)) + 1\<rparr>)"
    "\<And>r. r \<noteq> readylist s1 \<Longrightarrow> L' r = (L1(squeue (semtab s1 sem) := [])) r"
    "\<And>p. p \<in> set (L1 (squeue (semtab s1 sem))) \<Longrightarrow> runs s' p" "\<And>p. runs s1 p \<Longrightarrow> runs s' p" by blast
  have e: "delete_loop sem s = Some s'"
    using c s1(1,2) s'(1) by (subst delete_loop.simps) (simp add: prod_eq_iff)
  have t: "semtab s' = (semtab s)(sem := (semtab s sem)\<lparr>scount := max 0 (scount (semtab s sem)) + 1\<rparr>)"
    using s'(4) c unfolding s1(6) by simp
  have q': "L' r = (L(?q := [])) r" if "r \<noteq> readylist s" for r
    using s'(5) [of r] s1(4) [OF that] that d(1) unfolding sq by simp
  have w: "runs s' i" if "i \<in> set (L ?q)" for i
    using that s1(7) s'(6,7) L L1 unfolding sq by auto
  show ?case using e s'(2) during_trans [OF s1(5) s'(3)] t q' w s1(8) s'(7) by blast
qed

lemma reset_loop_deferred:
  assumes "kq L s" "prstate (proctab s (currpid s)) = PR_CURR" "0 < ndefers s" "0 \<le> sem" "sem < NSEM"
  shows "\<exists>s' L'. reset_loop (squeue (semtab s sem)) s = Some s' \<and> kq L' s' \<and> during s s' \<and> semtab s' = semtab s
    \<and> (\<forall>r. r \<noteq> readylist s \<longrightarrow> L' r = (L(squeue (semtab s sem) := [])) r)
    \<and> (\<forall>p. p \<in> set (L (squeue (semtab s sem))) \<longrightarrow> runs s' p) \<and> (\<forall>p. runs s p \<longrightarrow> runs s' p)"
  using assms
proof (induction "length (L (squeue (semtab s sem)))" arbitrary: s L)
  case 0
  let ?q = "squeue (semtab s sem)"
  have q: "isq (nextqid s) ?q" using ids_okD(5) [OF kqD(2) [OF 0(2)] 0(5,6)] .
  have e: "L ?q = []" using 0(1) by simp
  have "k_getfirst ?q s = (EMPTY, s)"
    using getfirst_empty [OF kqD(1) [OF 0(2)] q e] by (simp add: k_getfirst_def)
  then have "reset_loop ?q s = Some s" by (subst reset_loop.simps) simp
  then show ?case using 0(2) e by (intro exI [of _ s] exI [of _ L]) auto
next
  case (Suc n)
  let ?q = "squeue (semtab s sem)"
  obtain p xs where L: "L ?q = p # xs" using Suc.hyps(2) by (cases "L ?q") simp_all
  have f: "\<And>e. squeue ((\<lambda>e. e) e) = squeue (e :: sentry)" by simp
  have id: "upd_sem sem (\<lambda>e. e) s = s" by (simp add: upd_sem_def)
  obtain s1 L1 where s1: "k_getfirst ?q s = (p, snd (k_getfirst ?q s))"
    "ready p (snd (k_getfirst ?q s)) = Some (OK, s1)" "kq L1 s1"
    "\<And>r. r \<noteq> readylist s \<Longrightarrow> L1 r = (L(?q := xs)) r" "during s s1" "semtab s1 = (semtab s)(sem := semtab s sem)"
    "runs s1 p" "\<And>i. runs s i \<Longrightarrow> runs s1 i" "0 \<le> p"
    by (rule wake_first_deferred [where f = "\<lambda>e. e", OF Suc.prems f L, unfolded id]) (rule that)
  note d = duringD [OF s1(5)]
  have qr: "?q \<noteq> readylist s" using ids_okD(6) [OF kqD(2) [OF Suc.prems(1)] Suc.prems(4,5)] .
  have sq: "squeue (semtab s1 sem) = ?q" using d by simp
  have L1: "L1 ?q = xs" using s1(4) [OF qr] by simp
  have "\<exists>s' L'. reset_loop (squeue (semtab s1 sem)) s1 = Some s' \<and> kq L' s' \<and> during s1 s' \<and> semtab s' = semtab s1
    \<and> (\<forall>r. r \<noteq> readylist s1 \<longrightarrow> L' r = (L1(squeue (semtab s1 sem) := [])) r)
    \<and> (\<forall>p. p \<in> set (L1 (squeue (semtab s1 sem))) \<longrightarrow> runs s' p) \<and> (\<forall>p. runs s1 p \<longrightarrow> runs s' p)"
    using Suc.hyps(2) Suc.prems s1(3) L L1 sq d by (intro Suc.hyps(1)) simp_all
  then obtain s' L' where s': "reset_loop ?q s1 = Some s'" "kq L' s'" "during s1 s'" "semtab s' = semtab s1"
    "\<And>r. r \<noteq> readylist s1 \<Longrightarrow> L' r = (L1(?q := [])) r"
    "\<And>p. p \<in> set (L1 ?q) \<Longrightarrow> runs s' p" "\<And>p. runs s1 p \<Longrightarrow> runs s' p" unfolding sq by blast
  have "p \<noteq> EMPTY" using s1(9) by simp
  then have e: "reset_loop ?q s = Some s'"
    using s1(1,2) s'(1) by (subst reset_loop.simps) (simp add: prod_eq_iff)
  have q': "L' r = (L(?q := [])) r" if "r \<noteq> readylist s" for r
    using s'(5) [of r] s1(4) [OF that] that d(1) by simp
  have w: "runs s' i" if "i \<in> set (L ?q)" for i
    using that s1(7) s'(6,7) L L1 by auto
  show ?case using e s'(2,4) during_trans [OF s1(5) s'(3)] s1(6) q' w s1(8) s'(7) by (metis fun_upd_triv)
qed

section \<open>Properties\<close>

lemma set_cont_simps [simp]:
  "proctab (set_cont p c s) = proctab s" "semtab (set_cont p c s) = semtab s" "queuetab (set_cont p c s) = queuetab s"
  "currpid (set_cont p c s) = currpid s" "conts (set_cont p c s) = (conts s)(p := c)" "halted (set_cont p c s) = halted s"
  "readylist (set_cont p c s) = readylist s" "sleepq (set_cont p c s) = sleepq s" "nextqid (set_cont p c s) = nextqid s"
  "kvm (set_cont p c s) = kvm s" "kheap (set_cont p c s) = kheap s" "prcount (set_cont p c s) = prcount s"
  "stack (set_cont p c s) = stack s" "ndefers (set_cont p c s) = ndefers s"
  by (simp_all add: set_cont_def)

lemma wait_returns:
  assumes inv: "kinv s" and sem: "0 \<le> sem" "sem < NSEM" "sstate (semtab s sem) = S_USED"
    and user: "scount (semtab s sem) \<le> 0 \<longrightarrow> currpid s \<noteq> 0"
  defines "q \<equiv> squeue (semtab s sem)" and "c \<equiv> scount (semtab s sem)"
  shows "returns (wait sem s) (\<lambda>s'. kinv s' \<and> conts s' = (conts s)(currpid s := Ret OK)
    \<and> semtab s' = (semtab s)(sem := (semtab s sem)\<lparr>scount := c - 1\<rparr>)
    \<and> (if 0 < c then currpid s' = currpid s \<and> proctab s' = proctab s \<and> queuetab s' = queuetab s
       else queue_of (queuetab s') q = queue_of (queuetab s) q @ [currpid s] \<and> currpid s' \<noteq> currpid s
          \<and> prstate (proctab s' (currpid s)) = PR_WAIT \<and> prsem (proctab s' (currpid s)) = sem)
    \<and> other_waiters sem s s')"
proof -
  obtain L where L: "kq L s" "sem_ok L s" and cur: "prstate (proctab s (currpid s)) = PR_CURR" "ndefers s = 0"
    "0 \<le> currpid s" "currpid s < NPROC" "home s (currpid s) = None"
    using kinvE [OF inv] by metis
  note D = kqD [OF L(1)]
  let ?s1 = "upd_sem sem (\<lambda>e. e\<lparr>scount := scount e - 1\<rparr>) s" and ?p = "currpid s"
  have q: "isq (nextqid s) q" "q \<noteq> readylist s" "q \<noteq> sleepq s" using ids_okD(5,6,7) [OF D(2) sem(1,2)] by (simp_all add: q_def)
  have qo: "queue_of (queuetab s) q = L q" by (rule queue_of_qrep [OF D(1) q(1)])
  have k1: "kq L ?s1" using L(1) by (subst upd_sem_kq) simp_all
  have bs: "\<not> isbadsem sem" using sem by (simp add: isbadsem_def)
  note ch = sem_ok_change [OF D(2) L(2) sem(1,2), where e = "(semtab s sem)\<lparr>scount := c - 1\<rparr>"]
  show ?thesis
  proof (cases "0 < c")
    case True
    have "L(q := L q) = L" by simp
    then have "sem_ok L ?s1"
      using ch [of "L q" ?s1] sem_entry(1) [OF L(2) sem] True sem(3) by (simp add: sem_entry_ok_def c_def q_def)
    then have "kinv ?s1" using k1 cur by (auto simp: kinv_def)
    then show ?thesis using True bs sem(3) by (simp add: wait_def c_def Let_def other_waiters_def)
  next
    case False
    let ?f = "\<lambda>p. p\<lparr>prstate := PR_WAIT, prsem := sem\<rparr>"
    let ?s3 = "upd_proc ?p ?f ?s1"
    have bad: "\<not> isbadpid ?s3 ?p" using cur by (simp add: isbadpid_def)
    have nq: "\<not> queued (nextqid s) L ?p" by (rule placed_not_queued [OF D(3) cur(5,3,4)])
    obtain qt where qt: "enqueue (isbadpid ?s3) ?p q (queuetab s) = (?p, qt)" "qrep (nextqid s) qt (L(q := L q @ [?p]))"
      "\<And>i. qkey (qt i) = qkey (queuetab s i)"
      by (rule enqueue_refines [where badpid = "isbadpid ?s3", OF D(1) q(1) bad cur(3,4) nq]) (rule that)
    let ?s4 = "upd_proc ?p ?f (?s1\<lparr>queuetab := qt\<rparr>)"
    have h1: "home ?s1 ?p = None" using cur(1) by (simp add: home_def)
    have null: "?p \<noteq> 0" using user False by (simp add: c_def)
    have k4: "kq (L(q := L q @ [?p])) ?s4"
    proof (rule attach_kq [OF k1 _ cur(3,4) null h1])
      show "\<And>i. i \<in> set ((L(q := L q @ [?p])) (sleepq ?s1)) \<Longrightarrow> 0 \<le> qkey (qt i)"
        using D(4) q(3) by (simp add: order_ok_def qt(3))
    qed (use q qt sem in \<open>simp_all add: home_def q_def\<close>)
    have "sem_entry_ok (L q @ [?p]) ((semtab s sem)\<lparr>scount := c - 1\<rparr>)"
      using sem_entry(1) [OF L(2) sem] False sem(3) by (simp add: sem_entry_ok_def c_def q_def)
    then have so: "sem_ok (L(q := L q @ [?p])) ?s4" using ch [of "L q @ [?p]" ?s4] by (simp add: c_def q_def)
    have w: "wait sem s = resched ?s4 \<bind> give OK s"
      unfolding upd_proc_queuetab using False bs sem(3) qt(1)
      by (simp add: wait_def c_def q_def Let_def k_enqueue_def upd_proc_def upd_sem_def)
    have nd4: "ndefers ?s4 = 0" "prstate (proctab ?s4 (currpid ?s4)) \<noteq> PR_READY" using cur by simp_all
    obtain s' where r: "resched ?s4 = Some s'" "kinv s'" "kframe {} ?s4 s'" "queue_of (queuetab s') q = L q @ [?p]"
      "\<And>r. isq (nextqid s) r \<Longrightarrow> r \<noteq> readylist s \<Longrightarrow> r \<noteq> q \<Longrightarrow> queue_of (queuetab s') r = L r"
      using resched_done [OF k4 so nd4] q by (auto elim!: returnsE)
    have o: "other_waiters sem s s'" by (rule other_waitersI [OF L(1) sem(1,2) r(5)]) (simp_all add: q_def)
    have st: "prstate (proctab s' ?p) = PR_WAIT" using kframe_state [OF r(3), of ?p] by simp
    moreover have "currpid s' \<noteq> ?p" using r(2) st by (auto simp: kinv_def)
    ultimately show ?thesis
      using r(1,2,4) o False kframe_fields(1,5,12) [OF r(3)] qo by (simp add: w c_def)
  qed
qed

lemma wait_bad: "isbadsem sem \<or> sstate (semtab s sem) = S_FREE \<Longrightarrow> wait sem s = give SYSERR s s"
  by (auto simp: wait_def)

lemma wait_kinv:
  assumes "kinv s" "currpid s \<noteq> 0"
  shows "returns (wait sem s) kinv"
proof (cases "isbadsem sem \<or> sstate (semtab s sem) = S_FREE")
  case True
  then show ?thesis using wait_bad [OF True] assms by (simp add: give_def)
next
  case False
  then have "0 \<le> sem" "sem < NSEM" "sstate (semtab s sem) = S_USED"
    by (auto simp: isbadsem_def) (metis sstate.exhaust)
  then show ?thesis using wait_returns [OF assms(1), of sem] assms(2) by (auto elim: returns_mono)
qed

lemma sem_cases:
  obtains (bad) "isbadsem sem \<or> sstate (semtab s sem) = S_FREE"
  | (good) "0 \<le> sem" "sem < NSEM" "sstate (semtab s sem) = S_USED"
  by (cases "sstate (semtab s sem)"; cases "0 \<le> sem"; cases "sem < NSEM") (auto simp: isbadsem_def)

lemma signal_kinv: "kinv s \<Longrightarrow> returns (signal sem s) kinv"
proof (cases rule: sem_cases [of sem s])
  case good
  assume "kinv s"
  from signal_once_done [OF this good] good show ?thesis
    by (auto simp: signal_def isbadsem_def elim: returns_mono)
qed (auto simp: signal_def give_def)

lemma defer_stop_sem:
  assumes L: "kq L s" "sem_ok L s" and cur: "ndefers s = 1" "prstate (proctab s (currpid s)) = PR_CURR"
    and sem: "0 \<le> sem" "sem < NSEM"
  shows "returns (resched_cntl DEFER_STOP s) (\<lambda>(r, s'). kinv s' \<and> semtab s' = semtab s \<and> conts s' = conts s
    \<and> queue_of (queuetab s') (squeue (semtab s sem)) = L (squeue (semtab s sem)) \<and> (\<forall>p. runs s p \<longrightarrow> runs s' p)
    \<and> (\<forall>r. isq (nextqid s) r \<longrightarrow> r \<noteq> readylist s \<longrightarrow> queue_of (queuetab s') r = L r))"
proof -
  have q: "isq (nextqid s) (squeue (semtab s sem))" "squeue (semtab s sem) \<noteq> readylist s"
    using ids_okD(5,6) [OF kqD(2) [OF L(1)] sem] by simp_all
  show ?thesis
    by (rule returns_mono [OF defer_stop_done [OF L cur]]) (use q kframe_fields(1,5) kframe_runs' in \<open>auto split: prod.splits\<close>)
qed

lemma signaln_returns:
  assumes inv: "kinv s" and sem: "0 \<le> sem" "sem < NSEM" "sstate (semtab s sem) = S_USED" and n: "0 \<le> count"
  defines "q \<equiv> squeue (semtab s sem)" and "c \<equiv> scount (semtab s sem)"
  shows "returns (signaln sem count s) (\<lambda>s'. kinv s' \<and> conts s' = (conts s)(currpid s := Ret OK)
    \<and> semtab s' = (semtab s)(sem := (semtab s sem)\<lparr>scount := c + count\<rparr>)
    \<and> queue_of (queuetab s') q = drop (nat count) (queue_of (queuetab s) q)
    \<and> (\<forall>p. p \<in> set (take (nat count) (queue_of (queuetab s) q)) \<longrightarrow> runs s' p))"
proof -
  obtain L where L: "kq L s" "sem_ok L s" and cur: "prstate (proctab s (currpid s)) = PR_CURR" "ndefers s = 0"
    using kinvE [OF inv] by metis
  have q: "isq (nextqid s) q" using ids_okD(5) [OF kqD(2) [OF L(1)] sem(1,2)] by (simp add: q_def)
  have qo: "queue_of (queuetab s) q = L q" by (rule queue_of_qrep [OF kqD(1) [OF L(1)] q])
  obtain s1 where s1: "resched_cntl DEFER_START s = Some (OK, s1)" "kq L s1" "sem_ok L s1" "ndefers s1 = 1"
    "proctab s1 = proctab s" "semtab s1 = semtab s" "currpid s1 = currpid s" "conts s1 = conts s" "queuetab s1 = queuetab s"
    using defer_start_kq [OF L(1)] L(2) cur(2) by auto
  have p1: "prstate (proctab s1 (currpid s1)) = PR_CURR" "0 < ndefers s1" "sstate (semtab s1 sem) = S_USED"
    using cur sem s1 by simp_all
  obtain s2 L2 where s2: "signal_loop sem (nat count) s1 = Some s2" "kq L2 s2" "sem_ok L2 s2" "during s1 s2"
    "semtab s2 = (semtab s1)(sem := (semtab s1 sem)\<lparr>scount := scount (semtab s1 sem) + int (nat count)\<rparr>)"
    "L2 (squeue (semtab s1 sem)) = drop (nat count) (L (squeue (semtab s1 sem)))"
    "\<And>p. p \<in> set (L (squeue (semtab s1 sem))) \<Longrightarrow> p \<in> set (L2 (squeue (semtab s1 sem))) \<or> runs s2 p"
    using signal_loop_deferred [OF s1(2,3) p1(1,2) sem(1,2) p1(3), of "nat count"] by blast
  note d = duringD [OF s2(4)]
  have p2: "ndefers s2 = 1" "prstate (proctab s2 (currpid s2)) = PR_CURR" using d s1(4) p1 by simp_all
  obtain r s3 where s3: "resched_cntl DEFER_STOP s2 = Some (r, s3)" "kinv s3" "semtab s3 = semtab s2" "conts s3 = conts s2"
    "queue_of (queuetab s3) (squeue (semtab s2 sem)) = L2 (squeue (semtab s2 sem))" "\<And>p. runs s2 p \<Longrightarrow> runs s3 p"
    using defer_stop_sem [OF s2(2,3) p2 sem(1,2)] by (auto elim: returnsE)
  have sq: "squeue (semtab s1 sem) = q" "squeue (semtab s2 sem) = q" using d s1(6) by (simp_all add: q_def)
  have dist: "distinct (L q)" using qrepD(2) [OF kqD(1) [OF L(1)] q] .
  have w: "runs s3 p" if "p \<in> set (take (nat count) (L q))" for p
  proof -
    have "p \<notin> set (drop (nat count) (L q))" "p \<in> set (L q)"
      using that dist set_take_disj_set_drop_if_distinct [of "L q" "nat count" "nat count"] in_set_takeD by fast+
    then show ?thesis using s2(6,7) s3(6) unfolding sq by auto
  qed
  have "signaln sem count s = give OK s s3"
    using sem n s1(1) s2(1) s3(1) by (simp add: signaln_def isbadsem_def)
  then show ?thesis
    using s3(2-5) s2(5,6) d s1 n w unfolding sq by (simp add: give_def qo c_def runs_def)
qed

lemma semdelete_returns:
  assumes inv: "kinv s" and sem: "0 \<le> sem" "sem < NSEM" "sstate (semtab s sem) = S_USED"
  defines "q \<equiv> squeue (semtab s sem)"
  shows "returns (semdelete sem s) (\<lambda>s'. kinv s' \<and> conts s' = (conts s)(currpid s := Ret OK)
    \<and> sstate (semtab s' sem) = S_FREE \<and> queue_of (queuetab s') q = []
    \<and> (\<forall>i. i \<noteq> sem \<longrightarrow> semtab s' i = semtab s i) \<and> (\<forall>p \<in> set (queue_of (queuetab s) q). runs s' p)
    \<and> squeue (semtab s' sem) = q \<and> other_waiters sem s s')"
proof -
  obtain L where L: "kq L s" "sem_ok L s" and cur: "prstate (proctab s (currpid s)) = PR_CURR" "ndefers s = 0"
    using kinvE [OF inv] by metis
  note D = kqD [OF L(1)]
  let ?s0 = "upd_sem sem (\<lambda>e. e\<lparr>sstate := S_FREE\<rparr>) s"
  have q: "isq (nextqid s) q" "q \<noteq> readylist s" using ids_okD(5,6) [OF D(2) sem(1,2)] by (simp_all add: q_def)
  have qo: "queue_of (queuetab s) q = L q" by (rule queue_of_qrep [OF D(1) q(1)])
  have k0: "kq L ?s0" using L(1) by (subst upd_sem_kq) simp_all
  obtain s1 where s1: "resched_cntl DEFER_START ?s0 = Some (OK, s1)" "kq L s1" "ndefers s1 = 1"
    "proctab s1 = proctab s" "semtab s1 = semtab ?s0" "currpid s1 = currpid s" "conts s1 = conts s" "readylist s1 = readylist s" "nextqid s1 = nextqid s"
    using defer_start_kq [OF k0] cur(2) by auto
  have p1: "prstate (proctab s1 (currpid s1)) = PR_CURR" "0 < ndefers s1" using cur s1 by simp_all
  have sq: "squeue (semtab s1 sem) = q" "scount (semtab s1 sem) = scount (semtab s sem)" using s1(5) by (simp_all add: q_def)
  have len: "int (length (L (squeue (semtab s1 sem)))) = max 0 (- scount (semtab s1 sem))"
    using sem_entry(1) [OF L(2) sem] unfolding sq by (simp add: q_def)
  obtain s2 L2 where s2: "delete_loop sem s1 = Some s2" "kq L2 s2" "during s1 s2"
    "semtab s2 = (semtab s1)(sem := (semtab s1 sem)\<lparr>scount := max 0 (scount (semtab s1 sem)) + 1\<rparr>)"
    "\<And>r. r \<noteq> readylist s1 \<Longrightarrow> L2 r = (L(q := [])) r" "\<And>p. p \<in> set (L q) \<Longrightarrow> runs s2 p"
    using delete_loop_deferred [OF s1(2) p1 sem(1,2) len] unfolding sq by blast
  note d = duringD [OF s2(3)]
  let ?e = "(semtab s1 sem)\<lparr>scount := max 0 (scount (semtab s1 sem)) + 1\<rparr>"
  have tab: "semtab s2 = (semtab s)(sem := ?e)" using s2(4) s1(5) by simp
  have e: "squeue ?e = squeue (semtab s sem)" "sem_entry_ok [] ?e" using s1(5) by (simp_all add: sem_entry_ok_def)
  have so0: "sem_ok (L(squeue (semtab s sem) := [])) s2" by (rule sem_ok_change [OF D(2) L(2) sem(1,2) e tab])
  have so: "sem_ok L2 s2"
    by (rule sem_ok_frame [OF kqD(2) [OF s2(2)] so0 refl]) (use s2(5) d s1(8) in \<open>simp add: q_def\<close>)
  have p2: "ndefers s2 = 1" "prstate (proctab s2 (currpid s2)) = PR_CURR" using d s1(3) p1 by simp_all
  obtain r s3 where s3: "resched_cntl DEFER_STOP s2 = Some (r, s3)" "kinv s3" "semtab s3 = semtab s2" "conts s3 = conts s2"
    "queue_of (queuetab s3) (squeue (semtab s2 sem)) = L2 (squeue (semtab s2 sem))" "\<And>p. runs s2 p \<Longrightarrow> runs s3 p"
    "\<And>r. isq (nextqid s2) r \<Longrightarrow> r \<noteq> readylist s2 \<Longrightarrow> queue_of (queuetab s3) r = L2 r"
    using defer_stop_sem [OF s2(2) so p2 sem(1,2)] by (auto elim: returnsE)
  have o: "other_waiters sem s s3"
    by (rule other_waitersI [OF L(1) sem(1,2)]) (use s3(7) s2(5) d s1 in \<open>simp add: q_def\<close>)
  have "semdelete sem s = give OK s s3"
    using sem s1(1) s2(1) s3(1) by (simp add: semdelete_def isbadsem_def Let_def)
  moreover have "squeue (semtab s2 sem) = q" "L2 q = []" using d sq s2(5) [of q] q s1(8) by simp_all
  ultimately show ?thesis
    using s3(2-6) tab s1 d s2(6) o by (simp add: give_def qo runs_def)
qed

lemma semreset_returns:
  assumes inv: "kinv s" and sem: "0 \<le> sem" "sem < NSEM" "sstate (semtab s sem) = S_USED" and n: "0 \<le> count"
  defines "q \<equiv> squeue (semtab s sem)"
  shows "returns (semreset sem count s) (\<lambda>s'. kinv s' \<and> conts s' = (conts s)(currpid s := Ret OK)
    \<and> semtab s' = (semtab s)(sem := (semtab s sem)\<lparr>scount := count\<rparr>) \<and> queue_of (queuetab s') q = []
    \<and> (\<forall>p \<in> set (queue_of (queuetab s) q). runs s' p) \<and> other_waiters sem s s')"
proof -
  obtain L where L: "kq L s" "sem_ok L s" and cur: "prstate (proctab s (currpid s)) = PR_CURR" "ndefers s = 0"
    using kinvE [OF inv] by metis
  note D = kqD [OF L(1)]
  have q: "isq (nextqid s) q" "q \<noteq> readylist s" using ids_okD(5,6) [OF D(2) sem(1,2)] by (simp_all add: q_def)
  have qo: "queue_of (queuetab s) q = L q" by (rule queue_of_qrep [OF D(1) q(1)])
  obtain s1 where s1: "resched_cntl DEFER_START s = Some (OK, s1)" "kq L s1" "ndefers s1 = 1"
    "proctab s1 = proctab s" "semtab s1 = semtab s" "currpid s1 = currpid s" "conts s1 = conts s" "readylist s1 = readylist s" "nextqid s1 = nextqid s"
    using defer_start_kq [OF L(1)] cur(2) by auto
  have p1: "prstate (proctab s1 (currpid s1)) = PR_CURR" "0 < ndefers s1" using cur s1 by simp_all
  have sq: "squeue (semtab s1 sem) = q" using s1(5) by (simp add: q_def)
  obtain s2 L2 where s2: "reset_loop q s1 = Some s2" "kq L2 s2" "during s1 s2" "semtab s2 = semtab s1"
    "\<And>r. r \<noteq> readylist s1 \<Longrightarrow> L2 r = (L(q := [])) r" "\<And>p. p \<in> set (L q) \<Longrightarrow> runs s2 p"
    using reset_loop_deferred [OF s1(2) p1 sem(1,2)] unfolding sq by blast
  note d = duringD [OF s2(3)]
  let ?s3 = "upd_sem sem (\<lambda>e. e\<lparr>scount := count\<rparr>) s2" and ?e = "(semtab s sem)\<lparr>scount := count\<rparr>"
  have k3: "kq L2 ?s3" using s2(2) by (subst upd_sem_kq) simp_all
  have tab: "semtab ?s3 = (semtab s)(sem := ?e)" using s2(4) s1(5) by simp
  have e: "squeue ?e = squeue (semtab s sem)" "sem_entry_ok [] ?e" using sem(3) n by (simp_all add: sem_entry_ok_def)
  have so0: "sem_ok (L(squeue (semtab s sem) := [])) ?s3" by (rule sem_ok_change [OF D(2) L(2) sem(1,2) e tab])
  have so: "sem_ok L2 ?s3"
    by (rule sem_ok_frame [OF kqD(2) [OF k3] so0 refl]) (use s2(5) d s1(8) in \<open>simp add: q_def\<close>)
  have p3: "ndefers ?s3 = 1" "prstate (proctab ?s3 (currpid ?s3)) = PR_CURR" using d s1(3) p1 by simp_all
  obtain r s4 where s4: "resched_cntl DEFER_STOP ?s3 = Some (r, s4)" "kinv s4" "semtab s4 = semtab ?s3" "conts s4 = conts ?s3"
    "queue_of (queuetab s4) (squeue (semtab ?s3 sem)) = L2 (squeue (semtab ?s3 sem))" "\<And>p. runs ?s3 p \<Longrightarrow> runs s4 p"
    "\<And>r. isq (nextqid ?s3) r \<Longrightarrow> r \<noteq> readylist ?s3 \<Longrightarrow> queue_of (queuetab s4) r = L2 r"
    using defer_stop_sem [OF k3 so p3 sem(1,2)] by (auto elim: returnsE)
  have o: "other_waiters sem s s4"
    by (rule other_waitersI [OF L(1) sem(1,2)]) (use s4(7) s2(5) d s1 in \<open>simp add: q_def\<close>)
  have "semreset sem count s = give OK s s4"
    using sem n s1(1) s2(1) s4(1) by (simp add: semreset_def isbadsem_def Let_def q_def)
  moreover have "squeue (semtab ?s3 sem) = q" "L2 q = []" using d sq s2(5) [of q] q s1(8) s2(4) by simp_all
  ultimately show ?thesis
    using s4(2-6) tab s1 d s2(6) o by (simp add: give_def qo runs_def)
qed

text \<open>\<open>newsem\<close> is a search round the table from \<open>nextsem\<close>: it fails only when every semaphore is in use.\<close>

definition sem_advance :: "kstate \<Rightarrow> kstate" where
  "sem_advance s = s\<lparr>nextsem := (if NSEM \<le> nextsem s + 1 then 0 else nextsem s + 1)\<rparr>"

interpretation sem_table: round_robin NSEM "\<lambda>s. 0 \<le> nextsem s \<and> nextsem s < NSEM" nextsem sem_advance
    "\<lambda>s i. sstate (semtab s i) = S_FREE" newsem_loop "\<lambda>s. (SYSERR, s)"
    "\<lambda>s. (nextsem s, upd_sem (nextsem s) (\<lambda>e. e\<lparr>sstate := S_USED\<rparr>) (sem_advance s))"
proof unfold_locales
  fix s :: kstate
  assume "0 \<le> nextsem s \<and> nextsem s < NSEM"
  then show "nextsem (sem_advance s) = (nextsem s + 1) mod NSEM" by (cases "nextsem s = 99") (simp_all add: sem_advance_def)
qed (simp_all add: Let_def sem_advance_def)

lemma sem_steps: "\<exists>nx. sem_table.steps k s = s\<lparr>nextsem := nx\<rparr>"
proof (induction k arbitrary: s)
  case 0
  have "s = s\<lparr>nextsem := nextsem s\<rparr>" by simp
  then show ?case unfolding sem_table.steps_def funpow.simps id_apply by (rule exI)
next
  case (Suc k)
  then obtain nx where "sem_table.steps k (sem_advance s) = (sem_advance s)\<lparr>nextsem := nx\<rparr>" by blast
  then have "sem_table.steps (Suc k) s = s\<lparr>nextsem := nx\<rparr>" unfolding sem_table.steps_Suc by (simp add: sem_advance_def)
  then show ?case by (rule exI)
qed

lemma newsem_complete:
  assumes "0 \<le> nextsem s" "nextsem s < NSEM"
  obtains (full) nx where "newsem s = (SYSERR, s\<lparr>nextsem := nx\<rparr>)" "0 \<le> nx" "nx < NSEM"
      "\<And>i. 0 \<le> i \<Longrightarrow> i < NSEM \<Longrightarrow> sstate (semtab s i) = S_USED"
  | (found) sem nx where "newsem s = (sem, upd_sem sem (\<lambda>e. e\<lparr>sstate := S_USED\<rparr>) (s\<lparr>nextsem := nx\<rparr>))"
      "0 \<le> sem" "sem < NSEM" "sstate (semtab s sem) = S_FREE" "0 \<le> nx" "nx < NSEM"
proof -
  have used: "sstate (semtab s i) \<noteq> S_FREE \<Longrightarrow> sstate (semtab s i) = S_USED" for i by (cases "sstate (semtab s i)") auto
  from sem_table.search_all [of s] assms
  consider "newsem s = (SYSERR, sem_table.steps (nat NSEM) s)" "\<And>i. 0 \<le> i \<Longrightarrow> i < NSEM \<Longrightarrow> sstate (semtab s i) \<noteq> S_FREE"
    | k where "newsem s = (nextsem (sem_table.steps k s), upd_sem (nextsem (sem_table.steps k s)) (\<lambda>e. e\<lparr>sstate := S_USED\<rparr>)
          (sem_advance (sem_table.steps k s)))"
        "0 \<le> nextsem (sem_table.steps k s)" "nextsem (sem_table.steps k s) < NSEM" "sstate (semtab s (nextsem (sem_table.steps k s))) = S_FREE"
    unfolding newsem_def by blast
  then show thesis
  proof cases
    case 1
    obtain nx where nx: "sem_table.steps (nat NSEM) s = s\<lparr>nextsem := nx\<rparr>" using sem_steps by blast
    have "0 \<le> nextsem (sem_table.steps (nat NSEM) s) \<and> nextsem (sem_table.steps (nat NSEM) s) < NSEM"
      using sem_table.steps_valid [of s "nat NSEM"] assms by blast
    then have "0 \<le> nx" "nx < NSEM" unfolding nx by simp_all
    then show ?thesis using full [of nx] used 1 unfolding nx by blast
  next
    case 2
    obtain nx where "sem_table.steps k s = s\<lparr>nextsem := nx\<rparr>" using sem_steps by blast
    then show ?thesis using 2 found [of nx "if NSEM \<le> nx + 1 then 0 else nx + 1"] by (simp add: sem_advance_def split: if_splits)
  qed
qed

lemma newsem_result:
  "(\<exists>nx. newsem_loop n s = (SYSERR, s\<lparr>nextsem := nx\<rparr>))
   \<or> (\<exists>sem nx. newsem_loop n s = (sem, upd_sem sem (\<lambda>e. e\<lparr>sstate := S_USED\<rparr>) (s\<lparr>nextsem := nx\<rparr>)) \<and> sstate (semtab s sem) = S_FREE)"
proof (induction n arbitrary: s)
  case 0
  then show ?case by (auto intro: exI [of _ "nextsem s"])
next
  case (Suc n)
  define nx where "nx = (if NSEM \<le> nextsem s + 1 then 0 else nextsem s + 1)"
  have step: "newsem_loop (Suc n) s =
      (if sstate (semtab s (nextsem s)) = S_FREE
       then (nextsem s, upd_sem (nextsem s) (\<lambda>e. e\<lparr>sstate := S_USED\<rparr>) (s\<lparr>nextsem := nx\<rparr>))
       else newsem_loop n (s\<lparr>nextsem := nx\<rparr>))"
    unfolding newsem_loop.simps Let_def nx_def by simp
  show ?case
  proof (cases "sstate (semtab s (nextsem s)) = S_FREE")
    case True
    then show ?thesis unfolding step by auto
  next
    case False
    then show ?thesis unfolding step using Suc.IH [of "s\<lparr>nextsem := nx\<rparr>"] by simp
  qed
qed

lemma semcreate_kinv: "kinv s \<Longrightarrow> returns (semcreate count s) kinv"
proof -
  assume inv: "kinv s"
  obtain L where L: "kq L s" "sem_ok L s" and cur: "prstate (proctab s (currpid s)) = PR_CURR" "ndefers s = 0"
    using kinvE [OF inv] by metis
  have nx: "kq L (s\<lparr>nextsem := n\<rparr>)" "sem_ok L (s\<lparr>nextsem := n\<rparr>)" for n
    using L kq_cong [of "s\<lparr>nextsem := n\<rparr>" s] by simp_all
  show ?thesis
  proof (cases "count < 0")
    case False
    consider n where "newsem s = (SYSERR, s\<lparr>nextsem := n\<rparr>)"
      | sem n where "newsem s = (sem, upd_sem sem (\<lambda>e. e\<lparr>sstate := S_USED\<rparr>) (s\<lparr>nextsem := n\<rparr>))" "sstate (semtab s sem) = S_FREE"
      using newsem_result [of "nat NSEM" s] unfolding newsem_def by blast
    then show ?thesis
    proof cases
      case 1
      have "kinv (s\<lparr>nextsem := n\<rparr>)" using nx [of n] cur by (auto simp: kinv_def)
      then show ?thesis using 1 False by (simp add: semcreate_def give_def)
    next
      case 2
      let ?s1 = "upd_sem sem (\<lambda>e. e\<lparr>sstate := S_USED\<rparr>) (s\<lparr>nextsem := n\<rparr>)"
      let ?s2 = "upd_sem sem (\<lambda>e. e\<lparr>scount := count\<rparr>) ?s1"
      have k: "kq L ?s1" "kq L ?s2" using nx(1) [of n] by (simp_all add: upd_sem_kq)
      have so2: "sem_ok L ?s2"
        using nx(2) [of n] False 2(2) by (auto simp: sem_ok_def sem_entry_ok_def)
      have "kinv ?s2" using k(2) so2 cur by (auto simp: kinv_def)
      moreover have "kinv ?s1" if "sem = SYSERR"
      proof -
        have "sem_ok L ?s1" using nx(2) [of n] that by (auto simp: sem_ok_def)
        then show ?thesis using k(1) cur by (auto simp: kinv_def)
      qed
      ultimately show ?thesis using 2(1) False by (simp add: semcreate_def give_def)
    qed
  qed (use inv in \<open>simp add: semcreate_def give_def\<close>)
qed

lemma signaln_kinv: "kinv s \<Longrightarrow> returns (signaln sem count s) kinv"
proof (cases rule: sem_cases [of sem s])
  case good
  assume inv: "kinv s"
  show ?thesis
  proof (cases "count < 0")
    case False
    then show ?thesis using signaln_returns [OF inv good, of count] by (auto elim: returns_mono)
  qed (use inv in \<open>simp add: signaln_def give_def\<close>)
qed (auto simp: signaln_def give_def)

lemma semdelete_kinv: "kinv s \<Longrightarrow> returns (semdelete sem s) kinv"
proof (cases rule: sem_cases [of sem s])
  case good
  assume inv: "kinv s"
  then show ?thesis using semdelete_returns [OF inv good] by (auto elim: returns_mono)
qed (auto simp: semdelete_def give_def)

lemma semreset_kinv: "kinv s \<Longrightarrow> returns (semreset sem count s) kinv"
proof (cases rule: sem_cases [of sem s])
  case good
  assume inv: "kinv s"
  show ?thesis
  proof (cases "count < 0")
    case False
    then show ?thesis using semreset_returns [OF inv good, of count] by (auto elim: returns_mono)
  qed (use inv in \<open>simp add: semreset_def give_def\<close>)
qed (auto simp: semreset_def give_def)

lemma semcount_kinv: "kinv s \<Longrightarrow> returns (semcount sem s) kinv"
  by (auto simp: semcount_def give_def)

end
