(* ===== verification/Clock.thy ===== *)
theory Clock
  imports Semaphore
begin

text \<open>
  Time: \<^verbatim>\<open>system/sleep.c\<close>, \<^verbatim>\<open>unsleep.c\<close>, \<^verbatim>\<open>wakeup.c\<close> and
  \<^verbatim>\<open>clkhandler.c\<close>. The sleep queue is a delta list: the key of a process is what it still
  has to wait after the one before it; \<open>delay_of\<close> adds the keys up. The clock handler may give
  the processor away when it wakes processes, before it counts down the time slice; the second half
  is the continuation \<open>ClkK\<close>.
\<close>

section \<open>Operations\<close>

definition unsleep :: "int \<Rightarrow> kstate \<Rightarrow> int \<times> kstate" where
  "unsleep pid s =
     (if isbadpid s pid then (SYSERR, s)
      else if prstate (proctab s pid) \<noteq> PR_SLEEP \<and> prstate (proctab s pid) \<noteq> PR_RECTIM then (SYSERR, s)
      else let pidnext = qnext (queuetab s pid);
               qt1 = (if pidnext < NPROC
                      then set_key pidnext (qkey (queuetab s pidnext) + qkey (queuetab s pid)) (queuetab s)
                      else queuetab s);
               (_, s1) = k_getitem pid (s\<lparr>queuetab := qt1\<rparr>)
           in (OK, s1))"

definition sleepms :: "int \<Rightarrow> kstate \<Rightarrow> kstate option" where
  "sleepms delay s =
     (if delay < 0 then give SYSERR s s
      else if delay = 0 then yield s
      else k_insertd (currpid s) (sleepq s) delay s \<bind> (\<lambda>(r, s1).
        if r = SYSERR then give SYSERR s s1
        else resched (set_state (currpid s1) PR_SLEEP s1) \<bind> give OK s))"

abbreviation MAXSECONDS :: int where "MAXSECONDS \<equiv> 2147483"

definition sleep :: "int \<Rightarrow> kstate \<Rightarrow> kstate option" where
  "sleep delay s =
     (if delay < 0 \<or> MAXSECONDS < delay then give SYSERR s s
      else sleepms (1000 * delay) s \<bind> give OK s)"

partial_function (option) wakeup_loop :: "kstate \<Rightarrow> kstate option" where
  "wakeup_loop s =
     (if nonempty (queuetab s) (sleepq s) \<and> firstkey (queuetab s) (sleepq s) \<le> 0
      then ready (fst (k_dequeue (sleepq s) s)) (snd (k_dequeue (sleepq s) s)) \<bind> (\<lambda>r. wakeup_loop (snd r))
      else Some s)"

declare wakeup_loop.simps [code]

definition wakeup :: "kstate \<Rightarrow> kstate option" where
  "wakeup s = resched_cntl DEFER_START s \<bind> (\<lambda>(_, s1). wakeup_loop s1 \<bind> (\<lambda>s2.
     resched_cntl DEFER_STOP s2 \<bind> (\<lambda>(_, s3). Some s3)))"

definition clk_seconds :: "kstate \<Rightarrow> kstate" where
  "clk_seconds s =
     (let s1 = s\<lparr>count1000 := count1000 s - 1\<rparr> in
      if count1000 s1 \<le> 0 then s1\<lparr>clktime := clktime s1 + 1, count1000 := 1000\<rparr> else s1)"

definition clk_sleepers :: "kstate \<Rightarrow> kstate option" where
  "clk_sleepers s =
     (if \<not> isempty (queuetab s) (sleepq s) then
        let p = firstid (queuetab s) (sleepq s);
            s1 = s\<lparr>queuetab := set_key p (qkey (queuetab s p) - 1) (queuetab s)\<rparr>
        in if qkey (queuetab s1 p) \<le> 0 then wakeup s1 else Some s1
      else Some s)"

definition clkhandler :: "kstate \<Rightarrow> kstate option" where
  "clkhandler s = clk_sleepers (clk_seconds s) \<bind> (\<lambda>s1. Some (set_cont (currpid s) ClkK s1))"

definition clk_preempt :: "kstate \<Rightarrow> kstate option" where
  "clk_preempt s =
     (let s1 = s\<lparr>preempt := preempt s - 1\<rparr> in
      if preempt s1 \<le> 0 then resched (s1\<lparr>preempt := QUANTUM\<rparr>) \<bind> give OK s
      else give OK s s1)"

section \<open>Leaving the sleep queue early\<close>

definition delay :: "kstate \<Rightarrow> int \<Rightarrow> int" where
  "delay s p = delay_of (\<lambda>i. qkey (queuetab s i)) (queue_of (queuetab s) (sleepq s)) p"

lemma unsleep_kq:
  assumes inv: "kq L s" and p: "p \<in> set (L (sleepq s))"
  obtains qt where "unsleep p s = (OK, s\<lparr>queuetab := qt\<rparr>)"
    "kq (L(sleepq s := remove1 p (L (sleepq s)))) (set_state p PR_SUSP (s\<lparr>queuetab := qt\<rparr>))"
    "\<And>i. i \<in> set (L (sleepq s)) \<Longrightarrow> i \<noteq> p \<Longrightarrow>
       delay_of (\<lambda>j. qkey (qt j)) (remove1 p (L (sleepq s))) i = delay_of (\<lambda>j. qkey (queuetab s j)) (L (sleepq s)) i"
proof -
  note D = kqD [OF inv]
  let ?q = "sleepq s"
  obtain xs ys where L: "L ?q = xs @ p # ys" using p by (auto simp: in_set_conv_decomp)
  note Q = qrepD [OF D(1,7)]
  have r: "0 \<le> p" "p < NPROC" "home s p = Some ?q" using kq_range [OF inv D(7) p] by auto
  have st: "prstate (proctab s p) = PR_SLEEP \<or> prstate (proctab s p) = PR_RECTIM" by (rule kq_sleep [OF inv p])
  then have p0: "p \<noteq> 0" using procs_okD(3) [OF D(5)] by auto
  have dist: "distinct (xs @ p # ys)" using Q(2) unfolding L .
  have rm: "remove1 p (L ?q) = xs @ ys" using dist by (simp add: L remove1_append)
  have nx: "qnext (queuetab s p) = hd (ys @ [?q + 1])"
    using Q(1) dseg_next [of "queuetab s" p ys "?q + 1"] unfolding L dseg_append by simp
  let ?k = "\<lambda>i. qkey (queuetab s i)"
  let ?qt1 = "if ys \<noteq> [] then set_key (hd ys) (?k (hd ys) + ?k p) (queuetab s) else queuetab s"
  have hd: "0 \<le> hd ys \<and> hd ys < NPROC" if "ys \<noteq> []" using Q(3) [of "hd ys"] that by (simp add: L)
  have nxt: "(if qnext (queuetab s p) < NPROC then set_key (qnext (queuetab s p)) (?k (qnext (queuetab s p)) + ?k p) (queuetab s)
      else queuetab s) = ?qt1"
    using hd Q(6) by (cases ys) (simp_all add: nx)
  have rep1: "qrep (nextqid s) ?qt1 L" using D(1) hd qrep_set_key by simp
  obtain qt where qt: "getitem p ?qt1 = (p, qt)" "qrep (nextqid s) qt (L(?q := remove1 p (L ?q)))" "\<And>i. qkey (qt i) = qkey (?qt1 i)"
    by (rule getitem_refines [OF rep1 D(7) p]) (rule that)
  have k': "qkey (qt j) = (if ys \<noteq> [] \<and> j = hd ys then ?k j + ?k p else ?k j)" for j
    unfolding qt(3) by (simp add: setter_simps)
  have "unsleep p s = (OK, s\<lparr>queuetab := qt\<rparr>)"
    using r st qt(1) unfolding unsleep_def Let_def nxt by (auto simp: isbadpid_def k_getitem_def)
  moreover have "kq (L(?q := remove1 p (L ?q))) (set_state p PR_SUSP (s\<lparr>queuetab := qt\<rparr>))"
  proof (rule detach_kq [OF inv D(7) p p0 qt(2)])
    fix i assume i: "i \<in> set (L (readylist s))"
    then have "i \<notin> set (L ?q)" using qrep_disjoint [OF D(1,6,7)] ids_okD(3) [OF D(2)] by metis
    then show "qkey (qt i) = ?k i" unfolding k' L by (cases ys) auto
  next
    fix i assume i: "i \<in> set (L ?q)"
    have "0 \<le> ?k j" if "j \<in> set (L ?q)" for j using D(4) that by (simp add: order_ok_def)
    then show "0 \<le> qkey (qt i)" using i p unfolding k' by auto
  qed simp
  moreover have "delay_of (\<lambda>j. qkey (qt j)) (remove1 p (L ?q)) i = delay_of ?k (L ?q) i" if "i \<in> set (L ?q)" "i \<noteq> p" for i
    unfolding rm unfolding L by (rule delay_unsleep [OF dist]) (use that k' in \<open>auto simp: L\<close>)
  ultimately show thesis by (rule that)
qed

section \<open>Going to sleep\<close>

lemma k_insertd_kq:
  assumes inv: "kq L s" and p: "0 \<le> p" "p < NPROC" "p \<noteq> 0" "home s p = None" "prstate (proctab s p) \<noteq> PR_FREE"
    and d: "0 \<le> d" and st: "st = PR_SLEEP \<or> st = PR_RECTIM"
  obtains qt l r where "k_insertd p (sleepq s) d s = Some (OK, s\<lparr>queuetab := qt\<rparr>)"
    "kq (L(sleepq s := l @ p # r)) (set_state p st (s\<lparr>queuetab := qt\<rparr>))" "L (sleepq s) = l @ r"
    "\<And>i. i \<in> insert p (set (L (sleepq s))) \<Longrightarrow> delay_of (\<lambda>j. qkey (qt j)) (l @ p # r) i
       = (if i = p then d else delay_of (\<lambda>j. qkey (queuetab s j)) (L (sleepq s)) i)"
proof -
  note D = kqD [OF inv]
  let ?q = "sleepq s" and ?k = "\<lambda>i. qkey (queuetab s i)"
  obtain l r d' where sp: "delta_split ?k d (L ?q) = (l, r, d')" by (metis prod_cases3)
  have L: "L ?q = l @ r" by (rule delta_split_append [OF sp])
  have nq: "\<not> queued (nextqid s) L p" by (rule placed_not_queued [OF D(3) p(4,1,2)])
  have bad: "\<not> isbadpid s p" using p by (simp add: isbadpid_def)
  obtain qt where qt: "insertd (isbadpid s) p ?q d (queuetab s) = Some (OK, qt)" "qrep (nextqid s) qt (L(?q := l @ p # r))"
    "\<And>i. qkey (qt i) = insd_keys ?k p d' r i"
    by (rule insertd_refines [where badpid = "isbadpid s", OF D(1,7) bad p(1,2) nq sp]) (rule that)
  have pn: "p \<notin> set (L ?q)" by (rule not_queuedD [OF nq D(7)])
  have dist: "distinct (L ?q)" using qrepD(2) [OF D(1,7)] .
  have kpos: "\<And>i. i \<in> set (L ?q) \<Longrightarrow> 0 \<le> ?k i" using D(4) by (simp add: order_ok_def)
  have "kq (L(?q := l @ p # r)) (set_state p st (s\<lparr>queuetab := qt\<rparr>))"
  proof (rule attach_kq [OF inv ids_okD(4) [OF D(2)] p(1,2,3,4) qt(2)])
    fix i assume i: "i \<noteq> p" "i \<in> set (L (readylist s))"
    then have "i \<notin> set (L ?q)" using qrep_disjoint [OF D(1,6,7)] ids_okD(3) [OF D(2)] by metis
    then show "qkey (qt i) = ?k i" using i(1) unfolding qt(3) L insd_keys_def by (cases r) auto
  next
    fix i assume "i \<in> set ((L(?q := l @ p # r)) ?q)"
    then have i: "i \<in> set (l @ p # r)" by simp
    show "0 \<le> qkey (qt i)" unfolding qt(3) by (rule insd_nonneg [OF sp d _ i]) (rule kpos)
  qed (use st L in \<open>auto simp: home_def\<close>)
  moreover have "k_insertd p ?q d s = Some (OK, s\<lparr>queuetab := qt\<rparr>)" using qt(1) by (simp add: k_insertd_def)
  moreover have "delay_of (\<lambda>j. qkey (qt j)) (l @ p # r) i = (if i = p then d else delay_of ?k (L ?q) i)"
    if "i \<in> insert p (set (L ?q))" for i
    unfolding qt(3) by (rule delay_insd [OF sp dist pn that])
  ultimately show thesis using that L by blast
qed

section \<open>Waking up\<close>

lemma dropWhile_delay:
  assumes "\<And>j. j \<in> set (takeWhile P xs) \<Longrightarrow> k j = 0" "i \<notin> set (takeWhile P xs)"
  shows "delay_of k (dropWhile P xs) i = delay_of k xs i"
  using assms by (induction xs) (auto split: if_splits)

lemma sleeper_not_null: "kq L s \<Longrightarrow> p \<in> set (L (sleepq s)) \<Longrightarrow> p \<noteq> 0"
  using kq_sleep [of L s p] procs_okD(3) [OF kqD(5), of L s] by auto

lemma wake_sleeper_deferred:
  assumes inv: "kq L s" and cur: "prstate (proctab s (currpid s)) = PR_CURR" "0 < ndefers s"
    and L: "L (sleepq s) = p # xs"
  obtains s' L' where
    "k_dequeue (sleepq s) s = (p, snd (k_dequeue (sleepq s) s))"
    "ready p (snd (k_dequeue (sleepq s) s)) = Some (OK, s')" "kq L' s'"
    "\<And>r. r \<noteq> readylist s \<Longrightarrow> L' r = (L(sleepq s := xs)) r" "during s s'" "kframe {p} s s'"
    "runs s' p" "\<And>i. i \<noteq> p \<Longrightarrow> qkey (queuetab s' i) = qkey (queuetab s i)"
proof -
  note D = kqD [OF inv]
  let ?q = "sleepq s"
  have pq: "p \<in> set (L ?q)" using L by simp
  have p: "0 \<le> p" "p < NPROC" using kq_range [OF inv D(7) pq] by auto
  have st: "prstate (proctab s p) \<noteq> PR_FREE" "prstate (proctab s p) \<noteq> PR_CURR" using kq_sleep [OF inv pq] by auto
  have pc: "p \<noteq> currpid s" using st(2) cur by auto
  have keys: "\<And>i. i \<in> set (L ?q) \<Longrightarrow> i \<noteq> p \<Longrightarrow> 0 \<le> qkey (queuetab s i)" using D(4) by (simp add: order_ok_def)
  obtain qt where qt: "k_dequeue ?q s = (p, s\<lparr>queuetab := qt\<rparr>)" "kq (L(?q := xs)) (set_state p PR_SUSP (s\<lparr>queuetab := qt\<rparr>))"
    "\<And>i. qkey (qt i) = qkey (queuetab s i)"
    by (rule take_first_kq [OF inv D(7) L sleeper_not_null [OF inv pq]], erule (1) keys) (rule that)
  let ?s3 = "set_state p PR_SUSP (s\<lparr>queuetab := qt\<rparr>)"
  have ab: "ready p (s\<lparr>queuetab := qt\<rparr>) = ready p ?s3" using p st by (subst ready_absorb) simp_all
  have h3: "home ?s3 p = None" "prstate (proctab ?s3 p) \<noteq> PR_FREE" "0 < ndefers ?s3" using cur by (simp_all add: home_def)
  obtain s' L' where r: "ready p ?s3 = Some (OK, s')" "kq L' s'" "\<And>r. r \<noteq> readylist ?s3 \<Longrightarrow> L' r = (L(?q := xs)) r" "kframe {p} ?s3 s'"
    "ndefers s' = ndefers ?s3" "currpid s' = currpid ?s3" "attempt s'" "kvm s' = kvm ?s3"
    "\<And>i. prstate (proctab s' i) = (if i = p then PR_READY else prstate (proctab ?s3 i))"
    "\<And>i. qkey (queuetab s' i) = (if i = p then prprio (proctab ?s3 p) else qkey (queuetab ?s3 i))"
    by (rule ready_deferred [OF qt(2) h3(3) p h3(1,2)]) (rule that)
  have d: "during s s'" using r(5,6,9) kframe_fields(1-6) [OF r(4)] pc by (simp add: during_def)
  have "kframe {p} s s'" by (rule kframe_absorb [OF r(4)]) (simp add: r(9))
  moreover have "snd (k_dequeue ?q s) = s\<lparr>queuetab := qt\<rparr>" using qt(1) by simp
  ultimately show thesis using that [of s' L'] qt r d ab by (simp add: runs_def)
qed

lemma wakeup_loop_deferred:
  assumes "kq L s" "prstate (proctab s (currpid s)) = PR_CURR" "0 < ndefers s"
  shows "\<exists>s' L'. wakeup_loop s = Some s' \<and> kq L' s' \<and> during s s'
    \<and> (\<forall>r. r \<noteq> readylist s \<longrightarrow> L' r = (L(sleepq s := dropWhile (\<lambda>p. qkey (queuetab s p) \<le> 0) (L (sleepq s)))) r)
    \<and> kframe (set (takeWhile (\<lambda>p. qkey (queuetab s p) \<le> 0) (L (sleepq s)))) s s'
    \<and> (\<forall>p \<in> set (takeWhile (\<lambda>p. qkey (queuetab s p) \<le> 0) (L (sleepq s))). runs s' p)
    \<and> (\<forall>p \<in> set (L' (sleepq s)). qkey (queuetab s' p) = qkey (queuetab s p))"
  using assms
proof (induction "length (L (sleepq s))" arbitrary: s L)
  case 0
  have e: "L (sleepq s) = []" using 0(1) by simp
  have "\<not> nonempty (queuetab s) (sleepq s)"
    using qrep_isempty [OF kqD(1,7) [OF 0(2)]] e by (simp add: nonempty_def isempty_def)
  then have "wakeup_loop s = Some s" by (subst wakeup_loop.simps) simp
  moreover have "L(sleepq s := []) = L" using e by auto
  ultimately show ?case using 0(2) e by (intro exI [of _ s] exI [of _ L]) simp
next
  case (Suc n)
  let ?P = "\<lambda>p. qkey (queuetab s p) \<le> 0"
  note D = kqD [OF Suc.prems(1)]
  obtain p xs where L: "L (sleepq s) = p # xs" using Suc.hyps(2) by (cases "L (sleepq s)") simp_all
  have ne: "nonempty (queuetab s) (sleepq s)" "firstkey (queuetab s) (sleepq s) = qkey (queuetab s p)"
    using qrep_isempty [OF D(1,7)] qrep_firstkey [OF D(1,7)] L by (simp_all add: nonempty_def isempty_def)
  show ?case
  proof (cases "?P p")
    case False
    have "wakeup_loop s = Some s" using ne False by (subst wakeup_loop.simps) simp
    moreover have "L(sleepq s := p # xs) = L" using L by auto
    ultimately show ?thesis using Suc.prems(1) False L by (intro exI [of _ s] exI [of _ L]) simp
  next
    case True
    obtain s1 L1 where s1: "k_dequeue (sleepq s) s = (p, snd (k_dequeue (sleepq s) s))"
      "ready p (snd (k_dequeue (sleepq s) s)) = Some (OK, s1)" "kq L1 s1"
      "\<And>r. r \<noteq> readylist s \<Longrightarrow> L1 r = (L(sleepq s := xs)) r" "during s s1" "kframe {p} s s1"
      "runs s1 p" "\<And>i. i \<noteq> p \<Longrightarrow> qkey (queuetab s1 i) = qkey (queuetab s i)"
      by (rule wake_sleeper_deferred [OF Suc.prems L]) (rule that)
    note d = duringD [OF s1(5)]
    have rs: "sleepq s \<noteq> readylist s" using ids_okD(4) [OF D(2)] .
    have L1': "L1 (sleepq s) = xs" and L1: "L1 (sleepq s1) = xs" using s1(4) [OF rs] d by simp_all
    have dist: "p \<notin> set xs" using qrepD(2) [OF D(1,7)] L by simp
    have tw: "takeWhile (\<lambda>p. qkey (queuetab s1 p) \<le> 0) xs = takeWhile ?P xs"
      "dropWhile (\<lambda>p. qkey (queuetab s1 p) \<le> 0) xs = dropWhile ?P xs"
    proof -
      have k: "(qkey (queuetab s1 i) \<le> 0) = ?P i" if "i \<in> set xs" for i
      proof -
        have "i \<noteq> p" using that dist by blast
        then show ?thesis by (simp add: s1(8))
      qed
      show "takeWhile (\<lambda>p. qkey (queuetab s1 p) \<le> 0) xs = takeWhile ?P xs"
        "dropWhile (\<lambda>p. qkey (queuetab s1 p) \<le> 0) xs = dropWhile ?P xs"
        by (rule takeWhile_cong dropWhile_cong, rule refl, erule k)+
    qed
    have "\<exists>s' L'. wakeup_loop s1 = Some s' \<and> kq L' s' \<and> during s1 s'
      \<and> (\<forall>r. r \<noteq> readylist s1 \<longrightarrow> L' r = (L1(sleepq s1 := dropWhile (\<lambda>p. qkey (queuetab s1 p) \<le> 0) (L1 (sleepq s1)))) r)
      \<and> kframe (set (takeWhile (\<lambda>p. qkey (queuetab s1 p) \<le> 0) (L1 (sleepq s1)))) s1 s'
      \<and> (\<forall>p \<in> set (takeWhile (\<lambda>p. qkey (queuetab s1 p) \<le> 0) (L1 (sleepq s1))). runs s' p)
      \<and> (\<forall>p \<in> set (L' (sleepq s1)). qkey (queuetab s' p) = qkey (queuetab s1 p))"
      using Suc.hyps(2) Suc.prems s1(3) L L1 d by (intro Suc.hyps(1)) simp_all
    then obtain s' L' where s': "wakeup_loop s1 = Some s'" "kq L' s'" "during s1 s'"
      "\<And>r. r \<noteq> readylist s \<Longrightarrow> L' r = (L1(sleepq s := dropWhile ?P xs)) r"
      "kframe (set (takeWhile ?P xs)) s1 s'" "\<And>p. p \<in> set (takeWhile ?P xs) \<Longrightarrow> runs s' p"
      "\<And>p. p \<in> set (L' (sleepq s)) \<Longrightarrow> qkey (queuetab s' p) = qkey (queuetab s1 p)"
      unfolding d(1,2) L1' tw by blast
    have e: "wakeup_loop s = Some s'"
      using True ne s1(1,2) s'(1) by (subst wakeup_loop.simps) (simp add: prod_eq_iff)
    have q': "L' r = (L(sleepq s := dropWhile ?P (L (sleepq s)))) r" if "r \<noteq> readylist s" for r
      using s'(4) [OF that] s1(4) [OF that] True L by (cases "r = sleepq s") simp_all
    have fr: "kframe (set (takeWhile ?P (L (sleepq s)))) s s'"
      using kframe_trans [OF s1(6) s'(5)] True L by simp
    have w: "runs s' i" if "i \<in> set (takeWhile ?P (L (sleepq s)))" for i
      using that True L s'(6) kframe_runs' [OF s'(5) s1(7)] by auto
    have k: "qkey (queuetab s' i) = qkey (queuetab s i)" if "i \<in> set (L' (sleepq s))" for i
    proof -
      have "i \<in> set xs" using that q' [OF rs] True L set_dropWhileD by fastforce
      then show ?thesis using s'(7) [OF that] s1(8) dist by metis
    qed
    show ?thesis using e s'(2) during_trans [OF s1(5) s'(3)] q' fr w k by blast
  qed
qed

text \<open>A key below zero at the head of the list does not matter: \<open>ready\<close> overwrites it.\<close>

lemma dequeue_set_key: "dequeue q (set_key i v qt) = (fst (dequeue q qt), set_key i v (snd (dequeue q qt)))"
proof -
  have c: "set_next x y (set_key i v qt) = set_key i v (set_next x y qt)" "set_prev x y (set_key i v qt) = set_key i v (set_prev x y qt)"
    for x y qt
    by (rule ext; simp add: set_next_def set_prev_def set_key_def)+
  have g: "getitem p (set_key i v qt) = (p, set_key i v (snd (getitem p qt)))" for p
    by (simp add: getitem_def Let_def c setter_simps)
  show ?thesis
    by (auto simp: dequeue_def getfirst_def isempty_def macro_defs setter_simps g c Let_def getitem_def)
qed

lemma wakeup_loop_key:
  assumes inv: "kq L s" and L: "L (sleepq s) = p # xs" and v: "v \<le> 0" "qkey (queuetab s p) \<le> 0"
  shows "wakeup_loop (s\<lparr>queuetab := set_key p v (queuetab s)\<rparr>) = wakeup_loop s"
proof -
  note D = kqD [OF inv]
  let ?q = "sleepq s" and ?qt = "set_key p v (queuetab s)"
  have pq: "p \<in> set (L ?q)" using L by simp
  have p: "0 \<le> p" "p < NPROC" "home s p = Some ?q" using kq_range [OF inv D(7) pq] by auto
  have st: "prstate (proctab s p) \<noteq> PR_FREE" using kq_sleep [OF inv pq] by auto
  have rep': "qrep (nextqid s) ?qt L" using qrep_set_key [OF D(1) p(2)] .
  have ne: "nonempty (queuetab s) ?q" "firstkey (queuetab s) ?q = qkey (queuetab s p)" "nonempty ?qt ?q" "firstkey ?qt ?q = v"
    using qrep_isempty [OF D(1,7)] qrep_firstkey [OF D(1,7)] qrep_isempty [OF rep' D(7)] qrep_firstkey [OF rep' D(7)] L
    by (simp_all add: nonempty_def isempty_def setter_simps)
  obtain qt where qt: "dequeue ?q (queuetab s) = (p, qt)" "qrep (nextqid s) qt (L(?q := xs))"
    by (rule dequeue_refines [OF D(1,7) L]) (rule that)
  have qt': "dequeue ?q ?qt = (p, set_key p v qt)" using qt(1) by (simp add: dequeue_set_key)
  have nq: "\<not> queued (nextqid s) (L(?q := xs)) p"
  proof -
    have "p \<notin> set xs" using qrepD(2) [OF D(1,7)] L by simp
    moreover have "p \<notin> set (L q')" if "isq (nextqid s) q'" "q' \<noteq> ?q" for q'
      using placed_iff [OF D(3) p(1,2) that(1)] p(3) that(2) by simp
    ultimately show ?thesis by (auto simp: queued_def)
  qed
  have prio: "MINKEY < prprio (proctab s p)" using procs_okD(4) [OF D(5) p(1,2)] by linarith
  let ?s1 = "set_state p PR_READY s"
  have bad: "\<not> isbadpid ?s1 p" using p(1,2) by (simp add: isbadpid_def)
  have "insert_q (isbadpid ?s1) p (readylist s) (prprio (proctab s p)) (set_key p v qt)
      = insert_q (isbadpid ?s1) p (readylist s) (prprio (proctab s p)) qt"
    by (rule insert_q_set_key [where badpid = "isbadpid ?s1", OF qt(2) D(6) p(2) nq bad prio])
  moreover have "isbadpid (set_state p PR_READY (s\<lparr>queuetab := t\<rparr>)) = isbadpid ?s1" for t
    by (rule ext) (simp add: isbadpid_def)
  ultimately have r: "ready p (s\<lparr>queuetab := set_key p v qt\<rparr>) = ready p (s\<lparr>queuetab := qt\<rparr>)"
    using p st by (simp add: ready_def make_ready_def k_insert_def isbadpid_def upd_proc_def)
  show ?thesis
    by (subst (1 2) wakeup_loop.simps) (use ne v qt(1) qt' r in \<open>simp add: k_dequeue_def\<close>)
qed

lemma wakeup_done:
  assumes inv: "kq L s" "sem_ok L s" and cur: "prstate (proctab s (currpid s)) = PR_CURR" "ndefers s = 0"
  defines "due \<equiv> takeWhile (\<lambda>p. qkey (queuetab s p) \<le> 0) (L (sleepq s))"
    and "rest \<equiv> dropWhile (\<lambda>p. qkey (queuetab s p) \<le> 0) (L (sleepq s))"
  shows "returns (wakeup s) (\<lambda>s'. kinv s' \<and> kframe (set due) s s' \<and> queue_of (queuetab s') (sleepq s) = rest
    \<and> (\<forall>p\<in>set due. runs s' p) \<and> (\<forall>p\<in>set rest. qkey (queuetab s' p) = qkey (queuetab s p)))"
proof -
  obtain s1 where s1: "resched_cntl DEFER_START s = Some (OK, s1)" "kq L s1" "sem_ok L s1" "ndefers s1 = 1"
    "proctab s1 = proctab s" "semtab s1 = semtab s" "currpid s1 = currpid s" "queuetab s1 = queuetab s" "readylist s1 = readylist s"
    "sleepq s1 = sleepq s" "nextqid s1 = nextqid s" and f1: "kframe {} s s1"
    using defer_start_kq [OF inv(1)] inv(2) cur(2) by (force simp: kframe_def resched_cntl_def)
  have p1: "prstate (proctab s1 (currpid s1)) = PR_CURR" "0 < ndefers s1" using cur s1 by simp_all
  obtain s2 L2 where s2: "wakeup_loop s1 = Some s2" "kq L2 s2" "during s1 s2"
    "\<And>r. r \<noteq> readylist s \<Longrightarrow> L2 r = (L(sleepq s := rest)) r" "kframe (set due) s1 s2"
    "\<And>p. p \<in> set due \<Longrightarrow> runs s2 p" "\<And>p. p \<in> set (L2 (sleepq s)) \<Longrightarrow> qkey (queuetab s2 p) = qkey (queuetab s p)"
    using wakeup_loop_deferred [OF s1(2) p1] unfolding s1(8-10) due_def rest_def by blast
  note d = duringD [OF s2(3)]
  have rs: "sleepq s \<noteq> readylist s" using ids_okD(4) [OF kqD(2) [OF inv(1)]] .
  have so: "sem_ok L2 s2"
  proof -
    have "L2 (squeue (semtab s2 i)) = L (squeue (semtab s i))" if "0 \<le> i" "i < NSEM" for i
      using s2(4) ids_okD(6,7) [OF kqD(2) [OF inv(1)] that] kframe_fields(1) [OF s2(5)] s1(6) by simp
    then show ?thesis using inv(2) kframe_fields(1) [OF s2(5)] s1(6) by (simp add: sem_ok_def)
  qed
  have p2: "ndefers s2 = 1" "prstate (proctab s2 (currpid s2)) = PR_CURR" using d s1(4) p1 by simp_all
  obtain r s3 where s3: "resched_cntl DEFER_STOP s2 = Some (r, s3)" "kinv s3" "kframe {} s2 s3"
    "\<And>q. isq (nextqid s2) q \<Longrightarrow> q \<noteq> readylist s2 \<Longrightarrow> queue_of (queuetab s3) q = L2 q"
    using defer_stop_done [OF s2(2) so p2] by (auto elim: returnsE)
  have "queue_of (queuetab s3) (sleepq s) = rest"
    using s3(4) [of "sleepq s"] kqD(7) [OF inv(1)] s2(4) [OF rs] rs d s1(9,11) by simp
  moreover have "qkey (queuetab s3 p) = qkey (queuetab s p)" if p: "p \<in> set rest" for p
  proof -
    have "p \<in> set (L (sleepq s1))" using p s1(10) set_dropWhileD unfolding rest_def by metis
    then have "p \<noteq> currpid s" using kq_sleep [OF s1(2), of p] p1(1) s1(7) by auto
    then have pc: "p \<noteq> currpid s2" using d s1(7) by simp
    let ?s = "s2\<lparr>ndefers := 0\<rparr>"
    have k: "kq L2 ?s" using s2(2) by (subst kq_cong) simp_all
    have "qkey (queuetab s3 p) = qkey (queuetab s2 p)"
    proof (cases "attempt s2")
      case True
      then have "resched ?s = Some s3" using s3(1) p2(1) by (auto simp: resched_cntl_def split: Option.bind_splits)
      then show ?thesis using resched_keys [OF k, of s3 p] p2(2) pc by simp
    next
      case False
      then show ?thesis using s3(1) p2(1) by (auto simp: resched_cntl_def)
    qed
    then show ?thesis using s2(7) [of p] s2(4) [OF rs] p by simp
  qed
  moreover have "wakeup s = Some s3" using s1(1) s2(1) s3(1) by (simp add: wakeup_def)
  ultimately show ?thesis
    using s3(2) kframe_trans [OF f1 kframe_trans [OF s2(5) s3(3)]] s2(6) kframe_runs' [OF s3(3)] by simp
qed

text \<open>A tick as seen by the sleepers: those with one millisecond left are due, the others have
  one less.\<close>

lemma delay_nonneg: "(\<And>j. j \<in> set xs \<Longrightarrow> 0 \<le> k j) \<Longrightarrow> 0 \<le> delay_of k xs i"
  by (induction xs) auto

lemma due_now:
  assumes "distinct xs" "\<And>j. j \<in> set xs \<Longrightarrow> 0 \<le> k j"
  shows "takeWhile (\<lambda>i. k i \<le> 0) xs = filter (\<lambda>i. delay_of k xs i \<le> 0) xs"
    "dropWhile (\<lambda>i. k i \<le> 0) xs = filter (\<lambda>i. 0 < delay_of k xs i) xs"
    "i \<in> set (dropWhile (\<lambda>i. k i \<le> 0) xs) \<Longrightarrow> delay_of k (dropWhile (\<lambda>i. k i \<le> 0) xs) i = delay_of k xs i"
proof -
  have "takeWhile (\<lambda>i. k i \<le> 0) xs = filter (\<lambda>i. delay_of k xs i \<le> 0) xs
      \<and> dropWhile (\<lambda>i. k i \<le> 0) xs = filter (\<lambda>i. 0 < delay_of k xs i) xs"
    using assms
  proof (induction xs)
    case (Cons y ys)
    show ?case
    proof (cases "k y \<le> 0")
      case True
      then have y: "k y = 0" using Cons.prems(2) [of y] by simp
      have "filter (\<lambda>i. delay_of k (y # ys) i \<le> 0) ys = filter (\<lambda>i. delay_of k ys i \<le> 0) ys"
        "filter (\<lambda>i. 0 < delay_of k (y # ys) i) ys = filter (\<lambda>i. 0 < delay_of k ys i) ys"
        using Cons.prems(1) y by (auto intro: filter_cong)
      then show ?thesis using Cons y by simp
    next
      case False
      have "0 < delay_of k (y # ys) i" for i
        using False delay_nonneg [of ys k i] Cons.prems(2) by auto
      then show ?thesis using False by (simp add: not_le filter_empty_conv)
    qed
  qed simp
  then show "takeWhile (\<lambda>i. k i \<le> 0) xs = filter (\<lambda>i. delay_of k xs i \<le> 0) xs"
    and d: "dropWhile (\<lambda>i. k i \<le> 0) xs = filter (\<lambda>i. 0 < delay_of k xs i) xs" by simp_all
  show "delay_of k (dropWhile (\<lambda>i. k i \<le> 0) xs) i = delay_of k xs i" if i: "i \<in> set (dropWhile (\<lambda>i. k i \<le> 0) xs)"
  proof (rule dropWhile_delay)
    show "k j = 0" if "j \<in> set (takeWhile (\<lambda>i. k i \<le> 0) xs)" for j
      using set_takeWhileD [OF that] assms(2) [of j] by simp
    show "i \<notin> set (takeWhile (\<lambda>i. k i \<le> 0) xs)"
      using i assms(1) takeWhile_dropWhile_id [of "\<lambda>i. k i \<le> 0" xs] by (metis disjoint_iff distinct_append)
  qed
qed

lemma delay_tick:
  assumes "p \<notin> set xs"
  shows "delay_of (k(p := k p - 1)) (p # xs) i = delay_of k (p # xs) i - 1"
proof -
  have "delay_of (k(p := k p - 1)) xs i = delay_of k xs i"
    by (rule delay_of_cong) (use assms in auto)
  then show ?thesis by simp
qed

lemma set_key_kq:
  assumes inv: "kq L s" and p: "p \<in> set (L (sleepq s))" and v: "0 \<le> v"
  shows "kq L (s\<lparr>queuetab := set_key p v (queuetab s)\<rparr>)"
proof -
  note D = kqD [OF inv]
  let ?s = "s\<lparr>queuetab := set_key p v (queuetab s)\<rparr>"
  have "p < NPROC" using kq_range [OF inv D(7) p] by simp
  then have rep: "qrep (nextqid s) (set_key p v (queuetab s)) L" by (rule qrep_set_key [OF D(1)])
  have "p \<notin> set (L (readylist s))" using qrep_disjoint [OF D(1,6,7) _ p] ids_okD(3) [OF D(2)] by auto
  then have "desc_by (\<lambda>i. qkey (set_key p v (queuetab s) i)) (L (readylist s)) = desc_by (\<lambda>i. qkey (queuetab s i)) (L (readylist s))"
    by (intro desc_by_cong) (auto simp: setter_simps)
  then have ord: "order_ok L ?s" using D(4) v by (auto simp: order_ok_def setter_simps)
  have h: "home ?s = home s" by (rule home_eqI) simp_all
  show ?thesis unfolding kq_def h using rep D ord by (simp add: ids_ok_def procs_ok_def)
qed

lemma wakeup_delay:
  assumes inv: "kq L s" "sem_ok L s" and cur: "prstate (proctab s (currpid s)) = PR_CURR" "ndefers s = 0"
  defines "xs \<equiv> L (sleepq s)"
  defines "due \<equiv> filter (\<lambda>p. delay s p \<le> 0) xs" and "rest \<equiv> filter (\<lambda>p. 0 < delay s p) xs"
  shows "returns (wakeup s) (\<lambda>s'. kinv s' \<and> kframe (set due) s s' \<and> queue_of (queuetab s') (sleepq s) = rest
    \<and> (\<forall>p\<in>set due. runs s' p) \<and> (\<forall>p\<in>set rest. delay s' p = delay s p))"
proof -
  note D = kqD [OF inv(1)]
  let ?k = "\<lambda>i. qkey (queuetab s i)"
  have dl: "delay s p = delay_of ?k xs p" for p
    using queue_of_qrep [OF D(1,7)] by (simp add: delay_def xs_def)
  have pos: "0 \<le> ?k j" if "j \<in> set xs" for j using D(4) that by (simp add: xs_def order_ok_def)
  have dist: "distinct xs" using qrepD(2) [OF D(1,7)] by (simp add: xs_def)
  note dn = due_now [OF dist, of ?k, OF pos]
  have r: "dropWhile (\<lambda>i. ?k i \<le> 0) xs = rest" "takeWhile (\<lambda>i. ?k i \<le> 0) xs = due"
    unfolding rest_def due_def dl using dn by simp_all
  have dr: "delay_of ?k rest i = delay s i" if "i \<in> set rest" for i
    using dn(3) [of i] that unfolding r dl by simp
  from wakeup_done [OF inv cur, folded xs_def, unfolded r]
  obtain s' where s': "wakeup s = Some s'" "kinv s'" "kframe (set due) s s'" "queue_of (queuetab s') (sleepq s) = rest"
    "\<And>p. p \<in> set due \<Longrightarrow> runs s' p" "\<And>p. p \<in> set rest \<Longrightarrow> qkey (queuetab s' p) = ?k p"
    by (auto elim: returnsE)
  have "delay s' p = delay s p" if p: "p \<in> set rest" for p
  proof -
    have "delay s' p = delay_of (\<lambda>i. qkey (queuetab s' i)) rest p"
      using s'(4) kframe_fields(3) [OF s'(3)] by (simp add: delay_def)
    also have "\<dots> = delay_of ?k rest p" by (rule delay_of_cong) (rule s'(6))
    also have "\<dots> = delay s p" using dr [OF p] .
    finally show ?thesis .
  qed
  then show ?thesis using s' by simp
qed

lemma clk_sleepers_returns:
  assumes inv: "kinv s"
  defines "xs \<equiv> queue_of (queuetab s) (sleepq s)" and "t \<equiv> (if 0 < firstkey (queuetab s) (sleepq s) then 1 else 0)"
  defines "due \<equiv> filter (\<lambda>p. delay s p \<le> t) xs" and "rest \<equiv> filter (\<lambda>p. t < delay s p) xs"
  shows "returns (clk_sleepers s) (\<lambda>s'. kinv s' \<and> kframe (set due) s s' \<and> (\<forall>p\<in>set due. runs s' p)
    \<and> queue_of (queuetab s') (sleepq s) = rest \<and> (\<forall>p\<in>set rest. delay s' p = delay s p - t))"
proof -
  obtain L where L: "kq L s" "sem_ok L s" and cur: "prstate (proctab s (currpid s)) = PR_CURR" "ndefers s = 0"
    using kinvE [OF inv] by metis
  note D = kqD [OF L(1)]
  have xs: "L (sleepq s) = xs" unfolding xs_def using queue_of_qrep [OF D(1,7)] by simp
  let ?k = "\<lambda>i. qkey (queuetab s i)"
  have dl: "delay s p = delay_of ?k xs p" for p by (simp add: delay_def xs_def)
  have pos: "0 \<le> ?k j" if "j \<in> set xs" for j using D(4) that xs by (simp add: order_ok_def)
  have dist: "distinct xs" using qrepD(2) [OF D(1,7)] xs by simp
  show ?thesis
  proof (cases xs)
    case Nil
    then have "clk_sleepers s = Some s" using qrep_isempty [OF D(1,7)] xs by (simp add: clk_sleepers_def)
    then show ?thesis using inv Nil xs_def by (simp add: due_def rest_def)
  next
    case (Cons p ys)
    have first: "firstid (queuetab s) (sleepq s) = p" "firstkey (queuetab s) (sleepq s) = ?k p" "\<not> isempty (queuetab s) (sleepq s)"
      using qrep_firstid [OF D(1,7)] qrep_firstkey [OF D(1,7)] qrep_isempty [OF D(1,7)] xs Cons by simp_all
    have kp: "0 \<le> ?k p" using pos Cons by simp
    have pn: "p \<notin> set ys" using dist Cons by simp
    let ?s1 = "s\<lparr>queuetab := set_key p (?k p - 1) (queuetab s)\<rparr>"
    have clk: "clk_sleepers s = (if ?k p - 1 \<le> 0 then wakeup ?s1 else Some ?s1)"
      using first by (simp add: clk_sleepers_def Let_def setter_simps)
    have pq: "p \<in> set (L (sleepq s))" using xs Cons by simp
    show ?thesis
    proof (cases "?k p = 0")
      case True
      obtain s2 where s2: "resched_cntl DEFER_START s = Some (OK, s2)" "kq L s2" "queuetab s2 = queuetab s" "sleepq s2 = sleepq s"
        using defer_start_kq [OF L(1)] by auto
      have "resched_cntl DEFER_START ?s1 = Some (OK, s2\<lparr>queuetab := set_key p (?k p - 1) (queuetab s2)\<rparr>)"
        using s2(1) by (auto simp: resched_cntl_def Let_def)
      moreover have "wakeup_loop (s2\<lparr>queuetab := set_key p (?k p - 1) (queuetab s2)\<rparr>) = wakeup_loop s2"
        by (rule wakeup_loop_key [OF s2(2), of p ys]) (use s2 xs Cons True in simp_all)
      ultimately have w: "clk_sleepers s = wakeup s" using s2(1) True by (simp add: wakeup_def clk)
      have t: "t = 0" using True first by (simp add: t_def)
      show ?thesis
        using wakeup_delay [OF L cur, unfolded xs] unfolding w due_def rest_def t by (auto elim: returns_mono)
    next
      case False
      then have t: "t = 1" using kp first by (simp add: t_def)
      have k1: "kq L ?s1" using set_key_kq [OF L(1) pq] False kp by simp
      have so1: "sem_ok L ?s1" using L(2) by (simp add: sem_ok_def)
      have q1: "queue_of (queuetab ?s1) (sleepq s) = xs" using queue_of_qrep [OF kqD(1) [OF k1] kqD(7) [OF k1]] xs by simp
      have kk: "(\<lambda>i. qkey (set_key p (?k p - 1) (queuetab s) i)) = ?k(p := ?k p - 1)" by (rule ext) (simp add: setter_simps)
      have d1: "delay ?s1 i = delay s i - 1" for i
      proof -
        have "delay ?s1 i = delay_of (?k(p := ?k p - 1)) xs i" unfolding delay_def using q1 by (simp add: kk)
        also have "\<dots> = delay s i - 1" unfolding dl Cons by (rule delay_tick [OF pn])
        finally show ?thesis .
      qed
      have fr: "kframe P s ?s1" for P by (simp add: kframe_def)
      show ?thesis
      proof (cases "?k p - 1 \<le> 0")
        case True
        from wakeup_delay [OF k1 so1] cur xs obtain s' where "wakeup ?s1 = Some s'" "kinv s'" "kframe (set due) ?s1 s'"
          "queue_of (queuetab s') (sleepq s) = rest" "\<forall>p\<in>set due. runs s' p" "\<forall>p\<in>set rest. delay s' p = delay s p - 1"
          by (auto elim!: returnsE simp: d1 due_def rest_def t)
        then show ?thesis using True kframe_trans [OF fr [of "{}"]] by (simp add: clk t)
      next
        case gt: False
        have "0 \<le> delay_of ?k ys i" for i using delay_nonneg [of ys ?k i] pos Cons by simp
        then have "\<not> delay s i \<le> 1" for i using gt add_strict_increasing2 [of "delay_of ?k ys i" 1 "?k p"] unfolding dl Cons by (simp add: not_le)
        then have "due = []" "rest = xs" by (simp_all add: due_def rest_def t not_le)
        moreover have "kinv ?s1" using k1 so1 cur by (auto simp: kinv_def)
        ultimately show ?thesis using gt q1 d1 fr by (simp add: clk t)
      qed
    qed
  qed
qed

section \<open>The calls keep the invariant\<close>

lemma kinv_irrelevant [simp]:
  "kinv (s\<lparr>preempt := pr\<rparr>) = kinv s" "kinv (s\<lparr>count1000 := c\<rparr>) = kinv s" "kinv (s\<lparr>clktime := t\<rparr>) = kinv s"
  using kq_cong [of "s\<lparr>preempt := pr\<rparr>" s] kq_cong [of "s\<lparr>count1000 := c\<rparr>" s] kq_cong [of "s\<lparr>clktime := t\<rparr>" s]
  by (simp_all add: kinv_def)

lemma clk_seconds_same:
  "proctab (clk_seconds s) = proctab s" "queuetab (clk_seconds s) = queuetab s" "sleepq (clk_seconds s) = sleepq s"
  "currpid (clk_seconds s) = currpid s" "kinv (clk_seconds s) = kinv s" "kframe P (clk_seconds s) s' = kframe P s s'"
  "delay (clk_seconds s) = delay s"
  by (rule ext | simp add: clk_seconds_def Let_def kframe_def delay_def)+

lemma clkhandler_returns:
  assumes "kinv s"
  defines "xs \<equiv> queue_of (queuetab s) (sleepq s)" and "t \<equiv> (if 0 < firstkey (queuetab s) (sleepq s) then 1 else 0)"
  shows "returns (clkhandler s) (\<lambda>s'. kinv s' \<and> conts s' = (conts s)(currpid s := ClkK)
    \<and> (\<forall>p\<in>set xs. delay s p \<le> t \<longrightarrow> runs s' p)
    \<and> queue_of (queuetab s') (sleepq s) = filter (\<lambda>p. t < delay s p) xs
    \<and> (\<forall>p\<in>set xs. t < delay s p \<longrightarrow> delay s' p = delay s p - t))"
proof -
  have "kinv (clk_seconds s)" using assms(1) by (simp add: clk_seconds_same)
  from clk_sleepers_returns [OF this] obtain s' where s': "clk_sleepers (clk_seconds s) = Some s'" "kinv s'"
    "kframe (set (filter (\<lambda>p. delay s p \<le> t) xs)) s s'" "\<forall>p\<in>set (filter (\<lambda>p. delay s p \<le> t) xs). runs s' p"
    "queue_of (queuetab s') (sleepq s) = filter (\<lambda>p. t < delay s p) xs"
    "\<forall>p\<in>set (filter (\<lambda>p. t < delay s p) xs). delay s' p = delay s p - t"
    unfolding clk_seconds_same xs_def [symmetric] t_def [symmetric] by (auto elim: returnsE)
  then show ?thesis using kframe_fields(5) [OF s'(3)]
    by (simp add: clkhandler_def runs_def delay_def)
qed

lemma resched_kinv: "kinv s \<Longrightarrow> returns (resched s) (\<lambda>s'. kinv s' \<and> kframe {} s s')"
proof -
  assume inv: "kinv s"
  obtain L where L: "kq L s" "sem_ok L s" and cur: "prstate (proctab s (currpid s)) = PR_CURR" "ndefers s = 0"
    using kinvE [OF inv] by metis
  have "prstate (proctab s (currpid s)) \<noteq> PR_READY" using cur by simp
  from resched_done [OF L cur(2) this] show ?thesis by (auto elim: returns_mono)
qed

lemma yield_kinv: "kinv s \<Longrightarrow> returns (yield s) kinv"
  using resched_kinv [of s] by (auto simp: yield_def elim: returns_mono)

lemma clk_preempt_kinv: "kinv s \<Longrightarrow> returns (clk_preempt s) kinv"
  using resched_kinv [of "s\<lparr>preempt := QUANTUM\<rparr>"] by (auto simp: clk_preempt_def Let_def elim: returns_mono)

lemma sem_ok_sleep:
  "ids_ok s \<Longrightarrow> sem_ok L s \<Longrightarrow> semtab s' = semtab s \<Longrightarrow> sem_ok (L(sleepq s := xs)) s'"
  using ids_okD(7) [of s] by (simp add: sem_ok_def)

lemma block_done:
  assumes L: "kq L s" "sem_ok L s" and "ndefers s = 0" "prstate (proctab s (currpid s)) \<notin> {PR_CURR, PR_READY}"
  obtains s' where "resched s = Some s'" "kinv s'" "kframe {} s s'" "currpid s' \<noteq> currpid s"
    "prstate (proctab s' (currpid s)) = prstate (proctab s (currpid s))"
    "\<And>q. isq (nextqid s) q \<Longrightarrow> q \<noteq> readylist s \<Longrightarrow> queue_of (queuetab s') q = L q"
    "\<And>i. qkey (queuetab s' i) = qkey (queuetab s i)"
proof -
  have nr: "prstate (proctab s (currpid s)) \<noteq> PR_READY" and nc: "prstate (proctab s (currpid s)) \<noteq> PR_CURR"
    using assms(4) by auto
  from resched_done [OF L assms(3) nr] obtain s' where s': "resched s = Some s'" "kinv s'" "kframe {} s s'"
    "\<And>q. isq (nextqid s) q \<Longrightarrow> q \<noteq> readylist s \<Longrightarrow> queue_of (queuetab s') q = L q" by (auto elim: returnsE)
  have st: "prstate (proctab s' (currpid s)) = prstate (proctab s (currpid s))"
    using kframe_state [OF s'(3), of "currpid s"] assms(4) by simp
  have c: "currpid s' \<noteq> currpid s" using s'(2) st assms(4) by (auto simp: kinv_def)
  obtain s2 where "resched s = Some s2"
    "\<And>i. qkey (queuetab s2 i) = (if i = currpid s \<and> currpid s2 \<noteq> i \<and> prstate (proctab s i) = PR_CURR
        then prprio (proctab s i) else qkey (queuetab s i))"
    by (rule resched_kq [OF L(1) assms(3) nr]) (rule that)
  then have "qkey (queuetab s' i) = qkey (queuetab s i)" for i using s'(1) nc by auto
  then show thesis using that [OF s'(1-3) c st s'(4)] by simp
qed

text \<open>The current process puts itself on the sleep queue and gives the processor up: everyone who
  was asleep keeps the time that is left.\<close>

lemma go_to_sleep:
  assumes inv: "kinv s" and user: "currpid s \<noteq> 0" and d: "0 \<le> d" and st: "st = PR_SLEEP \<or> st = PR_RECTIM"
  obtains qt s' where "k_insertd (currpid s) (sleepq s) d s = Some (OK, s\<lparr>queuetab := qt\<rparr>)"
    "resched (set_state (currpid s) st (s\<lparr>queuetab := qt\<rparr>)) = Some s'" "kinv s'"
    "kframe {} (set_state (currpid s) st (s\<lparr>queuetab := qt\<rparr>)) s'" "currpid s' \<noteq> currpid s"
    "prstate (proctab s' (currpid s)) = st" "delay s' (currpid s) = d"
    "set (queue_of (queuetab s') (sleepq s)) = insert (currpid s) (set (queue_of (queuetab s) (sleepq s)))"
    "\<And>i. i \<in> set (queue_of (queuetab s) (sleepq s)) \<Longrightarrow> delay s' i = delay s i"
proof -
  obtain L where L: "kq L s" "sem_ok L s" and cur: "prstate (proctab s (currpid s)) = PR_CURR" "ndefers s = 0"
    "0 \<le> currpid s" "currpid s < NPROC" "home s (currpid s) = None"
    using kinvE [OF inv] by metis
  note D = kqD [OF L(1)]
  let ?p = "currpid s" and ?q = "sleepq s"
  have nf: "prstate (proctab s ?p) \<noteq> PR_FREE" using cur by simp
  have qo: "queue_of (queuetab s) ?q = L ?q" by (rule queue_of_qrep [OF D(1,7)])
  obtain qt l r where i: "k_insertd ?p ?q d s = Some (OK, s\<lparr>queuetab := qt\<rparr>)"
    "kq (L(?q := l @ ?p # r)) (set_state ?p st (s\<lparr>queuetab := qt\<rparr>))" "L ?q = l @ r"
    "\<And>i. i \<in> insert ?p (set (L ?q)) \<Longrightarrow> delay_of (\<lambda>j. qkey (qt j)) (l @ ?p # r) i
       = (if i = ?p then d else delay_of (\<lambda>j. qkey (queuetab s j)) (L ?q) i)"
    by (rule k_insertd_kq [OF L(1) cur(3,4) user cur(5) nf d st]) (rule that)
  let ?s1 = "set_state ?p st (s\<lparr>queuetab := qt\<rparr>)" and ?L1 = "L(?q := l @ ?p # r)"
  have so: "sem_ok ?L1 ?s1" by (rule sem_ok_sleep [OF D(2) L(2)]) simp
  have b: "ndefers ?s1 = 0" "prstate (proctab ?s1 (currpid ?s1)) \<notin> {PR_CURR, PR_READY}" using cur st by auto
  obtain s' where s': "resched ?s1 = Some s'" "kinv s'" "kframe {} ?s1 s'" "currpid s' \<noteq> currpid ?s1"
    "prstate (proctab s' (currpid ?s1)) = prstate (proctab ?s1 (currpid ?s1))"
    "\<And>q. isq (nextqid ?s1) q \<Longrightarrow> q \<noteq> readylist ?s1 \<Longrightarrow> queue_of (queuetab s') q = ?L1 q"
    "\<And>i. qkey (queuetab s' i) = qkey (queuetab ?s1 i)"
    by (rule block_done [OF i(2) so b]) (rule that)
  have q': "queue_of (queuetab s') ?q = l @ ?p # r" using s'(6) [of ?q] D(7) ids_okD(4) [OF D(2)] by simp
  have st': "currpid s' \<noteq> ?p" "prstate (proctab s' ?p) = st" using s'(4,5) by simp_all
  have sl: "sleepq s' = ?q" using kframe_fields(3) [OF s'(3)] by simp
  have pn: "?p \<notin> set (L ?q)" using placed_iff [OF D(3) cur(3,4) D(7)] cur(5) by simp
  have dl: "delay s' i = (if i = ?p then d else delay s i)" if "i \<in> insert ?p (set (L ?q))" for i
    using i(4) [OF that] by (simp add: delay_def sl q' s'(7) qo)
  show thesis
  proof (rule that [OF i(1) s'(1-3) st'])
    show "delay s' ?p = d" using dl [of ?p] by simp
    show "set (queue_of (queuetab s') ?q) = insert ?p (set (queue_of (queuetab s) ?q))" by (simp add: q' qo i(3))
    show "delay s' i = delay s i" if "i \<in> set (queue_of (queuetab s) ?q)" for i
    proof -
      have "i \<in> set (L ?q)" "i \<noteq> ?p" using that pn qo by auto
      then show ?thesis using dl [of i] by simp
    qed
  qed
qed

lemma sleepms_returns:
  assumes "kinv s" "currpid s \<noteq> 0" "0 < d"
  shows "returns (sleepms d s) (\<lambda>s'. kinv s' \<and> conts s' = (conts s)(currpid s := Ret OK) \<and> currpid s' \<noteq> currpid s
    \<and> prstate (proctab s' (currpid s)) = PR_SLEEP \<and> delay s' (currpid s) = d
    \<and> set (queue_of (queuetab s') (sleepq s)) = insert (currpid s) (set (queue_of (queuetab s) (sleepq s)))
    \<and> (\<forall>i\<in>set (queue_of (queuetab s) (sleepq s)). delay s' i = delay s i))"
proof -
  have d: "0 \<le> d" using assms(3) by simp
  obtain qt s' where g: "k_insertd (currpid s) (sleepq s) d s = Some (OK, s\<lparr>queuetab := qt\<rparr>)"
    "resched (set_state (currpid s) PR_SLEEP (s\<lparr>queuetab := qt\<rparr>)) = Some s'" "kinv s'"
    "kframe {} (set_state (currpid s) PR_SLEEP (s\<lparr>queuetab := qt\<rparr>)) s'" "currpid s' \<noteq> currpid s"
    "prstate (proctab s' (currpid s)) = PR_SLEEP" "delay s' (currpid s) = d"
    "set (queue_of (queuetab s') (sleepq s)) = insert (currpid s) (set (queue_of (queuetab s) (sleepq s)))"
    "\<And>i. i \<in> set (queue_of (queuetab s) (sleepq s)) \<Longrightarrow> delay s' i = delay s i"
    by (rule go_to_sleep [where st = PR_SLEEP, OF assms(1,2) d]) (simp, rule that)
  have "sleepms d s = give OK s s'" using assms(3) g(1,2) by (simp add: sleepms_def)
  then show ?thesis using g(3-9) kframe_fields(5) [OF g(4)] by (simp add: give_def delay_def)
qed

lemma sleepms_kinv:
  assumes "kinv s" "currpid s \<noteq> 0"
  shows "returns (sleepms d s) kinv"
proof -
  consider "d < 0" | "d = 0" | "0 < d" by linarith
  then show ?thesis
  proof cases
    case 2
    then show ?thesis using yield_kinv [OF assms(1)] by (simp add: sleepms_def)
  next
    case 3
    show ?thesis by (rule returns_mono [OF sleepms_returns [OF assms 3]]) simp
  qed (use assms in \<open>simp add: sleepms_def\<close>)
qed

lemma sleep_kinv:
  assumes "kinv s" "currpid s \<noteq> 0"
  shows "returns (sleep d s) kinv"
  using assms returns_mono [OF sleepms_kinv [OF assms, of "1000 * d"], of "\<lambda>s'. kinv (set_cont (currpid s) (Ret OK) s')"]
  by (simp add: sleep_def)

end
