(* ===== verification/Message.thy ===== *)
theory Message
  imports Clock
begin

text \<open>
  One-word messages: \<^verbatim>\<open>system/send.c\<close>, \<^verbatim>\<open>receive.c\<close>,
  \<^verbatim>\<open>recvtime.c\<close> and \<^verbatim>\<open>recvclr.c\<close>. A process that blocks in
  \<open>receive\<close> or \<open>recvtime\<close> picks the message up when it runs again; that second half is the
  continuation \<open>RecvK\<close> or \<open>RecvtimeK\<close>, here \<open>receive_finish\<close> and \<open>recvtime_finish\<close>.
\<close>

section \<open>Operations\<close>

text \<open>\<open>send\<close> is also called inside \<open>kill\<close>, which goes on after it; \<open>send_msg\<close> is the function
  with its value, \<open>send\<close> the system call.\<close>

definition send_msg :: "int \<Rightarrow> u32 \<Rightarrow> kstate \<Rightarrow> (int \<times> kstate) option" where
  "send_msg pid msg s =
     (if isbadpid s pid then Some (SYSERR, s)
      else if prhasmsg (proctab s pid) then Some (SYSERR, s)
      else let s1 = upd_proc pid (\<lambda>p. p\<lparr>prmsg := msg, prhasmsg := True\<rparr>) s in
        if prstate (proctab s1 pid) = PR_RECV then ready pid s1 \<bind> (\<lambda>(_, s2). Some (OK, s2))
        else if prstate (proctab s1 pid) = PR_RECTIM then
          let (_, s2) = unsleep pid s1 in ready pid s2 \<bind> (\<lambda>(_, s3). Some (OK, s3))
        else Some (OK, s1))"

definition send :: "int \<Rightarrow> u32 \<Rightarrow> kstate \<Rightarrow> kstate option" where
  "send pid msg s = send_msg pid msg s \<bind> (\<lambda>(r, s1). give r s s1)"

definition receive_finish :: "kstate \<Rightarrow> kstate" where
  "receive_finish s =
     (let p = currpid s; msg = prmsg (proctab s p)
      in set_cont p (RetMsg msg) (upd_proc p (\<lambda>e. e\<lparr>prhasmsg := False\<rparr>) s))"

definition receive :: "kstate \<Rightarrow> kstate option" where
  "receive s =
     (let p = currpid s in
      if \<not> prhasmsg (proctab s p)
      then resched (set_state p PR_RECV s) \<bind> (\<lambda>s1. Some (set_cont p RecvK s1))
      else Some (receive_finish s))"

definition recvclr :: "kstate \<Rightarrow> kstate option" where
  "recvclr s =
     (if prhasmsg (proctab s (currpid s)) then Some (receive_finish s)
      else Some (set_cont (currpid s) (RetMsg 1) s))"

abbreviation MSG_SYSERR :: u32 where "MSG_SYSERR \<equiv> - 1"
abbreviation MSG_TIMEOUT :: u32 where "MSG_TIMEOUT \<equiv> - 3"

definition recvtime_finish :: "kstate \<Rightarrow> kstate" where
  "recvtime_finish s =
     (if prhasmsg (proctab s (currpid s)) then receive_finish s
      else set_cont (currpid s) (RetMsg MSG_TIMEOUT) s)"

definition recvtime :: "int \<Rightarrow> kstate \<Rightarrow> kstate option" where
  "recvtime maxwait s =
     (let p = currpid s in
      if maxwait < 0 then Some (set_cont p (RetMsg MSG_SYSERR) s)
      else if \<not> prhasmsg (proctab s p) then
        k_insertd p (sleepq s) maxwait s \<bind> (\<lambda>(r, s1).
          if r = SYSERR then Some (set_cont p (RetMsg MSG_SYSERR) s1)
          else resched (set_state p PR_RECTIM s1) \<bind> (\<lambda>s2. Some (set_cont p RecvtimeK s2)))
      else Some (recvtime_finish s))"

section \<open>Changes of the message fields\<close>

lemma upd_msg_kq:
  assumes "kq L s" "\<And>e. prstate (f e) = prstate e" "\<And>e. prprio (f e) = prprio e" "\<And>e. prsem (f e) = prsem e"
  shows "kq L (upd_proc p f s)"
proof -
  have pr: "prstate (proctab (upd_proc p f s) i) = prstate (proctab s i)" "prprio (proctab (upd_proc p f s) i) = prprio (proctab s i)"
    "prsem (proctab (upd_proc p f s) i) = prsem (proctab s i)" for i using assms(2-4) by simp_all
  have h: "home (upd_proc p f s) = home s" by (rule home_eqI) (use pr in simp_all)
  show ?thesis using assms(1) unfolding kq_def h procs_ok_def order_ok_def ids_ok_def pr by simp
qed

lemma upd_msg_kinv:
  assumes "kinv s" "\<And>e. prstate (f e) = prstate e" "\<And>e. prprio (f e) = prprio e" "\<And>e. prsem (f e) = prsem e"
  shows "kinv (upd_proc p f s)"
proof -
  obtain L where L: "kq L s" "sem_ok L s" using assms(1) by (auto simp: kinv_def)
  have "kq L (upd_proc p f s)" by (rule upd_msg_kq [OF L(1) assms(2-4)])
  moreover have "sem_ok L (upd_proc p f s)" using L(2) by (simp add: sem_ok_def)
  moreover have "prstate (proctab (upd_proc p f s) (currpid s)) = prstate (proctab s (currpid s))" using assms(2) by simp
  ultimately show ?thesis using assms(1) by (auto simp: kinv_def)
qed

lemma receive_finish_kinv: "kinv s \<Longrightarrow> kinv (receive_finish s)"
  by (simp add: receive_finish_def Let_def upd_msg_kinv)

lemma recvtime_finish_kinv: "kinv s \<Longrightarrow> kinv (recvtime_finish s)"
  by (simp add: recvtime_finish_def receive_finish_kinv)

lemma recvclr_kinv: "kinv s \<Longrightarrow> returns (recvclr s) kinv"
  by (simp add: recvclr_def receive_finish_kinv)

section \<open>Sending\<close>

text \<open>Waking a process that sleeps: \<open>unsleep\<close>, then \<open>ready\<close>.\<close>

lemma unsleep_ready:
  assumes inv: "kinv s" and p: "prstate (proctab s p) = PR_RECTIM \<or> prstate (proctab s p) = PR_SLEEP" "0 \<le> p" "p < NPROC"
  shows "returns (ready p (snd (unsleep p s))) (\<lambda>(r, s'). kinv s' \<and> kframe {p} s s' \<and> runs s' p)"
proof -
  obtain L where L: "kq L s" "sem_ok L s" and cur: "prstate (proctab s (currpid s)) = PR_CURR" "ndefers s = 0"
    using kinvE [OF inv] by metis
  note D = kqD [OF L(1)]
  have "home s p = Some (sleepq s)" using p(1) by (auto simp: home_def)
  then have pq: "p \<in> set (L (sleepq s))" using placed_iff [OF D(3) p(2,3) D(7)] by simp
  obtain qt where u: "unsleep p s = (OK, s\<lparr>queuetab := qt\<rparr>)"
    "kq (L(sleepq s := remove1 p (L (sleepq s)))) (set_state p PR_SUSP (s\<lparr>queuetab := qt\<rparr>))"
    by (rule unsleep_kq [OF L(1) pq]) (rule that)
  let ?s1 = "set_state p PR_SUSP (s\<lparr>queuetab := qt\<rparr>)"
  have so: "sem_ok (L(sleepq s := remove1 p (L (sleepq s)))) ?s1" by (rule sem_ok_sleep [OF D(2) L(2)]) simp
  have st: "prstate (proctab s p) \<noteq> PR_FREE" "p \<noteq> currpid s" using p(1) cur by auto
  have ab: "ready p (s\<lparr>queuetab := qt\<rparr>) = ready p ?s1" using p(2,3) st by (subst ready_absorb) simp_all
  have h: "home ?s1 p = None" "prstate (proctab ?s1 p) \<noteq> PR_FREE" "p \<noteq> currpid ?s1" "ndefers ?s1 = 0"
    "prstate (proctab ?s1 (currpid ?s1)) \<noteq> PR_READY"
    using st cur by (simp_all add: home_def)
  from ready_done [OF u(2) so h(4) p(2,3) h(1-3,5)] obtain s' where s': "ready p ?s1 = Some (OK, s')" "kinv s'"
    "kframe {p} ?s1 s'" "prstate (proctab s' p) \<in> {PR_CURR, PR_READY}"
    by (auto elim!: returnsE)
  then show ?thesis using kframe_absorb [OF s'(3,4)] u(1) ab by (simp add: runs_def)
qed

lemma ready_kinv:
  assumes inv: "kinv s" and p: "prstate (proctab s p) = PR_RECV \<or> prstate (proctab s p) = PR_SUSP" "0 \<le> p" "p < NPROC"
  shows "returns (ready p s) (\<lambda>(r, s'). r = OK \<and> kinv s' \<and> kframe {p} s s' \<and> runs s' p)"
proof -
  obtain L where L: "kq L s" "sem_ok L s" and cur: "prstate (proctab s (currpid s)) = PR_CURR" "ndefers s = 0"
    using kinvE [OF inv] by metis
  have h: "home s p = None" "prstate (proctab s p) \<noteq> PR_FREE" "p \<noteq> currpid s" using p(1) cur by (auto simp: home_def)
  have "prstate (proctab s (currpid s)) \<noteq> PR_READY" using cur by simp
  from ready_done [OF L cur(2) p(2,3) h this] show ?thesis by (auto elim!: returns_mono simp: runs_def)
qed

lemma send_msg_returns:
  fixes pid :: int and msg :: u32
  assumes inv: "kinv s"
  defines "ok \<equiv> \<not> isbadpid s pid \<and> \<not> prhasmsg (proctab s pid)"
    and "s1 \<equiv> upd_proc pid (\<lambda>p. p\<lparr>prmsg := msg, prhasmsg := True\<rparr>) s"
  shows "returns (send_msg pid msg s) (\<lambda>(r, s'). kinv s' \<and>
    (if ok then r = OK \<and> kframe {pid} s1 s' \<and>
       (if prstate (proctab s pid) = PR_RECV \<or> prstate (proctab s pid) = PR_RECTIM then runs s' pid else s' = s1)
     else r = SYSERR \<and> s' = s))"
proof (cases ok)
  case False
  then show ?thesis using inv by (auto simp: ok_def send_msg_def)
next
  case True
  then have p: "0 \<le> pid" "pid < NPROC" by (auto simp: ok_def isbadpid_def)
  have k1: "kinv s1" unfolding s1_def by (rule upd_msg_kinv [OF inv]) simp_all
  have st: "prstate (proctab s1 pid) = prstate (proctab s pid)" by (simp add: s1_def)
  have e: "send_msg pid msg s =
      (if prstate (proctab s pid) = PR_RECV then ready pid s1 \<bind> (\<lambda>(_, s2). Some (OK, s2))
       else if prstate (proctab s pid) = PR_RECTIM then
         ready pid (snd (unsleep pid s1)) \<bind> (\<lambda>(_, s3). Some (OK, s3))
       else Some (OK, s1))"
    using True by (simp add: ok_def send_msg_def s1_def case_prod_unfold)
  consider "prstate (proctab s pid) = PR_RECV" | "prstate (proctab s pid) = PR_RECTIM"
    | "prstate (proctab s pid) \<noteq> PR_RECV" "prstate (proctab s pid) \<noteq> PR_RECTIM" by blast
  then show ?thesis
  proof cases
    case 1
    with ready_kinv [OF k1 _ p] st obtain s' where "ready pid s1 = Some (OK, s')" "kinv s'" "kframe {pid} s1 s'" "runs s' pid"
      by (auto elim!: returnsE)
    then show ?thesis using 1 True by (simp add: e)
  next
    case 2
    with unsleep_ready [OF k1 _ p] st obtain r s' where "ready pid (snd (unsleep pid s1)) = Some (r, s')" "kinv s'"
      "kframe {pid} s1 s'" "runs s' pid"
      by (auto elim!: returnsE)
    then show ?thesis using 2 True by (simp add: e)
  next
    case 3
    then show ?thesis using k1 True by (simp add: e)
  qed
qed

lemma send_kinv: "kinv s \<Longrightarrow> returns (send pid msg s) kinv"
  using send_msg_returns [of s pid msg] by (auto simp: send_def elim!: returns_mono)

section \<open>Receiving\<close>

lemma receive_returns:
  assumes inv: "kinv s" and user: "\<not> prhasmsg (proctab s (currpid s)) \<longrightarrow> currpid s \<noteq> 0"
  shows "returns (receive s) (\<lambda>s'. kinv s' \<and>
    (if prhasmsg (proctab s (currpid s)) then s' = receive_finish s
     else currpid s' \<noteq> currpid s \<and> prstate (proctab s' (currpid s)) = PR_RECV \<and> conts s' = (conts s)(currpid s := RecvK)
       \<and> prhasmsg (proctab s' (currpid s)) = False))"
proof (cases "prhasmsg (proctab s (currpid s))")
  case True
  then show ?thesis using receive_finish_kinv [OF inv] by (simp add: receive_def)
next
  case False
  obtain L where L: "kq L s" "sem_ok L s" and cur: "prstate (proctab s (currpid s)) = PR_CURR" "ndefers s = 0"
    using kinvE [OF inv] by metis
  let ?s1 = "set_state (currpid s) PR_RECV s"
  note P = procs_okD [OF kqD(5) [OF L(1)]]
  have k: "kq L ?s1"
    by (rule upd_proc_kq [OF L(1)]) (use P(1,2) P(4,5) [OF P(1,2)] cur user False in \<open>auto simp: home_def\<close>)
  have so: "sem_ok L ?s1" using L(2) by (simp add: sem_ok_def)
  have b: "ndefers ?s1 = 0" "prstate (proctab ?s1 (currpid ?s1)) \<notin> {PR_CURR, PR_READY}" using cur by simp_all
  obtain s' where s': "resched ?s1 = Some s'" "kinv s'" "kframe {} ?s1 s'" "currpid s' \<noteq> currpid ?s1"
    "prstate (proctab s' (currpid ?s1)) = prstate (proctab ?s1 (currpid ?s1))"
    by (rule block_done [OF k so b]) (rule that)
  then show ?thesis using False kframe_fields(5,13) [OF s'(3)] by (simp add: receive_def)
qed

lemma receive_kinv: "kinv s \<Longrightarrow> currpid s \<noteq> 0 \<Longrightarrow> returns (receive s) kinv"
  using receive_returns [of s] by (auto elim: returns_mono)

lemma recvtime_returns:
  assumes inv: "kinv s" and user: "\<not> prhasmsg (proctab s (currpid s)) \<longrightarrow> currpid s \<noteq> 0" and w: "0 \<le> maxwait"
  shows "returns (recvtime maxwait s) (\<lambda>s'. kinv s' \<and>
    (if prhasmsg (proctab s (currpid s)) then s' = receive_finish s
     else currpid s' \<noteq> currpid s \<and> prstate (proctab s' (currpid s)) = PR_RECTIM \<and> conts s' = (conts s)(currpid s := RecvtimeK)
       \<and> delay s' (currpid s) = maxwait \<and> prhasmsg (proctab s' (currpid s)) = False
       \<and> (\<forall>i\<in>set (queue_of (queuetab s) (sleepq s)). delay s' i = delay s i)))"
proof (cases "prhasmsg (proctab s (currpid s))")
  case True
  then show ?thesis using receive_finish_kinv [OF inv] w by (simp add: recvtime_def recvtime_finish_def)
next
  case False
  with user have nz: "currpid s \<noteq> 0" by simp
  obtain qt s' where g: "k_insertd (currpid s) (sleepq s) maxwait s = Some (OK, s\<lparr>queuetab := qt\<rparr>)"
    "resched (set_state (currpid s) PR_RECTIM (s\<lparr>queuetab := qt\<rparr>)) = Some s'" "kinv s'"
    "kframe {} (set_state (currpid s) PR_RECTIM (s\<lparr>queuetab := qt\<rparr>)) s'" "currpid s' \<noteq> currpid s"
    "prstate (proctab s' (currpid s)) = PR_RECTIM" "delay s' (currpid s) = maxwait"
    "set (queue_of (queuetab s') (sleepq s)) = insert (currpid s) (set (queue_of (queuetab s) (sleepq s)))"
    "\<And>i. i \<in> set (queue_of (queuetab s) (sleepq s)) \<Longrightarrow> delay s' i = delay s i"
    by (rule go_to_sleep [where st = PR_RECTIM, OF inv nz w]) (simp, rule that)
  have "recvtime maxwait s = Some (set_cont (currpid s) RecvtimeK s')"
    using w False g(1,2) by (simp add: recvtime_def Let_def)
  then show ?thesis using g(3-9) False kframe_fields(5,13) [OF g(4)] by (simp add: delay_def)
qed

lemma recvtime_kinv: "kinv s \<Longrightarrow> currpid s \<noteq> 0 \<Longrightarrow> returns (recvtime maxwait s) kinv"
proof (cases "maxwait < 0")
  case False
  assume "kinv s" "currpid s \<noteq> 0"
  then show ?thesis using recvtime_returns [of s maxwait] False receive_finish_kinv by (auto elim: returns_mono)
qed (simp add: recvtime_def)

end
