(* ===== verification/Process.thy ===== *)
theory Process
  imports Message
begin

text \<open>
  The life of a process: \<^verbatim>\<open>system/create.c\<close>, \<^verbatim>\<open>vcreate.c\<close>,
  \<^verbatim>\<open>kill.c\<close>, \<^verbatim>\<open>suspend.c\<close>, \<^verbatim>\<open>resume.c\<close>,
  \<^verbatim>\<open>chprio.c\<close>, \<^verbatim>\<open>getprio.c\<close>, \<^verbatim>\<open>exit.c\<close>,
  \<^verbatim>\<open>userret.c\<close> and \<^verbatim>\<open>xdone.c\<close>, and the page-fault handler, which kills.
  The words of the stacks are the field \<open>stack\<close>. The three descriptors a process starts with are
  the console, whose \<open>close\<close> routine is \<open>ionull\<close> in \<^verbatim>\<open>config/conf.c\<close>; closing them
  in \<open>kill\<close> has no effect.
\<close>

section \<open>Suspending and resuming\<close>

definition suspend_finish :: "int \<Rightarrow> kstate \<Rightarrow> kstate" where
  "suspend_finish pid s = set_cont (currpid s) (Ret (prprio (proctab s pid))) s"

definition suspend :: "int \<Rightarrow> kstate \<Rightarrow> kstate option" where
  "suspend pid s =
     (if isbadpid s pid \<or> pid = NULLPROC then give SYSERR s s
      else if prstate (proctab s pid) \<noteq> PR_CURR \<and> prstate (proctab s pid) \<noteq> PR_READY then give SYSERR s s
      else if prstate (proctab s pid) = PR_READY then
        let (_, s1) = k_getitem pid s; s2 = set_state pid PR_SUSP s1
        in Some (suspend_finish pid s2)
      else resched (set_state pid PR_SUSP s) \<bind> (\<lambda>s1. Some (set_cont (currpid s) (SuspendK pid) s1)))"

definition resume :: "int \<Rightarrow> kstate \<Rightarrow> kstate option" where
  "resume pid s =
     (if isbadpid s pid then give SYSERR s s
      else if prstate (proctab s pid) \<noteq> PR_SUSP then give SYSERR s s
      else let prio = prprio (proctab s pid) in ready pid s \<bind> (\<lambda>(_, s1). give prio s s1))"

definition chprio :: "int \<Rightarrow> int \<Rightarrow> kstate \<Rightarrow> kstate option" where
  "chprio pid newprio s =
     (if isbadpid s pid then give SYSERR s s
      else let oldprio = prprio (proctab s pid)
           in give oldprio s (upd_proc pid (\<lambda>p. p\<lparr>prprio := newprio\<rparr>) s))"

definition getprio :: "int \<Rightarrow> kstate \<Rightarrow> kstate option" where
  "getprio pid s =
     (if isbadpid s pid then give SYSERR s s else give (prprio (proctab s pid)) s s)"

definition getpid :: "kstate \<Rightarrow> int" where "getpid s = currpid s"

section \<open>Creating\<close>

primrec newpid_loop :: "nat \<Rightarrow> kstate \<Rightarrow> int \<times> kstate" where
  "newpid_loop 0 s = (SYSERR, s)"
| "newpid_loop (Suc n) s =
     (let pid = nextpid s mod NPROC; s1 = s\<lparr>nextpid := pid + 1\<rparr>
      in if prstate (proctab s pid) = PR_FREE then (pid, s1) else newpid_loop n s1)"

definition newpid :: "kstate \<Rightarrow> int \<times> kstate" where "newpid s = newpid_loop (nat NPROC) s"

abbreviation STACKMAGIC :: u32 where "STACKMAGIC \<equiv> 0x0A0AAAA9"
abbreviation MINSTK :: u32 where "MINSTK \<equiv> 400"
abbreviation CONSOLE :: int where "CONSOLE \<equiv> 0"

text \<open>\<open>*--saddr = v\<close>\<close>

definition push :: "u32 \<Rightarrow> u32 \<times> (u32 \<Rightarrow> u32) \<Rightarrow> u32 \<times> (u32 \<Rightarrow> u32)" where
  "push v st = (fst st - 4, (snd st)(fst st - 4 := v))"

text \<open>The frame of a new process: the arguments, the return address, and what \<open>ctxsw\<close> pops.
  \<open>initret\<close> is the address of \<open>userret\<close>. The stack words are a memory apart from the free list, so the model does not show
  what a list of arguments longer than the stack would overwrite.\<close>

definition create_frame :: "u32 \<Rightarrow> u32 \<Rightarrow> u32 list \<Rightarrow> u32 \<Rightarrow> (u32 \<Rightarrow> u32) \<Rightarrow> u32 \<times> (u32 \<Rightarrow> u32)" where
  "create_frame initret funcaddr args saddr m =
     (let st1 = fold push (rev args) (saddr, m(saddr := STACKMAGIC));
          st2 = push funcaddr (push initret st1);
          st3 = push saddr st2;
          savsp = fst st3;
          st4 = push 0 (push 0 (push 0 (push 0 (push 0x00000200 st3))));
          st5 = push 0 st4;
          pushsp = fst st5;
          st6 = push 0 (push 0 (push savsp st5))
      in (fst st6, (snd st6)(pushsp := fst st6)))"

definition create_entry :: "u32 \<Rightarrow> u32 \<Rightarrow> int \<Rightarrow> string \<Rightarrow> int \<Rightarrow> procent \<Rightarrow> procent" where
  "create_entry saddr ssize priority name parent p =
     p\<lparr>prstate := PR_SUSP, prprio := priority, prstkbase := saddr, prstklen := ssize, prname := take 15 name,
       prsem := - 1, prparent := parent, prhasmsg := False, prdesc := [CONSOLE, CONSOLE, CONSOLE] @ drop 3 (prdesc p)\<rparr>"

text \<open>The test at the head of both functions: the process identifier and the stack, or failure.\<close>

definition create_alloc :: "u32 \<Rightarrow> int \<Rightarrow> kstate \<Rightarrow> ((int \<times> u32) option \<times> kstate) option" where
  "create_alloc ssize priority s =
     (if priority < 1 then Some (None, s)
      else let (pid, s1) = newpid s in
        if pid = SYSERR then Some (None, s1)
        else getstk ssize (kheap s1) \<bind> (\<lambda>(saddr, h).
          let s2 = s1\<lparr>kheap := h\<rparr>
          in Some (if saddr = SYSERRp then None else Some (pid, saddr), s2)))"

definition stack_size :: "u32 \<Rightarrow> u32" where
  "stack_size ssize = roundmb (if ssize < MINSTK then MINSTK else ssize)"

definition create :: "u32 \<Rightarrow> u32 \<Rightarrow> u32 \<Rightarrow> int \<Rightarrow> string \<Rightarrow> u32 list \<Rightarrow> kstate \<Rightarrow> kstate option" where
  "create initret funcaddr ssize priority name args s =
     create_alloc (stack_size ssize) priority s \<bind> (\<lambda>(r, s1).
       case r of None \<Rightarrow> give SYSERR s s1
       | Some (pid, saddr) \<Rightarrow>
         let s2 = s1\<lparr>prcount := prcount s1 + 1\<rparr>;
             s3 = upd_proc pid (\<lambda>p. (create_entry saddr (stack_size ssize) priority name (getpid s2) p)
                    \<lparr>page_addr := PAGE_DIR_ADDR_START\<rparr>) s2;
             (sp, m) = create_frame initret funcaddr args saddr (stack s3);
             s4 = upd_proc pid (\<lambda>p. p\<lparr>prstkptr := sp\<rparr>) (s3\<lparr>stack := m\<rparr>)
         in give pid s (set_cont pid (Ret OK) s4))"

text \<open>The return for a failed allocation comes before CR3 is switched back.\<close>

definition vcreate :: "u32 \<Rightarrow> u32 \<Rightarrow> u32 \<Rightarrow> int \<Rightarrow> string \<Rightarrow> u32 list \<Rightarrow> kstate \<Rightarrow> kstate option" where
  "vcreate initret funcaddr ssize priority name args s =
     (let s0 = s\<lparr>kvm := load_pd PAGE_DIR_ADDR_START (kvm s)\<rparr> in
      create_alloc (stack_size ssize) priority s0 \<bind> (\<lambda>(r, s1).
       case r of None \<Rightarrow> give SYSERR s s1
       | Some (pid, saddr) \<Rightarrow>
         let s2 = s1\<lparr>prcount := prcount s1 + 1\<rparr>;
             s3 = upd_proc pid (create_entry saddr (stack_size ssize) priority name (getpid s2)) s2
         in initialize_user_page_dir (pmem (kvm s3)) \<bind> (\<lambda>(f, pm).
           let s4 = upd_proc pid (\<lambda>p. p\<lparr>page_addr := of_nat f * 4096\<rparr>) (s3\<lparr>kvm := (kvm s3)\<lparr>pmem := pm\<rparr>\<rparr>);
               (sp, m) = create_frame initret funcaddr args saddr (stack s4);
               s5 = upd_proc pid (\<lambda>p. p\<lparr>prstkptr := sp\<rparr>) (s4\<lparr>stack := m\<rparr>);
               s6 = s5\<lparr>kvm := load_pd (page_addr (proctab s5 (currpid s5))) (kvm s5)\<rparr>
           in give pid s (set_cont pid (Ret OK) s6))))"

section \<open>Killing\<close>

definition xdone :: "kstate \<Rightarrow> kstate" where "xdone s = s\<lparr>halted := True\<rparr>"

text \<open>From \<open>freestk\<close> on. A process that kills itself does not come back from \<open>resched\<close>.\<close>

definition kill_rest :: "int \<Rightarrow> kstate \<Rightarrow> kstate \<Rightarrow> kstate option" where
  "kill_rest pid s s1 =
     (case prstate (proctab s1 pid) of
         PR_CURR \<Rightarrow>
           let s2 = set_state pid PR_FREE s1;
               s3 = s2\<lparr>kvm := kill_vm (page_addr (proctab s2 pid)) (kvm s2)\<rparr>
           in resched s3
       | PR_SLEEP \<Rightarrow> give OK s (set_state pid PR_FREE (snd (unsleep pid s1)))
       | PR_RECTIM \<Rightarrow> give OK s (set_state pid PR_FREE (snd (unsleep pid s1)))
       | PR_WAIT \<Rightarrow>
           let s2 = upd_sem (prsem (proctab s1 pid)) (\<lambda>e. e\<lparr>scount := scount e + 1\<rparr>) s1
           in give OK s (set_state pid PR_FREE (snd (k_getitem pid s2)))
       | PR_READY \<Rightarrow> give OK s (set_state pid PR_FREE (snd (k_getitem pid s1)))
       | _ \<Rightarrow> give OK s (set_state pid PR_FREE s1))"

definition kill_finish :: "int \<Rightarrow> kstate \<Rightarrow> kstate option" where
  "kill_finish pid s =
     freestk (prstkbase (proctab s pid)) (prstklen (proctab s pid)) (kheap s) \<bind> (\<lambda>(_, h).
       kill_rest pid s (s\<lparr>kheap := h\<rparr>))"

text \<open>The message to the parent may make a process of higher priority run before \<open>kill\<close> goes on.\<close>

definition kill :: "int \<Rightarrow> kstate \<Rightarrow> kstate option" where
  "kill pid s =
     (if isbadpid s pid \<or> pid = NULLPROC then give SYSERR s s
      else let s1 = s\<lparr>prcount := prcount s - 1\<rparr> in
        if prcount s1 \<le> 1 then Some (xdone s1)
        else send_msg (prparent (proctab s1 pid)) (of_int pid) s1 \<bind> (\<lambda>(_, s2).
          if currpid s2 \<noteq> currpid s then Some (set_cont (currpid s) (KillK pid) s2)
          else kill_finish pid s2))"

definition exit :: "kstate \<Rightarrow> kstate option" where "exit s = kill (getpid s) s"
definition userret :: "kstate \<Rightarrow> kstate option" where "userret s = kill (getpid s) s"

section \<open>Page faults\<close>

text \<open>The null process cannot be killed: \<open>kill\<close> returns and the handler goes on.\<close>

definition segfault :: "kstate \<Rightarrow> kstate option" where
  "segfault s =
     kill (currpid s) s \<bind> (\<lambda>s1.
       if currpid s = NULLPROC
       then Some (s1\<lparr>kvm := load_pd (page_addr (proctab s1 (currpid s))) (kvm s1)\<rparr>) else Some s1)"

definition pagefault_handler :: "kstate \<Rightarrow> kstate option" where
  "pagefault_handler s =
     (let v1 = load_pd PAGE_DIR_ADDR_START (kvm s);
          v_address = unat (cr2 v1);
          pt_index = v_address div 4096 mod 1024;
          pd_index = v_address div 4194304;
          addr = page_addr (proctab s (currpid s));
          pde = pmem v1 (ent (frame_of addr) pd_index);
          e = ent (p_base pde) pt_index
      in if pt_valid pde \<and> pt_valid (pmem v1 e)
         then Some (s\<lparr>kvm := load_pd addr (v1\<lparr>pmem := map_page e (pmem v1)\<rparr>)\<rparr>)
         else segfault (s\<lparr>kvm := v1\<rparr>))"

section \<open>Suspending and resuming keep the invariant\<close>

lemma kinv_cong:
  assumes "nextqid s' = nextqid s" "queuetab s' = queuetab s" "readylist s' = readylist s" "sleepq s' = sleepq s"
    "semtab s' = semtab s" "proctab s' = proctab s" "currpid s' = currpid s" "ndefers s' = ndefers s"
  shows "kinv s' = kinv s"
  using kq_cong [OF assms(1-7)] assms(6-8) by (simp add: kinv_def)

lemma remove_kq:
  assumes inv: "kq L s" and q: "isq (nextqid s) q" and p: "p \<in> set (L q)" "p \<noteq> 0" and st: "st \<in> {PR_FREE, PR_RECV, PR_SUSP}"
  obtains qt where "k_getitem p s = (p, s\<lparr>queuetab := qt\<rparr>)"
    "kq (L(q := remove1 p (L q))) (set_state p st (s\<lparr>queuetab := qt\<rparr>))" "\<And>i. qkey (qt i) = qkey (queuetab s i)"
proof -
  note D = kqD [OF inv]
  obtain qt where qt: "getitem p (queuetab s) = (p, qt)" "qrep (nextqid s) qt (L(q := remove1 p (L q)))"
    "\<And>i. qkey (qt i) = qkey (queuetab s i)"
    by (rule getitem_refines [OF D(1) q p(1)]) (rule that)
  have "0 \<le> qkey (qt i)" if "i \<in> set (L (sleepq s))" for i using D(4) that qt(3) by (simp add: order_ok_def)
  then have "kq (L(q := remove1 p (L q))) (set_state p st (s\<lparr>queuetab := qt\<rparr>))"
    by (intro detach_kq [OF inv q p qt(2)]) (use qt(3) st in auto)
  then show thesis using that qt by (simp add: k_getitem_def)
qed

lemma suspend_finish_kinv [simp]: "kinv (suspend_finish pid s) = kinv s"
  by (simp add: suspend_finish_def)

lemma suspend_returns:
  assumes inv: "kinv s" and ok: "\<not> isbadpid s pid" "pid \<noteq> 0" "prstate (proctab s pid) = PR_CURR \<or> prstate (proctab s pid) = PR_READY"
  shows "returns (suspend pid s) (\<lambda>s'. kinv s' \<and> prstate (proctab s' pid) = PR_SUSP \<and> currpid s' \<noteq> pid
    \<and> (\<forall>i. i \<noteq> pid \<longrightarrow> runs s i \<longrightarrow> runs s' i))"
proof -
  obtain L where L: "kq L s" "sem_ok L s" and cur: "prstate (proctab s (currpid s)) = PR_CURR" "ndefers s = 0"
    using kinvE [OF inv] by metis
  note D = kqD [OF L(1)]
  note P = procs_okD [OF D(5)]
  have r: "0 \<le> pid" "pid < NPROC" using ok by (auto simp: isbadpid_def)
  show ?thesis
  proof (cases "prstate (proctab s pid) = PR_READY")
    case True
    then have "home s pid = Some (readylist s)" by (simp add: home_def)
    then have "pid \<in> set (L (readylist s))" using placed_iff [OF D(3) r D(6)] by simp
    then obtain qt where qt: "k_getitem pid s = (pid, s\<lparr>queuetab := qt\<rparr>)"
      "kq (L(readylist s := remove1 pid (L (readylist s)))) (set_state pid PR_SUSP (s\<lparr>queuetab := qt\<rparr>))"
      by (rule remove_kq [OF L(1) D(6) _ ok(2), where st = PR_SUSP]) (simp, rule that)
    have "sem_ok (L(readylist s := remove1 pid (L (readylist s)))) (set_state pid PR_SUSP (s\<lparr>queuetab := qt\<rparr>))"
      by (rule sem_ok_frame [OF D(2) L(2)]) simp_all
    then have "kinv (set_state pid PR_SUSP (s\<lparr>queuetab := qt\<rparr>))" using qt(2) cur True by (auto simp: kinv_def)
    then show ?thesis
      using True ok qt(1) cur by (auto simp: suspend_def Let_def runs_def suspend_finish_def)
  next
    case False
    then have pc: "prstate (proctab s pid) = PR_CURR" "pid = currpid s" using ok(3) P(6) [OF r] False by auto
    let ?s1 = "set_state pid PR_SUSP s"
    have k: "kq L ?s1"
      by (rule upd_proc_kq [OF L(1)]) (use P(4,5) [OF r] pc ok(2) in \<open>auto simp: home_def\<close>)
    have so: "sem_ok L ?s1" using L(2) by (simp add: sem_ok_def)
    have b: "ndefers ?s1 = 0" "prstate (proctab ?s1 (currpid ?s1)) \<notin> {PR_CURR, PR_READY}" using cur pc by simp_all
    obtain s' where s': "resched ?s1 = Some s'" "kinv s'" "kframe {} ?s1 s'" "currpid s' \<noteq> currpid ?s1"
      "prstate (proctab s' (currpid ?s1)) = prstate (proctab ?s1 (currpid ?s1))"
      by (rule block_done [OF k so b]) (rule that)
    have "runs s' i" if "i \<noteq> pid" "runs s i" for i
      by (rule kframe_runs' [OF s'(3)]) (use that in \<open>simp add: runs_def\<close>)
    then show ?thesis using s'(1,2,4,5) False ok pc by (simp add: suspend_def runs_def)
  qed
qed

lemma suspend_kinv: "kinv s \<Longrightarrow> returns (suspend pid s) kinv"
proof -
  assume inv: "kinv s"
  consider "isbadpid s pid \<or> pid = 0 \<or> (prstate (proctab s pid) \<noteq> PR_CURR \<and> prstate (proctab s pid) \<noteq> PR_READY)"
    | "\<not> isbadpid s pid" "pid \<noteq> 0" "prstate (proctab s pid) = PR_CURR \<or> prstate (proctab s pid) = PR_READY" by blast
  then show ?thesis
  proof cases
    case 1
    then show ?thesis using inv by (auto simp: suspend_def give_def)
  next
    case 2
    show ?thesis by (rule returns_mono [OF suspend_returns [OF inv 2]]) simp
  qed
qed

lemma resume_returns:
  assumes inv: "kinv s" and ok: "\<not> isbadpid s pid" "prstate (proctab s pid) = PR_SUSP"
  shows "returns (resume pid s) (\<lambda>s'. kinv s' \<and> runs s' pid \<and> conts s' = (conts s)(currpid s := Ret (prprio (proctab s pid))))"
proof -
  have r: "0 \<le> pid" "pid < NPROC" using ok by (auto simp: isbadpid_def)
  from ready_kinv [OF inv _ r] ok obtain s' where s': "ready pid s = Some (OK, s')" "kinv s'" "kframe {pid} s s'" "runs s' pid"
    by (auto elim!: returnsE)
  then show ?thesis using ok kframe_fields(5) [OF s'(3)] by (simp add: resume_def give_def runs_def)
qed

lemma resume_kinv: "kinv s \<Longrightarrow> returns (resume pid s) kinv"
proof -
  assume inv: "kinv s"
  show ?thesis
  proof (cases "isbadpid s pid \<or> prstate (proctab s pid) \<noteq> PR_SUSP")
    case True
    then show ?thesis using inv by (auto simp: resume_def give_def)
  next
    case False
    then show ?thesis using resume_returns [OF inv, of pid] by (auto elim: returns_mono)
  qed
qed

lemma chprio_kinv:
  assumes inv: "kinv s" and pr: "- 32768 \<le> newprio" "newprio \<le> 32767"
  shows "returns (chprio pid newprio s) kinv"
proof -
  obtain L where L: "kq L s" "sem_ok L s" and cur: "prstate (proctab s (currpid s)) = PR_CURR" "ndefers s = 0"
    using kinvE [OF inv] by metis
  let ?s1 = "upd_proc pid (\<lambda>p. p\<lparr>prprio := newprio\<rparr>) s"
  note P = procs_okD [OF kqD(5) [OF L(1)]]
  have "kq L ?s1" if "0 \<le> pid" "pid < NPROC"
    by (rule upd_proc_kq [OF L(1)]) (use that pr P in \<open>auto simp: home_def split: pstate.split\<close>)
  moreover have "sem_ok L ?s1" using L(2) by (simp add: sem_ok_def)
  ultimately have "kinv ?s1" if "\<not> isbadpid s pid" using that cur by (auto simp: kinv_def isbadpid_def)
  then show ?thesis using inv by (simp add: chprio_def give_def)
qed

lemma getprio_kinv: "kinv s \<Longrightarrow> returns (getprio pid s) kinv"
  by (simp add: getprio_def give_def)

section \<open>Stacks\<close>

text \<open>The stacks of the processes are blocks of the heap, apart from each other and from the free
  list.\<close>

definition live :: "kstate \<Rightarrow> int \<Rightarrow> bool" where
  "live s p \<longleftrightarrow> 0 \<le> p \<and> p < NPROC \<and> prstate (proctab s p) \<noteq> PR_FREE"

definition stack_of :: "procent \<Rightarrow> block" where
  "stack_of p = (prstkbase p - prstklen p + 4, prstklen p)"

definition stacks_at :: "block list \<Rightarrow> kstate \<Rightarrow> bool" where
  "stacks_at bs s \<longleftrightarrow> heap_wf (kheap s) bs
     \<and> (\<forall>p. live s p \<longrightarrow> in_heap (kheap s) (stack_of (proctab s p)) \<and> block_bytes (stack_of (proctab s p)) \<inter> free_bytes bs = {})
     \<and> (\<forall>p q. live s p \<longrightarrow> live s q \<longrightarrow> p \<noteq> q \<longrightarrow>
          block_bytes (stack_of (proctab s p)) \<inter> block_bytes (stack_of (proctab s q)) = {})"

definition stacks_ok :: "kstate \<Rightarrow> bool" where "stacks_ok s \<longleftrightarrow> (\<exists>bs. stacks_at bs s)"

lemma stacks_cong:
  assumes "kheap s' = kheap s" "\<And>p. live s' p \<Longrightarrow> live s p \<and> stack_of (proctab s' p) = stack_of (proctab s p)"
  shows "stacks_at bs s \<Longrightarrow> stacks_at bs s'" "stacks_ok s \<Longrightarrow> stacks_ok s'"
proof -
  show "stacks_at bs s \<Longrightarrow> stacks_at bs s'" for bs
    using assms unfolding stacks_at_def by (metis (no_types, opaque_lifting))
  then show "stacks_ok s \<Longrightarrow> stacks_ok s'" by (auto simp: stacks_ok_def)
qed

text \<open>\<open>newpid\<close> searches the process table round from \<open>nextpid\<close>.\<close>

definition pid_advance :: "kstate \<Rightarrow> kstate" where "pid_advance s = s\<lparr>nextpid := nextpid s mod NPROC + 1\<rparr>"

interpretation pid_table: round_robin NPROC "\<lambda>s. True" "\<lambda>s. nextpid s mod NPROC" pid_advance
    "\<lambda>s i. prstate (proctab s i) = PR_FREE" newpid_loop "\<lambda>s. (SYSERR, s)" "\<lambda>s. (nextpid s mod NPROC, pid_advance s)"
  by unfold_locales (simp_all add: pid_advance_def Let_def mod_simps)

lemma pid_steps: "\<exists>nx. pid_table.steps k s = s\<lparr>nextpid := nx\<rparr>"
proof (induction k arbitrary: s)
  case 0
  have "s = s\<lparr>nextpid := nextpid s\<rparr>" by simp
  then show ?case unfolding pid_table.steps_def funpow.simps id_apply by (rule exI)
next
  case (Suc k)
  then obtain nx where "pid_table.steps k (pid_advance s) = (pid_advance s)\<lparr>nextpid := nx\<rparr>" by blast
  then have "pid_table.steps (Suc k) s = s\<lparr>nextpid := nx\<rparr>" unfolding pid_table.steps_Suc by (simp add: pid_advance_def)
  then show ?case by (rule exI)
qed

lemma newpid_result:
  obtains (full) n where "newpid s = (SYSERR, s\<lparr>nextpid := n\<rparr>)" "\<And>p. 0 \<le> p \<Longrightarrow> p < NPROC \<Longrightarrow> prstate (proctab s p) \<noteq> PR_FREE"
  | (found) n pid where "newpid s = (pid, s\<lparr>nextpid := n\<rparr>)" "0 \<le> pid" "pid < NPROC" "prstate (proctab s pid) = PR_FREE"
proof -
  from pid_table.search_all [of s]
  consider "newpid s = (SYSERR, pid_table.steps (nat NPROC) s)" "\<And>p. 0 \<le> p \<Longrightarrow> p < NPROC \<Longrightarrow> prstate (proctab s p) \<noteq> PR_FREE"
    | k where "newpid s = (nextpid (pid_table.steps k s) mod NPROC, pid_advance (pid_table.steps k s))"
        "prstate (proctab s (nextpid (pid_table.steps k s) mod NPROC)) = PR_FREE"
    unfolding newpid_def by blast
  then show thesis
  proof cases
    case 1
    obtain nx where "pid_table.steps (nat NPROC) s = s\<lparr>nextpid := nx\<rparr>" using pid_steps by blast
    then have "newpid s = (SYSERR, s\<lparr>nextpid := nx\<rparr>)" using 1(1) by (simp only:)
    then show ?thesis by (rule full) (rule 1(2))
  next
    case 2
    obtain nx where "pid_table.steps k s = s\<lparr>nextpid := nx\<rparr>" using pid_steps by blast
    note 2 [unfolded this pid_advance_def]
    then show ?thesis by (intro found [of "nx mod NPROC" "nx mod NPROC + 1"]) simp_all
  qed
qed

lemma create_alloc_cases:
  assumes inv: "kinv s" "stacks_ok s" and n: "8 dvd unat n"
  obtains (fail) s1 where "create_alloc n priority s = Some (None, s1)" "kinv s1" "stacks_ok s1" "conts s1 = conts s"
      "proctab s1 = proctab s" "kvm s1 = kvm s"
  | (ok) pid saddr h np where "create_alloc n priority s = Some (Some (pid, saddr), s\<lparr>nextpid := np, kheap := h\<rparr>)" "1 \<le> priority"
      "0 \<le> pid" "pid < NPROC" "prstate (proctab s pid) = PR_FREE"
      "\<And>s2. kheap s2 = h \<Longrightarrow> (\<And>p. p \<noteq> pid \<Longrightarrow> proctab s2 p = proctab s p) \<Longrightarrow> prstkbase (proctab s2 pid) = saddr \<Longrightarrow>
         prstklen (proctab s2 pid) = n \<Longrightarrow> stacks_ok s2"
proof (cases "priority < 1")
  case True
  then show thesis using fail [of s] inv by (simp add: create_alloc_def)
next
  case False
  obtain bs where bs: "stacks_at bs s" using inv(2) by (auto simp: stacks_ok_def)
  then have wf: "heap_wf (kheap s) bs" by (simp add: stacks_at_def)
  have sk: "stacks_ok (s\<lparr>nextpid := np\<rparr>)" for np using stacks_cong(2) [OF _ _ inv(2), of "s\<lparr>nextpid := np\<rparr>"] by (simp add: live_def)
  have kk: "kinv (s\<lparr>nextpid := np\<rparr>)" for np using inv(1) by (subst kinv_cong [of _ s]) simp_all
  show thesis
  proof (cases rule: newpid_result [of s])
    case (full np)
    then show thesis using fail [of "s\<lparr>nextpid := np\<rparr>"] False sk kk by (simp add: create_alloc_def)
  next
    case (found np pid)
    then have pid: "newpid s = (pid, s\<lparr>nextpid := np\<rparr>)" "pid \<noteq> SYSERR" by auto
    show thesis
    proof (cases rule: getstk_ok [OF wf n])
      case fail': 1
      have "kheap s = kheap s" ..
      then have "create_alloc n priority s = Some (None, s\<lparr>nextpid := np\<rparr>)"
        using fail' pid False by (simp add: create_alloc_def)
      then show thesis using fail [of "s\<lparr>nextpid := np\<rparr>"] sk kk by simp
    next
      case got: (2 a h' bs')
      have alloc: "create_alloc n priority s = Some (Some (pid, a + n - 4), s\<lparr>nextpid := np, kheap := h'\<rparr>)"
        using got(1,2) pid False by (simp add: create_alloc_def)
      have st: "stacks_ok s2" if s2: "kheap s2 = h'" "\<And>p. p \<noteq> pid \<Longrightarrow> proctab s2 p = proctab s p"
        "prstkbase (proctab s2 pid) = a + n - 4" "prstklen (proctab s2 pid) = n" for s2
      proof -
        have new: "stack_of (proctab s2 pid) = (a, n)" using s2(3,4) by (simp add: stack_of_def)
        have old: "stack_of (proctab s2 p) = stack_of (proctab s p)" "live s2 p = live s p" if "p \<noteq> pid" for p
          using s2(2) [OF that] by (simp_all add: live_def)
        have ih: "in_heap h' b = in_heap (kheap s) b" for b using got(7,8) by (simp add: in_heap_def)
        have "stacks_at bs' s2"
          unfolding stacks_at_def s2(1) ih
        proof (intro conjI allI impI)
          show "heap_wf h' bs'" by (rule got(6))
          fix p assume p: "live s2 p"
          show "in_heap (kheap s) (stack_of (proctab s2 p))"
            using p bs got(3) new old unfolding stacks_at_def by (cases "p = pid") auto
          show "block_bytes (stack_of (proctab s2 p)) \<inter> free_bytes bs' = {}"
            using p bs got(5) new old unfolding stacks_at_def by (cases "p = pid") auto
          fix q assume q: "live s2 q" "p \<noteq> q"
          show "block_bytes (stack_of (proctab s2 p)) \<inter> block_bytes (stack_of (proctab s2 q)) = {}"
          proof (cases "p = pid \<or> q = pid")
            case True
            define r where "r = (if p = pid then q else p)"
            have r: "r \<noteq> pid" "live s r" using True p q old by (auto simp: r_def)
            then have "block_bytes (stack_of (proctab s r)) \<inter> block_bytes (a, n) = {}"
              using bs got(4) unfolding stacks_at_def by blast
            then show ?thesis using True q new old r by (auto simp: r_def split: if_splits)
          next
            case False
            then show ?thesis using p q bs old unfolding stacks_at_def by simp
          qed
        qed
        then show ?thesis by (auto simp: stacks_ok_def)
      qed
      have pr: "1 \<le> priority" using False by simp
      show thesis by (rule ok [OF alloc pr found(2-4) st])
    qed
  qed
qed

lemma new_entry_kinv:
  assumes inv: "kinv s" and p: "0 \<le> pid" "pid < NPROC" "prstate (proctab s pid) = PR_FREE"
    and f: "prstate (f (proctab s pid)) = PR_SUSP" "- 32768 \<le> prprio (f (proctab s pid))" "prprio (f (proctab s pid)) \<le> 32767"
  shows "kinv (upd_proc pid f s)"
proof -
  obtain L where L: "kq L s" "sem_ok L s" and cur: "prstate (proctab s (currpid s)) = PR_CURR" "ndefers s = 0"
    using kinvE [OF inv] by metis
  have "pid \<noteq> currpid s" using p(3) cur by auto
  moreover have "pid \<noteq> 0" using p(3) procs_okD(3) [OF kqD(5) [OF L(1)]] by auto
  then have "kq L (upd_proc pid f s)"
    by (intro upd_proc_kq [OF L(1)]) (use p f in \<open>auto simp: home_def\<close>)
  moreover have "sem_ok L (upd_proc pid f s)" using L(2) by (simp add: sem_ok_def)
  ultimately show ?thesis using cur by (auto simp: kinv_def)
qed

lemma stack_size_dvd: "8 dvd unat (stack_size ssize)"
  unfolding stack_size_def roundmb_def and_not7 by simp

text \<open>What \<open>create\<close> and \<open>vcreate\<close> leave for the new process.\<close>

definition created :: "int \<Rightarrow> int \<Rightarrow> string \<Rightarrow> kstate \<Rightarrow> kstate \<Rightarrow> bool" where
  "created pid priority name s s' \<longleftrightarrow> 0 \<le> pid \<and> pid < NPROC \<and> prstate (proctab s pid) = PR_FREE
     \<and> prstate (proctab s' pid) = PR_SUSP \<and> prprio (proctab s' pid) = priority \<and> prname (proctab s' pid) = take 15 name
     \<and> prparent (proctab s' pid) = currpid s \<and> \<not> prhasmsg (proctab s' pid)
     \<and> prcount s' = prcount s + 1 \<and> (\<forall>i. i \<noteq> pid \<longrightarrow> proctab s' i = proctab s i)
     \<and> semtab s' = semtab s \<and> queuetab s' = queuetab s \<and> currpid s' = currpid s"

lemma create_returns:
  assumes inv: "kinv s" "stacks_ok s" and pr: "priority \<le> 32767"
  shows "returns (create initret funcaddr ssize priority name args s) (\<lambda>s'. kinv s' \<and> stacks_ok s'
    \<and> ((conts s' (currpid s) = Ret SYSERR \<and> proctab s' = proctab s)
       \<or> (\<exists>pid. conts s' (currpid s) = Ret pid \<and> created pid priority name s s' \<and> page_addr (proctab s' pid) = PAGE_DIR_ADDR_START
            \<and> prstkptr (proctab s' pid) = fst (create_frame initret funcaddr args (prstkbase (proctab s' pid)) (stack s))
            \<and> stack s' = snd (create_frame initret funcaddr args (prstkbase (proctab s' pid)) (stack s)))))"
proof (cases rule: create_alloc_cases [OF inv stack_size_dvd [of ssize], of priority])
  case (1 s1)
  have "stacks_ok (set_cont (currpid s) (Ret SYSERR) s1)"
    by (rule stacks_cong(2) [OF _ _ 1(3)]) (simp_all add: live_def set_cont_def)
  then show ?thesis using 1 by (simp add: create_def)
next
  case (2 pid saddr h np)
  define sp m where "sp = fst (create_frame initret funcaddr args saddr (stack s))"
    and "m = snd (create_frame initret funcaddr args saddr (stack s))"
  let ?f = "\<lambda>p. (create_entry saddr (stack_size ssize) priority name (currpid s) p)\<lparr>page_addr := PAGE_DIR_ADDR_START, prstkptr := sp\<rparr>"
  let ?s1 = "s\<lparr>nextpid := np, kheap := h, prcount := prcount s + 1, stack := m\<rparr>"
  have c: "create initret funcaddr ssize priority name args s
      = give pid s (set_cont pid (Ret OK) (upd_proc pid ?f ?s1))"
    using 2(1) by (simp add: create_def Let_def case_prod_unfold upd_proc_def getpid_def sp_def m_def)
  have k1: "kinv ?s1" using inv(1) by (subst kinv_cong [of _ s]) simp_all
  have k2: "kinv (upd_proc pid ?f ?s1)"
    by (rule new_entry_kinv [OF k1 2(3,4)]) (use 2 pr in \<open>simp_all add: create_entry_def\<close>)
  have sk: "stacks_ok (set_cont (currpid s) (Ret pid) (set_cont pid (Ret OK) (upd_proc pid ?f ?s1)))"
    by (rule 2(6)) (simp_all add: set_cont_def upd_proc_def create_entry_def)
  have "kinv (set_cont (currpid s) (Ret pid) (set_cont pid (Ret OK) (upd_proc pid ?f ?s1)))" using k2 by simp
  moreover have "created pid priority name s (set_cont (currpid s) (Ret pid) (set_cont pid (Ret OK) (upd_proc pid ?f ?s1)))"
    using 2(3-5) by (simp add: created_def create_entry_def set_cont_def)
  ultimately show ?thesis
    using sk unfolding c returns_give
    by (auto simp: create_entry_def set_cont_def upd_proc_def sp_def m_def)
qed

lemma vcreate_returns:
  assumes inv: "kinv s" "stacks_ok s" and pr: "priority \<le> 32767"
    and dir: "\<exists>g. PD_START \<le> g \<and> g < 2 ^ 20 \<and> \<not> pt_exists (pmem (kvm s) (ent g 0))"
  shows "returns (vcreate initret funcaddr ssize priority name args s) (\<lambda>s'. kinv s' \<and> stacks_ok s'
    \<and> ((conts s' (currpid s) = Ret SYSERR \<and> proctab s' = proctab s \<and> pmem (kvm s') = pmem (kvm s))
       \<or> (\<exists>pid f. conts s' (currpid s) = Ret pid \<and> created pid priority name s s' \<and> page_addr (proctab s' pid) = of_nat f * 4096
            \<and> initialize_user_page_dir (pmem (kvm s)) = Some (f, pmem (kvm s')))))"
proof -
  let ?s0 = "s\<lparr>kvm := load_pd PAGE_DIR_ADDR_START (kvm s)\<rparr>"
  have inv0: "kinv ?s0" "stacks_ok ?s0"
    using inv kinv_cong [of ?s0 s] stacks_cong(2) [OF _ _ inv(2), of ?s0] by (simp_all add: live_def)
  have pm: "pmem (load_pd a v) = pmem v" for a v by (simp add: load_pd_def write_cr3_def)
  show ?thesis
  proof (cases rule: create_alloc_cases [OF inv0 stack_size_dvd [of ssize], of priority])
    case (1 s1)
    have "stacks_ok (set_cont (currpid s) (Ret SYSERR) s1)"
      by (rule stacks_cong(2) [OF _ _ 1(3)]) (simp_all add: live_def set_cont_def)
    then show ?thesis using 1 by (simp add: vcreate_def pm)
  next
    case (2 pid saddr h np)
    define g where "g = (LEAST g. PD_START \<le> g \<and> g < 2 ^ 20 \<and> \<not> pt_exists (pmem (kvm s) (ent g 0)))"
    have g: "PD_START \<le> g" "g < 2 ^ 20" "\<not> pt_exists (pmem (kvm s) (ent g 0))"
      using LeastI_ex [OF dir] unfolding g_def by blast+
    have least: "pt_exists (pmem (kvm s) (ent k 0))" if "PD_START \<le> k" "k < g" for k
      using not_less_Least [of k "\<lambda>g. PD_START \<le> g \<and> g < 2 ^ 20 \<and> \<not> pt_exists (pmem (kvm s) (ent g 0))"] that g(2)
      unfolding g_def [symmetric] by auto
    obtain pmn where dirn: "initialize_user_page_dir (pmem (kvm s)) = Some (g, pmn)"
      using user_page_dir_returns [where m = "pmem (kvm s)", OF g(1,2) least g(3)] by blast
    define sp m where "sp = fst (create_frame initret funcaddr args saddr (stack s))"
      and "m = snd (create_frame initret funcaddr args saddr (stack s))"
    let ?f = "\<lambda>p. (create_entry saddr (stack_size ssize) priority name (currpid s) p)\<lparr>page_addr := of_nat g * 4096, prstkptr := sp\<rparr>"
    let ?v = "load_pd (page_addr (proctab s (currpid s))) ((load_pd PAGE_DIR_ADDR_START (kvm s))\<lparr>pmem := pmn\<rparr>)"
    let ?s0 = "s\<lparr>nextpid := np, kheap := h, prcount := prcount s + 1, stack := m\<rparr>" and ?s1 = "s\<lparr>nextpid := np, kheap := h, prcount := prcount s + 1, stack := m, kvm := ?v\<rparr>"
    have pc: "currpid s \<noteq> pid" using 2(5) inv(1) by (auto simp: kinv_def)
    have "vcreate initret funcaddr ssize priority name args s
        = give pid s (set_cont pid (Ret OK) ((upd_proc pid ?f ?s0)\<lparr>kvm := ?v\<rparr>))"
      using 2(1) dirn pc by (simp add: vcreate_def Let_def case_prod_unfold upd_proc_def getpid_def sp_def m_def pm)
    also have "(upd_proc pid ?f ?s0)\<lparr>kvm := ?v\<rparr> = upd_proc pid ?f ?s1" by (simp add: upd_proc_def)
    finally have c: "vcreate initret funcaddr ssize priority name args s = give pid s (set_cont pid (Ret OK) (upd_proc pid ?f ?s1))" .
    have k1: "kinv ?s1" using inv(1) by (subst kinv_cong [of _ s]) simp_all
    have k2: "kinv (upd_proc pid ?f ?s1)"
      by (rule new_entry_kinv [OF k1 2(3,4)]) (use 2 pr in \<open>simp_all add: create_entry_def\<close>)
    have sk: "stacks_ok (set_cont (currpid s) (Ret pid) (set_cont pid (Ret OK) (upd_proc pid ?f ?s1)))"
      by (rule 2(6)) (simp_all add: set_cont_def upd_proc_def create_entry_def)
    have "kinv (set_cont (currpid s) (Ret pid) (set_cont pid (Ret OK) (upd_proc pid ?f ?s1)))" using k2 by simp
    moreover have "created pid priority name s (set_cont (currpid s) (Ret pid) (set_cont pid (Ret OK) (upd_proc pid ?f ?s1)))"
      using 2(3-5) by (simp add: created_def create_entry_def set_cont_def)
    ultimately show ?thesis
      using sk dirn unfolding c returns_give
      by (auto simp: create_entry_def set_cont_def upd_proc_def pm)
  qed
qed

section \<open>Killing keeps the invariant\<close>

lemma upd_proc_absorb: "set_state p st (upd_proc p (\<lambda>e. e\<lparr>prstate := st'\<rparr>) s) = set_state p st s"
  by (simp add: upd_proc_def)

text \<open>From any state in which \<open>pid\<close> is on no queue.\<close>

lemma free_kinv:
  assumes k: "kq L s" "sem_ok L s" and p: "0 < pid" "pid < NPROC" "home s pid = None" "pid \<noteq> currpid s"
    and cur: "prstate (proctab s (currpid s)) = PR_CURR" "ndefers s = 0"
  shows "kinv (set_state pid PR_FREE s)"
proof -
  note P = procs_okD [OF kqD(5) [OF k(1)]]
  have "kq L (set_state pid PR_FREE s)"
    by (rule upd_proc_kq [OF k(1)]) (use p P(4,5) [of pid] in \<open>auto simp: home_def\<close>)
  moreover have "sem_ok L (set_state pid PR_FREE s)" using k(2) by (simp add: sem_ok_def)
  ultimately show ?thesis using cur p(4) by (auto simp: kinv_def)
qed

lemma kill_sleeper:
  assumes inv: "kinv s" and p: "0 < pid" "pid < NPROC" "prstate (proctab s pid) = PR_SLEEP \<or> prstate (proctab s pid) = PR_RECTIM"
  obtains qt where "snd (unsleep pid s) = s\<lparr>queuetab := qt\<rparr>" "kinv (set_state pid PR_FREE (s\<lparr>queuetab := qt\<rparr>))"
proof -
  obtain L where L: "kq L s" "sem_ok L s" and cur: "prstate (proctab s (currpid s)) = PR_CURR" "ndefers s = 0"
    using kinvE [OF inv] by metis
  note D = kqD [OF L(1)]
  have "home s pid = Some (sleepq s)" using p(3) by (auto simp: home_def)
  then have "pid \<in> set (L (sleepq s))" using placed_iff [OF D(3) _ p(2) D(7)] p(1) by simp
  then obtain qt where u: "unsleep pid s = (OK, s\<lparr>queuetab := qt\<rparr>)"
    "kq (L(sleepq s := remove1 pid (L (sleepq s)))) (set_state pid PR_SUSP (s\<lparr>queuetab := qt\<rparr>))"
    by (rule unsleep_kq [OF L(1)]) (rule that)
  let ?s1 = "set_state pid PR_SUSP (s\<lparr>queuetab := qt\<rparr>)"
  have so: "sem_ok (L(sleepq s := remove1 pid (L (sleepq s)))) ?s1" by (rule sem_ok_sleep [OF D(2) L(2)]) simp
  have pc: "pid \<noteq> currpid s" using p(3) cur by auto
  have "kinv (set_state pid PR_FREE ?s1)"
    by (rule free_kinv [OF u(2) so p(1,2)]) (use pc cur in \<open>simp_all add: home_def\<close>)
  then show thesis using that u(1) by (simp add: upd_proc_absorb)
qed

lemma kill_ready:
  assumes inv: "kinv s" and p: "0 < pid" "pid < NPROC" "prstate (proctab s pid) = PR_READY"
  obtains qt where "snd (k_getitem pid s) = s\<lparr>queuetab := qt\<rparr>" "kinv (set_state pid PR_FREE (s\<lparr>queuetab := qt\<rparr>))"
proof -
  obtain L where L: "kq L s" "sem_ok L s" and cur: "prstate (proctab s (currpid s)) = PR_CURR" "ndefers s = 0"
    using kinvE [OF inv] by metis
  note D = kqD [OF L(1)]
  have "home s pid = Some (readylist s)" using p(3) by (simp add: home_def)
  then have "pid \<in> set (L (readylist s))" using placed_iff [OF D(3) _ p(2) D(6)] p(1) by simp
  moreover have "pid \<noteq> 0" using p(1) by simp
  ultimately obtain qt where qt: "k_getitem pid s = (pid, s\<lparr>queuetab := qt\<rparr>)"
    "kq (L(readylist s := remove1 pid (L (readylist s)))) (set_state pid PR_FREE (s\<lparr>queuetab := qt\<rparr>))"
    by (rule remove_kq [OF L(1) D(6), where st = PR_FREE]) (simp, rule that)
  have "sem_ok (L(readylist s := remove1 pid (L (readylist s)))) (set_state pid PR_FREE (s\<lparr>queuetab := qt\<rparr>))"
    by (rule sem_ok_frame [OF D(2) L(2)]) simp_all
  then have "kinv (set_state pid PR_FREE (s\<lparr>queuetab := qt\<rparr>))" using qt(2) cur p(3) by (auto simp: kinv_def)
  then show thesis using that qt(1) by simp
qed

lemma kill_waiter:
  assumes inv: "kinv s" and p: "0 < pid" "pid < NPROC" "prstate (proctab s pid) = PR_WAIT"
  defines "s1 \<equiv> upd_sem (prsem (proctab s pid)) (\<lambda>e. e\<lparr>scount := scount e + 1\<rparr>) s"
  obtains qt where "snd (k_getitem pid s1) = s1\<lparr>queuetab := qt\<rparr>" "kinv (set_state pid PR_FREE (s1\<lparr>queuetab := qt\<rparr>))"
proof -
  obtain L where L: "kq L s" "sem_ok L s" and cur: "prstate (proctab s (currpid s)) = PR_CURR" "ndefers s = 0"
    using kinvE [OF inv] by metis
  note D = kqD [OF L(1)] and P = procs_okD [OF kqD(5) [OF L(1)]]
  define sem q where "sem = prsem (proctab s pid)" and "q = squeue (semtab s sem)"
  have sem: "0 \<le> sem" "sem < NSEM" using P(7,8) [of pid] p by (simp_all add: sem_def)
  have q: "isq (nextqid s) q" "q \<noteq> readylist s" "q \<noteq> sleepq s" using ids_okD(5-7) [OF D(2) sem] by (simp_all add: q_def)
  have "home s pid = Some q" using p(3) by (simp add: home_def q_def sem_def)
  then have pq: "pid \<in> set (L q)" using placed_iff [OF D(3) _ p(2) q(1)] p(1) by simp
  have k1: "kq L s1" unfolding s1_def using L(1) by (subst upd_sem_kq) simp_all
  have nq: "isq (nextqid s1) q" "pid \<noteq> 0" using q(1) p(1) by (simp_all add: s1_def)
  obtain qt where qt: "k_getitem pid s1 = (pid, s1\<lparr>queuetab := qt\<rparr>)"
    "kq (L(q := remove1 pid (L q))) (set_state pid PR_FREE (s1\<lparr>queuetab := qt\<rparr>))"
    by (rule remove_kq [OF k1 nq(1) pq nq(2), where st = PR_FREE]) (simp, rule that)
  have used: "sstate (semtab s sem) = S_USED"
    using sem_entry(2) [OF L(2) sem] pq by (cases "sstate (semtab s sem)") (auto simp: q_def)
  have "length (L q) \<noteq> 0" using pq by auto
  then have "sem_entry_ok (remove1 pid (L q)) ((semtab s sem)\<lparr>scount := scount (semtab s sem) + 1\<rparr>)"
    using sem_entry(1) [OF L(2) sem used] pq used by (auto simp: sem_entry_ok_def q_def length_remove1)
  then have so: "sem_ok (L(q := remove1 pid (L q))) (set_state pid PR_FREE (s1\<lparr>queuetab := qt\<rparr>))"
    unfolding q_def by (intro sem_ok_change [OF D(2) L(2) sem, where e = "(semtab s sem)\<lparr>scount := scount (semtab s sem) + 1\<rparr>"])
      (simp_all add: s1_def sem_def)
  have "pid \<noteq> currpid s" using p(3) cur by auto
  then have "kinv (set_state pid PR_FREE (s1\<lparr>queuetab := qt\<rparr>))" using qt(2) so cur by (auto simp: kinv_def s1_def)
  then show thesis using that qt(1) by simp
qed

lemma stacks_release:
  assumes st: "stacks_at bs s" and p: "live s pid"
  obtains h bs' where "freestk (prstkbase (proctab s pid)) (prstklen (proctab s pid)) (kheap s) = Some (OK, h)"
    "free_bytes bs' = free_bytes bs \<union> block_bytes (stack_of (proctab s pid))"
    "\<forall>s'. kheap s' = h \<longrightarrow> \<not> live s' pid \<longrightarrow>
       (\<forall>i. live s' i \<longrightarrow> live s i \<and> stack_of (proctab s' i) = stack_of (proctab s i)) \<longrightarrow> stacks_at bs' s'"
proof -
  let ?e = "proctab s pid"
  have S: "heap_wf (kheap s) bs" "in_heap (kheap s) (stack_of ?e)" "block_bytes (stack_of ?e) \<inter> free_bytes bs = {}"
    using st p by (auto simp: stacks_at_def)
  obtain h bs' where h: "freestk (prstkbase ?e) (prstklen ?e) (kheap s) = Some (OK, h)" "heap_wf h bs'"
    "free_bytes bs' = free_bytes bs \<union> block_bytes (stack_of ?e)" "minheap h = minheap (kheap s)" "maxheap h = maxheap (kheap s)"
    using freestk_ok [OF S(1), of "prstkbase ?e - prstklen ?e + 4" "prstklen ?e"] S(2,3) by (auto simp: stack_of_def)
  have ih: "in_heap h b = in_heap (kheap s) b" for b using h(4,5) by (simp add: in_heap_def)
  have "stacks_at bs' s'" if s': "kheap s' = h" "\<not> live s' pid"
    "\<And>i. live s' i \<Longrightarrow> live s i \<and> stack_of (proctab s' i) = stack_of (proctab s i)" for s'
    unfolding stacks_at_def s'(1) ih
  proof (intro conjI allI impI)
    show "heap_wf h bs'" by (rule h(2))
    fix i assume i: "live s' i"
    then have n: "i \<noteq> pid" and o: "live s i" "stack_of (proctab s' i) = stack_of (proctab s i)" using s'(2,3) by auto
    show "in_heap (kheap s) (stack_of (proctab s' i))" using st o by (simp add: stacks_at_def)
    have "block_bytes (stack_of (proctab s i)) \<inter> free_bytes bs = {}"
      "block_bytes (stack_of (proctab s i)) \<inter> block_bytes (stack_of ?e) = {}"
      using st o(1) p n unfolding stacks_at_def by blast+
    then show "block_bytes (stack_of (proctab s' i)) \<inter> free_bytes bs' = {}" unfolding h(3) o(2) by blast
    fix j assume "live s' j" "i \<noteq> j"
    then show "block_bytes (stack_of (proctab s' i)) \<inter> block_bytes (stack_of (proctab s' j)) = {}"
      using st o s'(3) [of j] by (simp add: stacks_at_def)
  qed
  then show thesis using that [OF h(1,3)] by blast
qed

text \<open>What a step of \<open>kill\<close> on \<open>pid\<close> leaves of everything else.\<close>

definition others_kept :: "int \<Rightarrow> kstate \<Rightarrow> kstate \<Rightarrow> bool" where
  "others_kept pid s s' \<longleftrightarrow> kheap s' = kheap s \<and> prcount s' = prcount s
     \<and> (\<forall>i. i \<noteq> pid \<longrightarrow> live s' i = live s i \<and> stack_of (proctab s' i) = stack_of (proctab s i))"

lemma others_kept_same:
  "kheap s' = kheap s \<Longrightarrow> prcount s' = prcount s \<Longrightarrow> (\<And>i. i \<noteq> pid \<Longrightarrow> proctab s' i = proctab s i) \<Longrightarrow> others_kept pid s s'"
  by (simp add: others_kept_def live_def)

lemma kill_current:
  assumes inv: "kinv s" and p: "0 < pid" "pid < NPROC" "prstate (proctab s pid) = PR_CURR"
  shows "returns (resched (set_state pid PR_FREE (s\<lparr>kvm := v\<rparr>)))
    (\<lambda>s'. kinv s' \<and> prstate (proctab s' pid) = PR_FREE \<and> others_kept pid s s')"
proof -
  obtain L where L: "kq L s" "sem_ok L s" and cur: "prstate (proctab s (currpid s)) = PR_CURR" "ndefers s = 0"
    using kinvE [OF inv] by metis
  note P = procs_okD [OF kqD(5) [OF L(1)]]
  have pc: "pid = currpid s" using P(6) p by simp
  let ?s3 = "set_state pid PR_FREE (s\<lparr>kvm := v\<rparr>)"
  have "kq L (s\<lparr>kvm := v\<rparr>)" using L(1) by (subst kq_cong(1) [of _ s]) simp_all
  then have k3: "kq L ?s3"
    by (rule upd_proc_kq) (use P(4,5) [of pid] p pc cur in \<open>auto simp: home_def\<close>)
  have so: "sem_ok L ?s3" using L(2) by (simp add: sem_ok_def)
  have b: "ndefers ?s3 = 0" "prstate (proctab ?s3 (currpid ?s3)) \<notin> {PR_CURR, PR_READY}" using cur pc by simp_all
  obtain s' where s': "resched ?s3 = Some s'" "kinv s'" "kframe {} ?s3 s'" "prstate (proctab s' (currpid ?s3)) = prstate (proctab ?s3 (currpid ?s3))"
    by (rule block_done [OF k3 so b]) (rule that)
  have "stack_of (proctab s' i) = stack_of (proctab ?s3 i)" for i
    by (rule kframe_entry [OF s'(3)]) (simp add: stack_of_def)
  moreover have "live s' i = live s i" if "i \<noteq> pid" for i
    using kframe_free [OF s'(3), of i] that by (simp add: live_def)
  ultimately have "others_kept pid s s'" using kframe_fields(7,8) [OF s'(3)] by (simp add: others_kept_def)
  then show ?thesis using s' pc by simp
qed

lemma kill_rest_returns:
  assumes inv: "kinv s" and p: "0 < pid" "pid < NPROC"
  shows "returns (kill_rest pid s0 s) (\<lambda>s'. kinv s' \<and> prstate (proctab s' pid) = PR_FREE \<and> others_kept pid s s')"
proof -
  obtain L where L: "kq L s" "sem_ok L s" and cur: "prstate (proctab s (currpid s)) = PR_CURR" "ndefers s = 0"
    using kinvE [OF inv] by metis
  have fin: ?thesis if g: "kill_rest pid s0 s = give OK s0 s2" and k: "kinv s2"
    and f: "kheap s2 = kheap s" "prstate (proctab s2 pid) = PR_FREE" "prcount s2 = prcount s" "\<And>i. i \<noteq> pid \<Longrightarrow> proctab s2 i = proctab s i" for s2
  proof -
    have "others_kept pid s (set_cont (currpid s0) (Ret OK) s2)" by (rule others_kept_same) (use f in simp_all)
    then show ?thesis using g k f by simp
  qed
  consider (cur) "prstate (proctab s pid) = PR_CURR" | (sleep) "prstate (proctab s pid) = PR_SLEEP \<or> prstate (proctab s pid) = PR_RECTIM"
    | (wait) "prstate (proctab s pid) = PR_WAIT" | (ready) "prstate (proctab s pid) = PR_READY"
    | (none) "prstate (proctab s pid) = PR_RECV \<or> prstate (proctab s pid) = PR_SUSP \<or> prstate (proctab s pid) = PR_FREE"
    by (cases "prstate (proctab s pid)") simp_all
  then show ?thesis
  proof cases
    case cur': cur
    let ?v = "kill_vm (page_addr (proctab s pid)) (kvm s)"
    have "kill_rest pid s0 s = resched ((set_state pid PR_FREE s)\<lparr>kvm := ?v\<rparr>)"
      unfolding kill_rest_def using cur' by (simp add: Let_def)
    also have "(set_state pid PR_FREE s)\<lparr>kvm := ?v\<rparr> = set_state pid PR_FREE (s\<lparr>kvm := ?v\<rparr>)" by (simp add: upd_proc_def)
    finally show ?thesis using kill_current [OF inv p cur', of ?v] by (simp only:)
  next
    case sleep
    obtain qt where q: "snd (unsleep pid s) = s\<lparr>queuetab := qt\<rparr>" "kinv (set_state pid PR_FREE (s\<lparr>queuetab := qt\<rparr>))"
      by (rule kill_sleeper [OF inv p sleep]) (rule that)
    have "kill_rest pid s0 s = give OK s0 (set_state pid PR_FREE (s\<lparr>queuetab := qt\<rparr>))"
      unfolding kill_rest_def Let_def q(1) using sleep by (elim disjE) simp_all
    then show ?thesis by (rule fin [OF _ q(2)]) simp_all
  next
    case wait
    let ?s2 = "upd_sem (prsem (proctab s pid)) (\<lambda>e. e\<lparr>scount := scount e + 1\<rparr>) s"
    obtain qt where q: "snd (k_getitem pid ?s2) = ?s2\<lparr>queuetab := qt\<rparr>" "kinv (set_state pid PR_FREE (?s2\<lparr>queuetab := qt\<rparr>))"
      by (rule kill_waiter [OF inv p wait]) (rule that)
    have "kill_rest pid s0 s = give OK s0 (set_state pid PR_FREE (?s2\<lparr>queuetab := qt\<rparr>))"
      unfolding kill_rest_def Let_def q(1) using wait by simp
    then show ?thesis by (rule fin [OF _ q(2)]) (simp_all add: upd_sem_def)
  next
    case ready
    obtain qt where q: "snd (k_getitem pid s) = s\<lparr>queuetab := qt\<rparr>" "kinv (set_state pid PR_FREE (s\<lparr>queuetab := qt\<rparr>))"
      by (rule kill_ready [OF inv p ready]) (rule that)
    have "kill_rest pid s0 s = give OK s0 (set_state pid PR_FREE (s\<lparr>queuetab := qt\<rparr>))"
      unfolding kill_rest_def Let_def q(1) using ready by simp
    then show ?thesis by (rule fin [OF _ q(2)]) simp_all
  next
    case none
    have "kill_rest pid s0 s = give OK s0 (set_state pid PR_FREE s)" unfolding kill_rest_def Let_def using none by (elim disjE) simp_all
    moreover have "kinv (set_state pid PR_FREE s)"
      by (rule free_kinv [OF L p]) (use none cur in \<open>auto simp: home_def\<close>)
    ultimately show ?thesis by (rule fin) simp_all
  qed
qed

lemma kill_finish_returns:
  assumes inv: "kinv s" "stacks_at bs s" and p: "live s pid" "pid \<noteq> 0"
  shows "returns (kill_finish pid s) (\<lambda>s'. kinv s' \<and> prstate (proctab s' pid) = PR_FREE
    \<and> (\<exists>bs'. stacks_at bs' s' \<and> free_bytes bs' = free_bytes bs \<union> block_bytes (stack_of (proctab s pid)))
    \<and> (\<forall>i. i \<noteq> pid \<longrightarrow> live s' i = live s i) \<and> prcount s' = prcount s)"
proof -
  have r: "0 < pid" "pid < NPROC" using p by (auto simp: live_def)
  obtain h bs' where h: "freestk (prstkbase (proctab s pid)) (prstklen (proctab s pid)) (kheap s) = Some (OK, h)"
    "free_bytes bs' = free_bytes bs \<union> block_bytes (stack_of (proctab s pid))"
    "\<forall>s'. kheap s' = h \<longrightarrow> \<not> live s' pid \<longrightarrow>
       (\<forall>i. live s' i \<longrightarrow> live s i \<and> stack_of (proctab s' i) = stack_of (proctab s i)) \<longrightarrow> stacks_at bs' s'"
    by (rule stacks_release [OF inv(2) p(1)]) (rule that)
  have k1: "kinv (s\<lparr>kheap := h\<rparr>)" using inv(1) by (subst kinv_cong [of _ s]) simp_all
  have e: "kill_finish pid s = kill_rest pid s (s\<lparr>kheap := h\<rparr>)" by (simp add: kill_finish_def h(1))
  show ?thesis unfolding e
  proof (rule returns_mono [OF kill_rest_returns [OF k1 r]])
    fix s' assume s': "kinv s' \<and> prstate (proctab s' pid) = PR_FREE \<and> others_kept pid (s\<lparr>kheap := h\<rparr>) s'"
    then have o: "kheap s' = h" "prcount s' = prcount s"
      "i \<noteq> pid \<Longrightarrow> live s' i = live s i \<and> stack_of (proctab s' i) = stack_of (proctab s i)" for i
      by (simp_all add: others_kept_def live_def)
    have n: "\<not> live s' pid" using s' by (simp add: live_def)
    then have l: "live s' i \<longrightarrow> live s i \<and> stack_of (proctab s' i) = stack_of (proctab s i)" for i using o(3) by (cases "i = pid") auto
    have "stacks_at bs' s'" by (rule h(3) [rule_format]) (use o n l in auto)
    then show "kinv s' \<and> prstate (proctab s' pid) = PR_FREE
      \<and> (\<exists>bs'. stacks_at bs' s' \<and> free_bytes bs' = free_bytes bs \<union> block_bytes (stack_of (proctab s pid)))
      \<and> (\<forall>i. i \<noteq> pid \<longrightarrow> live s' i = live s i) \<and> prcount s' = prcount s" using s' h(2) o by blast
  qed
qed

text \<open>\<open>kill\<close>: refused, the last process, interrupted by the parent, or carried through.\<close>

lemma kill_returns:
  assumes inv: "kinv s" "stacks_at bs s" and p: "live s pid" "pid \<noteq> 0" and more: "2 < prcount s"
  shows "returns (kill pid s) (\<lambda>s'. kinv s' \<and> prcount s' = prcount s - 1 \<and>
    (if conts s' (currpid s) = KillK pid \<and> currpid s' \<noteq> currpid s \<and> live s' pid then stacks_at bs s'
     else prstate (proctab s' pid) = PR_FREE
       \<and> (\<exists>bs'. stacks_at bs' s' \<and> free_bytes bs' = free_bytes bs \<union> block_bytes (stack_of (proctab s pid)))))"
proof -
  have bad: "\<not> isbadpid s pid" using p by (auto simp: live_def isbadpid_def)
  let ?s1 = "s\<lparr>prcount := prcount s - 1\<rparr>"
  have k1: "kinv ?s1" using inv(1) by (subst kinv_cong [of _ s]) simp_all
  define par where "par = prparent (proctab s pid)"
  define s0 where "s0 = upd_proc par (\<lambda>p. p\<lparr>prmsg := of_int pid, prhasmsg := True\<rparr>) ?s1"
  obtain r s2 where s2: "send_msg par (of_int pid) ?s1 = Some (r, s2)" "kinv s2"
    and fr: "\<not> isbadpid ?s1 par \<and> kframe {par} s0 s2 \<or> s2 = ?s1"
    using send_msg_returns [OF k1, of par "of_int pid"] unfolding s0_def
    by (elim returnsE) (auto split: if_splits prod.splits)
  have same: "kheap s2 = kheap s \<and> prcount s2 = prcount s - 1 \<and> stack_of (proctab s2 i) = stack_of (proctab s i)
      \<and> (prstate (proctab s2 i) = PR_FREE \<longleftrightarrow> prstate (proctab s i) = PR_FREE)" for i
    using fr
  proof (elim disjE conjE)
    assume b: "\<not> isbadpid ?s1 par" and k: "kframe {par} s0 s2"
    have z: "prstate (proctab s0 i) = prstate (proctab s i)" "stack_of (proctab s0 i) = stack_of (proctab s i)" for i
      by (simp_all add: s0_def stack_of_def)
    have "stack_of (proctab s2 i) = stack_of (proctab s0 i)" by (rule kframe_entry [OF k]) (simp add: stack_of_def)
    then have "stack_of (proctab s2 i) = stack_of (proctab s i)" using z(2) by metis
    moreover have "prstate (proctab s2 i) = PR_FREE \<longleftrightarrow> prstate (proctab s i) = PR_FREE"
    proof (cases "i = par")
      case True
      then have "prstate (proctab s i) \<noteq> PR_FREE" using b by (simp add: isbadpid_def)
      then show ?thesis using kframe_live [OF k, of i] z(1) by simp
    next
      case False
      then show ?thesis using kframe_free [OF k, of i] z(1) by simp
    qed
    ultimately show ?thesis using kframe_fields(7,8) [OF k] by (simp add: s0_def)
  qed simp
  have lv: "live s2 i = live s i" for i using same by (simp add: live_def)
  have st: "stacks_at bs s2" by (rule stacks_cong(1) [OF _ _ inv(2)]) (use same lv in simp_all)
  show ?thesis
  proof (cases "currpid s2 = currpid s")
    case False
    have "kill pid s = Some (set_cont (currpid s) (KillK pid) s2)"
      using bad p(2) more s2(1) False by (simp add: kill_def par_def)
    moreover have "stacks_at bs (set_cont (currpid s) (KillK pid) s2)" by (rule stacks_cong(1) [OF _ _ st]) (simp_all add: live_def)
    moreover have "live (set_cont (currpid s) (KillK pid) s2) pid" using lv [of pid] p(1) by (simp add: live_def)
    ultimately show ?thesis using s2(2) same False by simp
  next
    case True
    have e: "kill pid s = kill_finish pid s2" using bad p(2) more s2(1) True by (simp add: kill_def par_def)
    have "live s2 pid" using lv p(1) by simp
    from kill_finish_returns [OF s2(2) st this p(2)] show ?thesis
      unfolding e by (rule returns_mono) (use same in \<open>auto simp: live_def\<close>)
  qed
qed

section \<open>Page faults\<close>

text \<open>A fault on a page the process has allocated maps it and changes nothing else; any other fault
  kills the process.\<close>

lemma kinv_kvm [simp]: "kinv (s\<lparr>kvm := v\<rparr>) = kinv s"
  by (rule kinv_cong) simp_all

lemma stacks_kvm [simp]: "stacks_at bs (s\<lparr>kvm := v\<rparr>) = stacks_at bs s"
proof -
  have "stacks_at bs (s\<lparr>kvm := v\<rparr>) \<Longrightarrow> stacks_at bs s" by (rule stacks_cong(1)) (simp_all add: live_def)
  moreover have "stacks_at bs s \<Longrightarrow> stacks_at bs (s\<lparr>kvm := v\<rparr>)" by (rule stacks_cong(1)) (simp_all add: live_def)
  ultimately show ?thesis by blast
qed

definition fault_entry :: "kstate \<Rightarrow> nat" where
  "fault_entry s =
     (let va = unat (cr2 (kvm s))
      in ent (p_base (pmem (kvm s) (ent (frame_of (page_addr (proctab s (currpid s)))) (va div 4194304)))) (va div 4096 mod 1024))"

definition fault_valid :: "kstate \<Rightarrow> bool" where
  "fault_valid s \<longleftrightarrow> pt_valid (pmem (kvm s) (ent (frame_of (page_addr (proctab s (currpid s)))) (unat (cr2 (kvm s)) div 4194304)))
     \<and> pt_valid (pmem (kvm s) (fault_entry s))"

lemma load_pd_simps [simp]: "pmem (load_pd a v) = pmem v" "cr2 (load_pd a v) = cr2 v" "ints (load_pd a v) = ints v"
  by (simp_all add: load_pd_def write_cr3_def)

lemma pagefault_eq:
  "pagefault_handler s =
     (if fault_valid s
      then Some (s\<lparr>kvm := load_pd (page_addr (proctab s (currpid s)))
                    ((load_pd PAGE_DIR_ADDR_START (kvm s))\<lparr>pmem := map_page (fault_entry s) (pmem (kvm s))\<rparr>)\<rparr>)
      else segfault (s\<lparr>kvm := load_pd PAGE_DIR_ADDR_START (kvm s)\<rparr>))"
  by (simp add: pagefault_handler_def fault_valid_def fault_entry_def Let_def)

end
