(* ===== verification/System.thy ===== *)
theory System
  imports Process
begin

text \<open>
  The system as a whole: the state after \<open>sysinit\<close>, the calls processes make, the clock interrupt
  and page faults as steps, and what holds in every state they reach.
\<close>

section \<open>Initialization\<close>

text \<open>The memory is sized and the free list made before; \<open>init\<close> of the devices is not modelled.\<close>

definition boot :: "kstate \<Rightarrow> kstate option" where
  "boot s = sysinit_tables s \<bind> (\<lambda>s1. Some (paging_init (clkinit s1)))"

text \<open>Static data: no queue has been made. No process is in the middle of a call.\<close>

definition fresh :: "kstate \<Rightarrow> bool" where "fresh s \<longleftrightarrow> nextqid s = NPROC \<and> (\<forall>i. conts s i = Ret OK)"

definition sems_made :: "int \<Rightarrow> kstate \<Rightarrow> bool" where
  "sems_made n s \<longleftrightarrow> nextqid s = NPROC + 2 * n \<and> qrep (nextqid s) (queuetab s) (\<lambda>_. [])
     \<and> (\<forall>i. 0 \<le> i \<longrightarrow> i < n \<longrightarrow> sstate (semtab s i) = S_FREE \<and> squeue (semtab s i) = NPROC + 2 * i)"

text \<open>Creating a queue changes the table of queues only.\<close>

lemma k_newqueue_makes:
  assumes "qrep (nextqid s) (queuetab s) (\<lambda>_. [])" "nextqid s < NQENT"
  obtains qt where "k_newqueue s = (nextqid s, s\<lparr>nextqid := nextqid s + 2, queuetab := qt\<rparr>)" "qrep (nextqid s + 2) qt (\<lambda>_. [])"
proof -
  obtain qt where q: "newqueue (nextqid s) (queuetab s) = (nextqid s, nextqid s + 2, qt)"
    "qrep (nextqid s + 2) qt ((\<lambda>_. [])(nextqid s := []))"
    by (rule newqueue_refines [OF assms])
  have "(\<lambda>_. [])(nextqid s := []) = (\<lambda>_. [] :: int list)" by auto
  then show thesis using q by (intro that [of qt]) (simp_all add: k_newqueue_def)
qed

lemma sem_init_makes:
  assumes "sems_made n s" "0 \<le> n" "n < NSEM"
  obtains st qt where "sem_init n s = s\<lparr>semtab := st, nextqid := nextqid s + 2, queuetab := qt\<rparr>" "sems_made (n + 1) (sem_init n s)"
proof -
  let ?s1 = "upd_sem n (\<lambda>e. e\<lparr>sstate := S_FREE, scount := 0\<rparr>) s"
  have nq: "nextqid ?s1 = NPROC + 2 * n" "qrep (nextqid ?s1) (queuetab ?s1) (\<lambda>_. [])" "nextqid ?s1 < NQENT"
    using assms unfolding sems_made_def by (metis upd_sem_simps(3,7), metis upd_sem_simps(3,7), simp add: upd_sem_def)
  obtain qt where q: "k_newqueue ?s1 = (nextqid ?s1, ?s1\<lparr>nextqid := nextqid ?s1 + 2, queuetab := qt\<rparr>)"
    "qrep (nextqid ?s1 + 2) qt (\<lambda>_. [])" by (rule k_newqueue_makes [OF nq(2,3)])
  have e: "sem_init n s = s\<lparr>semtab := (semtab s)(n := (semtab s n)\<lparr>sstate := S_FREE, scount := 0, squeue := NPROC + 2 * n\<rparr>),
      nextqid := nextqid s + 2, queuetab := qt\<rparr>"
    using q(1) nq(1) by (simp add: sem_init_def Let_def upd_sem_def)
  show thesis
  proof (rule that [OF e])
    show "sems_made (n + 1) (sem_init n s)"
      using assms(1) q(2) nq(1) unfolding e sems_made_def by (auto simp: upd_sem_def)
  qed
qed

lemma sem_inits_make:
  assumes "sems_made 0 s" "n \<le> 100"
  shows "\<exists>st qt. fold sem_init [0..int n - 1] s = s\<lparr>semtab := st, nextqid := nextqid s + 2 * int n, queuetab := qt\<rparr>
    \<and> sems_made (int n) (fold sem_init [0..int n - 1] s)"
  using assms(2)
proof (induction n)
  case 0
  have "s = s\<lparr>semtab := semtab s, nextqid := nextqid s + 2 * int 0, queuetab := queuetab s\<rparr>" by simp
  then show ?case using assms(1) by (intro exI [of _ "semtab s"] exI [of _ "queuetab s"]) simp
next
  case (Suc n)
  let ?s = "fold sem_init [0..int n - 1] s"
  obtain st qt where s: "?s = s\<lparr>semtab := st, nextqid := nextqid s + 2 * int n, queuetab := qt\<rparr>" "sems_made (int n) ?s"
    using Suc by auto
  have "[0..int (Suc n) - 1] = [0..int n - 1] @ [int n]" using upto_rec2 [of 0 "int n"] by simp
  then have f: "fold sem_init [0..int (Suc n) - 1] s = sem_init (int n) ?s" by simp
  obtain st' qt' where "sem_init (int n) ?s = ?s\<lparr>semtab := st', nextqid := nextqid ?s + 2, queuetab := qt'\<rparr>"
    "sems_made (int n + 1) (sem_init (int n) ?s)"
    by (rule sem_init_makes [OF s(2)]) (use Suc.prems in simp_all)
  then show ?case unfolding f using s(1) by (intro exI [of _ st'] exI [of _ qt']) (simp add: algebra_simps)
qed

lemma proc_inits:
  "fold proc_init xs s = s\<lparr>proctab := \<lambda>i. if i \<in> set xs
     then (proctab s i)\<lparr>prstate := PR_FREE, prname := [], prstkbase := 0, prprio := 0\<rparr> else proctab s i\<rparr>"
  by (induction xs arbitrary: s) (auto simp: proc_init_def upd_proc_def fun_eq_iff)

lemma boot_establishes:
  assumes "fresh s" "heap_wf (kheap s) bs" "getstk NULLSTK (kheap s) \<noteq> Some (SYSERRp, kheap s)"
  shows "returns (boot s) (\<lambda>s'. kinv s' \<and> stacks_ok s' \<and> currpid s' = NULLPROC \<and> prcount s' = 1
    \<and> (\<forall>p. live s' p \<longleftrightarrow> p = NULLPROC) \<and> (\<forall>i. 0 \<le> i \<longrightarrow> i < NSEM \<longrightarrow> sstate (semtab s' i) = S_FREE))"
proof -
  obtain a h bs' where g: "getstk NULLSTK (kheap s) = Some (a + NULLSTK - 4, h)" "in_heap (kheap s) (a, NULLSTK)"
    "block_bytes (a, NULLSTK) \<subseteq> free_bytes bs" "free_bytes bs' = free_bytes bs - block_bytes (a, NULLSTK)"
    "heap_wf h bs'" "minheap h = minheap (kheap s)" "maxheap h = maxheap (kheap s)"
    by (rule getstk_ok [OF assms(2), of NULLSTK]) (use assms(3) in simp_all)
  define base where "base = a + NULLSTK - 4"
  define free where "free = (\<lambda>i. (proctab s i)\<lparr>prstate := PR_FREE, prname := [], prstkbase := 0, prprio := 0\<rparr>)"
  define null where "null = (free 0)\<lparr>prstate := PR_CURR, prprio := 0, prname := ''prnull'', prstkbase := base, prstklen := NULLSTK, prstkptr := 0\<rparr>"
  define pt where "pt = (\<lambda>i. if i = 0 then null else if 0 \<le> i \<and> i < NPROC then free i else proctab s i)"
  define s5 where "s5 = s\<lparr>prcount := 1, ndefers := 0, proctab := pt, kheap := h, currpid := NULLPROC\<rparr>"
  have "sems_made 0 s5" using assms(1) by (auto simp: sems_made_def s5_def fresh_def qrep_def isq_def)
  from sem_inits_make [OF this, of 100]
  obtain st qt where s6: "fold sem_init [0..NSEM - 1] s5 = s5\<lparr>semtab := st, nextqid := 300, queuetab := qt\<rparr>"
    "sems_made NSEM (fold sem_init [0..NSEM - 1] s5)"
    using assms(1) by (auto simp: s5_def fresh_def)
  define s6 where "s6 = s5\<lparr>semtab := st, nextqid := 300, queuetab := qt\<rparr>"
  have m: "qrep (nextqid s6) (queuetab s6) (\<lambda>_. [])" "nextqid s6 = 300"
    "\<And>i. 0 \<le> i \<Longrightarrow> i < NSEM \<Longrightarrow> sstate (st i) = S_FREE \<and> squeue (st i) = NPROC + 2 * i"
    using s6 by (auto simp: sems_made_def s6_def)
  obtain qt1 where q1: "k_newqueue s6 = (300, s6\<lparr>nextqid := 302, queuetab := qt1\<rparr>)" "qrep 302 qt1 (\<lambda>_. [])"
    by (rule k_newqueue_makes [OF m(1)]) (use m(2) in \<open>simp_all\<close>)
  define s7 where "s7 = s6\<lparr>nextqid := 302, queuetab := qt1, readylist := 300\<rparr>"
  have q7: "qrep (nextqid s7) (queuetab s7) (\<lambda>_. [])" "nextqid s7 < NQENT" "nextqid s7 = 302" using q1(2) by (simp_all add: s7_def)
  obtain qt2 where q2: "k_newqueue s7 = (302, s7\<lparr>nextqid := 304, queuetab := qt2\<rparr>)" "qrep 304 qt2 (\<lambda>_. [])"
    by (rule k_newqueue_makes [OF q7(1,2)]) (use q7(3) in \<open>simp_all\<close>)
  define s8 where "s8 = s7\<lparr>nextqid := 304, queuetab := qt2, sleepq := 302, preempt := QUANTUM, clktime := 0\<rparr>"
  have t: "sysinit_tables s = Some s7"
  proof -
    have "fold proc_init [0..NPROC - 1] (s\<lparr>prcount := 1, ndefers := 0\<rparr>)
        = s\<lparr>prcount := 1, ndefers := 0, proctab := \<lambda>i. if i \<in> set [0..99] then free i else proctab s i\<rparr>"
      by (simp add: proc_inits free_def cong: if_cong)
    then have "upd_proc NULLPROC (\<lambda>p. p\<lparr>prstkbase := base, prstklen := NULLSTK, prstkptr := 0\<rparr>)
        ((upd_proc NULLPROC (\<lambda>p. p\<lparr>prstate := PR_CURR, prprio := 0, prname := ''prnull''\<rparr>)
          (fold proc_init [0..NPROC - 1] (s\<lparr>prcount := 1, ndefers := 0\<rparr>)))\<lparr>kheap := h\<rparr>)\<lparr>currpid := NULLPROC\<rparr> = s5"
      by (simp add: upd_proc_def s5_def pt_def null_def fun_eq_iff)
    then show ?thesis
      using g(1) s6(1) q1(1) by (simp add: sysinit_tables_def Let_def proc_inits upd_proc_def base_def [symmetric] s6_def [symmetric] s7_def)
  qed
  have c: "clkinit s7 = s8" by (simp add: clkinit_def q2(1) s8_def)
  obtain addr v where v: "initialize_page_table (kvm s8) = (addr, v)" by fastforce
  define s9 where "s9 = upd_proc NULLPROC (\<lambda>p. p\<lparr>page_addr := addr\<rparr>) (s8\<lparr>kvm := v\<rparr>)"
  have b: "boot s = Some s9" using t c v by (simp add: boot_def paging_init_def s9_def)
  have tab: "proctab s9 = pt(NULLPROC := null\<lparr>page_addr := addr\<rparr>)" "semtab s9 = st" "queuetab s9 = qt2" "nextqid s9 = 304"
    "readylist s9 = 300" "sleepq s9 = 302" "currpid s9 = NULLPROC" "ndefers s9 = 0" "prcount s9 = 1" "kheap s9 = h"
    by (simp_all add: s9_def s8_def s7_def s6_def s5_def pt_def upd_proc_def)
  have state: "prstate (proctab s9 p) = (if p = 0 then PR_CURR else PR_FREE)" "prprio (proctab s9 p) = 0"
    if "0 \<le> p" "p < NPROC" for p using that by (simp_all add: tab(1) pt_def null_def free_def)
  have "home s9 p = None" if "0 \<le> p" "p < NPROC" for p using state(1) [OF that] by (simp add: home_def)
  then have "placed (nextqid s9) (\<lambda>_. []) (home s9)" by (simp add: placed_def)
  moreover have "ids_ok s9" using m(3) by (auto simp: ids_ok_def tab isq_def)
  moreover have "procs_ok s9" using state by (simp add: procs_ok_def tab(7))
  moreover have "sem_ok (\<lambda>_. []) s9" using m(3) by (auto simp: sem_ok_def sem_entry_ok_def tab(2))
  ultimately have k: "kinv s9"
    unfolding kinv_def kq_def using q2(2) state(1) [of 0] by (intro conjI exI [of _ "\<lambda>_. []"]) (simp_all add: tab order_ok_def)
  have l: "live s9 p \<longleftrightarrow> p = NULLPROC" for p using state(1) [of p] by (auto simp: live_def split: if_splits)
  have "stack_of (proctab s9 NULLPROC) = (a, NULLSTK)" by (simp add: tab(1) null_def stack_of_def base_def)
  then have "stacks_at bs' s9" using g by (simp add: stacks_at_def l tab(10) in_heap_def)
  then show ?thesis using b k l m(3) by (auto simp: stacks_ok_def tab)
qed

section \<open>Calls\<close>

datatype syscall =
    Wait int | Signal int | SignalN int int | SemCreate int | SemDelete int | SemReset int int | SemCount int
  | SleepMs int | Sleep int | Yield
  | Suspend int | Resume int | Chprio int int | Getprio int
  | Send int u32 | Receive | RecvTime int | RecvClr
  | Create u32 u32 u32 int string "u32 list" | VCreate u32 u32 u32 int string "u32 list" | Kill int | Exit | UserRet

fun exec :: "syscall \<Rightarrow> kstate \<Rightarrow> kstate option" where
  "exec (Wait sem) s = wait sem s"
| "exec (Signal sem) s = signal sem s"
| "exec (SignalN sem n) s = signaln sem n s"
| "exec (SemCreate n) s = semcreate n s"
| "exec (SemDelete sem) s = semdelete sem s"
| "exec (SemReset sem n) s = semreset sem n s"
| "exec (SemCount sem) s = semcount sem s"
| "exec (SleepMs d) s = sleepms d s"
| "exec (Sleep d) s = sleep d s"
| "exec Yield s = yield s"
| "exec (Suspend pid) s = suspend pid s"
| "exec (Resume pid) s = resume pid s"
| "exec (Chprio pid pr) s = chprio pid pr s"
| "exec (Getprio pid) s = getprio pid s"
| "exec (Send pid msg) s = send pid msg s"
| "exec Receive s = receive s"
| "exec (RecvTime w) s = recvtime w s"
| "exec RecvClr s = recvclr s"
| "exec (Create ret f sz pr nm args) s = create ret f sz pr nm args s"
| "exec (VCreate ret f sz pr nm args) s = vcreate ret f sz pr nm args s"
| "exec (Kill pid) s = kill pid s"
| "exec Exit s = exit s"
| "exec UserRet s = userret s"

text \<open>The null process makes no call that could block it; priorities are 16-bit integers.\<close>

fun may_block :: "syscall \<Rightarrow> bool" where
  "may_block (Wait _) = True" | "may_block (SleepMs _) = True" | "may_block (Sleep _) = True"
| "may_block Receive = True" | "may_block (RecvTime _) = True" | "may_block _ = False"

fun prio_ok :: "syscall \<Rightarrow> bool" where
  "prio_ok (Chprio _ pr) \<longleftrightarrow> - 32768 \<le> pr \<and> pr \<le> 32767"
| "prio_ok (Create _ _ _ pr _ _) \<longleftrightarrow> pr \<le> 32767"
| "prio_ok (VCreate _ _ _ pr _ _) \<longleftrightarrow> pr \<le> 32767"
| "prio_ok _ \<longleftrightarrow> True"

definition admissible :: "syscall \<Rightarrow> kstate \<Rightarrow> bool" where
  "admissible c s \<longleftrightarrow> prio_ok c \<and> (may_block c \<longrightarrow> currpid s \<noteq> NULLPROC)"

text \<open>What a process does when it gets the processor back in the middle of a call. A call that is
  over left its value.\<close>

fun resume_cont :: "cont \<Rightarrow> kstate \<Rightarrow> kstate option" where
  "resume_cont RecvK s = Some (receive_finish s)"
| "resume_cont RecvtimeK s = Some (recvtime_finish s)"
| "resume_cont (SuspendK pid) s = Some (suspend_finish pid s)"
| "resume_cont (KillK pid) s = kill_finish pid s"
| "resume_cont ClkK s = clk_preempt s"
| "resume_cont (Ret v) s = None"
| "resume_cont (RetMsg m) s = None"

fun at_rest :: "cont \<Rightarrow> bool" where
  "at_rest (Ret _) = True" | "at_rest (RetMsg _) = True" | "at_rest _ = False"

text \<open>One step: a call of the running process, a clock interrupt or a page fault between calls, or
  the rest of a call.\<close>

inductive step :: "kstate \<Rightarrow> kstate \<Rightarrow> bool" where
  call: "at_rest (conts s (currpid s)) \<Longrightarrow> admissible c s \<Longrightarrow> exec c s = Some s' \<Longrightarrow> step s s'"
| tick: "at_rest (conts s (currpid s)) \<Longrightarrow> clkhandler s = Some s' \<Longrightarrow> step s s'"
| fault: "at_rest (conts s (currpid s)) \<Longrightarrow> pagefault_handler (s\<lparr>kvm := (kvm s)\<lparr>cr2 := a\<rparr>\<rparr>) = Some s' \<Longrightarrow> step s s'"
| resumed: "resume_cont (conts s (currpid s)) s = Some s' \<Longrightarrow> step s s'"

inductive_cases stepE: "step s s'"

inductive reachable :: "kstate \<Rightarrow> bool" where
  init: "fresh s0 \<Longrightarrow> heap_wf (kheap s0) bs \<Longrightarrow> getstk NULLSTK (kheap s0) \<noteq> Some (SYSERRp, kheap s0) \<Longrightarrow>
    boot s0 = Some s \<Longrightarrow> reachable s"
| onward: "reachable s \<Longrightarrow> step s s' \<Longrightarrow> reachable s'"

section \<open>What is still to be done of a call\<close>

text \<open>The functions below the system calls leave \<open>conts\<close> alone; a call notes at most what it
  has itself left to do, and a pending \<open>kill\<close> names a process other than the null process.\<close>

definition conts_ok :: "kstate \<Rightarrow> bool" where
  "conts_ok s \<longleftrightarrow> (\<forall>i pid. conts s i = KillK pid \<longrightarrow> 0 < pid \<and> pid < NPROC)"

lemma conts_simps [simp]:
  "conts (snd (k_dequeue q s)) = conts s" "conts (snd (k_getitem p s)) = conts s" "conts (snd (k_enqueue p q s)) = conts s"
  "conts (snd (k_getfirst q s)) = conts s" "conts (snd (unsleep p s)) = conts s" "conts (snd (newsem_loop n s)) = conts s"
  "conts (snd (newpid_loop n s)) = conts s" "conts (dispatch s) = conts s" "conts (upd_sem i g s) = conts s"
proof -
  show "conts (snd (newsem_loop n s)) = conts s" by (induction n arbitrary: s) (simp_all add: Let_def)
  show "conts (snd (newpid_loop n s)) = conts s" by (induction n arbitrary: s) (simp_all add: Let_def)
qed (simp_all add: k_dequeue_def k_getitem_def k_enqueue_def k_getfirst_def dispatch_def unsleep_def upd_sem_def Let_def split: prod.splits)

lemma conts_pair:
  "k_dequeue q s = (r, s') \<Longrightarrow> conts s' = conts s" "k_getitem p s = (r, s') \<Longrightarrow> conts s' = conts s"
  "k_enqueue p q s = (r, s') \<Longrightarrow> conts s' = conts s" "k_getfirst q s = (r, s') \<Longrightarrow> conts s' = conts s"
  "newsem_loop n s = (r, s') \<Longrightarrow> conts s' = conts s" "newpid_loop n s = (r, s') \<Longrightarrow> conts s' = conts s"
  "unsleep p s = (r, s') \<Longrightarrow> conts s' = conts s"
  by (metis conts_simps snd_conv)+

lemma conts_insert: "k_insert p q k s = Some (r, s') \<Longrightarrow> conts s' = conts s" "k_insertd p q k s = Some (r, s') \<Longrightarrow> conts s' = conts s"
  by (auto simp: k_insert_def k_insertd_def bind_eq_Some_conv)

lemma conts_resched: "resched s = Some s' \<Longrightarrow> conts s' = conts s"
  by (auto simp: resched_def Let_def bind_eq_Some_conv dest!: conts_insert split: if_splits)

lemma conts_ready: "ready p s = Some (r, s') \<Longrightarrow> conts s' = conts s"
  by (auto simp: ready_def make_ready_def Let_def bind_eq_Some_conv dest!: conts_insert conts_resched split: if_splits)

lemma conts_cntl: "resched_cntl d s = Some (r, s') \<Longrightarrow> conts s' = conts s"
  by (cases d) (auto simp: resched_cntl_def Let_def bind_eq_Some_conv dest!: conts_resched split: if_splits)

lemma conts_signal_once: "signal_once sem s = Some s' \<Longrightarrow> conts s' = conts s"
  by (auto simp: signal_once_def Let_def bind_eq_Some_conv dest!: conts_ready conts_pair split: if_splits prod.splits)

lemma conts_signal_loop: "signal_loop sem n s = Some s' \<Longrightarrow> conts s' = conts s"
  by (induction n arbitrary: s) (auto simp: bind_eq_Some_conv dest!: conts_signal_once)

lemma conts_delete_loop: "delete_loop sem s = Some s' \<Longrightarrow> conts s' = conts s"
  by (erule delete_loop.raw_induct [rotated]) (force simp: bind_eq_Some_conv dest!: conts_ready split: if_splits)

lemma conts_reset_loop: "reset_loop q s = Some s' \<Longrightarrow> conts s' = conts s"
  by (erule reset_loop.raw_induct [rotated]) (force simp: bind_eq_Some_conv dest!: conts_ready split: if_splits)

lemma conts_wakeup_loop: "wakeup_loop s = Some s' \<Longrightarrow> conts s' = conts s"
  by (erule wakeup_loop.raw_induct [rotated]) (force simp: bind_eq_Some_conv dest!: conts_ready split: if_splits)

lemma conts_wakeup: "wakeup s = Some s' \<Longrightarrow> conts s' = conts s"
  by (auto simp: wakeup_def bind_eq_Some_conv dest!: conts_cntl conts_wakeup_loop)

lemma conts_send_msg: "send_msg pid msg s = Some (r, s') \<Longrightarrow> conts s' = conts s"
  by (auto simp: send_msg_def Let_def bind_eq_Some_conv dest!: conts_ready conts_pair split: if_splits prod.splits)

lemma conts_alloc: "create_alloc n pr s = Some (r, s') \<Longrightarrow> conts s' = conts s"
  by (auto simp: create_alloc_def newpid_def Let_def bind_eq_Some_conv dest!: conts_pair split: if_splits prod.splits)

lemmas conts_keep = conts_insert conts_resched conts_ready conts_cntl conts_signal_loop conts_signal_once conts_delete_loop
  conts_reset_loop conts_wakeup conts_send_msg conts_alloc conts_pair

lemma conts_ok_cont:
  "conts_ok s \<Longrightarrow> conts s1 = conts s \<Longrightarrow> (\<And>q. c = KillK q \<Longrightarrow> 0 < q \<and> q < NPROC) \<Longrightarrow> conts_ok (set_cont p c s1)"
  by (auto simp: conts_ok_def set_cont_def)

lemma conts_ok_give: "conts_ok s \<Longrightarrow> conts s1 = conts s \<Longrightarrow> give v s0 s1 = Some s' \<Longrightarrow> conts_ok s'"
  by (auto simp: give_def intro: conts_ok_cont)

lemma conts_ok_same: "conts_ok s \<Longrightarrow> conts s1 = conts s \<Longrightarrow> conts_ok s1"
  by (simp add: conts_ok_def)

lemma conts_ok_simps [simp]:
  "conts_ok (s\<lparr>kvm := v\<rparr>) = conts_ok s" "conts_ok (s\<lparr>prcount := n\<rparr>) = conts_ok s" "conts_ok (s\<lparr>halted := b\<rparr>) = conts_ok s"
  "conts_ok (upd_proc p f s) = conts_ok s"
  by (simp_all add: conts_ok_def)

lemma conts_ok_ret: "conts_ok s \<Longrightarrow> conts_ok (set_cont p (Ret v) s)"
  by (rule conts_ok_cont) simp_all

lemma conts_ok_sem:
  assumes "conts_ok s"
  shows "wait i s = Some s' \<Longrightarrow> conts_ok s'" "signal i s = Some s' \<Longrightarrow> conts_ok s'" "signaln i n s = Some s' \<Longrightarrow> conts_ok s'"
    "semcreate n s = Some s' \<Longrightarrow> conts_ok s'" "semdelete i s = Some s' \<Longrightarrow> conts_ok s'" "semreset i n s = Some s' \<Longrightarrow> conts_ok s'"
    "semcount i s = Some s' \<Longrightarrow> conts_ok s'"
  using assms
  by (auto simp: wait_def signal_def signaln_def semcreate_def newsem_def semdelete_def semreset_def semcount_def bind_eq_Some_conv Let_def
      dest!: conts_keep split: if_splits prod.splits elim!: conts_ok_give [rotated 2])

lemma conts_ok_clock:
  assumes "conts_ok s"
  shows "yield s = Some s' \<Longrightarrow> conts_ok s'" "clk_preempt s = Some s' \<Longrightarrow> conts_ok s'" "clkhandler s = Some s' \<Longrightarrow> conts_ok s'"
    "sleepms n s = Some s' \<Longrightarrow> conts_ok s'"
proof -
  show y: "yield s = Some s' \<Longrightarrow> conts_ok s'" for s'
    using assms by (auto simp: yield_def bind_eq_Some_conv dest!: conts_keep elim!: conts_ok_give [rotated 2])
  show "clk_preempt s = Some s' \<Longrightarrow> conts_ok s'"
    using assms by (auto simp: clk_preempt_def bind_eq_Some_conv Let_def dest!: conts_keep split: if_splits elim!: conts_ok_give [rotated 2])
  show "clkhandler s = Some s' \<Longrightarrow> conts_ok s'"
    using assms by (auto simp: clkhandler_def clk_sleepers_def clk_seconds_def bind_eq_Some_conv Let_def dest!: conts_keep split: if_splits intro!: conts_ok_cont)
  show "sleepms n s = Some s' \<Longrightarrow> conts_ok s'"
    using assms y by (auto simp: sleepms_def bind_eq_Some_conv dest!: conts_keep split: if_splits elim!: conts_ok_give [rotated 2])
qed

lemma conts_ok_sleep: "conts_ok s \<Longrightarrow> sleep n s = Some s' \<Longrightarrow> conts_ok s'"
  by (auto simp: sleep_def give_def bind_eq_Some_conv dest: conts_ok_clock(4) split: if_splits intro!: conts_ok_ret)

lemma conts_receive_finish: "conts_ok s \<Longrightarrow> conts_ok (receive_finish s)"
  by (auto simp: receive_finish_def Let_def intro!: conts_ok_cont)

lemma conts_ok_message:
  assumes "conts_ok s"
  shows "send pid msg s = Some s' \<Longrightarrow> conts_ok s'" "receive s = Some s' \<Longrightarrow> conts_ok s'" "recvtime n s = Some s' \<Longrightarrow> conts_ok s'"
    "recvclr s = Some s' \<Longrightarrow> conts_ok s'" "conts_ok (recvtime_finish s)"
proof -
  show "send pid msg s = Some s' \<Longrightarrow> conts_ok s'"
    using assms by (auto simp: send_def bind_eq_Some_conv dest!: conts_keep elim!: conts_ok_give [rotated 2])
  show "receive s = Some s' \<Longrightarrow> conts_ok s'" "recvtime n s = Some s' \<Longrightarrow> conts_ok s'" "recvclr s = Some s' \<Longrightarrow> conts_ok s'"
    "conts_ok (recvtime_finish s)"
    using assms by (auto simp: receive_def recvtime_def recvclr_def recvtime_finish_def bind_eq_Some_conv Let_def conts_receive_finish
        dest!: conts_keep split: if_splits intro!: conts_ok_cont)
qed

lemma conts_ok_process:
  assumes "conts_ok s"
  shows "suspend pid s = Some s' \<Longrightarrow> conts_ok s'" "resume pid s = Some s' \<Longrightarrow> conts_ok s'" "chprio pid n s = Some s' \<Longrightarrow> conts_ok s'"
    "getprio pid s = Some s' \<Longrightarrow> conts_ok s'" "conts_ok (suspend_finish pid s)"
  using assms
  by (auto simp: suspend_def suspend_finish_def resume_def chprio_def getprio_def bind_eq_Some_conv Let_def
      dest!: conts_keep split: if_splits prod.splits elim!: conts_ok_give [rotated 2] intro!: conts_ok_cont)

lemma conts_ok_create:
  assumes "conts_ok s"
  shows "create ret f sz pr nm args s = Some s' \<Longrightarrow> conts_ok s'" "vcreate ret f sz pr nm args s = Some s' \<Longrightarrow> conts_ok s'"
proof -
  have a: "conts_ok s1" if "create_alloc n pr s0 = Some (r, s1)" "conts s0 = conts s" for n r s0 s1
    using conts_alloc [OF that(1)] that(2) assms by (simp add: conts_ok_def)
  show "create ret f sz pr nm args s = Some s' \<Longrightarrow> conts_ok s'"
    by (auto simp: create_def bind_eq_Some_conv Let_def give_def case_prod_unfold dest!: a split: option.splits intro!: conts_ok_ret)
      (simp add: conts_ok_def)
  show "vcreate ret f sz pr nm args s = Some s' \<Longrightarrow> conts_ok s'"
    by (auto simp: vcreate_def bind_eq_Some_conv Let_def give_def case_prod_unfold dest!: a split: option.splits intro!: conts_ok_ret)
      (simp add: conts_ok_def)
qed

lemma conts_ok_kill_rest: "conts_ok s0 \<Longrightarrow> conts s = conts s0 \<Longrightarrow> kill_rest pid s0 s = Some s' \<Longrightarrow> conts_ok s'"
  by (auto simp: kill_rest_def Let_def give_def dest!: conts_resched split: pstate.splits elim: conts_ok_same [rotated] intro!: conts_ok_ret)
    (simp_all add: conts_ok_def)

lemma conts_ok_kill_finish: "conts_ok s \<Longrightarrow> kill_finish pid s = Some s' \<Longrightarrow> conts_ok s'"
  by (auto simp: kill_finish_def bind_eq_Some_conv elim!: conts_ok_kill_rest [rotated 2])

lemma conts_ok_kill:
  assumes c: "conts_ok s" and k: "kill pid s = Some s'"
  shows "conts_ok s'"
proof (cases "isbadpid s pid \<or> pid = NULLPROC")
  case True
  then show ?thesis using c k by (auto simp: kill_def elim!: conts_ok_give [rotated 2])
next
  case False
  then have p: "0 < pid" "pid < NPROC" by (auto simp: isbadpid_def)
  show ?thesis
  proof (cases "prcount s \<le> 2")
    case True
    then show ?thesis using False c k by (auto simp: kill_def xdone_def)
  next
    case more: False
    obtain r s2 where m: "send_msg (prparent (proctab s pid)) (of_int pid) (s\<lparr>prcount := prcount s - 1\<rparr>) = Some (r, s2)"
      and s': "(if currpid s2 \<noteq> currpid s then Some (set_cont (currpid s) (KillK pid) s2) else kill_finish pid s2) = Some s'"
      using False more k by (auto simp: kill_def Let_def bind_eq_Some_conv)
    have "conts s2 = conts s" using conts_send_msg [OF m] by simp
    then have c2: "conts_ok s2" using c by (simp add: conts_ok_def)
    show ?thesis using s' p conts_ok_cont [OF c2 refl] conts_ok_kill_finish [OF c2] by (auto split: if_splits)
  qed
qed

lemma conts_ok_exec: "conts_ok s \<Longrightarrow> exec c s = Some s' \<Longrightarrow> conts_ok s'"
  by (cases c; simp only: exec.simps exit_def userret_def)
    (erule (1) conts_ok_sem conts_ok_clock conts_ok_sleep conts_ok_message conts_ok_process conts_ok_create conts_ok_kill)+

lemma conts_ok_segfault: "conts_ok s \<Longrightarrow> segfault s = Some s' \<Longrightarrow> conts_ok s'"
  unfolding segfault_def bind_eq_Some_conv by (elim exE conjE) (drule (1) conts_ok_kill, auto split: if_splits)

lemma conts_ok_fault: "conts_ok s \<Longrightarrow> pagefault_handler s = Some s' \<Longrightarrow> conts_ok s'"
  unfolding pagefault_eq by (cases "fault_valid s") (auto dest: conts_ok_segfault [rotated])

section \<open>The tables stay in order\<close>

text \<open>The calls that allocate or free memory are taken as far as they return.\<close>

lemma create_alloc_only:
  assumes inv: "kinv s" and a: "create_alloc n priority s = Some (r, s1)"
  shows "kinv s1 \<and> proctab s1 = proctab s \<and> kvm s1 = kvm s \<and> currpid s1 = currpid s
    \<and> (\<forall>pid saddr. r = Some (pid, saddr) \<longrightarrow> 0 \<le> pid \<and> pid < NPROC \<and> prstate (proctab s pid) = PR_FREE \<and> 1 \<le> priority)"
proof (cases rule: newpid_result [of s])
  case (full np)
  have "kinv (s\<lparr>nextpid := np\<rparr>)" using inv by (subst kinv_cong [of _ s]) simp_all
  then show ?thesis using full(1) inv a by (auto simp: create_alloc_def split: if_splits)
next
  case (found np pid)
  have "kinv (s\<lparr>nextpid := np, kheap := h\<rparr>)" for h using inv by (subst kinv_cong [of _ s]) simp_all
  then show ?thesis using found inv a by (auto simp: create_alloc_def Let_def bind_eq_Some_conv split: if_splits)
qed

lemma created_kinv:
  assumes "kinv s" "0 \<le> pid" "pid < NPROC" "prstate (proctab s pid) = PR_FREE" "1 \<le> priority" "priority \<le> 32767"
    and f: "prstate (f (proctab s pid)) = PR_SUSP" "prprio (f (proctab s pid)) = priority"
    and s': "s' = upd_proc pid f (s\<lparr>prcount := c, stack := m\<rparr>)"
  shows "kinv s'"
proof -
  have "kinv (s\<lparr>prcount := c, stack := m\<rparr>)" using assms(1) by (subst kinv_cong [of _ s]) simp_all
  then show ?thesis unfolding s' by (rule new_entry_kinv) (use assms in simp_all)
qed

lemma create_kinv:
  assumes inv: "kinv s" and pr: "priority \<le> 32767" and c: "create ret f sz priority name args s = Some s'"
  shows "kinv s'"
proof -
  obtain r s1 where a: "create_alloc (stack_size sz) priority s = Some (r, s1)"
    using c by (auto simp: create_def bind_eq_Some_conv)
  note A = create_alloc_only [OF inv a]
  show ?thesis
  proof (cases r)
    case None
    then show ?thesis using a c A by (auto simp: create_def give_def)
  next
    case (Some p)
    obtain pid saddr where p: "p = (pid, saddr)" by (cases p)
    define sp m where "sp = fst (create_frame ret f args saddr (stack s1))" and "m = snd (create_frame ret f args saddr (stack s1))"
    let ?f = "\<lambda>e. (create_entry saddr (stack_size sz) priority name (currpid s1) e)\<lparr>page_addr := PAGE_DIR_ADDR_START, prstkptr := sp\<rparr>"
    let ?s1 = "upd_proc pid ?f (s1\<lparr>prcount := prcount s1 + 1, stack := m\<rparr>)"
    have "kinv ?s1"
      by (rule created_kinv [OF _ _ _ _ _ pr _ _ refl]) (use A Some p in \<open>simp_all add: create_entry_def\<close>)
    moreover have "Some s' = give pid s (set_cont pid (Ret OK) ?s1)"
      using a c Some p by (simp add: create_def Let_def case_prod_unfold upd_proc_def getpid_def sp_def m_def)
    ultimately show ?thesis by (simp add: give_def)
  qed
qed

lemma vcreate_kinv:
  assumes inv: "kinv s" and pr: "priority \<le> 32767" and c: "vcreate ret f sz priority name args s = Some s'"
  shows "kinv s'"
proof -
  let ?s0 = "s\<lparr>kvm := load_pd PAGE_DIR_ADDR_START (kvm s)\<rparr>"
  have inv0: "kinv ?s0" using inv by simp
  obtain r s1 where a: "create_alloc (stack_size sz) priority ?s0 = Some (r, s1)"
    using c by (auto simp: vcreate_def Let_def bind_eq_Some_conv)
  note A = create_alloc_only [OF inv0 a]
  show ?thesis
  proof (cases r)
    case None
    then show ?thesis using a c A by (auto simp: vcreate_def give_def)
  next
    case (Some p)
    obtain pid saddr where p: "p = (pid, saddr)" by (cases p)
    obtain g pmn where g: "initialize_user_page_dir (pmem (kvm s)) = Some (g, pmn)"
      using a c Some p A by (auto simp: vcreate_def Let_def bind_eq_Some_conv)
    have pc: "pid \<noteq> currpid s" using A Some p inv by (auto simp: kinv_def)
    define sp m where "sp = fst (create_frame ret f args saddr (stack s1))" and "m = snd (create_frame ret f args saddr (stack s1))"
    define v where "v = load_pd (page_addr (proctab s (currpid s))) ((kvm s1)\<lparr>pmem := pmn\<rparr>)"
    let ?f = "\<lambda>e. (create_entry saddr (stack_size sz) priority name (currpid s1) e)\<lparr>page_addr := of_nat g * 4096, prstkptr := sp\<rparr>"
    let ?s1 = "upd_proc pid ?f (s1\<lparr>prcount := prcount s1 + 1, stack := m\<rparr>)"
    have "kinv ?s1"
      by (rule created_kinv [OF _ _ _ _ _ pr _ _ refl]) (use A Some p in \<open>simp_all add: create_entry_def\<close>)
    moreover have "Some s' = give pid s (set_cont pid (Ret OK) (?s1\<lparr>kvm := v\<rparr>))"
      using a c Some p g A pc by (simp add: vcreate_def Let_def case_prod_unfold upd_proc_def getpid_def sp_def m_def v_def)
    ultimately show ?thesis by (simp add: give_def)
  qed
qed

lemma kill_finish_kinv:
  assumes "kinv s" "0 < pid" "pid < NPROC" "kill_finish pid s = Some s'"
  shows "kinv s'"
proof -
  obtain h where h: "kill_rest pid s (s\<lparr>kheap := h\<rparr>) = Some s'" using assms(4) by (auto simp: kill_finish_def bind_eq_Some_conv)
  have "kinv (s\<lparr>kheap := h\<rparr>)" using assms(1) by (subst kinv_cong [of _ s]) simp_all
  from kill_rest_returns [OF this assms(2,3), of s] show ?thesis using h by simp
qed

lemma kill_kinv:
  assumes inv: "kinv s" and k: "kill pid s = Some s'"
  shows "kinv s'"
proof (cases "isbadpid s pid \<or> pid = NULLPROC")
  case True
  then show ?thesis using assms by (auto simp: kill_def give_def)
next
  case False
  then have p: "0 < pid" "pid < NPROC" by (auto simp: isbadpid_def)
  let ?s1 = "s\<lparr>prcount := prcount s - 1\<rparr>"
  have k1: "kinv ?s1" "kinv (xdone ?s1)" using inv by (subst kinv_cong [of _ s]; simp add: xdone_def)+
  obtain r s2 where m: "send_msg (prparent (proctab s pid)) (of_int pid) ?s1 = Some (r, s2)" "kinv s2"
    using send_msg_returns [OF k1(1), of "prparent (proctab s pid)" "of_int pid"] by (auto elim: returnsE)
  then show ?thesis using False k k1(2) p kill_finish_kinv [OF m(2) p] by (auto simp: kill_def Let_def split: if_splits)
qed

lemma fault_kinv:
  assumes inv: "kinv s" and f: "pagefault_handler s = Some s'"
  shows "kinv s'"
proof (cases "fault_valid s")
  case True
  then show ?thesis using f inv by (auto simp: pagefault_eq)
next
  case False
  let ?s = "s\<lparr>kvm := load_pd PAGE_DIR_ADDR_START (kvm s)\<rparr>"
  have k: "kinv ?s" using inv by simp
  have "segfault ?s = Some s'" using f False by (simp add: pagefault_eq)
  then obtain s1 where "kill (currpid ?s) ?s = Some s1"
    "(if currpid ?s = NULLPROC then Some (s1\<lparr>kvm := load_pd (page_addr (proctab s1 (currpid ?s))) (kvm s1)\<rparr>) else Some s1) = Some s'"
    unfolding segfault_def bind_eq_Some_conv by blast
  then show ?thesis using kill_kinv [OF k, of "currpid ?s" s1] by (auto split: if_splits)
qed

text \<open>A call of the running process that cannot end in the allocator's loops returns.\<close>

fun allocates :: "syscall \<Rightarrow> bool" where
  "allocates (Create _ _ _ _ _ _) = True" | "allocates (VCreate _ _ _ _ _ _) = True"
| "allocates (Kill _) = True" | "allocates Exit = True" | "allocates UserRet = True" | "allocates _ = False"

lemma exec_returns:
  assumes inv: "kinv s" and a: "admissible c s" and n: "\<not> allocates c"
  shows "returns (exec c s) kinv"
  using a n
  by (cases c) (simp_all add: admissible_def inv wait_kinv signal_kinv signaln_kinv semcreate_kinv semdelete_kinv semreset_kinv semcount_kinv
      sleepms_kinv sleep_kinv yield_kinv suspend_kinv resume_kinv chprio_kinv getprio_kinv send_kinv receive_kinv recvtime_kinv recvclr_kinv)

lemma exec_kinv:
  assumes inv: "kinv s" and a: "admissible c s" and e: "exec c s = Some s'"
  shows "kinv s'"
proof (cases "allocates c")
  case True
  then show ?thesis using e a create_kinv [OF inv] vcreate_kinv [OF inv] kill_kinv [OF inv]
    by (cases c) (auto simp: admissible_def exit_def userret_def)
next
  case False
  then show ?thesis using exec_returns [OF inv a] e by simp
qed

lemma resume_cont_kinv:
  assumes inv: "kinv s" and c: "conts_ok s" and r: "resume_cont (conts s (currpid s)) s = Some s'"
  shows "kinv s' \<and> conts_ok s'"
proof (cases "conts s (currpid s)")
  case (KillK pid)
  then show ?thesis using r kill_finish_kinv [OF inv _ _ , of pid s'] conts_ok_kill_finish [OF c, of pid s'] c by (auto simp: conts_ok_def)
next
  case ClkK
  then show ?thesis using r clk_preempt_kinv [OF inv] conts_ok_clock(2) [OF c] by simp
qed (use r inv c in \<open>auto simp: receive_finish_kinv recvtime_finish_kinv conts_receive_finish conts_ok_message(5) conts_ok_process(5)\<close>)

lemma step_keeps: "step s s' \<Longrightarrow> kinv s \<Longrightarrow> conts_ok s \<Longrightarrow> kinv s' \<and> conts_ok s'"
proof (induction rule: step.induct)
  case (call s c s')
  then show ?case using exec_kinv conts_ok_exec by blast
next
  case (tick s s')
  then show ?case using clkhandler_returns [of s] conts_ok_clock(3) by (auto elim: returnsE)
next
  case (fault s a s')
  then show ?case using fault_kinv conts_ok_fault by (metis conts_ok_simps(1) kinv_kvm)
next
  case (resumed s s')
  then show ?case using resume_cont_kinv by blast
qed

lemma conts_boot: "boot s = Some s' \<Longrightarrow> conts s' = conts s"
proof -
  have q: "conts (snd (k_newqueue s1)) = conts s1" for s1
    by (simp add: k_newqueue_def newqueue_def Let_def)
  have i: "conts (sem_init k s1) = conts s1" for k s1
    by (simp add: sem_init_def Let_def case_prod_unfold q)
  have f: "conts (fold sem_init xs s1) = conts s1" for xs s1 by (induction xs arbitrary: s1) (simp_all add: i)
  assume "boot s = Some s'"
  then show ?thesis
    by (auto simp: boot_def sysinit_tables_def paging_init_def clkinit_def Let_def bind_eq_Some_conv proc_inits f q case_prod_unfold)
qed

lemma reachable_keeps: "reachable s \<Longrightarrow> kinv s \<and> conts_ok s"
proof (induction rule: reachable.induct)
  case (init s0 bs s)
  have "conts_ok s" using init(1) conts_boot [OF init(4)] by (simp add: fresh_def conts_ok_def)
  then show ?case using boot_establishes [OF init(1-3)] init(4) by simp
next
  case (onward s s')
  then show ?case using step_keeps by blast
qed

text \<open>The value the last call of process \<open>i\<close> returned.\<close>

definition retval :: "kstate \<Rightarrow> int \<Rightarrow> int" where
  "retval s i = (case conts s i of Ret v \<Rightarrow> v | _ \<Rightarrow> 0)"

end
