(* ===== verification/Effects.thy ===== *)
theory Effects
  imports System
begin

text \<open>
  What the semaphore calls do to the semaphore they are given and to no other, in a kernel state
  whose tables are in order. Ports and buffer pools, which keep their own counts in semaphores, are built on
  these facts.
\<close>

section \<open>What the semaphore calls do\<close>

definition waiters :: "kstate \<Rightarrow> int \<Rightarrow> int set" where
  "waiters s x = set (queue_of (queuetab s) (squeue (semtab s x)))"

definition good_sem :: "kstate \<Rightarrow> int \<Rightarrow> bool" where
  "good_sem s x \<longleftrightarrow> 0 \<le> x \<and> x < NSEM \<and> sstate (semtab s x) = S_USED"

definition kok :: "kstate \<Rightarrow> bool" where "kok s \<longleftrightarrow> kinv s \<and> conts_ok s"

text \<open>\<open>only_sem x s s'\<close>: no semaphore but \<open>x\<close> has changed, nor have the processes that wait for it.\<close>

definition only_sem :: "int \<Rightarrow> kstate \<Rightarrow> kstate \<Rightarrow> bool" where
  "only_sem x s s' \<longleftrightarrow> (\<forall>y. y \<noteq> x \<longrightarrow> semtab s' y = semtab s y) \<and> (\<forall>y. good_sem s y \<longrightarrow> y \<noteq> x \<longrightarrow> waiters s' y = waiters s y)"

lemma waiters_cont [simp]: "waiters (set_cont i c s) = waiters s"
  by (simp add: waiters_def fun_eq_iff)

lemma good_sem_cont [simp]: "good_sem (set_cont i c s) = good_sem s"
  by (simp add: good_sem_def fun_eq_iff)

lemma inv_ret: "kok s \<Longrightarrow> kok (set_cont i (Ret v) s)" "kok s \<Longrightarrow> kok (set_cont i (RetMsg m) s)"
  by (auto simp: kok_def conts_ok_def)

lemma inv_conts: "kinv s' \<Longrightarrow> kok s \<Longrightarrow> conts s' = (conts s)(i := Ret v) \<Longrightarrow> kok s'"
  by (auto simp: kok_def conts_ok_def)

lemma other_only:
  assumes "other_waiters x s s'" "\<And>y. y \<noteq> x \<Longrightarrow> semtab s' y = semtab s y"
  shows "only_sem x s s'"
  using assms by (auto simp: only_sem_def waiters_def other_waiters_def good_sem_def)

lemma waiting_count: "kok s \<Longrightarrow> good_sem s x \<Longrightarrow> card (waiters s x) = nat (- scount (semtab s x))"
proof -
  assume "kok s" and x: "good_sem s x"
  then obtain L where L: "kq L s" "sem_ok L s" by (auto simp: kok_def kinv_def)
  have q: "isq (nextqid s) (squeue (semtab s x))" using ids_okD(5) [OF kqD(2) [OF L(1)]] x by (simp add: good_sem_def)
  have "queue_of (queuetab s) (squeue (semtab s x)) = L (squeue (semtab s x))" by (rule queue_of_qrep [OF kqD(1) [OF L(1)] q])
  moreover have "distinct (L (squeue (semtab s x)))" using qrepD(2) [OF kqD(1) [OF L(1)] q] .
  ultimately show ?thesis using sem_entry(1) [OF L(2), of x] x by (simp add: waiters_def good_sem_def distinct_card)
qed

lemma current_not_waiting:
  assumes "kok s" "good_sem s x"
  shows "currpid s \<notin> waiters s x"
proof -
  obtain L where L: "kq L s" "home s (currpid s) = None" "0 \<le> currpid s" "currpid s < NPROC"
    using assms(1) by (auto simp: kok_def elim: kinvE)
  have q: "isq (nextqid s) (squeue (semtab s x))" using ids_okD(5) [OF kqD(2) [OF L(1)]] assms(2) by (simp add: good_sem_def)
  have "queue_of (queuetab s) (squeue (semtab s x)) = L (squeue (semtab s x))" by (rule queue_of_qrep [OF kqD(1) [OF L(1)] q])
  then show ?thesis using placed_iff [OF kqD(3) [OF L(1)] L(3,4) q] L(2) by (simp add: waiters_def)
qed

lemma wait_effect:
  assumes "kok s" "good_sem s x" "currpid s \<noteq> NULLPROC"
  shows "returns (wait x s) (\<lambda>s'. kok s' \<and> only_sem x s s'
    \<and> semtab s' x = (semtab s x)\<lparr>scount := scount (semtab s x) - 1\<rparr> \<and> waiters s' x \<subseteq> insert (currpid s) (waiters s x))"
proof -
  have k: "kinv s" "0 \<le> x" "x < NSEM" "sstate (semtab s x) = S_USED" using assms by (simp_all add: kok_def good_sem_def)
  have u: "scount (semtab s x) \<le> 0 \<longrightarrow> currpid s \<noteq> 0" using assms(3) by simp
  show ?thesis
    by (rule returns_mono [OF wait_returns [OF k u]])
      (use inv_conts [OF _ assms(1)] in \<open>auto simp: waiters_def intro!: other_only split: if_splits\<close>)
qed

lemma signal_effect:
  assumes "kok s" "good_sem s x"
  shows "returns (signal x s) (\<lambda>s'. kok s' \<and> only_sem x s s'
    \<and> semtab s' x = (semtab s x)\<lparr>scount := scount (semtab s x) + 1\<rparr> \<and> waiters s' x \<subseteq> waiters s x)"
proof -
  have k: "kinv s" "0 \<le> x" "x < NSEM" "sstate (semtab s x) = S_USED" using assms by (simp_all add: kok_def good_sem_def)
  have c: "conts s1 = conts s \<Longrightarrow> kinv s1 \<Longrightarrow> kok (set_cont (currpid s) (Ret OK) s1)" for s1
    using assms(1) by (auto simp: kok_def conts_ok_def)
  have e: "signal x s = signal_once x s \<bind> give OK s" using k by (simp add: signal_def isbadsem_def)
  show ?thesis unfolding e returns_bind returns_give
    by (rule returns_mono [OF signal_once_done [OF k]])
      (use c in \<open>auto simp: waiters_def intro!: other_only dest: list.set_sel(2) split: if_splits\<close>)
qed

lemma semreset_effect:
  assumes "kok s" "good_sem s x" "0 \<le> n"
  shows "returns (semreset x n s) (\<lambda>s'. kok s' \<and> only_sem x s s'
    \<and> semtab s' x = (semtab s x)\<lparr>scount := n\<rparr> \<and> waiters s' x = {})"
proof -
  have k: "kinv s" "0 \<le> x" "x < NSEM" "sstate (semtab s x) = S_USED" using assms by (simp_all add: kok_def good_sem_def)
  show ?thesis
    by (rule returns_mono [OF semreset_returns [OF k assms(3)]])
      (use inv_conts [OF _ assms(1)] in \<open>auto simp: waiters_def intro!: other_only\<close>)
qed

lemma semdelete_effect:
  assumes "kok s" "good_sem s x"
  shows "returns (semdelete x s) (\<lambda>s'. kok s' \<and> only_sem x s s')"
proof -
  have k: "kinv s" "0 \<le> x" "x < NSEM" "sstate (semtab s x) = S_USED" using assms by (simp_all add: kok_def good_sem_def)
  show ?thesis
    by (rule returns_mono [OF semdelete_returns [OF k]])
      (use inv_conts [OF _ assms(1)] in \<open>auto intro!: other_only\<close>)
qed

lemma semcreate_effect:
  assumes "kok s" "0 \<le> n" "0 \<le> nextsem s" "nextsem s < NSEM" "\<exists>y. 0 \<le> y \<and> y < NSEM \<and> sstate (semtab s y) = S_FREE"
  obtains x s' where "semcreate n s = Some s'" "kok s'" "only_sem x s s'" "0 \<le> x" "x < NSEM" "sstate (semtab s x) = S_FREE"
    "good_sem s' x" "scount (semtab s' x) = n" "waiters s' x = {}" "currpid s' = currpid s"
    "retval s' (currpid s) = x" "0 \<le> nextsem s'" "nextsem s' < NSEM"
proof -
  have k: "kinv s" using assms(1) by (simp add: kok_def)
  from assms(3,4) show thesis
  proof (cases rule: newsem_complete)
    case (full nx)
    then show ?thesis using assms(5) by auto
  next
    case (found x nx)
    define s' where "s' = set_cont (currpid s) (Ret x) (upd_sem x (\<lambda>e. e\<lparr>scount := n\<rparr>) (upd_sem x (\<lambda>e. e\<lparr>sstate := S_USED\<rparr>) (s\<lparr>nextsem := nx\<rparr>)))"
    have e: "semcreate n s = Some s'" using found(1,2) assms(2) by (simp add: semcreate_def give_def s'_def)
    have q: "waiters s' x = waiters s x" by (simp add: s'_def waiters_def upd_sem_def)
    obtain L where L: "kq L s" "sem_ok L s" using k by (auto simp: kinv_def)
    have "isq (nextqid s) (squeue (semtab s x))" using ids_okD(5) [OF kqD(2) [OF L(1)] found(2,3)] .
    then have "queue_of (queuetab s) (squeue (semtab s x)) = L (squeue (semtab s x))" by (rule queue_of_qrep [OF kqD(1) [OF L(1)]])
    then have "waiters s x = {}" using L(2) found(2-4) by (simp add: waiters_def sem_ok_def sem_entry_ok_def)
    moreover have "kinv s'" using semcreate_kinv [OF k, of n] e by simp
    then have "kok s'" using assms(1) by (auto simp: kok_def s'_def conts_ok_def upd_sem_def)
    moreover have "only_sem x s s'" by (simp add: only_sem_def s'_def upd_sem_def waiters_def)
    ultimately show ?thesis using e found q
      by (intro that [of s' x]) (simp_all add: s'_def good_sem_def retval_def upd_sem_def set_cont_def)
  qed
qed

lemma semcreate_outcome:
  assumes "kok s" "0 \<le> n" "0 \<le> nextsem s" "nextsem s < NSEM"
  obtains (full) s' where "semcreate n s = Some s'" "kok s'" "conts s' (currpid s) = Ret SYSERR" "semtab s' = semtab s"
      "queuetab s' = queuetab s" "kheap s' = kheap s" "currpid s' = currpid s"
  | (found) x s' where "semcreate n s = Some s'" "kok s'" "only_sem x s s'" "0 \<le> x" "x < NSEM" "sstate (semtab s x) = S_FREE"
      "good_sem s' x" "scount (semtab s' x) = n" "waiters s' x = {}" "currpid s' = currpid s"
      "retval s' (currpid s) = x" "kheap s' = kheap s"
proof (cases "\<exists>y. 0 \<le> y \<and> y < NSEM \<and> sstate (semtab s y) = S_FREE")
  case True
  obtain x s' where E: "semcreate n s = Some s'" "kok s'" "only_sem x s s'" "0 \<le> x" "x < NSEM" "sstate (semtab s x) = S_FREE"
    "good_sem s' x" "scount (semtab s' x) = n" "waiters s' x = {}" "currpid s' = currpid s"
    "retval s' (currpid s) = x" "0 \<le> nextsem s'" "nextsem s' < NSEM" by (rule semcreate_effect [OF assms True]) (rule that)
  have "kheap s' = kheap s"
    using E(1) newsem_result [of "nat NSEM" s] assms(2) by (auto simp: semcreate_def newsem_def give_def upd_sem_def split: if_splits)
  then show ?thesis using found E by blast
next
  case False
  from assms(3,4) show ?thesis
  proof (cases rule: newsem_complete)
    case nf: (full nx)
    define s' where "s' = set_cont (currpid s) (Ret SYSERR) (s\<lparr>nextsem := nx\<rparr>)"
    have "kinv (s\<lparr>nextsem := nx\<rparr>)" using assms(1) by (subst kinv_cong [of _ s]) (simp_all add: kok_def)
    then have "kok (s\<lparr>nextsem := nx\<rparr>)" using assms(1) by (simp add: kok_def conts_ok_def)
    then have "kok s'" unfolding s'_def by (rule inv_ret(1))
    moreover have "semcreate n s = Some s'" using nf(1) assms(2) by (simp add: semcreate_def give_def s'_def)
    ultimately show ?thesis by (intro full [of s']) (simp_all add: s'_def set_cont_def)
  qed (use False in blast)
qed

lemma semcount_effect: "semcount x s = Some s' \<Longrightarrow> \<exists>v. s' = set_cont (currpid s) (Ret v) s"
  by (auto simp: semcount_def give_def split: if_splits)

section \<open>Kills\<close>

text \<open>What other code may do to a semaphore that belongs to a component: nothing, but processes that wait for it may be
  killed, and then \<open>kill\<close> takes them off the queue and increments the count.\<close>

definition kept_sem :: "kstate \<Rightarrow> kstate \<Rightarrow> int \<Rightarrow> bool" where
  "kept_sem s s' x \<longleftrightarrow> waiters s' x \<subseteq> waiters s x \<and> (\<forall>i\<in>waiters s x - waiters s' x. prstate (proctab s' i) = PR_FREE)
     \<and> semtab s' x = (semtab s x)\<lparr>scount := scount (semtab s x) + int (card (waiters s x - waiters s' x))\<rparr>"

definition dead :: "kstate \<Rightarrow> int \<Rightarrow> bool" where "dead s i \<longleftrightarrow> prstate (proctab s i) = PR_FREE"

lemma dead_not_waiting:
  assumes "kok s" "good_sem s x" "dead s i"
  shows "i \<notin> waiters s x"
proof
  assume i: "i \<in> waiters s x"
  obtain L where L: "kq L s" using assms(1) by (auto simp: kok_def elim: kinvE)
  have q: "isq (nextqid s) (squeue (semtab s x))" using ids_okD(5) [OF kqD(2) [OF L]] assms(2) by (simp add: good_sem_def)
  have "queue_of (queuetab s) (squeue (semtab s x)) = L (squeue (semtab s x))" by (rule queue_of_qrep [OF kqD(1) [OF L] q])
  then have "home s i = Some (squeue (semtab s x))" using kq_range [OF L q, of i] i by (simp add: waiters_def)
  then show False using assms(3) by (simp add: home_def dead_def)
qed

text \<open>\<open>T\<close> are the processes that were promised something by the semaphore. Those that are dead are taken out; the promises
  that are left do not become more, and not fewer if only waiting processes died.\<close>

lemma kept_sem_promises:
  assumes k: "kok s'" and x: "good_sem s x" and c: "kept_sem s s' x" and T: "finite T" "waiters s x \<subseteq> T"
  defines "T' \<equiv> T - {i. dead s' i}"
  shows "good_sem s' x" "waiters s' x \<subseteq> T'"
    "scount (semtab s' x) + int (card T') \<le> scount (semtab s x) + int (card T)"
    "\<forall>i\<in>T. dead s' i \<longrightarrow> i \<in> waiters s x \<Longrightarrow> scount (semtab s' x) + int (card T') = scount (semtab s x) + int (card T)"
proof -
  let ?K = "waiters s x - waiters s' x" and ?D = "T \<inter> {i. dead s' i}"
  show g: "good_sem s' x" using x c by (simp add: kept_sem_def good_sem_def)
  show w: "waiters s' x \<subseteq> T'" using c T(2) dead_not_waiting [OF k g] by (auto simp: kept_sem_def T'_def)
  have KD: "?K \<subseteq> ?D" using c T(2) by (auto simp: kept_sem_def dead_def)
  have fin: "finite ?D" using T(1) by simp
  have "T' = T - ?D" by (auto simp: T'_def)
  then have cT: "int (card T') = int (card T) - int (card ?D)"
    using card_Diff_subset [OF fin, of T] card_mono [OF T(1), of ?D] by (simp add: of_nat_diff)
  have s: "scount (semtab s' x) = scount (semtab s x) + int (card ?K)" using c by (simp add: kept_sem_def)
  have "card ?K \<le> card ?D" by (rule card_mono [OF fin KD])
  then show "scount (semtab s' x) + int (card T') \<le> scount (semtab s x) + int (card T)" using cT s by simp
  show "scount (semtab s' x) + int (card T') = scount (semtab s x) + int (card T)" if "\<forall>i\<in>T. dead s' i \<longrightarrow> i \<in> waiters s x"
  proof -
    have "?D \<subseteq> ?K" using that dead_not_waiting [OF k g] by auto
    then have "?D = ?K" using KD by blast
    then show ?thesis using cT s by simp
  qed
qed

end
