(* ===== verification/Ports.thy ===== *)
theory Ports
  imports System Interfaces
begin

text \<open>
  Ports, the queues of messages on top of semaphores: \<^verbatim>\<open>include/ports.h\<close> and
  \<^verbatim>\<open>system/ptinit.c\<close>, \<^verbatim>\<open>ptcreate.c\<close>, \<^verbatim>\<open>ptsend.c\<close>, \<^verbatim>\<open>ptrecv.c\<close>,
  \<^verbatim>\<open>ptcount.c\<close>, \<^verbatim>\<open>ptclear.c\<close>, \<^verbatim>\<open>ptdelete.c\<close> and \<^verbatim>\<open>ptreset.c\<close>.

  A call that waits is cut at the call of \<open>wait\<close>: \<open>pconts\<close> records, for each process, what it has
  left to do in the port system when it gets the processor back; the value \<open>wait\<close> returned is in
  \<open>conts\<close>. Message nodes are addressed by their machine address; \<open>ptseq\<close> is an integer, its
  overflow is not modelled. \<open>panic\<close> does not return (\<open>None\<close>). The disposal function of
  \<open>_ptclear\<close> is a parameter; it is one that does not give the processor away.
\<close>

section \<open>Data\<close>

datatype ptstate = PT_FREE | PT_LIMBO | PT_ALLOC

record ptnode =
  ptmsg :: u32
  ptnext :: u32

record ptentry =
  ptssem :: int
  ptrsem :: int
  ptstate :: ptstate
  ptmaxcnt :: "16 word"
  ptseq :: int
  pthead :: u32
  pttail :: u32

datatype pcont = PNone | PSend int int u32 | PRecv int int | PClear1 int ptstate | PClear2 int ptstate

record ports =
  ker :: kstate
  porttab :: "int \<Rightarrow> ptentry"
  ptnodes :: "u32 \<Rightarrow> ptnode"
  ptfree :: u32
  ptnextid :: int
  pconts :: "int \<Rightarrow> pcont"

abbreviation NPORTS :: int where "NPORTS \<equiv> 30"

definition isbadport :: "int \<Rightarrow> bool" where "isbadport portid \<longleftrightarrow> portid < 0 \<or> NPORTS \<le> portid"

definition upd_port :: "int \<Rightarrow> (ptentry \<Rightarrow> ptentry) \<Rightarrow> ports \<Rightarrow> ports" where
  "upd_port p f P = P\<lparr>porttab := (porttab P)(p := f (porttab P p))\<rparr>"

definition upd_node :: "u32 \<Rightarrow> (ptnode \<Rightarrow> ptnode) \<Rightarrow> ports \<Rightarrow> ports" where
  "upd_node a f P = P\<lparr>ptnodes := (ptnodes P)(a := f (ptnodes P a))\<rparr>"

definition set_pcont :: "int \<Rightarrow> pcont \<Rightarrow> ports \<Rightarrow> ports" where
  "set_pcont i c P = P\<lparr>pconts := (pconts P)(i := c)\<rparr>"

text \<open>A kernel call made by a port operation, and the end of a port operation.\<close>

definition on_ker :: "(kstate \<Rightarrow> kstate option) \<Rightarrow> ports \<Rightarrow> ports option" where
  "on_ker f P = f (ker P) \<bind> (\<lambda>s. Some (P\<lparr>ker := s\<rparr>))"

definition pgive :: "cont \<Rightarrow> int \<Rightarrow> ports \<Rightarrow> ports option" where
  "pgive c i P = Some (set_pcont i PNone (P\<lparr>ker := set_cont i c (ker P)\<rparr>))"

section \<open>ptinit and ptcreate\<close>

text \<open>\<open>for (curr = next = ptfree; --maxmsgs > 0; curr = next) curr->ptnext = ++next; curr->ptnext = NULL\<close>\<close>

primrec link_nodes :: "nat \<Rightarrow> u32 \<Rightarrow> (u32 \<Rightarrow> ptnode) \<Rightarrow> u32 \<Rightarrow> ptnode" where
  "link_nodes 0 cur m = m(cur := (m cur)\<lparr>ptnext := 0\<rparr>)"
| "link_nodes (Suc n) cur m = link_nodes n (cur + 8) (m(cur := (m cur)\<lparr>ptnext := cur + 8\<rparr>))"

definition ptinit :: "int \<Rightarrow> ports \<Rightarrow> ports option" where
  "ptinit maxmsgs P =
     getmem (of_int maxmsgs * 8) (kheap (ker P)) \<bind> (\<lambda>(a, h).
       if a = SYSERRp then None
       else let P1 = P\<lparr>ker := (ker P)\<lparr>kheap := h\<rparr>, ptfree := a\<rparr>;
                P2 = fold (\<lambda>i. upd_port i (\<lambda>e. e\<lparr>ptstate := PT_FREE, ptseq := 0\<rparr>)) [0..NPORTS - 1] P1;
                P3 = P2\<lparr>ptnextid := 0\<rparr>
            in Some (P3\<lparr>ptnodes := link_nodes (nat (maxmsgs - 1)) (ptfree P3) (ptnodes P3)\<rparr>))"

definition new_port :: "int \<Rightarrow> int \<Rightarrow> ports \<Rightarrow> ports option" where
  "new_port ptnum count P =
     (let i = currpid (ker P); P1 = upd_port ptnum (\<lambda>e. e\<lparr>ptstate := PT_ALLOC\<rparr>) P in
      on_ker (semcreate count) P1 \<bind> (\<lambda>P2.
      let P3 = upd_port ptnum (\<lambda>e. e\<lparr>ptssem := retval (ker P2) i\<rparr>) P2 in
      on_ker (semcreate 0) P3 \<bind> (\<lambda>P4.
      Some (upd_port ptnum (\<lambda>e. e\<lparr>ptrsem := retval (ker P4) i, pthead := 0, pttail := 0, ptseq := ptseq e + 1,
        ptmaxcnt := of_int count\<rparr>) P4))))"

primrec free_port :: "nat \<Rightarrow> ports \<Rightarrow> int option \<times> ports" where
  "free_port 0 P = (None, P)"
| "free_port (Suc n) P =
     (let ptnum = ptnextid P;
          P1 = P\<lparr>ptnextid := (if NPORTS \<le> ptnum + 1 then 0 else ptnum + 1)\<rparr>
      in if ptstate (porttab P1 ptnum) = PT_FREE then (Some ptnum, P1) else free_port n P1)"

definition ptcreate :: "int \<Rightarrow> ports \<Rightarrow> ports option" where
  "ptcreate count P =
     (let i = currpid (ker P) in
      if count < 0 then pgive (Ret SYSERR) i P
      else case free_port (nat NPORTS) P of
          (None, P1) \<Rightarrow> pgive (Ret SYSERR) i P1
        | (Some ptnum, P1) \<Rightarrow> new_port ptnum count P1 \<bind> pgive (Ret ptnum) i)"

section \<open>ptsend, ptrecv, ptcount\<close>

definition badport :: "int \<Rightarrow> ports \<Rightarrow> bool" where
  "badport portid P \<longleftrightarrow> isbadport portid \<or> ptstate (porttab P portid) \<noteq> PT_ALLOC"

definition ptsend :: "int \<Rightarrow> u32 \<Rightarrow> ports \<Rightarrow> ports option" where
  "ptsend portid msg P =
     (let i = currpid (ker P) in
      if badport portid P then pgive (Ret SYSERR) i P
      else on_ker (wait (ptssem (porttab P portid))) (set_pcont i (PSend portid (ptseq (porttab P portid)) msg) P))"

definition gone :: "int \<Rightarrow> int \<Rightarrow> ports \<Rightarrow> bool" where
  "gone portid seq P \<longleftrightarrow> retval (ker P) (currpid (ker P)) = SYSERR
     \<or> ptstate (porttab P portid) \<noteq> PT_ALLOC \<or> ptseq (porttab P portid) \<noteq> seq"

text \<open>The node is unlinked from the free list, filled and linked behind the tail.\<close>

definition put_msg :: "int \<Rightarrow> u32 \<Rightarrow> ports \<Rightarrow> ports" where
  "put_msg portid msg P =
     (let msgnode = ptfree P;
          P1 = P\<lparr>ptfree := ptnext (ptnodes P msgnode)\<rparr>;
          P2 = upd_node msgnode (\<lambda>n. n\<lparr>ptnext := 0, ptmsg := msg\<rparr>) P1;
          tailnode = pttail (porttab P2 portid)
      in if tailnode = 0 then upd_port portid (\<lambda>e. e\<lparr>pttail := msgnode, pthead := msgnode\<rparr>) P2
         else upd_port portid (\<lambda>e. e\<lparr>pttail := msgnode\<rparr>) (upd_node tailnode (\<lambda>n. n\<lparr>ptnext := msgnode\<rparr>) P2))"

definition ptsend_finish :: "int \<Rightarrow> int \<Rightarrow> u32 \<Rightarrow> ports \<Rightarrow> ports option" where
  "ptsend_finish portid seq msg P =
     (let i = currpid (ker P) in
      if gone portid seq P then pgive (Ret SYSERR) i P
      else if ptfree P = 0 then None
      else on_ker (signal (ptrsem (porttab P portid))) (put_msg portid msg P) \<bind> pgive (Ret OK) i)"

definition ptrecv :: "int \<Rightarrow> ports \<Rightarrow> ports option" where
  "ptrecv portid P =
     (let i = currpid (ker P) in
      if badport portid P then pgive (RetMsg MSG_SYSERR) i P
      else on_ker (wait (ptrsem (porttab P portid))) (set_pcont i (PRecv portid (ptseq (porttab P portid))) P))"

definition take_msg :: "int \<Rightarrow> ports \<Rightarrow> u32 \<times> ports" where
  "take_msg portid P =
     (let msgnode = pthead (porttab P portid);
          msg = ptmsg (ptnodes P msgnode);
          P1 = (if pthead (porttab P portid) = pttail (porttab P portid)
                then upd_port portid (\<lambda>e. e\<lparr>pttail := 0, pthead := 0\<rparr>) P
                else upd_port portid (\<lambda>e. e\<lparr>pthead := ptnext (ptnodes P msgnode)\<rparr>) P);
          P2 = upd_node msgnode (\<lambda>n. n\<lparr>ptnext := ptfree P1\<rparr>) P1
      in (msg, P2\<lparr>ptfree := msgnode\<rparr>))"

definition ptrecv_finish :: "int \<Rightarrow> int \<Rightarrow> ports \<Rightarrow> ports option" where
  "ptrecv_finish portid seq P =
     (let i = currpid (ker P) in
      if gone portid seq P then pgive (RetMsg MSG_SYSERR) i P
      else let (msg, P1) = take_msg portid P
           in on_ker (signal (ptssem (porttab P portid))) P1 \<bind> pgive (RetMsg msg) i)"

definition ptcount :: "int \<Rightarrow> ports \<Rightarrow> ports option" where
  "ptcount portid P =
     (let i = currpid (ker P) in
      if badport portid P then pgive (Ret SYSERR) i P
      else on_ker (semcount (ptrsem (porttab P portid))) P \<bind> (\<lambda>P1.
        let count = retval (ker P1) i in
        if 0 \<le> count then
          on_ker (semcount (ptssem (porttab P portid))) P1 \<bind> (\<lambda>P2.
          let sndcnt = retval (ker P2) i
          in pgive (Ret (if sndcnt < 0 then count + - sndcnt else count)) i P2)
        else pgive (Ret count) i P1))"

section \<open>_ptclear, ptdelete, ptreset\<close>

partial_function (option) dispose_walk :: "(u32 \<Rightarrow> ports \<Rightarrow> ports option) \<Rightarrow> u32 \<Rightarrow> ports \<Rightarrow> ports option" where
  "dispose_walk disp w t =
     (if w = 0 then Some t
      else disp (ptmsg (ptnodes t w)) t \<bind> (\<lambda>t1. dispose_walk disp (ptnext (ptnodes t1 w)) t1))"

declare dispose_walk.simps [code]

text \<open>The message list is disposed of and linked into the free list.\<close>

definition drop_msgs :: "(u32 \<Rightarrow> ports \<Rightarrow> ports option) \<Rightarrow> int \<Rightarrow> ports \<Rightarrow> ports option" where
  "drop_msgs disp portid P =
     (let w = pthead (porttab P portid) in
      if w \<noteq> 0 then
        dispose_walk disp w P \<bind> (\<lambda>P1.
        let P2 = upd_node (pttail (porttab P1 portid)) (\<lambda>n. n\<lparr>ptnext := ptfree P1\<rparr>) P1
        in Some (P2\<lparr>ptfree := pthead (porttab P2 portid)\<rparr>))
      else Some P)"

definition ptclear :: "(u32 \<Rightarrow> ports \<Rightarrow> ports option) \<Rightarrow> int \<Rightarrow> ptstate \<Rightarrow> ports \<Rightarrow> ports option" where
  "ptclear disp portid newstate P =
     (let i = currpid (ker P);
          P1 = upd_port portid (\<lambda>e. e\<lparr>ptstate := PT_LIMBO, ptseq := ptseq e + 1\<rparr>) P
      in drop_msgs disp portid P1 \<bind> (\<lambda>P2.
      let P3 = set_pcont i (PClear1 portid newstate) P2 in
      if newstate = PT_ALLOC then
        let P4 = upd_port portid (\<lambda>e. e\<lparr>pttail := 0, pthead := 0\<rparr>) P3
        in on_ker (semreset (ptssem (porttab P4 portid)) (uint (ptmaxcnt (porttab P4 portid)))) P4
      else on_ker (semdelete (ptssem (porttab P3 portid))) P3))"

definition ptclear_second :: "int \<Rightarrow> ptstate \<Rightarrow> ports \<Rightarrow> ports option" where
  "ptclear_second portid newstate P =
     (let P1 = set_pcont (currpid (ker P)) (PClear2 portid newstate) P in
      if newstate = PT_ALLOC then on_ker (semreset (ptrsem (porttab P1 portid)) 0) P1
      else on_ker (semdelete (ptrsem (porttab P1 portid))) P1)"

definition ptclear_finish :: "int \<Rightarrow> ptstate \<Rightarrow> ports \<Rightarrow> ports option" where
  "ptclear_finish portid newstate P =
     (let P1 = upd_port portid (\<lambda>e. e\<lparr>ptstate := newstate\<rparr>) P;
          P2 = (if newstate = PT_FREE then P1\<lparr>ptnextid := portid\<rparr> else P1)
      in pgive (Ret OK) (currpid (ker P)) P2)"

definition ptdelete :: "(u32 \<Rightarrow> ports \<Rightarrow> ports option) \<Rightarrow> int \<Rightarrow> ports \<Rightarrow> ports option" where
  "ptdelete disp portid P =
     (if badport portid P then pgive (Ret SYSERR) (currpid (ker P)) P else ptclear disp portid PT_FREE P)"

definition ptreset :: "(u32 \<Rightarrow> ports \<Rightarrow> ports option) \<Rightarrow> int \<Rightarrow> ports \<Rightarrow> ports option" where
  "ptreset disp portid P =
     (if badport portid P then pgive (Ret SYSERR) (currpid (ker P)) P else ptclear disp portid PT_ALLOC P)"

text \<open>What a process does when it gets the processor back in the middle of a port operation.\<close>

fun pt_resume :: "pcont \<Rightarrow> ports \<Rightarrow> ports option" where
  "pt_resume (PSend portid seq msg) P = ptsend_finish portid seq msg P"
| "pt_resume (PRecv portid seq) P = ptrecv_finish portid seq P"
| "pt_resume (PClear1 portid newstate) P = ptclear_second portid newstate P"
| "pt_resume (PClear2 portid newstate) P = ptclear_finish portid newstate P"
| "pt_resume PNone P = None"

section \<open>Lists of nodes\<close>

primrec nlist :: "(u32 \<Rightarrow> ptnode) \<Rightarrow> u32 \<Rightarrow> u32 list \<Rightarrow> bool" where
  "nlist m a [] \<longleftrightarrow> a = 0"
| "nlist m a (x # xs) \<longleftrightarrow> a = x \<and> x \<noteq> 0 \<and> nlist m (ptnext (m x)) xs"

partial_function (option) node_list :: "(u32 \<Rightarrow> ptnode) \<Rightarrow> u32 \<Rightarrow> u32 list option" where
  "node_list m a = (if a = 0 then Some [] else node_list m (ptnext (m a)) \<bind> (\<lambda>xs. Some (a # xs)))"

declare node_list.simps [code]

lemma nlist_node_list: "nlist m a xs \<Longrightarrow> node_list m a = Some xs"
  by (induction xs arbitrary: a) (subst node_list.simps; simp)+

lemma nlist_0 [simp]: "nlist m 0 xs \<longleftrightarrow> xs = []"
  by (cases xs) auto

lemma nlist_Cons: "a \<noteq> 0 \<Longrightarrow> nlist m a xs \<Longrightarrow> \<exists>ys. xs = a # ys \<and> nlist m (ptnext (m a)) ys"
  by (cases xs) auto

lemma nlist_nonzero: "nlist m a xs \<Longrightarrow> x \<in> set xs \<Longrightarrow> x \<noteq> 0"
  by (induction xs arbitrary: a) auto

lemma nlist_cong: "(\<And>x. x \<in> set xs \<Longrightarrow> ptnext (m' x) = ptnext (m x)) \<Longrightarrow> nlist m' a xs = nlist m a xs"
  by (induction xs arbitrary: a) auto

lemma nlist_upd: "b \<notin> set xs \<Longrightarrow> nlist (m(b := n)) a xs = nlist m a xs"
  by (rule nlist_cong) auto

text \<open>Two lists whose nodes are different are joined at the last node of the first.\<close>

lemma nlist_join:
  assumes "nlist m a xs" "xs \<noteq> []" "distinct xs" "nlist m b ys" "set xs \<inter> set ys = {}"
  shows "nlist (m(last xs := (m (last xs))\<lparr>ptnext := b\<rparr>)) a (xs @ ys)"
  using assms
proof (induction xs arbitrary: a)
  case (Cons x xs)
  show ?case
  proof (cases "xs = []")
    case True
    moreover have "nlist (m(x := (m x)\<lparr>ptnext := b\<rparr>)) b ys"
      using Cons.prems by (subst nlist_upd) simp_all
    ultimately show ?thesis using Cons.prems by (simp add: fun_upd_def)
  next
    case False
    then have "x \<noteq> last xs" using Cons.prems(3) by auto
    moreover have "nlist (m(last xs := (m (last xs))\<lparr>ptnext := b\<rparr>)) (ptnext (m x)) (xs @ ys)"
      using Cons.prems False by (intro Cons.IH) auto
    ultimately show ?thesis using Cons.prems False by (simp add: fun_upd_def)
  qed
qed simp

text \<open>The free list and the lists of the ports in use; \<open>Q\<close> names the nodes of each port.\<close>

definition port_rep :: "ports \<Rightarrow> u32 list \<Rightarrow> (int \<Rightarrow> u32 list) \<Rightarrow> bool" where
  "port_rep P fl Q \<longleftrightarrow> nlist (ptnodes P) (ptfree P) fl \<and> distinct fl
     \<and> (\<forall>p. distinct (Q p) \<and> set (Q p) \<inter> set fl = {} \<and> (\<forall>q. q \<noteq> p \<longrightarrow> set (Q p) \<inter> set (Q q) = {}))
     \<and> (\<forall>p. if badport p P then Q p = [] else nlist (ptnodes P) (pthead (porttab P p)) (Q p)
          \<and> pttail (porttab P p) = (if Q p = [] then 0 else last (Q p)))"

lemma port_repD:
  assumes "port_rep P fl Q"
  shows "nlist (ptnodes P) (ptfree P) fl" "distinct fl" "distinct (Q p)" "set (Q p) \<inter> set fl = {}"
    "q \<noteq> p \<Longrightarrow> set (Q p) \<inter> set (Q q) = {}" "badport p P \<Longrightarrow> Q p = []"
    "\<not> badport p P \<Longrightarrow> nlist (ptnodes P) (pthead (porttab P p)) (Q p)"
    "\<not> badport p P \<Longrightarrow> pttail (porttab P p) = (if Q p = [] then 0 else last (Q p))"
  using assms unfolding port_rep_def by (metis+)

lemma port_update_simps [simp]:
  "ker (upd_port p f P) = ker P" "pconts (upd_port p f P) = pconts P" "ptfree (upd_port p f P) = ptfree P"
  "ptnodes (upd_port p f P) = ptnodes P" "ptnextid (upd_port p f P) = ptnextid P"
  "porttab (upd_port p f P) = (porttab P)(p := f (porttab P p))"
  "ker (upd_node a g P) = ker P" "pconts (upd_node a g P) = pconts P" "ptfree (upd_node a g P) = ptfree P"
  "porttab (upd_node a g P) = porttab P" "ptnextid (upd_node a g P) = ptnextid P"
  "ptnodes (upd_node a g P) = (ptnodes P)(a := g (ptnodes P a))"
  "ker (set_pcont i c P) = ker P" "pconts (set_pcont i c P) = (pconts P)(i := c)" "ptfree (set_pcont i c P) = ptfree P"
  "ptnodes (set_pcont i c P) = ptnodes P" "porttab (set_pcont i c P) = porttab P" "ptnextid (set_pcont i c P) = ptnextid P"
  by (simp_all add: upd_port_def upd_node_def set_pcont_def)

text \<open>What the linking of nodes leaves alone.\<close>

lemma msg_frame [simp]:
  "ker (put_msg p msg P) = ker P" "pconts (put_msg p msg P) = pconts P" "ptnextid (put_msg p msg P) = ptnextid P"
  "ker (snd (take_msg p P)) = ker P" "pconts (snd (take_msg p P)) = pconts P" "ptnextid (snd (take_msg p P)) = ptnextid P"
  by (simp_all add: put_msg_def take_msg_def Let_def)

lemma msg_entry [simp]:
  "ptssem (porttab (put_msg p msg P) q) = ptssem (porttab P q)" "ptrsem (porttab (put_msg p msg P) q) = ptrsem (porttab P q)"
  "ptstate (porttab (put_msg p msg P) q) = ptstate (porttab P q)" "ptmaxcnt (porttab (put_msg p msg P) q) = ptmaxcnt (porttab P q)"
  "ptseq (porttab (put_msg p msg P) q) = ptseq (porttab P q)" "badport q (put_msg p msg P) = badport q P"
  "ptssem (porttab (snd (take_msg p P)) q) = ptssem (porttab P q)" "ptrsem (porttab (snd (take_msg p P)) q) = ptrsem (porttab P q)"
  "ptstate (porttab (snd (take_msg p P)) q) = ptstate (porttab P q)" "ptmaxcnt (porttab (snd (take_msg p P)) q) = ptmaxcnt (porttab P q)"
  "ptseq (porttab (snd (take_msg p P)) q) = ptseq (porttab P q)" "badport q (snd (take_msg p P)) = badport q P"
  by (auto simp: put_msg_def take_msg_def Let_def badport_def)

lemma put_msg_rep:
  assumes rep: "port_rep P (x # fl) Q" and p: "\<not> badport p P"
  shows "port_rep (put_msg p msg P) fl (Q(p := Q p @ [x]))" "ptfree P = x"
    "ptmsg (ptnodes (put_msg p msg P) a) = (if a = x then msg else ptmsg (ptnodes P a))"
proof -
  note D = port_repD [OF rep]
  let ?P = "put_msg p msg P"
  have x: "ptfree P = x" "x \<noteq> 0" "nlist (ptnodes P) (ptnext (ptnodes P x)) fl" "x \<notin> set fl" "distinct fl" using D(1,2) by auto
  have xq: "x \<notin> set (Q q)" for q using D(4) [of q] by auto
  show "ptfree P = x" by (rule x(1))
  have tl: "pttail (porttab P p) \<noteq> x" using D(8) [OF p] xq [of p] x(2) by auto
  show "ptmsg (ptnodes ?P a) = (if a = x then msg else ptmsg (ptnodes P a))"
    using x(1) tl by (simp add: put_msg_def Let_def)
  have nx: "ptnext (ptnodes ?P a) = ptnext (ptnodes P a)" if "a \<noteq> x" "Q p \<noteq> [] \<Longrightarrow> a \<noteq> last (Q p)" for a
    using that x(1) D(8) [OF p] by (simp add: put_msg_def Let_def split: if_splits)
  have fr: "nlist (ptnodes ?P) (ptfree ?P) fl"
  proof -
    have "nlist (ptnodes ?P) (ptnext (ptnodes P x)) fl"
      using x(3,4) D(4) [of p] by (subst nlist_cong [where m = "ptnodes P"]) (auto intro!: nx dest: last_in_set)
    moreover have "ptfree ?P = ptnext (ptnodes P x)" using x(1) by (simp add: put_msg_def Let_def)
    ultimately show ?thesis by simp
  qed
  have this_port: "nlist (ptnodes ?P) (pthead (porttab ?P p)) (Q p @ [x]) \<and> pttail (porttab ?P p) = x"
  proof (cases "Q p = []")
    case True
    then show ?thesis using D(8) [OF p] x by (simp add: put_msg_def Let_def)
  next
    case False
    then have l: "last (Q p) \<noteq> 0" "pttail (porttab P p) = last (Q p)"
      using D(7,8) [OF p] by (auto dest: nlist_nonzero [OF _ last_in_set])
    let ?m = "(ptnodes P)(x := (ptnodes P x)\<lparr>ptnext := 0, ptmsg := msg\<rparr>)"
    have "nlist ?m (pthead (porttab P p)) (Q p)" using D(7) [OF p] xq [of p] by (simp add: nlist_upd del: fun_upd_apply)
    then have "nlist (?m(last (Q p) := (?m (last (Q p)))\<lparr>ptnext := x\<rparr>)) (pthead (porttab P p)) (Q p @ [x])"
      by (rule nlist_join) (use False D(3) xq x(2) in auto)
    moreover have "ptnodes ?P = ?m(last (Q p) := (?m (last (Q p)))\<lparr>ptnext := x\<rparr>)"
      using l x(1) by (simp add: put_msg_def Let_def del: fun_upd_apply)
    moreover have "pthead (porttab ?P p) = pthead (porttab P p)" "pttail (porttab ?P p) = x"
      using l x(1) by (simp_all add: put_msg_def Let_def)
    ultimately show ?thesis by simp
  qed
  have other: "nlist (ptnodes ?P) (pthead (porttab ?P q)) (Q q)" "pttail (porttab ?P q) = (if Q q = [] then 0 else last (Q q))"
    if "q \<noteq> p" "\<not> badport q P" for q
  proof -
    have "nlist (ptnodes ?P) (pthead (porttab P q)) (Q q)"
      using D(7) [OF that(2)] D(5) [OF that(1)] xq [of q]
      by (subst nlist_cong [where m = "ptnodes P"]) (auto intro!: nx dest: last_in_set)
    moreover have "porttab ?P q = porttab P q" using that(1) by (simp add: put_msg_def Let_def)
    ultimately show "nlist (ptnodes ?P) (pthead (porttab ?P q)) (Q q)" "pttail (porttab ?P q) = (if Q q = [] then 0 else last (Q q))"
      using D(8) [OF that(2)] by simp_all
  qed
  show "port_rep ?P fl (Q(p := Q p @ [x]))"
    unfolding port_rep_def
  proof (intro conjI allI impI)
    fix q r
    show "distinct ((Q(p := Q p @ [x])) q)" using D(3) xq by simp
    show "set ((Q(p := Q p @ [x])) q) \<inter> set fl = {}" using D(4) [of q] x(4) by auto
    show "r \<noteq> q \<Longrightarrow> set ((Q(p := Q p @ [x])) q) \<inter> set ((Q(p := Q p @ [x])) r) = {}" using D(5) [of r q] xq by auto
    show "if badport q ?P then (Q(p := Q p @ [x])) q = []
      else nlist (ptnodes ?P) (pthead (porttab ?P q)) ((Q(p := Q p @ [x])) q)
        \<and> pttail (porttab ?P q) = (if (Q(p := Q p @ [x])) q = [] then 0 else last ((Q(p := Q p @ [x])) q))"
      using this_port other [of q] D(6) [of q] p by (cases "q = p") auto
  qed (use fr x in auto)
qed

lemma take_msg_rep:
  assumes rep: "port_rep P fl Q" and p: "\<not> badport p P" and q: "Q p = x # xs"
  shows "port_rep (snd (take_msg p P)) (x # fl) (Q(p := xs))" "fst (take_msg p P) = ptmsg (ptnodes P x)"
    "ptmsg (ptnodes (snd (take_msg p P)) a) = ptmsg (ptnodes P a)"
proof -
  note D = port_repD [OF rep]
  let ?P = "snd (take_msg p P)"
  have x: "pthead (porttab P p) = x" "x \<noteq> 0" "nlist (ptnodes P) (ptnext (ptnodes P x)) xs" "x \<notin> set xs" "distinct xs" "x \<notin> set fl"
    using D(7) [OF p] D(3,4) [of p] q by auto
  have xq: "x \<notin> set (Q r)" if "r \<noteq> p" for r using D(5) [OF that] q by auto
  show "fst (take_msg p P) = ptmsg (ptnodes P x)" "ptmsg (ptnodes ?P a) = ptmsg (ptnodes P a)"
    using x(1) by (simp_all add: take_msg_def Let_def)
  have m: "ptnodes ?P = (ptnodes P)(x := (ptnodes P x)\<lparr>ptnext := ptfree P\<rparr>)" and f: "ptfree ?P = x"
    using x(1) by (simp_all add: take_msg_def Let_def)
  have tail: "pttail (porttab P p) = (if xs = [] then x else last xs)" using D(8) [OF p] q by simp
  then have hd_tl: "pthead (porttab P p) = pttail (porttab P p) \<longleftrightarrow> xs = []" using x(1,4) by (auto dest: last_in_set)
  have this_port: "nlist (ptnodes ?P) (pthead (porttab ?P p)) xs \<and> pttail (porttab ?P p) = (if xs = [] then 0 else last xs)"
  proof -
    have "nlist (ptnodes ?P) (ptnext (ptnodes P x)) xs" unfolding m using x(3,4) by (subst nlist_upd)
    moreover have "pthead (porttab ?P p) = (if xs = [] then 0 else ptnext (ptnodes P x))"
      "pttail (porttab ?P p) = (if xs = [] then 0 else last xs)"
      using hd_tl tail x(1) by (simp_all add: take_msg_def Let_def)
    ultimately show ?thesis by (cases xs) auto
  qed
  have other: "nlist (ptnodes ?P) (pthead (porttab ?P r)) (Q r)" "pttail (porttab ?P r) = (if Q r = [] then 0 else last (Q r))"
    if "r \<noteq> p" "\<not> badport r P" for r
  proof -
    have "nlist (ptnodes ?P) (pthead (porttab P r)) (Q r)" unfolding m using D(7) [OF that(2)] xq [OF that(1)] by (subst nlist_upd)
    moreover have "porttab ?P r = porttab P r" using that(1) by (simp add: take_msg_def Let_def)
    ultimately show "nlist (ptnodes ?P) (pthead (porttab ?P r)) (Q r)" "pttail (porttab ?P r) = (if Q r = [] then 0 else last (Q r))"
      using D(8) [OF that(2)] by simp_all
  qed
  show "port_rep ?P (x # fl) (Q(p := xs))"
    unfolding port_rep_def
  proof (intro conjI allI impI)
    fix r t
    have "nlist (ptnodes ?P) (ptfree P) fl" unfolding m using D(1) x(6) by (subst nlist_upd)
    then show "nlist (ptnodes ?P) (ptfree ?P) (x # fl)" using x(2) unfolding f m by simp
    show "distinct (x # fl)" using D(2) x(6) by simp
    show "distinct ((Q(p := xs)) r)" using D(3) x(5) by simp
    show "set ((Q(p := xs)) r) \<inter> set (x # fl) = {}" using D(4) [of r] xq [of r] x(4) q by (cases "r = p") auto
    show "t \<noteq> r \<Longrightarrow> set ((Q(p := xs)) r) \<inter> set ((Q(p := xs)) t) = {}" using D(5) [of t r] q by (cases "r = p"; cases "t = p") auto
    show "if badport r ?P then (Q(p := xs)) r = []
      else nlist (ptnodes ?P) (pthead (porttab ?P r)) ((Q(p := xs)) r)
        \<and> pttail (porttab ?P r) = (if (Q(p := xs)) r = [] then 0 else last ((Q(p := xs)) r))"
      using this_port other [of r] D(6) [of r] p by (cases "r = p") auto
  qed
qed

section \<open>A port is a queue\<close>

definition port_msgs :: "int \<Rightarrow> ports \<Rightarrow> u32 list" where
  "port_msgs p P = map (\<lambda>a. ptmsg (ptnodes P a)) (the (node_list (ptnodes P) (pthead (porttab P p))))"

definition port_good :: "int \<Rightarrow> ports \<Rightarrow> bool" where
  "port_good p P \<longleftrightarrow> \<not> badport p P \<and> (\<exists>fl Q. port_rep P fl Q)"

lemma port_msgs_rep: "port_rep P fl Q \<Longrightarrow> \<not> badport p P \<Longrightarrow> port_msgs p P = map (\<lambda>a. ptmsg (ptnodes P a)) (Q p)"
  using nlist_node_list [OF port_repD(7)] by (simp add: port_msgs_def)

lemma put_msg_good:
  assumes "port_good p P" "ptfree P \<noteq> 0"
  shows "port_good p (put_msg p msg P) \<and> port_msgs p (put_msg p msg P) = port_msgs p P @ [msg]
    \<and> (\<forall>q. q \<noteq> p \<longrightarrow> port_good q P \<longrightarrow> port_good q (put_msg p msg P) \<and> port_msgs q (put_msg p msg P) = port_msgs q P)"
proof -
  obtain fl Q where r: "port_rep P fl Q" and p: "\<not> badport p P" using assms(1) by (auto simp: port_good_def)
  obtain x fl' where fl: "fl = x # fl'" using port_repD(1) [OF r] assms(2) by (cases fl) auto
  note R = put_msg_rep [OF r [unfolded fl] p]
  have x: "x \<notin> set (Q q)" for q using port_repD(4) [OF r, of q] fl by auto
  have "map (\<lambda>a. ptmsg (ptnodes (put_msg p msg P) a)) (Q q) = map (\<lambda>a. ptmsg (ptnodes P a)) (Q q)" for q
    using x [of q] by (intro map_cong) (auto simp: R(3))
  moreover have "port_good q (put_msg p msg P)" if "\<not> badport q P" for q using R(1) that unfolding port_good_def by auto
  ultimately show ?thesis
    using R(3) p port_msgs_rep [OF r] port_msgs_rep [OF R(1)] by (auto simp: port_good_def)
qed

lemma take_msg_good:
  assumes "port_good p P" "port_msgs p P \<noteq> []"
  shows "port_good p (snd (take_msg p P)) \<and> port_msgs p P = fst (take_msg p P) # port_msgs p (snd (take_msg p P))
    \<and> (\<forall>q. q \<noteq> p \<longrightarrow> port_good q P \<longrightarrow> port_good q (snd (take_msg p P)) \<and> port_msgs q (snd (take_msg p P)) = port_msgs q P)"
proof -
  obtain fl Q where r: "port_rep P fl Q" and p: "\<not> badport p P" using assms(1) by (auto simp: port_good_def)
  obtain x xs where q: "Q p = x # xs" using port_msgs_rep [OF r p] assms(2) by (cases "Q p") auto
  note R = take_msg_rep [OF r p q]
  have "port_good t (snd (take_msg p P))" if "\<not> badport t P" for t using R(1) that unfolding port_good_def by auto
  then show ?thesis
    using R(2,3) p q port_msgs_rep [OF r] port_msgs_rep [OF R(1)] by (auto simp: port_good_def)
qed

interpretation port_queue: fifo "port_good p" "port_msgs p" "\<lambda>P msg. ptfree P \<noteq> 0" "put_msg p" "take_msg p" for p
  by unfold_locales (use put_msg_good take_msg_good in blast)+

section \<open>The search for a free port\<close>

definition port_advance :: "ports \<Rightarrow> ports" where
  "port_advance P = P\<lparr>ptnextid := (if NPORTS \<le> ptnextid P + 1 then 0 else ptnextid P + 1)\<rparr>"

interpretation port_table: round_robin NPORTS "\<lambda>P. 0 \<le> ptnextid P \<and> ptnextid P < NPORTS" ptnextid port_advance
    "\<lambda>P p. ptstate (porttab P p) = PT_FREE" free_port "\<lambda>P. (None, P)" "\<lambda>P. (Some (ptnextid P), port_advance P)"
proof unfold_locales
  fix P :: ports
  assume "0 \<le> ptnextid P \<and> ptnextid P < NPORTS"
  then show "ptnextid (port_advance P) = (ptnextid P + 1) mod NPORTS" by (cases "ptnextid P = 29") (simp_all add: port_advance_def)
qed (simp_all add: Let_def port_advance_def)

lemma port_steps: "\<exists>nx. port_table.steps k P = P\<lparr>ptnextid := nx\<rparr>"
proof (induction k arbitrary: P)
  case 0
  have "P = P\<lparr>ptnextid := ptnextid P\<rparr>" by simp
  then show ?case unfolding port_table.steps_def funpow.simps id_apply by (rule exI)
next
  case (Suc k)
  then obtain nx where "port_table.steps k (port_advance P) = (port_advance P)\<lparr>ptnextid := nx\<rparr>" by blast
  then have "port_table.steps (Suc k) P = P\<lparr>ptnextid := nx\<rparr>" unfolding port_table.steps_Suc by (simp add: port_advance_def)
  then show ?case by (rule exI)
qed

lemma free_port_complete:
  assumes "0 \<le> ptnextid P" "ptnextid P < NPORTS"
  obtains (full) nx where "free_port (nat NPORTS) P = (None, P\<lparr>ptnextid := nx\<rparr>)" "0 \<le> nx" "nx < NPORTS"
      "\<forall>p. 0 \<le> p \<longrightarrow> p < NPORTS \<longrightarrow> ptstate (porttab P p) \<noteq> PT_FREE"
  | (found) p nx where "free_port (nat NPORTS) P = (Some p, P\<lparr>ptnextid := nx\<rparr>)" "0 \<le> nx" "nx < NPORTS"
      "0 \<le> p" "p < NPORTS" "ptstate (porttab P p) = PT_FREE"
proof -
  have v: "0 \<le> ptnextid (port_table.steps k P) \<and> ptnextid (port_table.steps k P) < NPORTS" for k
    using port_table.steps_valid [of P k] assms by blast
  from port_table.search_all [of P] assms
  consider "free_port (nat NPORTS) P = (None, port_table.steps (nat NPORTS) P)" "\<forall>p. 0 \<le> p \<longrightarrow> p < NPORTS \<longrightarrow> ptstate (porttab P p) \<noteq> PT_FREE"
    | k where "free_port (nat NPORTS) P = (Some (ptnextid (port_table.steps k P)), port_advance (port_table.steps k P))"
        "ptstate (porttab P (ptnextid (port_table.steps k P))) = PT_FREE"
    by blast
  then show thesis
  proof cases
    case 1
    obtain nx where nx: "port_table.steps (nat NPORTS) P = P\<lparr>ptnextid := nx\<rparr>" using port_steps by blast
    then have r: "0 \<le> nx" "nx < NPORTS" using v [of "nat NPORTS"] by simp_all
    have "free_port (nat NPORTS) P = (None, P\<lparr>ptnextid := nx\<rparr>)" using 1(1) nx by (simp only:)
    then show thesis by (rule full [OF _ r 1(2)])
  next
    case 2
    obtain nx where nx: "port_table.steps k P = P\<lparr>ptnextid := nx\<rparr>" using port_steps by blast
    then have r: "0 \<le> nx" "nx < NPORTS" using v [of k] by simp_all
    note 2 [unfolded nx port_advance_def]
    then show thesis using r by (intro found [of nx "if NPORTS \<le> nx + 1 then 0 else nx + 1"]) simp_all
  qed
qed

end
