(* ===== verification/Portsystem.thy ===== *)
theory Portsystem
  imports Ports Effects
begin

text \<open>
  Ports used by many processes at once: every step of a system in which processes send, receive,
  count, create, reset and delete, and in which any other step of the kernel may come in between. The
  invariant ties the counts of the two semaphores of a port to the messages it holds and to the
  processes that are in the middle of a call.
\<close>

section \<open>The invariant\<close>

text \<open>\<open>Open\<close> is a port in use, \<open>Reset1\<close> and \<open>Reset2\<close> one whose reset has still to treat the second
  semaphore or to end, \<open>Del1\<close> one whose deletion has still to delete the second semaphore, \<open>Closed\<close>
  one that owns no semaphore.\<close>

datatype phase = Open | Reset1 | Reset2 | Del1 | Closed

fun port_of :: "pcont \<Rightarrow> int option" where
  "port_of PNone = None" | "port_of (PSend p _ _) = Some p" | "port_of (PRecv p _) = Some p"
| "port_of (PClear1 p _) = Some p" | "port_of (PClear2 p _) = Some p"

text \<open>The part of a call on port \<open>p\<close> that process \<open>i\<close> has still to do.\<close>

definition pend :: "ports \<Rightarrow> int \<Rightarrow> int \<Rightarrow> pcont" where
  "pend P p i = (if port_of (pconts P i) = Some p then pconts P i else PNone)"

definition receivers :: "ports \<Rightarrow> int \<Rightarrow> int set" where
  "receivers P p = {i. pend P p i = PRecv p (ptseq (porttab P p))}"

definition senders :: "ports \<Rightarrow> int \<Rightarrow> int set" where
  "senders P p = {i. \<exists>m. pend P p i = PSend p (ptseq (porttab P p)) m}"

fun clearing :: "pcont \<Rightarrow> bool" where
  "clearing (PClear1 _ _) = True" | "clearing (PClear2 _ _) = True" | "clearing _ = False"

fun clear_phase :: "pcont \<Rightarrow> phase option" where
  "clear_phase (PClear1 _ PT_ALLOC) = Some Reset1" | "clear_phase (PClear2 _ PT_ALLOC) = Some Reset2"
| "clear_phase (PClear1 _ PT_FREE) = Some Del1" | "clear_phase (PClear2 _ PT_FREE) = Some Closed" | "clear_phase _ = None"

fun old_seq :: "bool \<Rightarrow> int \<Rightarrow> pcont \<Rightarrow> bool" where
  "old_seq strict n (PSend _ k _) \<longleftrightarrow> k < n \<or> (\<not> strict \<and> k = n)"
| "old_seq strict n (PRecv _ k) \<longleftrightarrow> k < n \<or> (\<not> strict \<and> k = n)"
| "old_seq strict n _ \<longleftrightarrow> True"

definition own :: "phase \<Rightarrow> ptentry \<Rightarrow> int set" where
  "own ph e = (case ph of Closed \<Rightarrow> {} | Del1 \<Rightarrow> {ptrsem e} | _ \<Rightarrow> {ptssem e, ptrsem e})"

text \<open>The processes that have passed \<open>wait\<close> or are in it are covered by the count of the semaphore and by
  the messages of the port, \<open>n\<close> of them.\<close>

definition counts_ok :: "phase \<Rightarrow> ports \<Rightarrow> nat \<Rightarrow> int \<Rightarrow> bool" where
  "counts_ok ph P n p \<longleftrightarrow>
     (let e = porttab P p; s = ker P; snd_count = scount (semtab s (ptssem e)); rcv_count = scount (semtab s (ptrsem e)) in
      case ph of
        Open \<Rightarrow> rcv_count + int (card (receivers P p)) \<le> int n \<and> waiters s (ptrsem e) \<subseteq> receivers P p
          \<and> snd_count + int (card (senders P p)) + int n \<le> uint (ptmaxcnt e) \<and> waiters s (ptssem e) \<subseteq> senders P p
      | Reset1 \<Rightarrow> snd_count = uint (ptmaxcnt e) \<and> waiters s (ptssem e) = {}
      | Reset2 \<Rightarrow> snd_count = uint (ptmaxcnt e) \<and> waiters s (ptssem e) = {} \<and> rcv_count = 0 \<and> waiters s (ptrsem e) = {}
      | _ \<Rightarrow> True)"

definition control_ok :: "phase \<Rightarrow> ports \<Rightarrow> int \<Rightarrow> bool" where
  "control_ok ph P p \<longleftrightarrow> (ph = Open \<longleftrightarrow> \<not> badport p P)
     \<and> (\<forall>i. clearing (pend P p i) \<longrightarrow> clear_phase (pend P p i) = Some ph \<and> ptstate (porttab P p) = PT_LIMBO)
     \<and> (\<forall>i. pend P p i \<noteq> PNone \<longrightarrow> \<not> isbadport p)
     \<and> (ph \<in> {Reset1, Reset2, Del1} \<longrightarrow> (\<exists>i. clearing (pend P p i)))
     \<and> (\<forall>i j. clearing (pend P p i) \<longrightarrow> clearing (pend P p j) \<longrightarrow> i = j)
     \<and> (\<forall>i. old_seq (ph \<noteq> Open) (ptseq (porttab P p)) (pend P p i))
     \<and> (ph \<in> {Reset1, Reset2} \<longrightarrow> pthead (porttab P p) = 0 \<and> pttail (porttab P p) = 0)"

definition port_ok :: "phase \<Rightarrow> ports \<Rightarrow> nat \<Rightarrow> int \<Rightarrow> bool" where
  "port_ok ph P n p \<longleftrightarrow> control_ok ph P p \<and> (\<forall>x\<in>own ph (porttab P p). good_sem (ker P) x)
     \<and> (ph \<in> {Open, Reset1, Reset2} \<longrightarrow> ptssem (porttab P p) \<noteq> ptrsem (porttab P p)) \<and> counts_ok ph P n p"

definition pinv :: "ports \<Rightarrow> bool" where
  "pinv P \<longleftrightarrow> kok (ker P) \<and> 0 \<le> ptnextid P \<and> ptnextid P < NPORTS \<and> (\<forall>i. pconts P i \<noteq> PNone \<longrightarrow> 0 \<le> i \<and> i < NPROC)
     \<and> (\<exists>ph fl Q. port_rep P fl Q \<and> (\<forall>p. port_ok (ph p) P (length (Q p)) p)
         \<and> (\<forall>p q. p \<noteq> q \<longrightarrow> own (ph p) (porttab P p) \<inter> own (ph q) (porttab P q) = {}))"

lemma control_okD:
  assumes "control_ok ph P p"
  shows "ph = Open \<longleftrightarrow> \<not> badport p P" "clearing (pend P p i) \<Longrightarrow> clear_phase (pend P p i) = Some ph"
    "clearing (pend P p i) \<Longrightarrow> ptstate (porttab P p) = PT_LIMBO" "pend P p i \<noteq> PNone \<Longrightarrow> \<not> isbadport p"
    "ph \<in> {Reset1, Reset2, Del1} \<Longrightarrow> \<exists>i. clearing (pend P p i)"
    "clearing (pend P p i) \<Longrightarrow> clearing (pend P p j) \<Longrightarrow> i = j" "old_seq (ph \<noteq> Open) (ptseq (porttab P p)) (pend P p i)"
    "ph \<in> {Reset1, Reset2} \<Longrightarrow> pthead (porttab P p) = 0" "ph \<in> {Reset1, Reset2} \<Longrightarrow> pttail (porttab P p) = 0"
  using assms unfolding control_ok_def by blast+

text \<open>What the condition on one port depends on.\<close>

lemma port_ok_frame:
  assumes "port_ok ph P n p" "pend P' p = pend P p" "porttab P' p = porttab P p"
    and "\<And>x. x \<in> own ph (porttab P p) \<Longrightarrow> semtab (ker P') x = semtab (ker P) x \<and> waiters (ker P') x = waiters (ker P) x"
  shows "port_ok ph P' n p"
proof -
  have b: "badport p P' = badport p P" using assms(3) by (simp add: badport_def)
  have "control_ok ph P' p"
    using assms(1) unfolding port_ok_def control_ok_def assms(2,3) b by blast
  moreover have "\<forall>x\<in>own ph (porttab P' p). good_sem (ker P') x"
    using assms(1,4) unfolding assms(3) by (auto simp: port_ok_def good_sem_def)
  moreover have "counts_ok ph P' n p"
  proof -
    have "receivers P' p = receivers P p" "senders P' p = senders P p" using assms(2,3) by (simp_all add: receivers_def senders_def)
    then show ?thesis using assms(1,3,4) by (cases ph) (simp_all add: port_ok_def counts_ok_def own_def Let_def)
  qed
  ultimately show ?thesis using assms(1,3) by (simp add: port_ok_def)
qed

text \<open>A step that concerns one port: only its continuations, its entry and its semaphores change.\<close>

lemma pinv_step:
  assumes P: "port_rep P fl Q" "\<And>p. port_ok (ph p) P (length (Q p)) p"
      "\<And>p q. p \<noteq> q \<Longrightarrow> own (ph p) (porttab P p) \<inter> own (ph q) (porttab P q) = {}"
    and k: "kok (ker P')" "0 \<le> ptnextid P'" "ptnextid P' < NPORTS" "\<And>i. pconts P' i \<noteq> PNone \<Longrightarrow> 0 \<le> i \<and> i < NPROC"
    and rep: "port_rep P' fl' Q'" "\<And>q. q \<noteq> p \<Longrightarrow> Q' q = Q q"
    and tab: "\<And>q. q \<noteq> p \<Longrightarrow> porttab P' q = porttab P q"
    and pend: "\<And>q. q \<noteq> p \<Longrightarrow> pend P' q = pend P q"
    and sems: "\<And>q x. q \<noteq> p \<Longrightarrow> x \<in> own (ph q) (porttab P q) \<Longrightarrow> semtab (ker P') x = semtab (ker P) x \<and> waiters (ker P') x = waiters (ker P) x"
    and new: "port_ok ph' P' (length (Q' p)) p" "\<And>q. q \<noteq> p \<Longrightarrow> own ph' (porttab P' p) \<inter> own (ph q) (porttab P q) = {}"
  shows "pinv P'"
proof -
  let ?ph = "ph(p := ph')"
  have "port_ok (?ph q) P' (length (Q' q)) q" for q
  proof (cases "q = p")
    case False
    have "port_ok (ph q) P' (length (Q q)) q"
      by (rule port_ok_frame [OF P(2) pend tab]) (use False sems in simp_all)
    then show ?thesis using False rep(2) by simp
  qed (use new in simp)
  moreover have "own (?ph q) (porttab P' q) \<inter> own (?ph r) (porttab P' r) = {}" if "q \<noteq> r" for q r
    using that P(3) new(2) tab by (cases "q = p"; cases "r = p") auto
  ultimately show ?thesis using k rep(1) unfolding pinv_def by blast
qed

section \<open>Counting the processes in the middle of a call\<close>

lemma pend_simps [simp]:
  "pend (P\<lparr>ker := s\<rparr>) = pend P" "pend (upd_port q f P) = pend P" "pend (upd_node a g P) = pend P"
  "pend (put_msg q msg P) = pend P" "pend (snd (take_msg q P)) = pend P" "pend (P\<lparr>ptnextid := n\<rparr>) = pend P" "pend (P\<lparr>ptfree := a\<rparr>) = pend P"
  "pend (set_pcont i c P) q = (pend P q)(i := if port_of c = Some q then c else PNone)"
  by (auto simp: pend_def fun_eq_iff)

lemma senders_upd:
  assumes "pend P' p = (pend P p)(i := c)" "ptseq (porttab P' p) = ptseq (porttab P p)"
  shows "senders P' p = (if \<exists>m. c = PSend p (ptseq (porttab P p)) m then insert i (senders P p) else senders P p - {i})"
  using assms by (auto simp: senders_def)

lemma receivers_upd:
  assumes "pend P' p = (pend P p)(i := c)" "ptseq (porttab P' p) = ptseq (porttab P p)"
  shows "receivers P' p = (if c = PRecv p (ptseq (porttab P p)) then insert i (receivers P p) else receivers P p - {i})"
  using assms by (auto simp: receivers_def)

lemma pending_finite:
  assumes "\<And>i. pconts P i \<noteq> PNone \<Longrightarrow> 0 \<le> i \<and> i < NPROC"
  shows "finite (senders P p)" "finite (receivers P p)"
proof -
  have "senders P p \<subseteq> {0..<NPROC}" "receivers P p \<subseteq> {0..<NPROC}"
    using assms by (fastforce simp: senders_def receivers_def pend_def split: if_splits)+
  then show "finite (senders P p)" "finite (receivers P p)" using finite_subset by blast+
qed

lemma open_ok:
  "port_ok Open P n p \<longleftrightarrow> \<not> badport p P \<and> (\<forall>i. \<not> clearing (pend P p i)) \<and> (\<forall>i. old_seq False (ptseq (porttab P p)) (pend P p i))
    \<and> good_sem (ker P) (ptssem (porttab P p)) \<and> good_sem (ker P) (ptrsem (porttab P p)) \<and> ptssem (porttab P p) \<noteq> ptrsem (porttab P p)
    \<and> scount (semtab (ker P) (ptrsem (porttab P p))) + int (card (receivers P p)) \<le> int n
    \<and> waiters (ker P) (ptrsem (porttab P p)) \<subseteq> receivers P p
    \<and> scount (semtab (ker P) (ptssem (porttab P p))) + int (card (senders P p)) + int n \<le> uint (ptmaxcnt (porttab P p))
    \<and> waiters (ker P) (ptssem (porttab P p)) \<subseteq> senders P p"
proof -
  have "clear_phase c \<noteq> Some Open" for c by (cases c rule: clear_phase.cases) auto
  then show ?thesis by (auto simp: port_ok_def control_ok_def own_def counts_ok_def Let_def badport_def)
qed

lemma pinvE:
  assumes "pinv P"
  obtains ph fl Q where "port_rep P fl Q" "\<And>p. port_ok (ph p) P (length (Q p)) p"
    "\<And>p q. p \<noteq> q \<Longrightarrow> own (ph p) (porttab P p) \<inter> own (ph q) (porttab P q) = {}"
    "kok (ker P)" "\<And>i. pconts P i \<noteq> PNone \<Longrightarrow> 0 \<le> i \<and> i < NPROC"
    "\<And>p. \<not> badport p P \<Longrightarrow> ph p = Open"
proof -
  obtain ph fl Q where P: "port_rep P fl Q" and I: "\<forall>p. port_ok (ph p) P (length (Q p)) p"
    and D: "\<forall>p q. p \<noteq> q \<longrightarrow> own (ph p) (porttab P p) \<inter> own (ph q) (porttab P q) = {}"
    using assms unfolding pinv_def by blast
  have "ph p = Open" if "\<not> badport p P" for p
    using I that unfolding port_ok_def control_ok_def by blast
  moreover have "kok (ker P)" "\<forall>i. pconts P i \<noteq> PNone \<longrightarrow> 0 \<le> i \<and> i < NPROC" using assms unfolding pinv_def by blast+
  ultimately show thesis using that [of fl Q ph] P I D by blast
qed

lemma current_range: "kok s \<Longrightarrow> 0 \<le> currpid s \<and> currpid s < NPROC"
  by (auto simp: kok_def elim: kinvE)

lemma control_drop:
  assumes c: "control_ok ph P p" "\<not> clearing (pend P p i)" and P': "pend P' p = (pend P p)(i := PNone)" "porttab P' p = porttab P p"
  shows "control_ok ph P' p"
proof -
  have b: "badport p P' = badport p P" using P'(2) by (simp add: badport_def)
  have pd: "pend P' p j = (if j = i then PNone else pend P p j)" for j by (simp add: P'(1))
  have cl: "clearing (pend P' p j) \<longleftrightarrow> clearing (pend P p j)" for j using c(2) by (simp add: pd)
  show ?thesis
    unfolding control_ok_def cl b P'(2)
  proof (intro conjI)
    show "\<forall>j. clearing (pend P p j) \<longrightarrow> clear_phase (pend P' p j) = Some ph \<and> ptstate (porttab P p) = PT_LIMBO"
      using c unfolding control_ok_def pd by metis
    show "\<forall>j. pend P' p j \<noteq> PNone \<longrightarrow> \<not> isbadport p" using c(1) unfolding control_ok_def pd by metis
    show "\<forall>j. old_seq (ph \<noteq> Open) (ptseq (porttab P p)) (pend P' p j)" using control_okD(7) [OF c(1)] unfolding pd by simp
  qed (use c(1) in \<open>simp_all add: control_ok_def\<close>)
qed

text \<open>A call that returns without having touched the port.\<close>

lemma pgive_pinv:
  assumes P: "pinv P" and i: "\<And>x. good_sem (ker P) x \<Longrightarrow> i \<notin> waiters (ker P) x" and c: "\<not> clearing (pconts P i)"
    and r: "\<And>pid. r \<noteq> KillK pid" and e: "pgive r i P = Some P'"
  shows "pinv P'"
proof -
  obtain ph fl Q where I: "port_rep P fl Q" "\<And>p. port_ok (ph p) P (length (Q p)) p"
    "\<And>p q. p \<noteq> q \<Longrightarrow> own (ph p) (porttab P p) \<inter> own (ph q) (porttab P q) = {}"
    "kok (ker P)" "\<And>i. pconts P i \<noteq> PNone \<Longrightarrow> 0 \<le> i \<and> i < NPROC" "\<And>p. \<not> badport p P \<Longrightarrow> ph p = Open"
    by (rule pinvE [OF P]) (rule that)
  have P': "P' = set_pcont i PNone (P\<lparr>ker := set_cont i r (ker P)\<rparr>)" using e by (simp add: pgive_def)
  have k: "kok (ker P')" using I(4) r by (auto simp: P' kok_def conts_ok_def)
  have nc: "\<not> clearing (pend P p i)" for p using c by (simp add: pend_def)
  have "port_ok (ph p) P' (length (Q p)) p" for p
  proof (cases "ph p = Open")
    case True
    have o: "port_ok Open P (length (Q p)) p" using I(2) [of p] True by simp
    have "card (senders P p - {i}) \<le> card (senders P p)" "card (receivers P p - {i}) \<le> card (receivers P p)"
      using pending_finite [OF I(5)] by (auto intro!: card_mono)
    moreover have "senders P' p = senders P p - {i}" "receivers P' p = receivers P p - {i}"
      using senders_upd [of P' p P i PNone] receivers_upd [of P' p P i PNone] by (simp_all add: P')
    ultimately show ?thesis
      using o True i unfolding True open_ok by (auto simp: P' badport_def)
  next
    case False
    have b: "badport p P" using I(6) [of p] False by blast
    have "control_ok (ph p) P' p"
      by (rule control_drop [where P = P and i = i]) (use I(2) [of p] nc in \<open>simp_all add: P' port_ok_def\<close>)
    moreover have "counts_ok (ph p) P' (length (Q p)) p"
      using I(2) [of p] False by (cases "ph p") (simp_all add: port_ok_def counts_ok_def P' Let_def)
    ultimately show ?thesis using I(2) [of p] by (simp add: port_ok_def P')
  qed
  moreover have "port_rep P' fl Q" using I(1) by (simp add: port_rep_def P' badport_def)
  moreover have "pconts P' j \<noteq> PNone \<Longrightarrow> 0 \<le> j \<and> j < NPROC" for j using I(5) [of j] by (auto simp: P' split: if_splits)
  moreover have "0 \<le> ptnextid P'" "ptnextid P' < NPORTS" using P by (simp_all add: P' pinv_def)
  ultimately show ?thesis using k I(3) unfolding pinv_def by (auto simp: P')
qed

section \<open>Sending and receiving\<close>

lemma own_open: "own Open e = {ptssem e, ptrsem e}" by (simp add: own_def)

text \<open>What a change of one of a port's semaphores does to the others.\<close>

lemma only_sem_others:
  assumes "only_sem x s s'" "\<And>p. port_ok (ph p) P (length (Q p)) p" "ker P = s"
    "\<And>p q. p \<noteq> q \<Longrightarrow> own (ph p) (porttab P p) \<inter> own (ph q) (porttab P q) = {}" "x \<in> own (ph p) (porttab P p)" "q \<noteq> p"
    "y \<in> own (ph q) (porttab P q)"
  shows "semtab s' y = semtab s y \<and> waiters s' y = waiters s y"
proof -
  have "good_sem s y" using assms(2) [of q] assms(3,7) by (simp add: port_ok_def)
  moreover have "y \<noteq> x" using assms(4) [OF assms(6)] assms(5,7) by blast
  ultimately show ?thesis using assms(1) by (simp add: only_sem_def)
qed

text \<open>A process that calls \<open>wait\<close> on one of the semaphores has still to do \<open>c\<close>.\<close>

definition enters :: "int \<Rightarrow> ptentry \<Rightarrow> int \<Rightarrow> pcont \<Rightarrow> bool" where
  "enters p e x c \<longleftrightarrow> (x = ptssem e \<and> (\<exists>m. c = PSend p (ptseq e) m)) \<or> (x = ptrsem e \<and> c = PRecv p (ptseq e))"

lemma enter_pinv:
  assumes P: "pinv P" and i: "pconts P (currpid (ker P)) = PNone" "currpid (ker P) \<noteq> NULLPROC" and p: "\<not> badport p P"
    and c: "enters p (porttab P p) x c"
  shows "returns (on_ker (wait x) (set_pcont (currpid (ker P)) c P)) pinv"
proof -
  let ?i = "currpid (ker P)" and ?e = "porttab P p"
  obtain ph fl Q where I: "port_rep P fl Q" "\<And>p. port_ok (ph p) P (length (Q p)) p"
    "\<And>p q. p \<noteq> q \<Longrightarrow> own (ph p) (porttab P p) \<inter> own (ph q) (porttab P q) = {}"
    "kok (ker P)" "\<And>i. pconts P i \<noteq> PNone \<Longrightarrow> 0 \<le> i \<and> i < NPROC" "\<And>p. \<not> badport p P \<Longrightarrow> ph p = Open"
    by (rule pinvE [OF P]) (rule that)
  have O: "ph p = Open" by (rule I(6) [OF p])
  have o: "port_ok Open P (length (Q p)) p" using I(2) [of p] O by simp
  have x: "good_sem (ker P) x" "x \<in> own Open ?e" using o c by (auto simp: open_ok enters_def own_open)
  from wait_effect [OF I(4) x(1) i(2)] obtain s' where s': "wait x (ker P) = Some s'" "kok s'" "only_sem x (ker P) s'"
    "semtab s' x = (semtab (ker P) x)\<lparr>scount := scount (semtab (ker P) x) - 1\<rparr>"
    "waiters s' x \<subseteq> insert ?i (waiters (ker P) x)" by (auto elim: returnsE)
  define P' where "P' = (set_pcont ?i c P)\<lparr>ker := s'\<rparr>"
  have e: "on_ker (wait x) (set_pcont ?i c P) = Some P'" using s'(1) by (simp add: on_ker_def P'_def)
  have f: "porttab P' = porttab P" "ker P' = s'" "badport q P' = badport q P" for q by (simp_all add: P'_def badport_def)
  have cp: "port_of c = Some p" "\<not> clearing c" "old_seq False (ptseq ?e) c" using c by (auto simp: enters_def)
  have pd: "pend P' p = (pend P p)(?i := c)" "\<And>q. q \<noteq> p \<Longrightarrow> pend P' q = pend P q"
    using i(1) cp(1) by (auto simp: P'_def pend_def fun_eq_iff)
  have sq: "ptseq (porttab P' p) = ptseq ?e" by (simp add: f)
  have ni: "?i \<notin> senders P p" "?i \<notin> receivers P p" using i(1) by (auto simp: senders_def receivers_def pend_def)
  have S: "senders P' p = (if \<exists>m. c = PSend p (ptseq ?e) m then insert ?i (senders P p) else senders P p)"
    "receivers P' p = (if c = PRecv p (ptseq ?e) then insert ?i (receivers P p) else receivers P p)"
    using senders_upd [OF pd(1) sq] receivers_upd [OF pd(1) sq] ni by auto
  have fin: "finite (senders P p)" "finite (receivers P p)" by (rule pending_finite; use I(5) in simp)+
  have g: "good_sem s' y" "semtab s' y = semtab (ker P) y" "waiters s' y = waiters (ker P) y" if "good_sem (ker P) y" "y \<noteq> x" for y
    using s'(3) that by (simp_all add: only_sem_def good_sem_def)
  have gx: "good_sem s' x" using x(1) s'(4) by (simp add: good_sem_def)
  have o': "port_ok Open P' (length (Q p)) p"
    using o unfolding open_ok f
  proof (intro conjI)
    show "\<forall>j. \<not> clearing (pend P' p j)" "\<forall>j. old_seq False (ptseq ?e) (pend P' p j)"
      using o cp unfolding open_ok pd(1) by simp_all
    show "good_sem s' (ptssem ?e)" "good_sem s' (ptrsem ?e)" using o g(1) gx unfolding open_ok by blast+
    show "waiters s' (ptssem ?e) \<subseteq> senders P' p" "waiters s' (ptrsem ?e) \<subseteq> receivers P' p"
      using o c s'(5) g(3) unfolding open_ok enters_def S by auto
    show "scount (semtab s' (ptrsem ?e)) + int (card (receivers P' p)) \<le> int (length (Q p))"
      using o c s'(4) g(2) ni fin unfolding open_ok enters_def S by auto
    show "scount (semtab s' (ptssem ?e)) + int (card (senders P' p)) + int (length (Q p)) \<le> uint (ptmaxcnt ?e)"
      using o c s'(4) g(2) ni fin unfolding open_ok enters_def S by auto
  qed blast+
  have "pinv P'"
  proof (rule pinv_step [OF I(1-3), where p = p and ph' = Open and Q' = Q and fl' = fl])
    show "port_rep P' fl Q" using I(1) by (simp add: port_rep_def P'_def badport_def)
    show "pconts P' j \<noteq> PNone \<Longrightarrow> 0 \<le> j \<and> j < NPROC" for j
      using I(5) [of j] current_range [OF I(4)] by (auto simp: P'_def split: if_splits)
    show "semtab (ker P') y = semtab (ker P) y \<and> waiters (ker P') y = waiters (ker P) y"
      if "q \<noteq> p" "y \<in> own (ph q) (porttab P q)" for q y
      unfolding f using only_sem_others [OF s'(3) I(2) refl I(3) _ that] x(2) O by simp
    show "own Open (porttab P' p) \<inter> own (ph q) (porttab P q) = {}" if "q \<noteq> p" for q using I(3) [of p q] that O by (simp add: f)
    show "0 \<le> ptnextid P'" "ptnextid P' < NPORTS" using P by (simp_all add: P'_def pinv_def)
  qed (use o' s'(2) pd(2) in \<open>simp_all add: f\<close>)
  then show ?thesis using e by simp
qed

lemma idle_pgive:
  assumes "pinv P" "pconts P (currpid (ker P)) = PNone" "\<And>pid. r \<noteq> KillK pid"
  shows "returns (pgive r (currpid (ker P)) P) pinv"
proof -
  have "\<And>x. good_sem (ker P) x \<Longrightarrow> currpid (ker P) \<notin> waiters (ker P) x"
    using assms(1) current_not_waiting by (auto simp: pinv_def)
  moreover have "\<not> clearing (pconts P (currpid (ker P)))" using assms(2) by simp
  moreover obtain P' where e: "pgive r (currpid (ker P)) P = Some P'" by (simp add: pgive_def)
  ultimately have "pinv P'" by (rule pgive_pinv [OF assms(1) _ _ assms(3)])
  then show ?thesis using e by simp
qed

lemma ptsend_pinv:
  assumes "pinv P" "pconts P (currpid (ker P)) = PNone" "currpid (ker P) \<noteq> NULLPROC"
  shows "returns (ptsend p m P) pinv" "returns (ptrecv p P) pinv"
proof -
  have "returns (ptsend p m P) pinv \<and> returns (ptrecv p P) pinv"
  proof (cases "badport p P")
    case True
    then show ?thesis using idle_pgive [OF assms(1,2)] by (simp add: ptsend_def ptrecv_def)
  next
    case False
    then show ?thesis
      using enter_pinv [OF assms False, of "ptssem (porttab P p)" "PSend p (ptseq (porttab P p)) m"]
        enter_pinv [OF assms False, of "ptrsem (porttab P p)" "PRecv p (ptseq (porttab P p))"]
      by (simp add: ptsend_def ptrecv_def enters_def)
  qed
  then show "returns (ptsend p m P) pinv" "returns (ptrecv p P) pinv" by simp_all
qed

text \<open>A receiver that comes back from \<open>wait\<close> finds a message: the count covers every process in the
  middle of a call, and this one does not wait.\<close>

lemma receiver_finds:
  assumes o: "port_ok Open P n p" and k: "kok (ker P)" and r: "currpid (ker P) \<in> receivers P p" and f: "finite (receivers P p)"
  shows "0 < n"
proof -
  let ?x = "ptrsem (porttab P p)"
  have x: "good_sem (ker P) ?x" "waiters (ker P) ?x \<subseteq> receivers P p" using o by (simp_all add: open_ok)
  have "insert (currpid (ker P)) (waiters (ker P) ?x) \<subseteq> receivers P p" using x r by blast
  then have "card (insert (currpid (ker P)) (waiters (ker P) ?x)) \<le> card (receivers P p)" by (rule card_mono [OF f])
  moreover have "card (insert (currpid (ker P)) (waiters (ker P) ?x)) = Suc (card (waiters (ker P) ?x))"
    using current_not_waiting [OF k x(1)] by (simp add: waiters_def)
  moreover have "card (waiters (ker P) ?x) = nat (- scount (semtab (ker P) ?x))" by (rule waiting_count [OF k x(1)])
  moreover have "scount (semtab (ker P) ?x) + int (card (receivers P p)) \<le> int n" using o by (simp add: open_ok)
  ultimately show ?thesis by linarith
qed

text \<open>And a port never holds more messages than it was created for.\<close>

lemma port_bounded:
  assumes o: "port_ok Open P n p" and k: "kok (ker P)" and f: "finite (senders P p)"
  shows "int n \<le> uint (ptmaxcnt (porttab P p))"
proof -
  let ?x = "ptssem (porttab P p)"
  have x: "good_sem (ker P) ?x" "waiters (ker P) ?x \<subseteq> senders P p" using o by (simp_all add: open_ok)
  have "card (waiters (ker P) ?x) \<le> card (senders P p)" by (rule card_mono [OF f x(2)])
  moreover have "card (waiters (ker P) ?x) = nat (- scount (semtab (ker P) ?x))" by (rule waiting_count [OF k x(1)])
  moreover have "scount (semtab (ker P) ?x) + int (card (senders P p)) + int n \<le> uint (ptmaxcnt (porttab P p))" using o by (simp add: open_ok)
  ultimately show ?thesis by linarith
qed

lemma card_remove_int: "finite A \<Longrightarrow> int (card (A - {i})) = int (card A) - (if i \<in> A then 1 else 0)"
  using card.remove [of A i] by (cases "i \<in> A") simp_all

text \<open>The second half: the process leaves, the semaphore of the other side is signalled, and the port
  holds one message more or less.\<close>

definition leaves :: "int \<Rightarrow> ptentry \<Rightarrow> int \<Rightarrow> pcont \<Rightarrow> nat \<Rightarrow> nat \<Rightarrow> bool" where
  "leaves p e x c n n' \<longleftrightarrow> (x = ptrsem e \<and> (\<exists>m. c = PSend p (ptseq e) m) \<and> n' = Suc n)
     \<or> (x = ptssem e \<and> c = PRecv p (ptseq e) \<and> n = Suc n')"

lemma leave_pinv:
  fixes P P1 :: ports and p :: int
  defines "i \<equiv> currpid (ker P)" and "e \<equiv> porttab P p"
  assumes I: "port_rep P fl Q" "\<And>p. port_ok (ph p) P (length (Q p)) p"
    "\<And>p q. p \<noteq> q \<Longrightarrow> own (ph p) (porttab P p) \<inter> own (ph q) (porttab P q) = {}"
    "kok (ker P)" "\<And>i. pconts P i \<noteq> PNone \<Longrightarrow> 0 \<le> i \<and> i < NPROC" "ph p = Open"
    and c: "leaves p e x (pconts P i) (length (Q p)) (length (Q' p))"
    and P1: "port_rep P1 fl' Q'" "\<And>q. q \<noteq> p \<Longrightarrow> Q' q = Q q" "ker P1 = ker P" "pconts P1 = pconts P"
      "\<And>q. q \<noteq> p \<Longrightarrow> porttab P1 q = porttab P q" "ptssem (porttab P1 p) = ptssem e" "ptrsem (porttab P1 p) = ptrsem e"
      "ptmaxcnt (porttab P1 p) = ptmaxcnt e" "ptseq (porttab P1 p) = ptseq e" "badport p P1 = badport p P"
      "0 \<le> ptnextid P1" "ptnextid P1 < NPORTS"
    and r: "\<And>pid. r \<noteq> KillK pid"
  shows "returns (on_ker (signal x) P1 \<bind> pgive r i) pinv"
proof -
  have o: "port_ok Open P (length (Q p)) p" using I(2) [of p] I(6) by simp
  have x: "good_sem (ker P) x" "x \<in> own Open e" using o c by (auto simp: open_ok leaves_def own_open e_def)
  from signal_effect [OF I(4) x(1)] obtain s' where s': "signal x (ker P) = Some s'" "kok s'" "only_sem x (ker P) s'"
    "semtab s' x = (semtab (ker P) x)\<lparr>scount := scount (semtab (ker P) x) + 1\<rparr>"
    "waiters s' x \<subseteq> waiters (ker P) x" by (auto elim: returnsE)
  define P' where "P' = set_pcont i PNone (P1\<lparr>ker := set_cont i r s'\<rparr>)"
  have e': "(on_ker (signal x) P1 \<bind> pgive r i) = Some P'" using s'(1) by (simp add: on_ker_def pgive_def P1(3) P'_def)
  have f: "porttab P' = porttab P1" "ker P' = set_cont i r s'" "badport p P' = badport p P" using P1(10) by (simp_all add: P'_def badport_def)
  have pd: "pend P' p = (pend P p)(i := PNone)" by (auto simp: P'_def pend_def P1(4) fun_eq_iff)
  have po: "port_of (pconts P i) = Some p" using c by (auto simp: leaves_def)
  have pd': "pend P' q = pend P q" if "q \<noteq> p" for q using that po by (auto simp: P'_def pend_def P1(4) fun_eq_iff)
  have sq: "ptseq (porttab P' p) = ptseq (porttab P p)" using P1(9) by (simp add: f e_def)
  have S: "senders P' p = senders P p - {i}" "receivers P' p = receivers P p - {i}"
    using senders_upd [OF pd sq] receivers_upd [OF pd sq] by simp_all
  have fin: "finite (senders P p)" "finite (receivers P p)" by (rule pending_finite; use I(5) in simp)+
  have mem: "i \<in> senders P p \<longleftrightarrow> (\<exists>m. pconts P i = PSend p (ptseq e) m)" "i \<in> receivers P p \<longleftrightarrow> pconts P i = PRecv p (ptseq e)"
    using po by (auto simp: senders_def receivers_def pend_def e_def)
  have card: "int (card (senders P p - {i})) = int (card (senders P p)) - (if i \<in> senders P p then 1 else 0)"
    "int (card (receivers P p - {i})) = int (card (receivers P p)) - (if i \<in> receivers P p then 1 else 0)"
    using fin by (simp_all add: card_remove_int)
  have nw: "i \<notin> waiters (ker P) y" if "good_sem (ker P) y" for y using current_not_waiting [OF I(4) that] by (simp add: i_def)
  have g: "good_sem s' y" "semtab s' y = semtab (ker P) y" "waiters s' y = waiters (ker P) y" if "good_sem (ker P) y" "y \<noteq> x" for y
    using s'(3) that by (simp_all add: only_sem_def good_sem_def)
  have gx: "good_sem s' x" using x(1) s'(4) by (simp add: good_sem_def)
  have w: "waiters s' y \<subseteq> waiters (ker P) y - {i}" if "good_sem (ker P) y" for y
    using s'(5) g(3) [OF that] nw [OF that] by (cases "y = x") auto
  have o': "port_ok Open P' (length (Q' p)) p"
    using o unfolding open_ok f good_sem_cont waiters_cont set_cont_simps P1(6-9) e_def [symmetric]
  proof (intro conjI)
    show "\<forall>j. \<not> clearing (pend P' p j)" "\<forall>j. old_seq False (ptseq e) (pend P' p j)"
      using o unfolding open_ok pd e_def by simp_all
    show "good_sem s' (ptssem e)" "good_sem s' (ptrsem e)" using o g(1) gx unfolding open_ok e_def by blast+
    show "waiters s' (ptssem e) \<subseteq> senders P' p" "waiters s' (ptrsem e) \<subseteq> receivers P' p"
      using o w unfolding open_ok S e_def by blast+
    show "scount (semtab s' (ptrsem e)) + int (card (receivers P' p)) \<le> int (length (Q' p))"
      using o c s'(4) g(2) mem card unfolding open_ok leaves_def S e_def by auto
    show "scount (semtab s' (ptssem e)) + int (card (senders P' p)) + int (length (Q' p)) \<le> uint (ptmaxcnt e)"
      using o c s'(4) g(2) mem card unfolding open_ok leaves_def S e_def by auto
  qed blast+
  have "pinv P'"
  proof (rule pinv_step [OF I(1-3), where p = p and ph' = Open and Q' = Q' and fl' = fl'])
    show "port_rep P' fl' Q'" using P1(1) by (simp add: port_rep_def P'_def badport_def)
    show "kok (ker P')" using s'(2) r by (auto simp: f kok_def conts_ok_def)
    show "pconts P' j \<noteq> PNone \<Longrightarrow> 0 \<le> j \<and> j < NPROC" for j
      using I(5) [of j] by (auto simp: P'_def P1(4) split: if_splits)
    show "semtab (ker P') y = semtab (ker P) y \<and> waiters (ker P') y = waiters (ker P) y"
      if "q \<noteq> p" "y \<in> own (ph q) (porttab P q)" for q y
      unfolding f using only_sem_others [OF s'(3) I(2) refl I(3) _ that] x(2) I(6) by (simp add: e_def)
    show "own Open (porttab P' p) \<inter> own (ph q) (porttab P q) = {}" if "q \<noteq> p" for q
      using I(3) [of p q] that I(6) P1(6,7) by (simp add: f own_open e_def)
    show "0 \<le> ptnextid P'" "ptnextid P' < NPORTS" using P1(11,12) by (simp_all add: P'_def)
  qed (use o' pd' P1 in \<open>simp_all add: f\<close>)
  then show ?thesis using e' by simp
qed

lemma gone_pgive:
  assumes "pinv P" "\<not> clearing (pconts P (currpid (ker P)))" "\<And>pid. r \<noteq> KillK pid"
  shows "returns (pgive r (currpid (ker P)) P) pinv"
proof -
  have "\<And>x. good_sem (ker P) x \<Longrightarrow> currpid (ker P) \<notin> waiters (ker P) x"
    using assms(1) current_not_waiting by (auto simp: pinv_def)
  moreover obtain P' where e: "pgive r (currpid (ker P)) P = Some P'" by (simp add: pgive_def)
  ultimately have "pinv P'" using assms(2) by (intro pgive_pinv [OF assms(1) _ _ assms(3)])
  then show ?thesis using e by simp
qed

lemma badport_open: "\<not> gone p k P \<Longrightarrow> \<not> isbadport p \<Longrightarrow> \<not> badport p P"
  by (simp add: gone_def badport_def)

text \<open>A pending call concerns a port of the table.\<close>

lemma ptsend_finish_pinv:
  assumes P: "pinv P" and i: "pconts P (currpid (ker P)) = PSend p k m" and b: "\<not> isbadport p"
    and e: "ptsend_finish p k m P = Some P'"
  shows "pinv P'"
proof (cases "gone p k P")
  case True
  then show ?thesis using gone_pgive [OF P, of "Ret SYSERR"] i e by (simp add: ptsend_finish_def)
next
  case False
  obtain ph fl Q where I: "port_rep P fl Q" "\<And>p. port_ok (ph p) P (length (Q p)) p"
    "\<And>p q. p \<noteq> q \<Longrightarrow> own (ph p) (porttab P p) \<inter> own (ph q) (porttab P q) = {}"
    "kok (ker P)" "\<And>i. pconts P i \<noteq> PNone \<Longrightarrow> 0 \<le> i \<and> i < NPROC" "\<And>p. \<not> badport p P \<Longrightarrow> ph p = Open"
    by (rule pinvE [OF P]) (rule that)
  have p: "\<not> badport p P" by (rule badport_open [OF False b])
  have fn: "ptfree P \<noteq> 0" using e False by (auto simp: ptsend_finish_def)
  then obtain x fl' where fl: "fl = x # fl'" using port_repD(1) [OF I(1)] by (cases fl) auto
  note R = put_msg_rep(1) [OF I(1) [unfolded fl] p, of m]
  have l: "leaves p (porttab P p) (ptrsem (porttab P p)) (pconts P (currpid (ker P))) (length (Q p)) (length ((Q(p := Q p @ [x])) p))"
    using i False by (simp add: leaves_def gone_def)
  have "returns (on_ker (signal (ptrsem (porttab P p))) (put_msg p m P) \<bind> pgive (Ret OK) (currpid (ker P))) pinv"
    by (rule leave_pinv [OF I(1-5) I(6) [OF p] l R]) (use P in \<open>auto simp: put_msg_def Let_def badport_def pinv_def\<close>)
  moreover have "ptsend_finish p k m P = (on_ker (signal (ptrsem (porttab P p))) (put_msg p m P) \<bind> pgive (Ret OK) (currpid (ker P)))"
    using False fn by (simp add: ptsend_finish_def)
  ultimately show ?thesis using e by (metis returns_Some)
qed

lemma ptrecv_finish_pinv:
  assumes P: "pinv P" and i: "pconts P (currpid (ker P)) = PRecv p k" and b: "\<not> isbadport p"
  shows "returns (ptrecv_finish p k P) pinv" "\<not> gone p k P \<Longrightarrow> port_good p P \<and> port_msgs p P \<noteq> []"
proof -
  have "returns (ptrecv_finish p k P) pinv \<and> (\<not> gone p k P \<longrightarrow> port_good p P \<and> port_msgs p P \<noteq> [])"
  proof (cases "gone p k P")
    case True
    then show ?thesis using gone_pgive [OF P, of "RetMsg MSG_SYSERR"] i by (simp add: ptrecv_finish_def)
  next
    case False
    obtain ph fl Q where I: "port_rep P fl Q" "\<And>p. port_ok (ph p) P (length (Q p)) p"
      "\<And>p q. p \<noteq> q \<Longrightarrow> own (ph p) (porttab P p) \<inter> own (ph q) (porttab P q) = {}"
      "kok (ker P)" "\<And>i. pconts P i \<noteq> PNone \<Longrightarrow> 0 \<le> i \<and> i < NPROC" "\<And>p. \<not> badport p P \<Longrightarrow> ph p = Open"
      by (rule pinvE [OF P]) (rule that)
    have p: "\<not> badport p P" by (rule badport_open [OF False b])
    have k: "k = ptseq (porttab P p)" using False by (simp add: gone_def)
    have "currpid (ker P) \<in> receivers P p" using i k by (simp add: receivers_def pend_def)
    moreover have "port_ok Open P (length (Q p)) p" using I(2) [of p] I(6) [OF p] by simp
    moreover have "finite (receivers P p)" by (rule pending_finite) (rule I(5))
    ultimately have "0 < length (Q p)" using receiver_finds I(4) by blast
    then obtain x xs where q: "Q p = x # xs" by (cases "Q p") auto
    note R = take_msg_rep [OF I(1) p q]
    have l: "leaves p (porttab P p) (ptssem (porttab P p)) (pconts P (currpid (ker P))) (length (Q p)) (length ((Q(p := xs)) p))"
      using i k q by (simp add: leaves_def)
    have "returns (on_ker (signal (ptssem (porttab P p))) (snd (take_msg p P)) \<bind> pgive (RetMsg (fst (take_msg p P))) (currpid (ker P))) pinv"
      by (rule leave_pinv [OF I(1-5) I(6) [OF p] l R(1)]) (use P in \<open>auto simp: take_msg_def Let_def badport_def pinv_def\<close>)
    moreover have "port_msgs p P \<noteq> []" "port_good p P" using port_msgs_rep [OF I(1) p] q I(1) p by (auto simp: port_good_def)
    ultimately show ?thesis using False by (simp add: ptrecv_finish_def case_prod_unfold Let_def)
  qed
  then show "returns (ptrecv_finish p k P) pinv" "\<not> gone p k P \<Longrightarrow> port_good p P \<and> port_msgs p P \<noteq> []" by blast+
qed

section \<open>Resetting and deleting\<close>

text \<open>A disposal function that touches neither ports nor semaphores and does not give the processor away.\<close>

definition quiet :: "ports \<Rightarrow> ports \<Rightarrow> bool" where
  "quiet P P' \<longleftrightarrow> porttab P' = porttab P \<and> ptnodes P' = ptnodes P \<and> ptfree P' = ptfree P \<and> ptnextid P' = ptnextid P
     \<and> pconts P' = pconts P \<and> (kok (ker P) \<longrightarrow> kok (ker P')) \<and> currpid (ker P') = currpid (ker P)
     \<and> semtab (ker P') = semtab (ker P) \<and> waiters (ker P') = waiters (ker P)"

definition harmless :: "(u32 \<Rightarrow> ports \<Rightarrow> ports option) \<Rightarrow> bool" where
  "harmless disp \<longleftrightarrow> (\<forall>m P P'. disp m P = Some P' \<longrightarrow> quiet P P')"

lemma quiet_trans: "quiet P P' \<Longrightarrow> quiet P' P'' \<Longrightarrow> quiet P P''"
  by (simp add: quiet_def)

lemma quietD:
  assumes "quiet P P'"
  shows "porttab P' = porttab P" "ptnodes P' = ptnodes P" "ptfree P' = ptfree P" "ptnextid P' = ptnextid P" "pconts P' = pconts P"
    "kok (ker P) \<Longrightarrow> kok (ker P')" "currpid (ker P') = currpid (ker P)" "semtab (ker P') = semtab (ker P)"
    "waiters (ker P') = waiters (ker P)"
  using assms by (simp_all add: quiet_def)

lemma dispose_walk_quiet:
  assumes "harmless disp" "dispose_walk disp w P = Some P'"
  shows "quiet P P'"
proof -
  have "harmless disp \<longrightarrow> quiet P P'"
  proof (rule dispose_walk.raw_induct [where P = "\<lambda>d w P P'. harmless d \<longrightarrow> quiet P P'", OF _ assms(2)])
    fix dw d w P r
    assume IH: "\<And>d w P r. dw d w P = Some r \<Longrightarrow> harmless d \<longrightarrow> quiet P r"
      and e: "(if w = 0 then Some P else d (ptmsg (ptnodes P w)) P \<bind> (\<lambda>P1. dw d (ptnext (ptnodes P1 w)) P1)) = Some r"
    show "harmless d \<longrightarrow> quiet P r"
    proof (cases "w = 0")
      case True
      then show ?thesis using e by (simp add: quiet_def)
    next
      case False
      then obtain y where y: "d (ptmsg (ptnodes P w)) P = Some y" "dw d (ptnext (ptnodes y w)) y = Some r"
        using e by (auto simp: bind_eq_Some_conv)
      show ?thesis
      proof
        assume h: "harmless d"
        then have "quiet P y" using y(1) unfolding harmless_def by blast
        moreover have "quiet y r" using IH [OF y(2)] h by blast
        ultimately show "quiet P r" by (rule quiet_trans)
      qed
    qed
  qed
  then show ?thesis using assms(1) by simp
qed

lemma port_rep_cong:
  assumes "port_rep P fl Q" "ptnodes P' = ptnodes P" "ptfree P' = ptfree P" "\<And>q. badport q P' = badport q P"
    "\<And>q. \<not> badport q P \<Longrightarrow> porttab P' q = porttab P q"
  shows "port_rep P' fl Q"
  using assms unfolding port_rep_def by simp

text \<open>The messages of a port go to the free list; the port must already be out of use.\<close>

lemma drop_msgs_rep:
  assumes rep: "port_rep P fl Q" and p: "\<not> badport p P" and d: "harmless disp"
    and P1: "P1 = upd_port p (\<lambda>e. e\<lparr>ptstate := PT_LIMBO, ptseq := ptseq e + 1\<rparr>) P" and e: "drop_msgs disp p P1 = Some P2"
  shows "port_rep P2 (Q p @ fl) (Q(p := []))" "porttab P2 = porttab P1" "pconts P2 = pconts P" "ptnextid P2 = ptnextid P"
    "kok (ker P) \<Longrightarrow> kok (ker P2)" "currpid (ker P2) = currpid (ker P)" "semtab (ker P2) = semtab (ker P)"
    "waiters (ker P2) = waiters (ker P)"
proof -
  note D = port_repD [OF rep]
  have hd: "pthead (porttab P1 p) = pthead (porttab P p)" "pttail (porttab P1 p) = pttail (porttab P p)" "ptnodes P1 = ptnodes P"
    "ptfree P1 = ptfree P" "pconts P1 = pconts P" "ptnextid P1 = ptnextid P" "ker P1 = ker P" by (simp_all add: P1)
  have bad: "badport q P1 \<longleftrightarrow> q = p \<or> badport q P" for q by (auto simp: P1 badport_def)
  have n: "nlist (ptnodes P) (pthead (porttab P p)) (Q p)" by (rule D(7) [OF p])
  have rep_of: "port_rep P2 (Q p @ fl) (Q(p := []))"
    if F: "nlist (ptnodes P2) (ptfree P2) (Q p @ fl)" and N: "\<And>x. x \<notin> set (Q p) \<Longrightarrow> ptnodes P2 x = ptnodes P x" and T: "porttab P2 = porttab P1"
  proof -
    have other: "nlist (ptnodes P2) (pthead (porttab P q)) (Q q)" if "q \<noteq> p" "\<not> badport q P" for q
    proof -
      have "nlist (ptnodes P2) (pthead (porttab P q)) (Q q) = nlist (ptnodes P) (pthead (porttab P q)) (Q q)"
      proof (rule nlist_cong)
        fix x assume "x \<in> set (Q q)"
        then have "x \<notin> set (Q p)" using D(5) [OF that(1)] by blast
        from N [OF this] show "ptnext (ptnodes P2 x) = ptnext (ptnodes P x)" by simp
      qed
      then show ?thesis using D(7) [OF that(2)] by simp
    qed
    have t: "porttab P2 q = porttab P q" if "q \<noteq> p" for q using that T by (simp add: P1)
    have b: "badport q P2 \<longleftrightarrow> q = p \<or> badport q P" for q using bad [of q] T by (simp add: badport_def)
    have fr: "set (Q q) \<inter> set (Q p @ fl) = {}" if "q \<noteq> p" for q using D(4) [of q] D(5) [of p q] that by auto
    show ?thesis
      unfolding port_rep_def
    proof (intro conjI allI impI)
      show "nlist (ptnodes P2) (ptfree P2) (Q p @ fl)" by (rule F)
      show "distinct (Q p @ fl)" using D(2,3) D(4) [of p] by auto
      fix q r
      show "distinct ((Q(p := [])) q)" using D(3) by simp
      show "set ((Q(p := [])) q) \<inter> set (Q p @ fl) = {}" using fr [of q] by (cases "q = p") simp_all
      show "r \<noteq> q \<Longrightarrow> set ((Q(p := [])) q) \<inter> set ((Q(p := [])) r) = {}" using D(5) [of r q] by auto
      show "if badport q P2 then (Q(p := [])) q = [] else nlist (ptnodes P2) (pthead (porttab P2 q)) ((Q(p := [])) q)
        \<and> pttail (porttab P2 q) = (if (Q(p := [])) q = [] then 0 else last ((Q(p := [])) q))"
        using other [of q] D(6,8) [of q] t [of q] b [of q] by auto
    qed
  qed
  have "port_rep P2 (Q p @ fl) (Q(p := [])) \<and> porttab P2 = porttab P1 \<and> pconts P2 = pconts P1 \<and> ptnextid P2 = ptnextid P1
    \<and> (kok (ker P1) \<longrightarrow> kok (ker P2)) \<and> currpid (ker P2) = currpid (ker P1) \<and> semtab (ker P2) = semtab (ker P1) \<and> waiters (ker P2) = waiters (ker P1)"
  proof (cases "Q p = []")
    case True
    then have "P2 = P1" using e n hd by (simp add: drop_msgs_def Let_def)
    then show ?thesis using rep_of True D(1) hd by simp
  next
    case False
    then have h: "pthead (porttab P p) \<noteq> 0" using n by (cases "Q p") auto
    obtain P3 where w: "dispose_walk disp (pthead (porttab P1 p)) P1 = Some P3"
      and P2: "P2 = (upd_node (pttail (porttab P3 p)) (\<lambda>n. n\<lparr>ptnext := ptfree P3\<rparr>) P3)\<lparr>ptfree := pthead (porttab P3 p)\<rparr>"
      using e h hd(1) by (auto simp: drop_msgs_def Let_def bind_eq_Some_conv)
    note q = quietD [OF dispose_walk_quiet [OF d w]]
    have l: "pttail (porttab P3 p) = last (Q p)" using D(8) [OF p] False q(1) hd(2) by simp
    have m: "ptnodes P2 = (ptnodes P)(last (Q p) := (ptnodes P (last (Q p)))\<lparr>ptnext := ptfree P\<rparr>)"
      using l q(2,3) hd by (simp add: P2)
    have "nlist (ptnodes P2) (pthead (porttab P p)) (Q p @ fl)"
      unfolding m by (rule nlist_join [OF n False D(3) D(1) D(4)])
    then have "port_rep P2 (Q p @ fl) (Q(p := []))"
      by (intro rep_of) (use False q hd m in \<open>auto simp: P2 dest: last_in_set\<close>)
    then show ?thesis using q by (simp add: P2)
  qed
  then show "port_rep P2 (Q p @ fl) (Q(p := []))" "porttab P2 = porttab P1" "pconts P2 = pconts P" "ptnextid P2 = ptnextid P"
    "kok (ker P) \<Longrightarrow> kok (ker P2)" "currpid (ker P2) = currpid (ker P)" "semtab (ker P2) = semtab (ker P)"
    "waiters (ker P2) = waiters (ker P)" using hd by simp_all
qed

text \<open>A port that is being cleared: the conditions on it, when one process clears it.\<close>

lemma old_seq_later: "old_seq b n c \<Longrightarrow> n < n' \<Longrightarrow> old_seq b' n' c"
  by (cases c) auto

lemma closed_port_ok:
  assumes "ph \<noteq> Open" "badport p P" "\<not> isbadport p"
    and "\<And>j. clearing (pend P p j) \<longleftrightarrow> j = i \<and> clearing c" "clearing c \<Longrightarrow> pend P p i = c"
    and "clearing c \<Longrightarrow> clear_phase c = Some ph \<and> ptstate (porttab P p) = PT_LIMBO" "ph \<in> {Reset1, Reset2, Del1} \<Longrightarrow> clearing c"
    and "\<And>j. old_seq True (ptseq (porttab P p)) (pend P p j)"
    and "ph \<in> {Reset1, Reset2} \<Longrightarrow> pthead (porttab P p) = 0 \<and> pttail (porttab P p) = 0 \<and> ptssem (porttab P p) \<noteq> ptrsem (porttab P p)"
    and "\<And>x. x \<in> own ph (porttab P p) \<Longrightarrow> good_sem (ker P) x" "counts_ok ph P n p"
  shows "port_ok ph P n p"
  unfolding port_ok_def control_ok_def using assms by auto

lemma ptclear_pinv:
  assumes P: "pinv P" and i: "pconts P (currpid (ker P)) = PNone" and p: "\<not> badport p P" and d: "harmless disp"
    and st: "st = PT_ALLOC \<or> st = PT_FREE" and e: "ptclear disp p st P = Some P'"
  shows "pinv P'"
proof -
  let ?i = "currpid (ker P)" and ?e = "porttab P p" and ?c = "PClear1 p st"
  define ph' where "ph' = (if st = PT_ALLOC then Reset1 else Del1)"
  obtain ph fl Q where I: "port_rep P fl Q" "\<And>p. port_ok (ph p) P (length (Q p)) p"
    "\<And>p q. p \<noteq> q \<Longrightarrow> own (ph p) (porttab P p) \<inter> own (ph q) (porttab P q) = {}"
    "kok (ker P)" "\<And>i. pconts P i \<noteq> PNone \<Longrightarrow> 0 \<le> i \<and> i < NPROC" "\<And>p. \<not> badport p P \<Longrightarrow> ph p = Open"
    by (rule pinvE [OF P]) (rule that)
  have O: "ph p = Open" by (rule I(6) [OF p])
  have o: "port_ok Open P (length (Q p)) p" using I(2) [of p] O by simp
  then have so: "good_sem (ker P) (ptssem ?e)" "good_sem (ker P) (ptrsem ?e)" "ptssem ?e \<noteq> ptrsem ?e" by (simp_all add: open_ok)
  define P1 where "P1 = upd_port p (\<lambda>e. e\<lparr>ptstate := PT_LIMBO, ptseq := ptseq e + 1\<rparr>) P"
  obtain P2 where d2: "drop_msgs disp p P1 = Some P2" using e by (auto simp: ptclear_def P1_def bind_eq_Some_conv Let_def)
  note R = drop_msgs_rep [OF I(1) p d P1_def d2]
  define P3 where "P3 = (if st = PT_ALLOC then upd_port p (\<lambda>e. e\<lparr>pttail := 0, pthead := 0\<rparr>) (set_pcont ?i ?c P2) else set_pcont ?i ?c P2)"
  have k: "kok (ker P2)" "currpid (ker P2) = ?i" "semtab (ker P2) = semtab (ker P)" "waiters (ker P2) = waiters (ker P)" using R I(4) by simp_all
  have g2: "good_sem (ker P2) = good_sem (ker P)" using k(3) by (simp add: good_sem_def fun_eq_iff)
  have e3: "(if st = PT_ALLOC then on_ker (semreset (ptssem ?e) (uint (ptmaxcnt ?e))) P3 else on_ker (semdelete (ptssem ?e)) P3) = Some P'"
    using e d2 R(2) by (cases "st = PT_ALLOC") (simp_all add: ptclear_def P1_def Let_def P3_def)
  obtain s' where s': "P' = P3\<lparr>ker := s'\<rparr>" "kok s'" "only_sem (ptssem ?e) (ker P2) s'"
    "st = PT_ALLOC \<Longrightarrow> scount (semtab s' (ptssem ?e)) = uint (ptmaxcnt ?e) \<and> waiters s' (ptssem ?e) = {} \<and> good_sem s' (ptssem ?e)"
  proof (cases "st = PT_ALLOC")
    case True
    then show ?thesis
      using semreset_effect [OF k(1) so(1) [folded g2], of "uint (ptmaxcnt ?e)"] e3 so(1) that
      by (auto simp: on_ker_def P3_def good_sem_def k(3) bind_eq_Some_conv elim!: returnsE)
  next
    case False
    then show ?thesis
      using semdelete_effect [OF k(1) so(1) [folded g2]] e3 that
      by (auto simp: on_ker_def P3_def bind_eq_Some_conv elim!: returnsE)
  qed
  have t: "porttab P' p = (if st = PT_ALLOC then ?e\<lparr>ptstate := PT_LIMBO, ptseq := ptseq ?e + 1, pttail := 0, pthead := 0\<rparr>
      else ?e\<lparr>ptstate := PT_LIMBO, ptseq := ptseq ?e + 1\<rparr>)" "\<And>q. q \<noteq> p \<Longrightarrow> porttab P' q = porttab P q"
    using R(2) by (auto simp: s'(1) P3_def P1_def)
  have f: "ker P' = s'" by (simp add: s'(1))
  have pc: "pconts P' = (pconts P)(?i := ?c)" using R(3) by (simp add: s'(1) P3_def)
  have pd: "pend P' p = (pend P p)(?i := ?c)" "\<And>q. q \<noteq> p \<Longrightarrow> pend P' q = pend P q" using i by (auto simp: pc pend_def fun_eq_iff)
  have osem: "only_sem (ptssem ?e) (ker P) s'" using s'(3) g2 k(3,4) by (simp add: only_sem_def)
  have bp: "badport p P'" using t(1) by (simp add: badport_def)
  have new: "port_ok ph' P' (length ((Q(p := [])) p)) p"
  proof (rule closed_port_ok [where i = ?i and c = ?c])
    show "clearing (pend P' p j) \<longleftrightarrow> j = ?i \<and> clearing ?c" for j using o by (simp add: pd(1) open_ok)
    show "old_seq True (ptseq (porttab P' p)) (pend P' p j)" for j
      using o old_seq_later [of False "ptseq ?e" "pend P p j" "ptseq ?e + 1" True] by (simp add: t(1) pd(1) open_ok)
    show "good_sem (ker P') x" if "x \<in> own ph' (porttab P' p)" for x
      using that s'(4) so osem by (auto simp: ph'_def own_def t(1) f only_sem_def good_sem_def split: if_splits)
    show "counts_ok ph' P' (length ((Q(p := [])) p)) p" using s'(4) by (simp add: counts_ok_def ph'_def t(1) f)
  qed (use p st so bp in \<open>auto simp: ph'_def pd(1) t(1) badport_def\<close>)
  show ?thesis
  proof (rule pinv_step [OF I(1-3), where p = p and ph' = ph' and Q' = "Q(p := [])" and fl' = "Q p @ fl"])
    have nn: "\<not> badport q P2" if "\<not> badport q P'" for q using that t R(2) by (auto simp: badport_def P1_def split: if_splits)
    have pn: "ptnodes P' = ptnodes P2" "ptfree P' = ptfree P2" by (simp_all add: s'(1) P3_def)
    have eq: "porttab P' q = porttab P2 q" if "q \<noteq> p" for q using that by (simp add: s'(1) P3_def)
    have bq: "badport q P' = badport q P2" for q
      using eq [of q] R(2) bp by (cases "q = p") (auto simp: badport_def P1_def)
    show "port_rep P' (Q p @ fl) (Q(p := []))"
      by (rule port_rep_cong [OF R(1) pn bq]) (use eq bp bq in metis)
    show "pconts P' j \<noteq> PNone \<Longrightarrow> 0 \<le> j \<and> j < NPROC" for j
      using I(5) [of j] current_range [OF I(4)] by (auto simp: pc split: if_splits)
    show "semtab (ker P') y = semtab (ker P) y \<and> waiters (ker P') y = waiters (ker P) y"
      if "q \<noteq> p" "y \<in> own (ph q) (porttab P q)" for q y
      unfolding f using only_sem_others [OF osem I(2) refl I(3) _ that] O by (simp add: own_open)
    show "own ph' (porttab P' p) \<inter> own (ph q) (porttab P q) = {}" if "q \<noteq> p" for q
      using I(3) [of p q] that O by (auto simp: ph'_def own_def t(1) split: if_splits)
    show "0 \<le> ptnextid P'" "ptnextid P' < NPORTS" using P R(4) by (simp_all add: s'(1) P3_def pinv_def)
  qed (use new s'(2) pd(2) t(2) in \<open>simp_all add: f\<close>)
qed

lemma ptclear_second_pinv:
  assumes P: "pinv P" and i: "pconts P (currpid (ker P)) = PClear1 p st" and e: "ptclear_second p st P = Some P'"
  shows "pinv P'"
proof -
  let ?i = "currpid (ker P)" and ?e = "porttab P p" and ?c = "PClear2 p st"
  obtain ph fl Q where I: "port_rep P fl Q" "\<And>p. port_ok (ph p) P (length (Q p)) p"
    "\<And>p q. p \<noteq> q \<Longrightarrow> own (ph p) (porttab P p) \<inter> own (ph q) (porttab P q) = {}"
    "kok (ker P)" "\<And>i. pconts P i \<noteq> PNone \<Longrightarrow> 0 \<le> i \<and> i < NPROC" "\<And>p. \<not> badport p P \<Longrightarrow> ph p = Open"
    by (rule pinvE [OF P]) (rule that)
  have c: "control_ok (ph p) P p" using I(2) [of p] by (simp add: port_ok_def)
  note C = control_okD [OF c]
  have ci: "pend P p ?i = PClear1 p st" "clearing (pend P p ?i)" using i by (simp_all add: pend_def)
  have ph: "clear_phase (PClear1 p st) = Some (ph p)" using C(2) [OF ci(2)] ci(1) by simp
  then have st: "(st = PT_ALLOC \<and> ph p = Reset1) \<or> (st = PT_FREE \<and> ph p = Del1)" by (cases st) auto
  define ph' where "ph' = (if st = PT_ALLOC then Reset2 else Closed)"
  have gr: "good_sem (ker P) (ptrsem ?e)" using I(2) [of p] st by (auto simp: port_ok_def own_def)
  define P1 where "P1 = set_pcont ?i ?c P"
  have e1: "(if st = PT_ALLOC then on_ker (semreset (ptrsem ?e) 0) P1 else on_ker (semdelete (ptrsem ?e)) P1) = Some P'"
    using e by (cases "st = PT_ALLOC") (simp_all add: ptclear_second_def P1_def Let_def)
  obtain s' where s': "P' = P1\<lparr>ker := s'\<rparr>" "kok s'" "only_sem (ptrsem ?e) (ker P) s'"
    "st = PT_ALLOC \<Longrightarrow> scount (semtab s' (ptrsem ?e)) = 0 \<and> waiters s' (ptrsem ?e) = {} \<and> good_sem s' (ptrsem ?e)"
  proof (cases "st = PT_ALLOC")
    case True
    then show ?thesis
      using semreset_effect [OF I(4) gr, of 0] e1 gr that
      by (auto simp: on_ker_def P1_def good_sem_def bind_eq_Some_conv elim!: returnsE)
  next
    case False
    then show ?thesis
      using semdelete_effect [OF I(4) gr] e1 that by (auto simp: on_ker_def P1_def bind_eq_Some_conv elim!: returnsE)
  qed
  have f: "porttab P' = porttab P" "ker P' = s'" "badport q P' = badport q P" for q by (simp_all add: s'(1) P1_def badport_def)
  have pc: "pconts P' = (pconts P)(?i := ?c)" by (simp add: s'(1) P1_def)
  have pd: "pend P' p = (pend P p)(?i := ?c)" "\<And>q. q \<noteq> p \<Longrightarrow> pend P' q = pend P q" using i by (auto simp: pc pend_def fun_eq_iff)
  have lim: "ptstate ?e = PT_LIMBO" "badport p P" "\<not> isbadport p" using C(3) [OF ci(2)] C(4) [of ?i] ci(1) by (auto simp: badport_def)
  have g: "good_sem s' y" "semtab s' y = semtab (ker P) y" "waiters s' y = waiters (ker P) y" if "good_sem (ker P) y" "y \<noteq> ptrsem ?e" for y
    using s'(3) that by (simp_all add: only_sem_def good_sem_def)
  have r1: "good_sem (ker P) (ptssem ?e) \<and> ptssem ?e \<noteq> ptrsem ?e" if "st = PT_ALLOC"
    using I(2) [of p] st that by (auto simp: port_ok_def own_def)
  have new: "port_ok ph' P' (length (Q p)) p"
  proof (rule closed_port_ok [where i = ?i and c = ?c])
    show "clearing (pend P' p j) \<longleftrightarrow> j = ?i \<and> clearing ?c" for j
    proof (cases "j = ?i")
      case False
      then have "\<not> clearing (pend P p j)" using C(6) [OF _ ci(2)] by blast
      then show ?thesis using False by (simp add: pd(1))
    qed (simp add: pd(1))
    show "old_seq True (ptseq (porttab P' p)) (pend P' p j)" for j using C(7) [of j] st by (auto simp: f pd(1))
    show "good_sem (ker P') x" if "x \<in> own ph' (porttab P' p)" for x
      using that s'(4) r1 g(1) by (auto simp: ph'_def own_def f split: if_splits)
    show "counts_ok ph' P' (length (Q p)) p"
      using I(2) [of p] s'(4) r1 g st by (auto simp: counts_ok_def ph'_def f port_ok_def Let_def)
  qed (use st lim r1 C(8,9) in \<open>auto simp: ph'_def pd(1) f\<close>)
  show ?thesis
  proof (rule pinv_step [OF I(1-3), where p = p and ph' = ph' and Q' = Q and fl' = fl])
    show "port_rep P' fl Q" using I(1) by (simp add: port_rep_def s'(1) P1_def badport_def)
    show "pconts P' j \<noteq> PNone \<Longrightarrow> 0 \<le> j \<and> j < NPROC" for j
      using I(5) [of j] current_range [OF I(4)] by (auto simp: pc split: if_splits)
    have "ptrsem ?e \<in> own (ph p) ?e" using st by (auto simp: own_def)
    then show "semtab (ker P') y = semtab (ker P) y \<and> waiters (ker P') y = waiters (ker P) y"
      if "q \<noteq> p" "y \<in> own (ph q) (porttab P q)" for q y
      unfolding f using only_sem_others [OF s'(3) I(2) refl I(3) _ that] by simp
    show "own ph' (porttab P' p) \<inter> own (ph q) (porttab P q) = {}" if "q \<noteq> p" for q
      using I(3) [of p q] that st by (auto simp: ph'_def own_def f split: if_splits)
    show "0 \<le> ptnextid P'" "ptnextid P' < NPORTS" using P by (simp_all add: s'(1) P1_def pinv_def)
  qed (use new s'(2) pd(2) in \<open>simp_all add: f\<close>)
qed

lemma ptclear_finish_pinv:
  assumes P: "pinv P" and i: "pconts P (currpid (ker P)) = PClear2 p st" and e: "ptclear_finish p st P = Some P'"
  shows "pinv P'"
proof -
  let ?i = "currpid (ker P)" and ?e = "porttab P p"
  obtain ph fl Q where I: "port_rep P fl Q" "\<And>p. port_ok (ph p) P (length (Q p)) p"
    "\<And>p q. p \<noteq> q \<Longrightarrow> own (ph p) (porttab P p) \<inter> own (ph q) (porttab P q) = {}"
    "kok (ker P)" "\<And>i. pconts P i \<noteq> PNone \<Longrightarrow> 0 \<le> i \<and> i < NPROC" "\<And>p. \<not> badport p P \<Longrightarrow> ph p = Open"
    by (rule pinvE [OF P]) (rule that)
  have ok: "port_ok (ph p) P (length (Q p)) p" by (rule I(2))
  have c: "control_ok (ph p) P p" using ok by (simp add: port_ok_def)
  note C = control_okD [OF c]
  have ci: "pend P p ?i = PClear2 p st" "clearing (pend P p ?i)" using i by (simp_all add: pend_def)
  have ph: "clear_phase (PClear2 p st) = Some (ph p)" using C(2) [OF ci(2)] ci(1) by simp
  then have st: "(st = PT_ALLOC \<and> ph p = Reset2) \<or> (st = PT_FREE \<and> ph p = Closed)" by (cases st) auto
  define ph' where "ph' = (if st = PT_ALLOC then Open else Closed)"
  have lim: "ptstate ?e = PT_LIMBO" "badport p P" "\<not> isbadport p" using C(3) [OF ci(2)] C(4) [of ?i] ci(1) by (auto simp: badport_def)
  have qe: "Q p = []" by (rule port_repD(6) [OF I(1) lim(2)])
  define s' where "s' = set_cont ?i (Ret OK) (ker P)"
  have P': "porttab P' = (porttab P)(p := ?e\<lparr>ptstate := st\<rparr>)" "ker P' = s'" "pconts P' = (pconts P)(?i := PNone)"
    "ptnodes P' = ptnodes P" "ptfree P' = ptfree P" "ptnextid P' = (if st = PT_FREE then p else ptnextid P)"
    using e by (cases "st = PT_FREE"; simp add: ptclear_finish_def pgive_def s'_def Let_def; fastforce)+
  have pd: "pend P' p = (pend P p)(?i := PNone)" "\<And>q. q \<noteq> p \<Longrightarrow> pend P' q = pend P q" using i by (auto simp: P'(3) pend_def fun_eq_iff)
  have nc: "\<not> clearing (pend P' p j)" for j
  proof (cases "j = ?i")
    case False
    then have "\<not> clearing (pend P p j)" using C(6) [OF _ ci(2)] by blast
    then show ?thesis using False by (simp add: pd(1))
  qed (simp add: pd(1))
  have old: "old_seq True (ptseq ?e) (pend P' p j)" for j using C(7) [of j] st by (auto simp: pd(1))
  have new: "port_ok ph' P' (length (Q p)) p"
  proof (cases "st = PT_ALLOC")
    case True
    have own: "good_sem (ker P) (ptssem ?e)" "good_sem (ker P) (ptrsem ?e)" "ptssem ?e \<noteq> ptrsem ?e"
      "scount (semtab (ker P) (ptssem ?e)) = uint (ptmaxcnt ?e)" "waiters (ker P) (ptssem ?e) = {}"
      "scount (semtab (ker P) (ptrsem ?e)) = 0" "waiters (ker P) (ptrsem ?e) = {}"
      using ok st True by (auto simp: port_ok_def own_def counts_ok_def Let_def)
    have "senders P' p = {}" "receivers P' p = {}"
      using old by (auto simp: senders_def receivers_def P'(1)) (metis old_seq.simps(1,2) less_irrefl)+
    moreover have "old_seq False (ptseq ?e) (pend P' p j)" for j using old [of j] by (cases "pend P' p j") auto
    ultimately have "port_ok Open P' (length (Q p)) p"
      unfolding open_ok using own nc lim True qe by (simp add: P'(1,2) s'_def badport_def)
    then show ?thesis using True by (simp add: ph'_def)
  next
    case False
    then have f: "st = PT_FREE" using st by auto
    show ?thesis
      by (rule closed_port_ok [where i = ?i and c = PNone])
        (use nc old lim f in \<open>auto simp: ph'_def P'(1) badport_def own_def counts_ok_def\<close>)
  qed
  show ?thesis
  proof (rule pinv_step [OF I(1-3), where p = p and ph' = ph' and Q' = Q and fl' = fl])
    have "nlist (ptnodes P) (pthead ?e) []" "pttail ?e = 0" if "st = PT_ALLOC" using C(8,9) st that by auto
    then show "port_rep P' fl Q"
      using I(1) qe st lim unfolding port_rep_def by (auto simp: P' badport_def split: if_splits)
    show "pconts P' j \<noteq> PNone \<Longrightarrow> 0 \<le> j \<and> j < NPROC" for j using I(5) [of j] by (auto simp: P'(3) split: if_splits)
    show "own ph' (porttab P' p) \<inter> own (ph q) (porttab P q) = {}" if "q \<noteq> p" for q
      using I(3) [of p q] that st by (auto simp: ph'_def own_def P'(1) split: if_splits)
    show "kok (ker P')" using I(4) by (simp add: P'(2) s'_def inv_ret)
    show "0 \<le> ptnextid P'" "ptnextid P' < NPORTS" using P lim(3) by (simp_all add: P'(6) pinv_def isbadport_def)
  qed (use new pd(2) in \<open>simp_all add: P'(1,2) s'_def\<close>)
qed

section \<open>Creating and counting\<close>

definition sems_left :: "kstate \<Rightarrow> bool" where
  "sems_left s \<longleftrightarrow> 0 \<le> nextsem s \<and> nextsem s < NSEM
     \<and> (\<exists>x y. x \<noteq> y \<and> 0 \<le> x \<and> x < NSEM \<and> 0 \<le> y \<and> y < NSEM \<and> sstate (semtab s x) = S_FREE \<and> sstate (semtab s y) = S_FREE)"

lemma two_sems:
  assumes "kok s" "0 \<le> n" "sems_left s"
  obtains x y s1 s2 where "semcreate n s = Some s1" "semcreate 0 s1 = Some s2" "kok s2" "retval s1 (currpid s) = x" "retval s2 (currpid s) = y"
    "x \<noteq> y" "sstate (semtab s x) = S_FREE" "sstate (semtab s y) = S_FREE" "good_sem s2 x" "good_sem s2 y"
    "scount (semtab s2 x) = n" "waiters s2 x = {}" "scount (semtab s2 y) = 0" "waiters s2 y = {}" "currpid s2 = currpid s" "currpid s1 = currpid s"
    "\<And>z. good_sem s z \<Longrightarrow> semtab s2 z = semtab s z \<and> waiters s2 z = waiters s z"
proof -
  have f: "\<exists>y. 0 \<le> y \<and> y < NSEM \<and> sstate (semtab s y) = S_FREE" "0 \<le> nextsem s" "nextsem s < NSEM"
    using assms(3) by (auto simp: sems_left_def)
  obtain x s1 where x: "semcreate n s = Some s1" "kok s1" "only_sem x s s1" "0 \<le> x" "x < NSEM" "sstate (semtab s x) = S_FREE"
    "good_sem s1 x" "scount (semtab s1 x) = n" "waiters s1 x = {}" "currpid s1 = currpid s" "retval s1 (currpid s) = x" "0 \<le> nextsem s1" "nextsem s1 < NSEM"
    by (rule semcreate_effect [OF assms(1,2) f(2,3,1)]) (rule that)
  have left: "\<exists>y. 0 \<le> y \<and> y < NSEM \<and> sstate (semtab s1 y) = S_FREE"
    using assms(3) x(3) unfolding sems_left_def only_sem_def by metis
  have zero: "(0 :: int) \<le> 0" by simp
  obtain y s2 where y: "semcreate 0 s1 = Some s2" "kok s2" "only_sem y s1 s2" "0 \<le> y" "y < NSEM" "sstate (semtab s1 y) = S_FREE"
    "good_sem s2 y" "scount (semtab s2 y) = 0" "waiters s2 y = {}" "currpid s2 = currpid s1" "retval s2 (currpid s1) = y"
    by (rule semcreate_effect [OF x(2) zero x(12,13) left]) (rule that)
  have ne: "x \<noteq> y" using x(7) y(6) by (auto simp: good_sem_def)
  have yf: "sstate (semtab s y) = S_FREE" using y(6) x(3) ne by (simp add: only_sem_def)
  have gx: "semtab s2 x = semtab s1 x" "waiters s2 x = waiters s1 x" using y(3) ne x(7) by (simp_all add: only_sem_def)
  have oth: "semtab s2 z = semtab s z \<and> waiters s2 z = waiters s z" if "good_sem s z" for z
  proof -
    have n: "z \<noteq> x" "z \<noteq> y" using that x(6) yf by (auto simp: good_sem_def)
    then have "semtab s1 z = semtab s z" "waiters s1 z = waiters s z" using x(3) that by (simp_all add: only_sem_def)
    then show ?thesis using y(3) n that by (simp add: only_sem_def good_sem_def)
  qed
  have g2: "good_sem s2 x" using x(7) gx(1) by (simp add: good_sem_def)
  show thesis
  proof (rule that [OF x(1) y(1,2) x(11) _ ne x(6) yf g2 y(7)])
    show "semtab s2 z = semtab s z \<and> waiters s2 z = waiters s z" if "good_sem s z" for z by (rule oth [OF that])
  qed (use x y gx in simp_all)
qed

lemma ptcreate_pinv:
  assumes P: "pinv P" and i: "pconts P (currpid (ker P)) = PNone" and c: "0 \<le> count" "count < 65536"
    and sl: "sems_left (ker P)" and e: "ptcreate count P = Some P'"
  shows "pinv P'"
proof -
  let ?i = "currpid (ker P)"
  obtain ph fl Q where I: "port_rep P fl Q" "\<And>p. port_ok (ph p) P (length (Q p)) p"
    "\<And>p q. p \<noteq> q \<Longrightarrow> own (ph p) (porttab P p) \<inter> own (ph q) (porttab P q) = {}"
    "kok (ker P)" "\<And>i. pconts P i \<noteq> PNone \<Longrightarrow> 0 \<le> i \<and> i < NPROC" "\<And>p. \<not> badport p P \<Longrightarrow> ph p = Open"
    by (rule pinvE [OF P]) (rule that)
  have nx: "0 \<le> ptnextid P" "ptnextid P < NPORTS" using P by (simp_all add: pinv_def)
  from nx show ?thesis
  proof (cases rule: free_port_complete)
    case (full nx)
    have "pinv (P\<lparr>ptnextid := nx\<rparr>)"
    proof (rule pinv_step [OF I(1-3), where p = "- 1" and ph' = "ph (- 1)" and Q' = Q and fl' = fl])
      show "port_rep (P\<lparr>ptnextid := nx\<rparr>) fl Q" by (rule port_rep_cong [OF I(1)]) (simp_all add: badport_def)
      show "port_ok (ph (- 1)) (P\<lparr>ptnextid := nx\<rparr>) (length (Q (- 1))) (- 1)" by (rule port_ok_frame [OF I(2)]) simp_all
    qed (use I full in \<open>simp_all\<close>)
    moreover have "P' = the (pgive (Ret SYSERR) ?i (P\<lparr>ptnextid := nx\<rparr>))" "pgive (Ret SYSERR) ?i (P\<lparr>ptnextid := nx\<rparr>) \<noteq> None"
      using e full c by (auto simp: ptcreate_def pgive_def Let_def)
    ultimately show ?thesis using idle_pgive [of "P\<lparr>ptnextid := nx\<rparr>" "Ret SYSERR"] i by (auto simp: returns_def)
  next
    case (found p nx)
    obtain x y s1 s2 where K: "semcreate count (ker P) = Some s1" "semcreate 0 s1 = Some s2" "kok s2" "retval s1 ?i = x" "retval s2 ?i = y"
      "x \<noteq> y" "sstate (semtab (ker P) x) = S_FREE" "sstate (semtab (ker P) y) = S_FREE" "good_sem s2 x" "good_sem s2 y"
      "scount (semtab s2 x) = count" "waiters s2 x = {}" "scount (semtab s2 y) = 0" "waiters s2 y = {}" "currpid s2 = ?i" "currpid s1 = ?i"
      "\<And>z. good_sem (ker P) z \<Longrightarrow> semtab s2 z = semtab (ker P) z \<and> waiters s2 z = waiters (ker P) z"
      by (rule two_sems [OF I(4) c(1) sl]) (rule that)
    define e' where "e' = (porttab P p)\<lparr>ptstate := PT_ALLOC, ptssem := x, ptrsem := y, pthead := 0, pttail := 0,
      ptseq := ptseq (porttab P p) + 1, ptmaxcnt := of_int count\<rparr>"
    have P': "porttab P' = (porttab P)(p := e')" "ker P' = set_cont ?i (Ret p) s2" "pconts P' = (pconts P)(?i := PNone)"
      "ptnodes P' = ptnodes P" "ptfree P' = ptfree P" "ptnextid P' = nx"
      using e found(1) c K(1,2,4,5) by (auto simp: ptcreate_def new_port_def on_ker_def pgive_def Let_def e'_def)
    have pd: "pend P' = pend P" using i by (auto simp: pend_def P'(3) fun_eq_iff)
    have pr: "\<not> isbadport p" "badport p P" using found(4-6) by (auto simp: isbadport_def badport_def)
    have ok: "port_ok (ph p) P (length (Q p)) p" by (rule I(2))
    have cok: "control_ok (ph p) P p" using ok by (simp add: port_ok_def)
    note C = control_okD [OF cok]
    have nc: "\<not> clearing (pend P p j)" for j using C(3) [of j] found(6) by auto
    have no: "ph p \<noteq> Open" using C(1) pr(2) by simp
    have old: "old_seq True (ptseq (porttab P p)) (pend P p j)" for j using C(7) [of j] no by simp
    have qe: "Q p = []" by (rule port_repD(6) [OF I(1) pr(2)])
    have "senders P' p = {}" "receivers P' p = {}"
      using old by (auto simp: senders_def receivers_def P'(1) pd e'_def) (metis old_seq.simps(1,2) less_irrefl zless_add1_eq)+
    moreover have "old_seq False (ptseq (porttab P p) + 1) (pend P p j)" for j by (rule old_seq_later [OF old]) simp
    moreover have "uint (of_int count :: 16 word) = count" using c by (simp add: unsigned_of_int take_bit_int_eq_self)
    ultimately have new: "port_ok Open P' (length (Q p)) p"
      unfolding open_ok using nc pr K qe by (simp add: P'(1,2) e'_def pd badport_def)
    have g: "good_sem (ker P) z" if "z \<in> own (ph q) (porttab P q)" for q z using I(2) [of q] that by (simp add: port_ok_def)
    show ?thesis
    proof (rule pinv_step [OF I(1-3), where p = p and ph' = Open and Q' = Q and fl' = fl])
      have bq: "badport q P' = badport q P" if "q \<noteq> p" for q using that by (simp add: badport_def P'(1))
      show "port_rep P' fl Q"
        using I(1) qe bq unfolding port_rep_def by (auto simp: P'(1,4,5) e'_def pr split: if_splits)
      show "pconts P' j \<noteq> PNone \<Longrightarrow> 0 \<le> j \<and> j < NPROC" for j using I(5) [of j] by (auto simp: P'(3) split: if_splits)
      show "semtab (ker P') z = semtab (ker P) z \<and> waiters (ker P') z = waiters (ker P) z" if "q \<noteq> p" "z \<in> own (ph q) (porttab P q)" for q z
        using K(17) [OF g [OF that(2)]] by (simp add: P'(2))
      show "own Open (porttab P' p) \<inter> own (ph q) (porttab P q) = {}" if "q \<noteq> p" for q
        using g [of _ q] K(7,8) by (auto simp: own_open P'(1) e'_def good_sem_def)
      show "kok (ker P')" using K(3) by (simp add: P'(2) inv_ret)
    qed (use new found(2,3) in \<open>simp_all add: P'(1,6) pd\<close>)
  qed
qed

lemma ptcount_pinv:
  assumes P: "pinv P" and i: "pconts P (currpid (ker P)) = PNone" and e: "ptcount p P = Some P'"
  shows "pinv P'"
proof -
  have c: "pinv (P1\<lparr>ker := set_cont (currpid (ker P)) (Ret v) (ker P1)\<rparr>)"
    if "pinv P1" "pconts P1 (currpid (ker P)) = PNone" "currpid (ker P1) = currpid (ker P)" for P1 v
  proof -
    have "P1\<lparr>ker := set_cont (currpid (ker P)) (Ret v) (ker P1)\<rparr> = the (pgive (Ret v) (currpid (ker P1)) P1)"
      using that(2,3) by (simp add: pgive_def set_pcont_def fun_upd_idem)
    then show ?thesis using idle_pgive [OF that(1), of "Ret v"] that(2,3) by (auto elim!: returnsE)
  qed
  have k: "\<exists>v. P2 = P1\<lparr>ker := set_cont (currpid (ker P1)) (Ret v) (ker P1)\<rparr>" if "on_ker (semcount x) P1 = Some P2" for x P1 P2
    using that semcount_effect by (fastforce simp: on_ker_def bind_eq_Some_conv)
  have give: "pinv P3" if "pinv P1" "pconts P1 (currpid (ker P)) = PNone" "currpid (ker P1) = currpid (ker P)"
      "pgive (Ret v) (currpid (ker P)) P1 = Some P3" for P1 P3 v
    using idle_pgive [OF that(1), of "Ret v"] that(2-4) by simp
  show ?thesis
  proof (cases "badport p P")
    case True
    then show ?thesis using give [OF P i refl] e by (simp add: ptcount_def)
  next
    case False
    then obtain P1 where P1: "on_ker (semcount (ptrsem (porttab P p))) P = Some P1" using e by (auto simp: ptcount_def Let_def bind_eq_Some_conv)
    obtain v where v: "P1 = P\<lparr>ker := set_cont (currpid (ker P)) (Ret v) (ker P)\<rparr>" using k [OF P1] by blast
    have i1: "pinv P1" unfolding v by (rule c [OF P i refl])
    have f1: "pconts P1 (currpid (ker P)) = PNone" "currpid (ker P1) = currpid (ker P)" using i by (simp_all add: v)
    show ?thesis
    proof (cases "0 \<le> retval (ker P1) (currpid (ker P))")
      case True
      then obtain P2 w where P2: "on_ker (semcount (ptssem (porttab P p))) P1 = Some P2" "pgive (Ret w) (currpid (ker P)) P2 = Some P'"
        using e False P1 by (auto simp: ptcount_def Let_def bind_eq_Some_conv)
      obtain u where u: "P2 = P1\<lparr>ker := set_cont (currpid (ker P1)) (Ret u) (ker P1)\<rparr>" using k [OF P2(1)] by blast
      have "pinv P2" unfolding u f1(2) by (rule c [OF i1 f1])
      then show ?thesis by (rule give [OF _ _ _ P2(2)]) (use f1 in \<open>simp_all add: u\<close>)
    next
      case False': False
      then show ?thesis using give [OF i1 f1] e False P1 by (auto simp: ptcount_def Let_def)
    qed
  qed
qed

section \<open>Every reachable state\<close>

text \<open>The semaphores the port system owns. Other code does not call \<open>wait\<close>, \<open>signal\<close> and the like on them. It may kill any
  process except one that is resetting or deleting a port; a process killed in the middle of sending or receiving never
  goes on.\<close>

definition port_sems :: "ports \<Rightarrow> int set" where
  "port_sems P = {x. \<exists>p. \<not> badport p P \<and> x \<in> {ptssem (porttab P p), ptrsem (porttab P p)}}
     \<union> {x. \<exists>i p. (pconts P i = PClear1 p PT_ALLOC \<or> pconts P i = PClear2 p PT_ALLOC) \<and> x \<in> {ptssem (porttab P p), ptrsem (porttab P p)}}
     \<union> {x. \<exists>i p. pconts P i = PClear1 p PT_FREE \<and> x = ptrsem (porttab P p)}"

definition calm :: "ports \<Rightarrow> kstate \<Rightarrow> bool" where
  "calm P s' \<longleftrightarrow> (\<forall>x\<in>port_sems P. kept_sem (ker P) s' x) \<and> (\<forall>i. clearing (pconts P i) \<longrightarrow> \<not> dead s' i)"

definition after_step :: "ports \<Rightarrow> kstate \<Rightarrow> ports" where
  "after_step P s' = P\<lparr>ker := s', pconts := (\<lambda>i. if dead s' i then PNone else pconts P i)\<rparr>"

text \<open>A process may call an operation when it is not in the middle of a call. Any step of the kernel may come in between: a call, a
  tick, a fault, or the rest of a call that gave the processor away (the guards of \<open>step\<close> tell them apart).\<close>

definition idle :: "ports \<Rightarrow> bool" where
  "idle P \<longleftrightarrow> pconts P (currpid (ker P)) = PNone \<and> at_rest (conts (ker P) (currpid (ker P)))"

inductive pstep :: "ports \<Rightarrow> ports \<Rightarrow> bool" where
  send: "idle P \<Longrightarrow> currpid (ker P) \<noteq> NULLPROC \<Longrightarrow> ptsend p m P = Some P' \<Longrightarrow> pstep P P'"
| recv: "idle P \<Longrightarrow> currpid (ker P) \<noteq> NULLPROC \<Longrightarrow> ptrecv p P = Some P' \<Longrightarrow> pstep P P'"
| count: "idle P \<Longrightarrow> ptcount p P = Some P' \<Longrightarrow> pstep P P'"
| create: "idle P \<Longrightarrow> 0 \<le> n \<Longrightarrow> n < 65536 \<Longrightarrow> sems_left (ker P) \<Longrightarrow> ptcreate n P = Some P' \<Longrightarrow> pstep P P'"
| reset: "idle P \<Longrightarrow> harmless disp \<Longrightarrow> ptreset disp p P = Some P' \<Longrightarrow> pstep P P'"
| delete: "idle P \<Longrightarrow> harmless disp \<Longrightarrow> ptdelete disp p P = Some P' \<Longrightarrow> pstep P P'"
| resume: "pt_resume (pconts P (currpid (ker P))) P = Some P' \<Longrightarrow> pstep P P'"
| other: "pconts P (currpid (ker P)) = PNone \<Longrightarrow> step (ker P) s' \<Longrightarrow> calm P s' \<Longrightarrow> pstep P (after_step P s')"

inductive_cases pstepE: "pstep P P'"

text \<open>In particular the process goes on that a tick has interrupted, or that comes back from \<open>receive\<close>, \<open>suspend\<close> or \<open>kill\<close>.\<close>

lemma pstep_goes_on:
  assumes "pconts P (currpid (ker P)) = PNone" "resume_cont (conts (ker P) (currpid (ker P))) (ker P) = Some s'" "calm P s'"
  shows "pstep P (after_step P s')"
  by (rule pstep.other [OF assms(1) step.resumed [OF assms(2)] assms(3)])

text \<open>The first state: \<open>ptinit\<close> has made the nodes, in any state of the kernel whose tables are in order.\<close>

inductive preachable :: "ports \<Rightarrow> bool" where
  init: "kok (ker P0) \<Longrightarrow> heap_wf (kheap (ker P0)) bs \<Longrightarrow> (\<forall>i. pconts P0 i = PNone) \<Longrightarrow> 1 \<le> n \<Longrightarrow> n < 536870912 - 1 \<Longrightarrow>
    ptinit n P0 = Some P \<Longrightarrow> preachable P"
| onward: "preachable P \<Longrightarrow> pstep P P' \<Longrightarrow> preachable P'"

lemma own_port_sems:
  assumes "port_ok ph P n p" "x \<in> own ph (porttab P p)"
  shows "x \<in> port_sems P"
proof -
  have c: "control_ok ph P p" using assms(1) by (simp add: port_ok_def)
  note C = control_okD [OF c]
  have pc: "pend P p i = c \<Longrightarrow> c \<noteq> PNone \<Longrightarrow> pconts P i = c" for i c by (auto simp: pend_def split: if_splits)
  show ?thesis
  proof (cases "ph = Open")
    case True
    then show ?thesis using C(1) assms(2) by (auto simp: port_sems_def own_def)
  next
    case False
    then have "ph \<in> {Reset1, Reset2, Del1}" using assms(2) by (cases ph) (auto simp: own_def)
    then obtain i where i: "clearing (pend P p i)" using C(5) by blast
    have "clear_phase (pend P p i) = Some ph" by (rule C(2) [OF i])
    moreover have "port_of (pend P p i) = Some p" using i by (auto simp: pend_def split: if_splits)
    moreover have "pend P p i = pconts P i" using i by (auto simp: pend_def split: if_splits)
    ultimately show ?thesis using assms(2)
      by (cases "pconts P i" rule: clear_phase.cases) (auto simp: port_sems_def own_def)
  qed
qed

lemma pend_after: "pend (after_step P s') p i = (if dead s' i then PNone else pend P p i)"
  by (simp add: pend_def after_step_def)

lemma calm_control:
  assumes c: "control_ok ph P p" and d: "\<forall>i. clearing (pconts P i) \<longrightarrow> \<not> dead s' i"
  shows "control_ok ph (after_step P s') p"
proof -
  let ?P' = "after_step P s'"
  have t: "porttab ?P' p = porttab P p" "badport p ?P' = badport p P" by (simp_all add: after_step_def badport_def)
  have cl: "clearing (pend ?P' p i) \<longleftrightarrow> clearing (pend P p i)" for i
    using d [rule_format, of i] pend_def [of P p i] by (auto simp: pend_after split: if_splits)
  have same: "pend ?P' p i = pend P p i" if "clearing (pend P p i)" for i using that cl [of i] by (auto simp: pend_after split: if_splits)
  show ?thesis
    unfolding control_ok_def cl t
  proof (intro conjI)
    show "\<forall>i. clearing (pend P p i) \<longrightarrow> clear_phase (pend ?P' p i) = Some ph \<and> ptstate (porttab P p) = PT_LIMBO"
      using control_okD(2,3) [OF c] same by simp
    show "\<forall>i. pend ?P' p i \<noteq> PNone \<longrightarrow> \<not> isbadport p" using control_okD(4) [OF c] unfolding pend_after by metis
    show "\<forall>i. old_seq (ph \<noteq> Open) (ptseq (porttab P p)) (pend ?P' p i)" using control_okD(7) [OF c] by (simp add: pend_after)
  qed (use c in \<open>simp_all add: control_ok_def\<close>)
qed

lemma calm_port_ok:
  assumes o: "port_ok ph P n p" and k: "kok s'" and c: "calm P s'" and r: "\<And>i. pconts P i \<noteq> PNone \<Longrightarrow> 0 \<le> i \<and> i < NPROC"
  shows "port_ok ph (after_step P s') n p"
proof -
  let ?P' = "after_step P s'" and ?e = "porttab P p"
  have t: "porttab ?P' p = ?e" "ker ?P' = s'" by (simp_all add: after_step_def)
  have g: "good_sem (ker P) x" "kept_sem (ker P) s' x" if "x \<in> own ph ?e" for x
    using that o c own_port_sems [OF o that] by (simp_all add: port_ok_def calm_def)
  have T: "receivers ?P' p = receivers P p - {i. dead s' i}" "senders ?P' p = senders P p - {i. dead s' i}"
    by (auto simp: receivers_def senders_def pend_after t split: if_splits)
  have fin: "finite (senders P p)" "finite (receivers P p)" by (rule pending_finite; use r in blast)+
  note K = kept_sem_promises [OF k]
  have good: "good_sem s' x" if "x \<in> own ph ?e" for x using g [OF that] by (simp add: kept_sem_def good_sem_def)
  have ctl: "control_ok ph ?P' p" using o c by (intro calm_control) (simp_all add: port_ok_def calm_def)
  have empty: "waiters s' x = {} \<and> scount (semtab s' x) = scount (semtab (ker P) x)" if "x \<in> own ph ?e" "waiters (ker P) x = {}" for x
    using g(2) [OF that(1)] that(2) by (simp add: kept_sem_def)
  have "counts_ok ph ?P' n p"
  proof (cases ph)
    case Open
    have w: "waiters (ker P) (ptrsem ?e) \<subseteq> receivers P p" "waiters (ker P) (ptssem ?e) \<subseteq> senders P p"
      using o unfolding Open open_ok by simp_all
    have x: "ptrsem ?e \<in> own ph ?e" "ptssem ?e \<in> own ph ?e" by (simp_all add: own_def Open)
    show ?thesis
      using o K(2,3) [OF g [OF x(1)] fin(2) w(1)] K(2,3) [OF g [OF x(2)] fin(1) w(2)]
      unfolding Open open_ok by (simp add: counts_ok_def t T Let_def)
  qed (use o empty in \<open>simp_all add: port_ok_def counts_ok_def own_def t Let_def\<close>)
  then show ?thesis using o ctl good by (simp add: port_ok_def t)
qed

lemma calm_pinv:
  assumes P: "pinv P" and s: "step (ker P) s'" and c: "calm P s'"
  shows "pinv (after_step P s')"
proof -
  let ?P' = "after_step P s'"
  obtain ph fl Q where I: "port_rep P fl Q" "\<And>p. port_ok (ph p) P (length (Q p)) p"
    "\<And>p q. p \<noteq> q \<Longrightarrow> own (ph p) (porttab P p) \<inter> own (ph q) (porttab P q) = {}"
    "kok (ker P)" "\<And>i. pconts P i \<noteq> PNone \<Longrightarrow> 0 \<le> i \<and> i < NPROC" "\<And>p. \<not> badport p P \<Longrightarrow> ph p = Open"
    by (rule pinvE [OF P]) (rule that)
  have k: "kok s'" using step_keeps [OF s] I(4) by (simp add: kok_def)
  moreover have "port_rep ?P' fl Q" by (rule port_rep_cong [OF I(1)]) (simp_all add: badport_def after_step_def)
  moreover have "port_ok (ph p) ?P' (length (Q p)) p" for p by (rule calm_port_ok [OF I(2) k c I(5)])
  ultimately show ?thesis using P I(3) unfolding pinv_def by (auto simp: after_step_def)
qed

lemma pending_port:
  assumes "pinv P" "port_of (pconts P i) = Some p"
  shows "\<not> isbadport p"
proof -
  obtain ph fl Q where "port_rep P fl Q" and I: "\<forall>p. port_ok (ph p) P (length (Q p)) p" using assms(1) unfolding pinv_def by blast
  then have "control_ok (ph p) P p" by (simp add: port_ok_def)
  then show ?thesis using control_okD(4) [of "ph p" P p i] assms(2) by (cases "pconts P i") (simp_all add: pend_def)
qed

lemma pstep_pinv: "pstep P P' \<Longrightarrow> pinv P \<Longrightarrow> pinv P'"
proof (induction rule: pstep.induct)
  case (send P p m P')
  then show ?case using ptsend_pinv(1) [of P p m] by (simp add: idle_def)
next
  case (recv P p P')
  then show ?case using ptsend_pinv(2) [of P p] by (simp add: idle_def)
next
  case (count P p P')
  then show ?case using ptcount_pinv [of P p P'] by (simp add: idle_def)
next
  case (create P n P')
  then show ?case using ptcreate_pinv [of P n P'] by (simp add: idle_def)
next
  case (reset P disp p P')
  then show ?case
    using idle_pgive [of P "Ret SYSERR"] ptclear_pinv [of P p disp PT_ALLOC P'] by (cases "badport p P") (simp_all add: idle_def ptreset_def)
next
  case (delete P disp p P')
  then show ?case
    using idle_pgive [of P "Ret SYSERR"] ptclear_pinv [of P p disp PT_FREE P'] by (cases "badport p P") (simp_all add: idle_def ptdelete_def)
next
  case (resume P P')
  note b = pending_port [OF resume(2)]
  show ?case
  proof (cases "pconts P (currpid (ker P))")
    case (PSend p k m)
    then show ?thesis using ptsend_finish_pinv [OF resume(2) PSend b [where i = "currpid (ker P)"]] resume(1) by simp
  next
    case (PRecv p k)
    then show ?thesis using ptrecv_finish_pinv(1) [OF resume(2) PRecv b [where i = "currpid (ker P)"]] resume(1) by simp
  next
    case (PClear1 p st)
    then show ?thesis using ptclear_second_pinv [OF resume(2) PClear1] resume(1) by simp
  next
    case (PClear2 p st)
    then show ?thesis using ptclear_finish_pinv [OF resume(2) PClear2] resume(1) by simp
  qed (use resume(1) in simp)
next
  case (other P s')
  then show ?case by (intro calm_pinv)
qed

section \<open>The nodes ptinit makes\<close>

primrec node_seq :: "u32 \<Rightarrow> nat \<Rightarrow> u32 list" where
  "node_seq a 0 = []"
| "node_seq a (Suc n) = a # node_seq (a + 8) n"

lemma node_seq_range:
  "unat a + 8 * n < 2 ^ 32 \<Longrightarrow> x \<in> set (node_seq a n) \<Longrightarrow> unat a \<le> unat x"
proof (induction n arbitrary: a)
  case (Suc n)
  then have a: "unat (a + 8) = unat a + 8" by (simp add: unat_word_ariths)
  show ?case using Suc.IH [of "a + 8"] Suc.prems a by (cases "x = a") simp_all
qed simp

lemma node_seq_next: "unat a + 8 * Suc n < 2 ^ 32 \<Longrightarrow> a \<notin> set (node_seq (a + 8) n)"
  using node_seq_range [of "a + 8" n a] by (auto simp: unat_word_ariths)

lemma node_seq_distinct: "unat a + 8 * n < 2 ^ 32 \<Longrightarrow> distinct (node_seq a n)"
proof (induction n arbitrary: a)
  case (Suc n)
  have "unat (a + 8) = unat a + 8" using Suc.prems by (simp add: unat_word_ariths)
  then show ?case using Suc.IH [of "a + 8"] Suc.prems node_seq_next [of a n] by simp
qed simp

lemma link_nodes_frame: "x \<notin> set (node_seq a (Suc n)) \<Longrightarrow> link_nodes n a m x = m x"
  by (induction n arbitrary: a m) auto

lemma link_nodes_list:
  assumes "0 < unat a" "unat a + 8 * Suc n < 2 ^ 32"
  shows "nlist (link_nodes n a m) a (node_seq a (Suc n))"
  using assms
proof (induction n arbitrary: a m)
  case (Suc n)
  let ?m = "m(a := (m a)\<lparr>ptnext := a + 8\<rparr>)"
  have a: "unat (a + 8) = unat a + 8" using Suc.prems by (simp add: unat_word_ariths)
  have "nlist (link_nodes n (a + 8) ?m) (a + 8) (node_seq (a + 8) (Suc n))" by (rule Suc.IH) (use Suc.prems a in simp_all)
  moreover have "link_nodes n (a + 8) ?m a = ?m a" by (rule link_nodes_frame) (rule node_seq_next [OF Suc.prems(2)])
  moreover have "a \<noteq> 0" using Suc.prems(1) by auto
  ultimately show ?case by simp
qed auto

lemma ptinit_pinv:
  assumes k: "kok (ker P0)" and wf: "heap_wf (kheap (ker P0)) bs" and pc: "\<And>i. pconts P0 i = PNone"
    and n: "1 \<le> n" "n < 536870912 - 1" and e: "ptinit n P0 = Some P"
  shows "pinv P"
proof -
  have un: "unat (of_int n * 8 :: u32) = 8 * nat n"
  proof -
    have "(of_int n :: u32) * 8 = of_nat (8 * nat n)" using n by simp
    then show ?thesis using n by (simp only: unat_of_nat) simp
  qed
  obtain a h where g: "getmem (of_int n * 8) (kheap (ker P0)) = Some (a, h)" "a \<noteq> SYSERRp"
    using e by (auto simp: ptinit_def bind_eq_Some_conv split: if_splits)
  have "(of_int n * 8 :: u32) \<noteq> 0" "unat (of_int n * 8 :: u32) + 7 < 2 ^ 32" using un n by (auto simp: unat_eq_0)
  note b = getmem_block [OF wf this g]
  define t where "t = fold (\<lambda>i. upd_port i (\<lambda>e. e\<lparr>ptstate := PT_FREE, ptseq := 0\<rparr>)) [0..NPORTS - 1]
    (P0\<lparr>ker := (ker P0)\<lparr>kheap := h\<rparr>, ptfree := a\<rparr>)"
  have f: "fold (\<lambda>i. upd_port i (\<lambda>e. e\<lparr>ptstate := PT_FREE, ptseq := 0\<rparr>)) ps T
    = T\<lparr>porttab := \<lambda>p. if p \<in> set ps then (porttab T p)\<lparr>ptstate := PT_FREE, ptseq := 0\<rparr> else porttab T p\<rparr>" for ps T
    by (induction ps arbitrary: T) (simp_all add: upd_port_def fun_eq_iff)
  have P: "P = (t\<lparr>ptnextid := 0\<rparr>)\<lparr>ptnodes := link_nodes (nat (n - 1)) (ptfree t) (ptnodes t)\<rparr>"
    using e g by (simp add: ptinit_def t_def Let_def)
  have F: "ker P = (ker P0)\<lparr>kheap := h\<rparr>" "ptfree P = a" "pconts P = pconts P0" "ptnextid P = 0"
      "ptnodes P = link_nodes (nat (n - 1)) a (ptnodes P0)"
      "\<not> isbadport p \<Longrightarrow> ptstate (porttab P p) = PT_FREE" for p
    unfolding P t_def f by (simp_all add: isbadport_def)
  have bp: "badport p P" for p using F(6) [of p] by (auto simp: badport_def)
  have nn: "8 * Suc (nat (n - 1)) = unat (of_int n * 8 :: u32)" using un n by simp
  have "nlist (ptnodes P) (ptfree P) (node_seq a (Suc (nat (n - 1))))" "distinct (node_seq a (Suc (nat (n - 1))))"
    unfolding F(2,5) by (rule link_nodes_list node_seq_distinct; use b nn in simp)+
  then have rep: "port_rep P (node_seq a (Suc (nat (n - 1)))) (\<lambda>_. [])" by (simp add: port_rep_def bp)
  have "kinv (ker P)" using k by (subst kinv_cong [of _ "ker P0"]) (simp_all add: F(1) kok_def)
  then have "kok (ker P)" using k by (simp add: kok_def conts_ok_def F(1))
  moreover have "pend P p i = PNone" for p i by (simp add: pend_def F(3) pc)
  then have "port_ok Closed P 0 p" for p by (simp add: port_ok_def control_ok_def counts_ok_def own_def bp)
  moreover have "own Closed (porttab P p) \<inter> own Closed (porttab P q) = {}" for p q by (simp add: own_def)
  ultimately show ?thesis
    unfolding pinv_def using F(3,4) pc rep
    by (intro conjI exI [of _ "\<lambda>_. Closed"] exI [of _ "\<lambda>_ :: int. [] :: u32 list"] exI [of _ "node_seq a (Suc (nat (n - 1)))"])
      (simp_all del: node_seq.simps)
qed

lemma preachable_pinv: "preachable P \<Longrightarrow> pinv P"
  by (induction rule: preachable.induct) (use ptinit_pinv pstep_pinv in blast)+

end
