(* ===== verification/Samples.thy ===== *)
theory Samples
  imports Effects
begin

text \<open>
  Two concrete states on which the statements are tried: the one the system is switched on in, and
  one with a few processes, each in another state.
\<close>

section \<open>Before initialization\<close>

definition blank_entry :: pte where
  "blank_entry = \<lparr>p_pres = False, p_write = False, p_user = False, p_pwt = False, p_pcd = False, p_acc = False, p_b6 = False,
     p_b7 = False, p_global = False, p_avail = 0, p_base = 0\<rparr>"

definition one_block :: "u32 \<Rightarrow> u32 \<Rightarrow> heap" where
  "one_block a n = \<lparr>mnext = \<lambda>_. 0, mlength = (\<lambda>_. 0)(a := n), memlist_next = a, memlist_len = n, minheap = 0x100000, maxheap = 0x1FFFFF\<rparr>"

lemma one_block_wf:
  assumes "0x100000 \<le> unat a" "0 < unat n" "8 dvd unat a" "8 dvd unat n" "unat a + unat n \<le> 0x200000"
  shows "heap_wf (one_block a n) [(a, n)]"
  using assms by (simp add: heap_wf_def heap_rep_def one_block_def chain_Cons chain_Nil)

definition no_process :: procent where
  "no_process = \<lparr>prstate = PR_FREE, prprio = 0, prstkptr = 0, prstkbase = 0, prstklen = 0, prname = [], prsem = 0, prparent = 0,
     prmsg = 0, prhasmsg = False, prdesc = [0, 0, 0], page_addr = 0\<rparr>"

definition power_on :: kstate where
  "power_on = \<lparr>proctab = \<lambda>_. no_process, semtab = \<lambda>_. \<lparr>sstate = S_FREE, scount = 0, squeue = 0\<rparr>,
     queuetab = \<lambda>_. \<lparr>qkey = 0, qnext = 0, qprev = 0\<rparr>, currpid = 0, prcount = 0, readylist = 0, sleepq = 0, nextqid = 100,
     nextsem = 0, nextpid = 1, ndefers = 0, attempt = False, preempt = 0, count1000 = 1000, clktime = 0,
     kheap = one_block 0x100000 0x10000, stack = \<lambda>_. 0,
     kvm = \<lparr>pmem = \<lambda>_. blank_entry, cr3 = 0, cr2 = 0, ints = False\<rparr>, conts = \<lambda>_. Ret OK, halted = False\<rparr>"

lemma power_on_ok:
  "fresh power_on" "heap_wf (kheap power_on) [(0x100000, 0x10000)]" "getstk NULLSTK (kheap power_on) \<noteq> Some (SYSERRp, kheap power_on)"
proof -
  show "fresh power_on" by (simp add: fresh_def power_on_def)
  show "heap_wf (kheap power_on) [(0x100000, 0x10000)]"
    by (simp add: power_on_def one_block_wf)
  have "getstk NULLSTK (one_block 0x100000 0x10000) \<noteq> Some (SYSERRp, one_block 0x100000 0x10000)"
    by (simp add: getstk_def one_block_def roundmb_def getstk_scan.simps set_len_def Let_def)
  then show "getstk NULLSTK (kheap power_on) \<noteq> Some (SYSERRp, kheap power_on)" by (simp add: power_on_def)
qed

section \<open>A few processes\<close>

text \<open>Process 1 runs; the null process is ready, 2 waits for semaphore 0, 3 is suspended, 4 sleeps
  and 5 waits for a message.\<close>

definition demo_qt :: qtab where
  "demo_qt i =
     (if i = 0 then \<lparr>qkey = 0, qnext = 301, qprev = 300\<rparr>
      else if i = 2 then \<lparr>qkey = 0, qnext = 101, qprev = 100\<rparr>
      else if i = 4 then \<lparr>qkey = 3, qnext = 303, qprev = 302\<rparr>
      else if i = 300 then \<lparr>qkey = MAXKEY, qnext = 0, qprev = EMPTY\<rparr>
      else if i = 301 then \<lparr>qkey = MINKEY, qnext = EMPTY, qprev = 0\<rparr>
      else if i = 100 then \<lparr>qkey = MAXKEY, qnext = 2, qprev = EMPTY\<rparr>
      else if i = 101 then \<lparr>qkey = MINKEY, qnext = EMPTY, qprev = 2\<rparr>
      else if i = 302 then \<lparr>qkey = MAXKEY, qnext = 4, qprev = EMPTY\<rparr>
      else if i = 303 then \<lparr>qkey = MINKEY, qnext = EMPTY, qprev = 4\<rparr>
      else if even i then \<lparr>qkey = MAXKEY, qnext = i + 1, qprev = EMPTY\<rparr>
      else \<lparr>qkey = MINKEY, qnext = EMPTY, qprev = i - 1\<rparr>)"

definition demo_lists :: "int \<Rightarrow> int list" where
  "demo_lists q = (if q = 300 then [0] else if q = 100 then [2] else if q = 302 then [4] else [])"

definition demo_proc :: "int \<Rightarrow> pstate \<Rightarrow> int \<Rightarrow> procent" where
  "demo_proc p st prio = no_process\<lparr>prstate := st, prprio := prio, prstkbase := 0x100FFC + of_int p * 0x1000, prstklen := 0x1000\<rparr>"

definition demo_procs :: "int \<Rightarrow> procent" where
  "demo_procs p =
     (if p = 0 then demo_proc 0 PR_READY 0 else if p = 1 then demo_proc 1 PR_CURR 20 else if p = 2 then demo_proc 2 PR_WAIT 30
      else if p = 3 then demo_proc 3 PR_SUSP 40 else if p = 4 then demo_proc 4 PR_SLEEP 10 else if p = 5 then demo_proc 5 PR_RECV 10
      else no_process)"

definition demo_sems :: "int \<Rightarrow> sentry" where
  "demo_sems i = \<lparr>sstate = (if i < 3 then S_USED else S_FREE), scount = (if i = 0 then - 1 else if i = 1 then 2 else 0), squeue = 100 + 2 * i\<rparr>"

definition demo :: kstate where
  "demo = power_on\<lparr>proctab := demo_procs, semtab := demo_sems, queuetab := demo_qt, currpid := 1, prcount := 6, readylist := 300,
     sleepq := 302, nextqid := 304, nextpid := 6, nextsem := 3, preempt := QUANTUM, kheap := one_block 0x180000 0x10000\<rparr>"

lemma demo_simps [simp]:
  "proctab demo = demo_procs" "semtab demo = demo_sems" "queuetab demo = demo_qt" "currpid demo = 1" "readylist demo = 300"
  "sleepq demo = 302" "nextqid demo = 304" "ndefers demo = 0" "kheap demo = one_block 0x180000 0x10000" "prcount demo = 6"
  by (simp_all add: demo_def power_on_def)

lemma demo_qrep: "qrep 304 demo_qt demo_lists"
proof -
  have "queue_at demo_qt q (demo_lists q)" if "isq 304 q" for q
  proof -
    have "even q" "100 \<le> q" using that by (simp_all add: isq_def)
    then have "q \<noteq> 301 \<and> q \<noteq> 101 \<and> q \<noteq> 303 \<and> q + 1 \<noteq> 300 \<and> q + 1 \<noteq> 100 \<and> q + 1 \<noteq> 302" by presburger
    then show ?thesis using \<open>even q\<close> \<open>100 \<le> q\<close> by (auto simp: queue_at_def demo_lists_def demo_qt_def)
  qed
  moreover have "set (demo_lists q) \<inter> set (demo_lists q') = {}" if "q \<noteq> q'" for q q' using that by (auto simp: demo_lists_def)
  ultimately show ?thesis by (simp add: qrep_def)
qed

lemma demo_state [simp]:
  "prstate (demo_procs p) = (if p = 0 then PR_READY else if p = 1 then PR_CURR else if p = 2 then PR_WAIT else if p = 3 then PR_SUSP
     else if p = 4 then PR_SLEEP else if p = 5 then PR_RECV else PR_FREE)"
  by (simp add: demo_procs_def demo_proc_def no_process_def)

lemma demo_home: "home demo p = (if p = 0 then Some 300 else if p = 2 then Some 100 else if p = 4 then Some 302 else None)"
  by (simp add: home_def demo_procs_def demo_proc_def no_process_def demo_sems_def)

lemma demo_kinv: "kinv demo"
proof -
  have "placed 304 demo_lists (home demo)" by (auto simp: placed_def demo_home demo_lists_def)
  moreover have "ids_ok demo" by (auto simp: ids_ok_def isq_def demo_sems_def)
  moreover have "procs_ok demo" by (auto simp: procs_ok_def demo_procs_def demo_proc_def no_process_def)
  moreover have "order_ok demo_lists demo" by (simp add: order_ok_def demo_lists_def demo_qt_def)
  moreover have "sem_ok demo_lists demo" by (auto simp: sem_ok_def sem_entry_ok_def demo_sems_def demo_lists_def)
  ultimately show ?thesis using demo_qrep by (auto simp: kinv_def kq_def)
qed

lemma demo_queue: "isq 304 q \<Longrightarrow> queue_of demo_qt q = demo_lists q" by (rule queue_of_qrep [OF demo_qrep])

lemma demo_stacks: "stacks_at [(0x180000, 0x10000)] demo"
proof -
  have l: "live demo p \<longleftrightarrow> p \<in> {0, 1, 2, 3, 4, 5}" for p by (auto simp: live_def)
  have s: "stack_of (demo_procs p) = (0x100000 + of_int p * 0x1000, 0x1000)" if "p \<in> {0, 1, 2, 3, 4, 5}" for p
    using that by (auto simp: demo_procs_def demo_proc_def no_process_def stack_of_def)
  have b: "block_bytes (stack_of (demo_procs p)) = {1048576 + 4096 * nat p ..< 1048576 + 4096 * nat p + 4096}" if "p \<in> {0, 1, 2, 3, 4, 5}" for p
    using that s [OF that] by (auto simp: block_bytes_def)
  show ?thesis
    unfolding stacks_at_def l demo_simps
  proof (intro conjI allI impI)
    show "heap_wf (one_block 0x180000 0x10000) [(0x180000, 0x10000)]" by (rule one_block_wf) simp_all
    fix p :: int assume p: "p \<in> {0, 1, 2, 3, 4, 5}"
    show "in_heap (one_block 0x180000 0x10000) (stack_of (demo_procs p))"
      using p s [OF p] by (auto simp: in_heap_def one_block_def)
    show "block_bytes (stack_of (demo_procs p)) \<inter> free_bytes [(0x180000, 0x10000)] = {}"
      using p unfolding b [OF p] by (auto simp: block_bytes_def)
    fix q assume q: "q \<in> {0, 1, 2, 3, 4, 5}" "p \<noteq> q"
    show "block_bytes (stack_of (demo_procs p)) \<inter> block_bytes (stack_of (demo_procs q)) = {}"
      using p q unfolding b [OF p] b [OF q(1)] by auto
  qed
qed

lemma demo_kok: "kok demo"
  using demo_kinv by (simp add: kok_def conts_ok_def demo_def power_on_def)

end
