(* ===== verification/Portlaws.thy ===== *)
theory Portlaws
  imports Portsystem Samples
begin

text \<open>
  What the port system promises: messages come out in the order in which they went in, a receiver that
  returns from \<open>wait\<close> finds one, and no port holds more messages than it was created for.
\<close>

section \<open>A system with one port\<close>

definition no_ports :: ports where
  "no_ports = \<lparr>ker = demo, porttab = \<lambda>_. \<lparr>ptssem = 0, ptrsem = 0, ptstate = PT_FREE, ptmaxcnt = 0, ptseq = 0, pthead = 0, pttail = 0\<rparr>,
     ptnodes = \<lambda>_. \<lparr>ptmsg = 0, ptnext = 0\<rparr>, ptfree = 0, ptnextid = 0, pconts = \<lambda>_. PNone\<rparr>"

definition with_nodes :: ports where "with_nodes = the (ptinit 4 no_ports)"
definition with_port :: ports where "with_port = the (ptcreate 2 with_nodes)"
definition sending :: ports where "sending = the (ptsend 0 99 with_port)"
definition sent :: ports where "sent = the (pt_resume (pconts sending 1) sending)"
definition receiving :: ports where "receiving = the (ptrecv 0 sent)"

lemma with_nodes_eq:
  "ptinit 4 no_ports = Some with_nodes" "preachable with_nodes" "kheap (ker with_nodes) = snd (the (getmem 32 (kheap demo)))"
proof -
  show e: "ptinit 4 no_ports = Some with_nodes"
    by (simp add: with_nodes_def ptinit_def no_ports_def getmem_def one_block_def roundmb_def getmem_scan.simps Let_def)
  have "heap_wf (kheap (ker no_ports)) [(0x180000, 0x10000)]" using demo_stacks by (simp add: stacks_at_def no_ports_def)
  then show "preachable with_nodes" using e demo_kok by (intro preachable.init [of no_ports _ 4]) (simp_all add: no_ports_def)
  show "kheap (ker with_nodes) = snd (the (getmem 32 (kheap demo)))"
    by (simp add: with_nodes_def ptinit_def no_ports_def getmem_def one_block_def roundmb_def getmem_scan.simps Let_def upd_port_def upto.simps)
qed

lemma with_nodes_facts:
  "pconts with_nodes = (\<lambda>_. PNone)" "ptnextid with_nodes = 0" "ptfree with_nodes = 0x180000"
  "ptstate (porttab with_nodes 0) = PT_FREE" "ptseq (porttab with_nodes 0) = 0"
  "ptnext (ptnodes with_nodes 0x180000) = 0x180008" "ptnext (ptnodes with_nodes 0x180008) = 0x180010"
  "ker with_nodes = demo\<lparr>kheap := snd (the (getmem 32 (kheap demo)))\<rparr>"
  by (simp_all add: with_nodes_def ptinit_def no_ports_def getmem_def one_block_def roundmb_def getmem_scan.simps Let_def upd_port_def upto.simps
    numeral_3_eq_3)

lemma with_port_facts:
  "ptcreate 2 with_nodes = Some with_port" "preachable with_port"
  "pconts with_port = (\<lambda>_. PNone)" "ptfree with_port = 0x180000" "ptnodes with_port = ptnodes with_nodes"
  "porttab with_port 0 = \<lparr>ptssem = 3, ptrsem = 4, ptstate = PT_ALLOC, ptmaxcnt = 2, ptseq = 1, pthead = 0, pttail = 0\<rparr>"
  "currpid (ker with_port) = 1" "conts (ker with_port) 1 = Ret 0" "queuetab (ker with_port) = demo_qt" "ndefers (ker with_port) = 0"
    "semtab (ker with_port) 3 = \<lparr>sstate = S_USED, scount = 2, squeue = 106\<rparr>"
  "semtab (ker with_port) 4 = \<lparr>sstate = S_USED, scount = 0, squeue = 108\<rparr>"
proof -
  have f: "free_port 30 with_nodes = (Some 0, with_nodes\<lparr>ptnextid := 1\<rparr>)"
    using free_port.simps(2) [of 29 with_nodes] by (simp add: with_nodes_facts Let_def)
  have n: "newsem s = (nextsem s, upd_sem (nextsem s) (\<lambda>e. e\<lparr>sstate := S_USED\<rparr>) (s\<lparr>nextsem := nextsem s + 1\<rparr>))"
    if "sstate (semtab s (nextsem s)) = S_FREE" "nextsem s + 1 < NSEM" for s
    using newsem_loop.simps(2) [of 99 s] that by (simp add: newsem_def Let_def)
  have d: "nextsem demo = 3" "conts demo = (\<lambda>_. Ret OK)" by (simp_all add: demo_def power_on_def)
  note U = f new_port_def on_ker_def semcreate_def n with_nodes_facts give_def pgive_def retval_def upd_port_def upd_sem_def
    set_pcont_def set_cont_def demo_sems_def d
  have e: "ptcreate 2 with_nodes \<noteq> None" by (simp add: ptcreate_def U Let_def)
  show e: "ptcreate 2 with_nodes = Some with_port"
    using e by (simp add: with_port_def)
  show "pconts with_port = (\<lambda>_. PNone)" "ptfree with_port = 0x180000" "ptnodes with_port = ptnodes with_nodes"
    "porttab with_port 0 = \<lparr>ptssem = 3, ptrsem = 4, ptstate = PT_ALLOC, ptmaxcnt = 2, ptseq = 1, pthead = 0, pttail = 0\<rparr>"
    "currpid (ker with_port) = 1" "conts (ker with_port) 1 = Ret 0" "queuetab (ker with_port) = demo_qt" "ndefers (ker with_port) = 0"
    "semtab (ker with_port) 3 = \<lparr>sstate = S_USED, scount = 2, squeue = 106\<rparr>"
    "semtab (ker with_port) 4 = \<lparr>sstate = S_USED, scount = 0, squeue = 108\<rparr>"
    by (simp_all add: with_port_def ptcreate_def U Let_def fun_eq_iff)
  show "preachable with_port"
  proof (rule preachable.onward [OF with_nodes_eq(2) pstep.create [of _ 2]])
    show "idle with_nodes" by (simp add: idle_def with_nodes_facts d)
    show "sems_left (ker with_nodes)" 
      by (simp add: sems_left_def with_nodes_facts d demo_sems_def) (rule exI [of _ 3], simp, rule exI [of _ 4], simp)
  qed (use e in simp_all)
qed

lemma sending_facts:
  "preachable sending" "pconts sending = (\<lambda>_. PNone)(1 := PSend 0 1 99)" "ptfree sending = 0x180000" "ptnodes sending = ptnodes with_nodes"
  "porttab sending = porttab with_port" "currpid (ker sending) = 1" "conts (ker sending) 1 = Ret OK"
  "semtab (ker sending) 3 = \<lparr>sstate = S_USED, scount = 1, squeue = 106\<rparr>" "semtab (ker sending) 4 = \<lparr>sstate = S_USED, scount = 0, squeue = 108\<rparr>"
proof -
  have b: "\<not> badport 0 with_port" by (simp add: badport_def isbadport_def with_port_facts)
  note U = wait_def isbadsem_def with_port_facts on_ker_def Let_def give_def set_pcont_def set_cont_def upd_sem_def
  have e: "ptsend 0 99 with_port = Some sending" using b by (simp add: sending_def ptsend_def U)
  show "pconts sending = (\<lambda>_. PNone)(1 := PSend 0 1 99)" "ptfree sending = 0x180000" "ptnodes sending = ptnodes with_nodes"
    "porttab sending = porttab with_port" "currpid (ker sending) = 1" "conts (ker sending) 1 = Ret OK"
    "semtab (ker sending) 3 = \<lparr>sstate = S_USED, scount = 1, squeue = 106\<rparr>" "semtab (ker sending) 4 = \<lparr>sstate = S_USED, scount = 0, squeue = 108\<rparr>"
    using b by (simp_all add: sending_def ptsend_def U)
  show "preachable sending"
  proof (rule preachable.onward [OF with_port_facts(2) pstep.send])
    show "ptsend 0 99 with_port = Some sending" by (rule e)
    show "idle with_port" by (simp add: idle_def with_port_facts)
  qed (simp add: with_port_facts)
qed

lemma sent_facts:
  "preachable sent" "pconts sent = (\<lambda>_. PNone)" "ptmsg (ptnodes sent 0x180000) = 99"
  "porttab sent 0 = \<lparr>ptssem = 3, ptrsem = 4, ptstate = PT_ALLOC, ptmaxcnt = 2, ptseq = 1, pthead = 0x180000, pttail = 0x180000\<rparr>"
  "currpid (ker sent) = 1" "conts (ker sent) 1 = Ret OK"
  "semtab (ker sent) 3 = \<lparr>sstate = S_USED, scount = 1, squeue = 106\<rparr>" "semtab (ker sent) 4 = \<lparr>sstate = S_USED, scount = 1, squeue = 108\<rparr>"
proof -
  note U = sending_facts ptsend_finish_def gone_def signal_def signal_once_def isbadsem_def with_port_facts(6) on_ker_def Let_def
    give_def set_cont_def upd_sem_def retval_def pgive_def put_msg_def
  have e: "pt_resume (pconts sending 1) sending = Some sent" by (simp add: sent_def U)
  show "pconts sent = (\<lambda>_. PNone)" "ptmsg (ptnodes sent 0x180000) = 99"
    "porttab sent 0 = \<lparr>ptssem = 3, ptrsem = 4, ptstate = PT_ALLOC, ptmaxcnt = 2, ptseq = 1, pthead = 0x180000, pttail = 0x180000\<rparr>"
    "currpid (ker sent) = 1" "conts (ker sent) 1 = Ret OK"
    "semtab (ker sent) 3 = \<lparr>sstate = S_USED, scount = 1, squeue = 106\<rparr>" "semtab (ker sent) 4 = \<lparr>sstate = S_USED, scount = 1, squeue = 108\<rparr>"
    by (simp_all add: sent_def U fun_eq_iff)
  show "preachable sent" by (rule preachable.onward [OF sending_facts(1) pstep.resume]) (use e in \<open>simp add: sending_facts\<close>)
qed

lemma receiving_facts:
  "preachable receiving" "pconts receiving = (\<lambda>_. PNone)(1 := PRecv 0 1)" "currpid (ker receiving) = 1" "conts (ker receiving) 1 = Ret OK"
  "porttab receiving = porttab sent" "ptnodes receiving = ptnodes sent"
proof -
  have b: "\<not> badport 0 sent" by (simp add: badport_def isbadport_def sent_facts)
  note U = wait_def isbadsem_def sent_facts on_ker_def Let_def give_def set_pcont_def set_cont_def upd_sem_def
  have e: "ptrecv 0 sent = Some receiving" using b by (simp add: receiving_def ptrecv_def U)
  show "pconts receiving = (\<lambda>_. PNone)(1 := PRecv 0 1)" "currpid (ker receiving) = 1" "conts (ker receiving) 1 = Ret OK"
    "porttab receiving = porttab sent" "ptnodes receiving = ptnodes sent"
    using b by (simp_all add: receiving_def ptrecv_def U)
  show "preachable receiving"
  proof (rule preachable.onward [OF sent_facts(1) pstep.recv])
    show "ptrecv 0 sent = Some receiving" by (rule e)
    show "idle sent" by (simp add: idle_def sent_facts)
  qed (simp add: sent_facts)
qed

section \<open>What holds of every reachable state\<close>

text \<open>C6. A receiver that returns from \<open>wait\<close> finds a message, whatever sends, receptions, resets, deletions, other system
  calls, clock ticks and kills have come in between, and the oldest message of the port is the one it returns; exactly that
  message leaves the port. (Other code does not touch the semaphores of ports and kills no process that is resetting or
  deleting one, and the function that disposes of messages touches neither; ports are created for less than 65536 messages while
  semaphores are free.)\<close>

theorem receiver_gets_oldest:
  assumes "preachable P" "pconts P (currpid (ker P)) = PRecv p k" "\<not> gone p k P"
  shows "port_msgs p P \<noteq> [] \<and> returns (ptrecv_finish p k P) (\<lambda>P'. conts (ker P') (currpid (ker P)) = RetMsg (hd (port_msgs p P))
    \<and> port_msgs p P' = tl (port_msgs p P))"
proof -
  have inv: "pinv P" by (rule preachable_pinv [OF assms(1)])
  have b: "\<not> isbadport p" by (rule pending_port [OF inv, of "currpid (ker P)"]) (simp add: assms(2))
  have g: "port_good p P" "port_msgs p P \<noteq> []" using ptrecv_finish_pinv(2) [OF inv assms(2) b assms(3)] by simp_all
  obtain P' where P': "ptrecv_finish p k P = Some P'" using ptrecv_finish_pinv(1) [OF inv assms(2) b] by (auto elim: returnsE)
  have "conts (ker P') (currpid (ker P)) = RetMsg (fst (take_msg p P)) \<and> porttab P' = porttab (snd (take_msg p P))
      \<and> ptnodes P' = ptnodes (snd (take_msg p P))"
    using P' assms(3) by (auto simp: ptrecv_finish_def on_ker_def pgive_def case_prod_unfold Let_def bind_eq_Some_conv set_cont_def)
  then show ?thesis using P' g port_queue.take_contents [OF g] by (simp add: port_msgs_def)
qed

theorem receiver_gets_oldest_witness:
  "port_msgs 0 receiving \<noteq> [] \<and> returns (ptrecv_finish 0 1 receiving)
    (\<lambda>P'. conts (ker P') 1 = RetMsg (hd (port_msgs 0 receiving)) \<and> port_msgs 0 P' = tl (port_msgs 0 receiving))"
proof -
  have "\<not> gone 0 1 receiving" by (simp add: gone_def retval_def receiving_facts sent_facts)
  then show ?thesis using receiver_gets_oldest [of receiving 0 1] receiving_facts by simp
qed

text \<open>A sender that returns from \<open>wait\<close> appends its message behind those the port holds, unless the nodes have
  run out, in which case the system panics.\<close>

theorem sender_appends:
  assumes "preachable P" "pconts P (currpid (ker P)) = PSend p k m" "\<not> gone p k P"
  shows "if ptfree P = 0 then ptsend_finish p k m P = None
    else returns (ptsend_finish p k m P) (\<lambda>P'. conts (ker P') (currpid (ker P)) = Ret OK \<and> port_msgs p P' = port_msgs p P @ [m])"
proof (cases "ptfree P = 0")
  case False
  have inv: "pinv P" by (rule preachable_pinv [OF assms(1)])
  have "\<not> isbadport p" by (rule pending_port [OF inv, of "currpid (ker P)"]) (simp add: assms(2))
  then have b: "\<not> badport p P" using assms(3) by (simp add: badport_def gone_def)
  obtain fl Q ph where I: "port_rep P fl Q" "kok (ker P)" "\<And>q. port_ok (ph q) P (length (Q q)) q"
    "\<And>q. \<not> badport q P \<Longrightarrow> ph q = Open" by (rule pinvE [OF inv]) (rule that)
  have g: "port_good p P" using I(1) b by (auto simp: port_good_def)
  have "good_sem (ker P) (ptrsem (porttab P p))" using I(3) [of p] I(4) [OF b] by (simp add: open_ok)
  then obtain s' where s': "signal (ptrsem (porttab P p)) (ker P) = Some s'" using returnsE [OF signal_effect [OF I(2)]] by blast
  define P' where "P' = set_pcont (currpid (ker P)) PNone ((put_msg p m P)\<lparr>ker := set_cont (currpid (ker P)) (Ret OK) s'\<rparr>)"
  have "ptsend_finish p k m P = Some P'" using s' assms(3) False by (simp add: ptsend_finish_def on_ker_def pgive_def P'_def Let_def)
  moreover have "port_msgs p P' = port_msgs p P @ [m]"
    using port_queue.put_contents [OF g False, of m] by (simp add: port_msgs_def P'_def)
  ultimately show ?thesis using False by (simp add: P'_def set_cont_def)
qed (use assms(3) in \<open>simp add: ptsend_finish_def\<close>)

theorem sender_appends_witness:
  "returns (ptsend_finish 0 1 99 sending) (\<lambda>P'. conts (ker P') 1 = Ret OK \<and> port_msgs 0 P' = port_msgs 0 sending @ [99])"
proof -
  have "\<not> gone 0 1 sending" by (simp add: gone_def retval_def sending_facts with_port_facts)
  then show ?thesis using sender_appends [of sending 0 1 99] sending_facts by simp
qed

text \<open>C29. However the operations on ports, other system calls, clock ticks and kills interleave, a port in use holds at most
  as many messages as its count, the number \<open>ptcreate\<close> was given. (As before: ports are created for less than 65536 messages
  while semaphores are free, no other code and no disposal function touches their semaphores, and no process is killed that resets or
  deletes a port.)\<close>

theorem port_never_overfull:
  assumes "preachable P" "\<not> badport p P"
  shows "int (length (port_msgs p P)) \<le> uint (ptmaxcnt (porttab P p))"
proof -
  obtain fl Q ph where I: "port_rep P fl Q" "kok (ker P)" "\<And>q. port_ok (ph q) P (length (Q q)) q"
    "\<And>q. \<not> badport q P \<Longrightarrow> ph q = Open" "\<And>i. pconts P i \<noteq> PNone \<Longrightarrow> 0 \<le> i \<and> i < NPROC"
    by (rule pinvE [OF preachable_pinv [OF assms(1)]]) (rule that)
  have "port_ok Open P (length (Q p)) p" using I(3) [of p] I(4) [OF assms(2)] by simp
  moreover have "finite (senders P p)" by (rule pending_finite) (rule I(5))
  ultimately show ?thesis using port_bounded I(2) port_msgs_rep [OF I(1) assms(2)] by auto
qed

theorem port_never_overfull_witness: "int (length (port_msgs 0 sent)) \<le> uint (ptmaxcnt (porttab sent 0))"
  by (rule port_never_overfull [OF sent_facts(1)]) (simp add: badport_def isbadport_def sent_facts)

text \<open>When a reset ends, the port is in use again, it holds no message, its sender semaphore has the full
  count and its receiver semaphore zero, and no process waits for either.\<close>

theorem ptreset_restores:
  assumes "preachable P" "pconts P (currpid (ker P)) = PClear2 p PT_ALLOC"
  shows "returns (ptclear_finish p PT_ALLOC P) (\<lambda>P'. \<not> badport p P' \<and> port_msgs p P' = []
    \<and> scount (semtab (ker P') (ptssem (porttab P' p))) = uint (ptmaxcnt (porttab P' p))
    \<and> scount (semtab (ker P') (ptrsem (porttab P' p))) = 0
    \<and> waiters (ker P') (ptssem (porttab P' p)) = {} \<and> waiters (ker P') (ptrsem (porttab P' p)) = {})"
proof -
  let ?i = "currpid (ker P)"
  have inv: "pinv P" by (rule preachable_pinv [OF assms(1)])
  have b: "\<not> isbadport p" by (rule pending_port [OF inv, of ?i]) (simp add: assms(2))
  obtain fl Q ph where "port_rep P fl Q" and I: "\<forall>p. port_ok (ph p) P (length (Q p)) p" using inv unfolding pinv_def by blast
  have pd: "pend P p ?i = PClear2 p PT_ALLOC" by (simp add: pend_def assms(2))
  have c: "control_ok (ph p) P p" and n: "counts_ok (ph p) P (length (Q p)) p" using I by (simp_all add: port_ok_def)
  have ph: "ph p = Reset2" using control_okD(2) [OF c, of ?i] by (simp add: pd)
  have "pthead (porttab P p) = 0" using control_okD(8) [OF c] ph by simp
  then show ?thesis
    using n b by (simp add: ph counts_ok_def ptclear_finish_def pgive_def badport_def port_msgs_def node_list.simps [of _ 0] Let_def)
qed

definition resetting :: ports where "resetting = the (pt_resume (PClear1 0 PT_ALLOC) (the (ptreset (\<lambda>_. Some) 0 with_port)))"

lemma resetting_facts: "preachable resetting" "pconts resetting = (\<lambda>_. PNone)(1 := PClear2 0 PT_ALLOC)" "currpid (ker resetting) = 1"
    "porttab resetting 0 = \<lparr>ptssem = 3, ptrsem = 4, ptstate = PT_LIMBO, ptmaxcnt = 2, ptseq = 2, pthead = 0, pttail = 0\<rparr>"
proof -
  have b: "\<not> badport 0 with_port" by (simp add: badport_def isbadport_def with_port_facts)
  have q: "reset_loop r s = Some s" if "r \<in> {106, 108}" "queuetab s = demo_qt" for r s
  proof -
    have "isq 304 r" "demo_lists r = []" using that(1) by (auto simp: isq_def demo_lists_def)
    then have "k_getfirst r s = (EMPTY, s)" using getfirst_empty [OF demo_qrep] that(2) by (simp add: k_getfirst_def)
    then show ?thesis by (subst reset_loop.simps) simp
  qed
  define resetting1 where "resetting1 = the (ptreset (\<lambda>_. Some) 0 with_port)"
  note U = b q with_port_facts on_ker_def Let_def give_def set_pcont_def set_cont_def upd_sem_def isbadsem_def semreset_def
    resched_cntl_def upd_port_def ptclear_def drop_msgs_def badport_def
  have e1: "ptreset (\<lambda>_. Some) 0 with_port = Some resetting1"
    "currpid (ker resetting1) = 1" "pconts resetting1 = (\<lambda>_. PNone)(1 := PClear1 0 PT_ALLOC)" "queuetab (ker resetting1) = demo_qt"
    "porttab resetting1 0 = \<lparr>ptssem = 3, ptrsem = 4, ptstate = PT_LIMBO, ptmaxcnt = 2, ptseq = 2, pthead = 0, pttail = 0\<rparr>"
    "semtab (ker resetting1) 4 = \<lparr>sstate = S_USED, scount = 0, squeue = 108\<rparr>" "ndefers (ker resetting1) = 0"
    using b by (simp_all add: resetting1_def ptreset_def U)
  have r: "resetting = the (pt_resume (pconts resetting1 1) resetting1)" by (simp add: resetting_def resetting1_def [symmetric] e1)
  note V = e1 q on_ker_def Let_def give_def set_pcont_def set_cont_def upd_sem_def isbadsem_def semreset_def resched_cntl_def ptclear_second_def
  have e2: "pt_resume (pconts resetting1 1) resetting1 = Some resetting" by (simp add: r V)
  show "pconts resetting = (\<lambda>_. PNone)(1 := PClear2 0 PT_ALLOC)" "currpid (ker resetting) = 1"
    "porttab resetting 0 = \<lparr>ptssem = 3, ptrsem = 4, ptstate = PT_LIMBO, ptmaxcnt = 2, ptseq = 2, pthead = 0, pttail = 0\<rparr>"
    by (simp_all add: r V)
  have "preachable resetting1"
  proof (rule preachable.onward [OF with_port_facts(2) pstep.reset])
    show "ptreset (\<lambda>_. Some) 0 with_port = Some resetting1" by (rule e1)
    show "idle with_port" by (simp add: idle_def with_port_facts)
    show "harmless (\<lambda>_. Some)" by (simp add: harmless_def quiet_def)
  qed
  then show "preachable resetting" by (rule preachable.onward [OF _ pstep.resume]) (use e2 in \<open>simp add: e1\<close>)
qed

theorem ptreset_restores_witness:
  "returns (ptclear_finish 0 PT_ALLOC resetting) (\<lambda>P'. \<not> badport 0 P' \<and> port_msgs 0 P' = []
    \<and> scount (semtab (ker P') (ptssem (porttab P' 0))) = uint (ptmaxcnt (porttab P' 0))
    \<and> scount (semtab (ker P') (ptrsem (porttab P' 0))) = 0
    \<and> waiters (ker P') (ptssem (porttab P' 0)) = {} \<and> waiters (ker P') (ptrsem (porttab P' 0)) = {})"
  by (rule ptreset_restores [OF resetting_facts(1)]) (simp add: resetting_facts)

text \<open>\<open>ptcreate\<close> does not look at what \<open>semcreate\<close> returned: when no semaphore is free it hands out a port whose
  semaphores are \<open>SYSERR\<close>, and every call that sends to that port fails.\<close>

theorem ptcreate_without_semaphores:
  assumes "0 \<le> ptnextid P" "ptnextid P < NPORTS" "ptstate (porttab P q) = PT_FREE" "0 \<le> q" "q < NPORTS" "0 \<le> n"
    and "0 \<le> nextsem (ker P)" "nextsem (ker P) < NSEM" "\<And>i. 0 \<le> i \<Longrightarrow> i < NSEM \<Longrightarrow> sstate (semtab (ker P) i) = S_USED"
  shows "returns (ptcreate n P) (\<lambda>P'. \<exists>p. conts (ker P') (currpid (ker P)) = Ret p \<and> \<not> badport p P'
    \<and> ptssem (porttab P' p) = SYSERR \<and> ptrsem (porttab P' p) = SYSERR
    \<and> returns (ptsend p m P') (\<lambda>P2. returns (pt_resume (pconts P2 (currpid (ker P))) P2)
        (\<lambda>P3. conts (ker P3) (currpid (ker P)) = Ret SYSERR)))"
proof -
  let ?i = "currpid (ker P)"
  have all_used: "\<exists>s'. semcreate k s = Some s' \<and> conts s' (currpid s) = Ret SYSERR \<and> currpid s' = currpid s \<and> semtab s' = semtab s
      \<and> 0 \<le> nextsem s' \<and> nextsem s' < NSEM"
    if "0 \<le> k" "0 \<le> nextsem s" "nextsem s < NSEM" "semtab s = semtab (ker P)" for k s
    using that(2,3)
  proof (cases rule: newsem_complete)
    case (full nx)
    then show ?thesis using that by (auto simp: semcreate_def give_def set_cont_def)
  next
    case (found sem nx)
    then show ?thesis using assms(9) [of sem] that(4) by simp
  qed
  from assms(1,2) show ?thesis
  proof (cases rule: free_port_complete)
    case (full nx)
    then show ?thesis using assms(3-5) by blast
  next
    case (found p nx)
    obtain s1 where s1: "semcreate n (ker P) = Some s1" "conts s1 ?i = Ret SYSERR" "currpid s1 = ?i" "semtab s1 = semtab (ker P)"
      "0 \<le> nextsem s1" "nextsem s1 < NSEM" using all_used [OF assms(6-8)] by auto
    obtain s2 where s2: "semcreate 0 s1 = Some s2" "conts s2 ?i = Ret SYSERR" "currpid s2 = ?i"
      using all_used [OF _ s1(5,6,4), of 0] s1(3) by auto
    have bad: "isbadsem SYSERR" by (simp add: isbadsem_def)
    show ?thesis
      using found s1 s2 assms(6) bad
      by (simp add: ptcreate_def new_port_def on_ker_def pgive_def retval_def Let_def badport_def isbadport_def ptsend_def wait_def give_def
        set_cont_def ptsend_finish_def gone_def)
  qed
qed

theorem ptcreate_without_semaphores_witness:
  "returns (ptcreate 5 (with_nodes\<lparr>ker := demo\<lparr>semtab := (\<lambda>_. \<lparr>sstate = S_USED, scount = 0, squeue = 0\<rparr>)\<rparr>\<rparr>))
    (\<lambda>P'. \<exists>p. conts (ker P') 1 = Ret p \<and> ptssem (porttab P' p) = SYSERR)"
proof -
  let ?P = "with_nodes\<lparr>ker := demo\<lparr>semtab := (\<lambda>_. \<lparr>sstate = S_USED, scount = 0, squeue = 0\<rparr>)\<rparr>\<rparr>"
  have "nextsem demo = 3" by (simp add: demo_def)
  then have "returns (ptcreate 5 ?P) (\<lambda>P'. \<exists>p. conts (ker P') (currpid (ker ?P)) = Ret p \<and> \<not> badport p P'
    \<and> ptssem (porttab P' p) = SYSERR \<and> ptrsem (porttab P' p) = SYSERR
    \<and> returns (ptsend p 0 P') (\<lambda>P2. returns (pt_resume (pconts P2 (currpid (ker ?P))) P2)
        (\<lambda>P3. conts (ker P3) (currpid (ker ?P)) = Ret SYSERR)))"
    by (intro ptcreate_without_semaphores [where q = 0]) (simp_all add: with_nodes_facts)
  then show ?thesis by (rule returns_mono) auto
qed

text \<open>The count of a port is kept in 16 bits: a port created for 65536 or more messages starts with
  the full count on its sender semaphore, and every reset brings it down to the remainder.\<close>

theorem ptcreate_truncates:
  assumes "pinv P" "sems_left (ker P)" "ptstate (porttab P q) = PT_FREE" "0 \<le> q" "q < NPORTS" "0 \<le> n"
  shows "returns (ptcreate n P) (\<lambda>P'. \<exists>p. conts (ker P') (currpid (ker P)) = Ret p \<and> \<not> badport p P'
    \<and> scount (semtab (ker P') (ptssem (porttab P' p))) = n \<and> uint (ptmaxcnt (porttab P' p)) = n mod 65536)"
proof -
  let ?i = "currpid (ker P)"
  have nx: "0 \<le> ptnextid P" "ptnextid P < NPORTS" "kok (ker P)" using assms(1) by (simp_all add: pinv_def)
  from nx(1,2) show ?thesis
  proof (cases rule: free_port_complete)
    case (full nx)
    then show ?thesis using assms(3-5) by blast
  next
    case (found p nx)
    obtain x s1 y s2 where "semcreate n (ker P) = Some s1" "semcreate 0 s1 = Some s2" "retval s1 ?i = x" "retval s2 ?i = y"
      "scount (semtab s2 x) = n" "currpid s2 = ?i" "currpid s1 = ?i"
      by (rule two_sems [OF nx(3) assms(6,2)]) (rule that)
    moreover have "uint (of_int n :: 16 word) = n mod 65536" by (simp add: unsigned_of_int take_bit_eq_mod)
    ultimately show ?thesis
      using found assms(6) by (simp add: ptcreate_def new_port_def on_ker_def pgive_def Let_def badport_def isbadport_def set_cont_def)
  qed
qed

theorem ptcreate_truncates_witness:
  "returns (ptcreate 70000 with_nodes) (\<lambda>P'. \<exists>p. scount (semtab (ker P') (ptssem (porttab P' p))) = 70000
    \<and> uint (ptmaxcnt (porttab P' p)) = 4464)"
proof -
  have "nextsem demo = 3" by (simp add: demo_def)
  then have "sems_left (ker with_nodes)"
    by (simp add: sems_left_def with_nodes_facts demo_sems_def) (rule exI [of _ 3], simp, rule exI [of _ 4], simp)
  then have "returns (ptcreate 70000 with_nodes) (\<lambda>P'. \<exists>p. conts (ker P') (currpid (ker with_nodes)) = Ret p \<and> \<not> badport p P'
    \<and> scount (semtab (ker P') (ptssem (porttab P' p))) = 70000 \<and> uint (ptmaxcnt (porttab P' p)) = 70000 mod 65536)"
    by (intro ptcreate_truncates [where q = 0]) (simp_all add: preachable_pinv [OF with_nodes_eq(2)] with_nodes_facts)
  then show ?thesis by (rule returns_mono) auto
qed

section \<open>First in, first out\<close>

text \<open>Whatever sequence of sends and receptions a port sees, what comes out, followed by what is still there,
  is what was there, followed by what went in.\<close>

theorem port_first_in_first_out:
  assumes "port_good p P" "port_queue.legal p ops P"
  shows "port_msgs p P @ puts ops = port_queue.out p ops P @ port_msgs p (port_queue.final p ops P)"
  using port_queue.first_in_first_out [OF assms] by (rule conjunct2)

theorem port_first_in_first_out_witness:
  "port_msgs 0 with_port @ [7, 8] = port_queue.out 0 [Put 7, Take, Put 8] with_port
    @ port_msgs 0 (port_queue.final 0 [Put 7, Take, Put 8] with_port)"
proof -
  have b: "\<not> badport 0 with_port" by (simp add: badport_def isbadport_def with_port_facts)
  obtain fl Q where "port_rep with_port fl Q" by (rule pinvE [OF preachable_pinv [OF with_port_facts(2)]]) (rule that)
  then have g: "port_good 0 with_port" using b by (auto simp: port_good_def)
  have f: "ptfree with_port \<noteq> 0" by (simp add: with_port_facts)
  have f2: "ptfree (put_msg 0 7 with_port) \<noteq> 0" "pthead (porttab (put_msg 0 7 with_port) 0) = 0x180000"
    by (simp_all add: put_msg_def with_port_facts with_nodes_facts Let_def)
  have "ptfree (snd (take_msg 0 (put_msg 0 7 with_port))) \<noteq> 0" using f2(2) by (simp add: take_msg_def Let_def)
  moreover have "port_msgs 0 (put_msg 0 7 with_port) \<noteq> []" using port_queue.put_contents [OF g f, of 7] by simp
  ultimately have "port_queue.legal 0 [Put 7, Take, Put 8] with_port" using f by simp
  then show ?thesis using port_first_in_first_out [OF g] by fastforce
qed

end
