(* ===== verification/Bufpool.thy ===== *)
theory Bufpool
  imports Effects Interfaces
begin

text \<open>
  Buffer pools: \<^verbatim>\<open>include/bufpool.h\<close>, \<^verbatim>\<open>system/bufinit.c\<close>, \<^verbatim>\<open>mkbufpool.c\<close>,
  \<^verbatim>\<open>getbuf.c\<close> and \<^verbatim>\<open>freebuf.c\<close>.

  A pool is a list of buffers linked through their first words and a semaphore that counts them. A buffer
  in use carries the number of its pool in the same word, and its user sees the address behind it.
  \<open>getbuf\<close> is cut at its call of \<open>wait\<close>: \<open>bpconts\<close> names the pool a process will take a buffer
  from when it gets the processor back. Calls that return a pointer record it as \<open>RetMsg\<close>.
\<close>

section \<open>Data\<close>

record bpentry =
  bpnext :: u32
  bpsem :: int
  bpsize :: u32

record pools =
  bker :: kstate
  buftab :: "int \<Rightarrow> bpentry"
  nbpools :: int
  bpmem :: "u32 \<Rightarrow> u32"
  bpconts :: "int \<Rightarrow> int option"

abbreviation NBPOOLS :: int where "NBPOOLS \<equiv> 20"
abbreviation BP_MAXB :: int where "BP_MAXB \<equiv> 8192"
abbreviation BP_MINB :: int where "BP_MINB \<equiv> 8"
abbreviation BP_MAXN :: int where "BP_MAXN \<equiv> 2048"

definition upd_pool :: "int \<Rightarrow> (bpentry \<Rightarrow> bpentry) \<Rightarrow> pools \<Rightarrow> pools" where
  "upd_pool p f P = P\<lparr>buftab := (buftab P)(p := f (buftab P p))\<rparr>"

definition bgive :: "cont \<Rightarrow> int \<Rightarrow> pools \<Rightarrow> pools option" where
  "bgive c i P = Some (P\<lparr>bker := set_cont i c (bker P), bpconts := (bpconts P)(i := None)\<rparr>)"

section \<open>Operations\<close>

definition bufinit :: "pools \<Rightarrow> pools" where
  "bufinit P = P\<lparr>nbpools := 0\<rparr>"

text \<open>\<open>for (numbufs--; numbufs>0; numbufs--)\<close>: each buffer points to the next one, the last to none.\<close>

primrec link_bufs :: "nat \<Rightarrow> u32 \<Rightarrow> u32 \<Rightarrow> (u32 \<Rightarrow> u32) \<Rightarrow> u32 \<Rightarrow> u32" where
  "link_bufs 0 bufsiz buf m = m(buf := 0)"
| "link_bufs (Suc n) bufsiz buf m = link_bufs n bufsiz (buf + bufsiz) (m(buf := buf + bufsiz))"

definition mkbufpool :: "int \<Rightarrow> int \<Rightarrow> pools \<Rightarrow> pools option" where
  "mkbufpool bufsiz numbufs P =
     (let i = currpid (bker P) in
      if bufsiz < BP_MINB \<or> BP_MAXB < bufsiz \<or> numbufs < 1 \<or> BP_MAXN < numbufs \<or> NBPOOLS \<le> nbpools P then bgive (Ret SYSERR) i P
      else let size = (bufsiz + 3) AND NOT 3; nbytes = of_int numbufs * (of_int size + 4) :: u32 in
        getmem nbytes (kheap (bker P)) \<bind> (\<lambda>(buf, h).
        let P1 = P\<lparr>bker := (bker P)\<lparr>kheap := h\<rparr>\<rparr> in
        if buf = SYSERRp then bgive (Ret SYSERR) i P1
        else let poolid = nbpools P1;
                 P2 = upd_pool poolid (\<lambda>e. e\<lparr>bpnext := buf, bpsize := of_int size\<rparr>) (P1\<lparr>nbpools := nbpools P1 + 1\<rparr>) in
          semcreate numbufs (bker P2) \<bind> (\<lambda>s.
          let P3 = upd_pool poolid (\<lambda>e. e\<lparr>bpsem := retval s i\<rparr>) (P2\<lparr>bker := s\<rparr>) in
          if bpsem (buftab P3 poolid) = SYSERR then
            freemem buf nbytes (kheap s) \<bind> (\<lambda>(_, h2).
            bgive (Ret SYSERR) i (P3\<lparr>bker := s\<lparr>kheap := h2\<rparr>, nbpools := nbpools P3 - 1\<rparr>))
          else bgive (Ret poolid) i (P3\<lparr>bpmem := link_bufs (nat (numbufs - 1)) (of_int size + 4) buf (bpmem P3)\<rparr>))))"

definition getbuf :: "int \<Rightarrow> pools \<Rightarrow> pools option" where
  "getbuf poolid P =
     (let i = currpid (bker P) in
      if poolid < 0 \<or> nbpools P \<le> poolid then bgive (RetMsg (of_int SYSERR)) i P
      else wait (bpsem (buftab P poolid)) (bker P) \<bind> (\<lambda>s.
           Some (P\<lparr>bker := s, bpconts := (bpconts P)(i := Some poolid)\<rparr>)))"

text \<open>The buffer is unlinked and marked with the number of its pool.\<close>

definition take_buf :: "int \<Rightarrow> pools \<Rightarrow> u32 \<times> pools" where
  "take_buf poolid P =
     (let bufptr = bpnext (buftab P poolid);
          P1 = upd_pool poolid (\<lambda>e. e\<lparr>bpnext := bpmem P bufptr\<rparr>) P
      in (bufptr, P1\<lparr>bpmem := (bpmem P1)(bufptr := of_int poolid)\<rparr>))"

definition getbuf_finish :: "int \<Rightarrow> pools \<Rightarrow> pools option" where
  "getbuf_finish poolid P =
     (let (bufptr, P1) = take_buf poolid P in bgive (RetMsg (bufptr + 4)) (currpid (bker P)) P1)"

definition put_buf :: "int \<Rightarrow> u32 \<Rightarrow> pools \<Rightarrow> pools" where
  "put_buf poolid buf P =
     (let P1 = P\<lparr>bpmem := (bpmem P)(buf := bpnext (buftab P poolid))\<rparr>
      in upd_pool poolid (\<lambda>e. e\<lparr>bpnext := buf\<rparr>) P1)"

definition freebuf :: "u32 \<Rightarrow> pools \<Rightarrow> pools option" where
  "freebuf bufaddr P =
     (let i = currpid (bker P); buf = bufaddr - 4; poolid = sint (bpmem P buf) in
      if poolid < 0 \<or> nbpools P \<le> poolid then bgive (Ret SYSERR) i P
      else let P1 = put_buf poolid buf P in
           signal (bpsem (buftab P1 poolid)) (bker P1) \<bind> (\<lambda>s. bgive (Ret OK) i (P1\<lparr>bker := s\<rparr>)))"

section \<open>Lists of buffers\<close>

primrec blist :: "(u32 \<Rightarrow> u32) \<Rightarrow> u32 \<Rightarrow> u32 list \<Rightarrow> bool" where
  "blist m a [] \<longleftrightarrow> a = 0"
| "blist m a (x # xs) \<longleftrightarrow> a = x \<and> x \<noteq> 0 \<and> blist m (m x) xs"

lemma blist_0 [simp]: "blist m 0 xs \<longleftrightarrow> xs = []"
  by (cases xs) auto

lemma blist_cong: "(\<And>x. x \<in> set xs \<Longrightarrow> m' x = m x) \<Longrightarrow> blist m' a xs = blist m a xs"
  by (induction xs arbitrary: a) auto

lemma blist_upd: "b \<notin> set xs \<Longrightarrow> blist (m(b := v)) a xs = blist m a xs"
  by (rule blist_cong) auto

lemma blist_nonzero: "blist m a xs \<Longrightarrow> x \<in> set xs \<Longrightarrow> x \<noteq> 0"
  by (induction xs arbitrary: a) auto

lemma blist_unique: "blist m a xs \<Longrightarrow> blist m a ys \<Longrightarrow> xs = ys"
proof (induction xs arbitrary: a ys)
  case Nil
  then show ?case by simp
next
  case (Cons x xs)
  then obtain ys' where "ys = x # ys'" "blist m (m x) ys'" by (cases ys) auto
  then show ?case using Cons.IH [of "m x" ys'] Cons.prems(1) by simp
qed

text \<open>The addresses of \<open>n\<close> buffers of \<open>d\<close> bytes from \<open>a\<close> on.\<close>

primrec bufs_from :: "u32 \<Rightarrow> u32 \<Rightarrow> nat \<Rightarrow> u32 list" where
  "bufs_from d a 0 = []"
| "bufs_from d a (Suc n) = a # bufs_from d (a + d) n"

lemma length_bufs_from [simp]: "length (bufs_from d a n) = n"
  by (induction n arbitrary: a) simp_all

lemma bufs_from_range:
  "unat a + unat d * n < 2 ^ 32 \<Longrightarrow> x \<in> set (bufs_from d a n) \<Longrightarrow> unat a \<le> unat x \<and> unat x + unat d \<le> unat a + unat d * n"
proof (induction n arbitrary: a)
  case (Suc n)
  have a: "unat (a + d) = unat a + unat d" using Suc.prems(1) by (simp add: unat_word_ariths)
  show ?case
  proof (cases "x = a")
    case False
    then have "unat (a + d) \<le> unat x \<and> unat x + unat d \<le> unat (a + d) + unat d * n"
      using Suc.prems a by (intro Suc.IH) (simp_all add: algebra_simps)
    then show ?thesis using a by simp
  qed simp
qed simp

lemma bufs_from_next:
  assumes "unat a + unat d * Suc n < 2 ^ 32" "0 < unat d"
  shows "a \<notin> set (bufs_from d (a + d) n)"
proof
  assume m: "a \<in> set (bufs_from d (a + d) n)"
  have a: "unat (a + d) = unat a + unat d" using assms(1) by (simp add: unat_word_ariths)
  then have "unat (a + d) + unat d * n < 2 ^ 32" using assms(1) by simp
  from bufs_from_range [OF this m] show False using a assms(2) by simp
qed

lemma bufs_from_distinct: "unat a + unat d * n < 2 ^ 32 \<Longrightarrow> 0 < unat d \<Longrightarrow> distinct (bufs_from d a n)"
proof (induction n arbitrary: a)
  case (Suc n)
  have "unat (a + d) = unat a + unat d" using Suc.prems by (simp add: unat_word_ariths)
  then show ?case using Suc.IH [of "a + d"] Suc.prems bufs_from_next [OF Suc.prems] by simp
qed simp

lemma link_bufs_frame: "x \<notin> set (bufs_from d a (Suc n)) \<Longrightarrow> link_bufs n d a m x = m x"
  by (induction n arbitrary: a m) auto

lemma link_bufs_list:
  assumes "0 < unat a" "unat a + unat d * Suc n < 2 ^ 32" "0 < unat d"
  shows "blist (link_bufs n d a m) a (bufs_from d a (Suc n))"
  using assms
proof (induction n arbitrary: a m)
  case (Suc n)
  let ?m = "m(a := a + d)"
  have a: "unat (a + d) = unat a + unat d" using Suc.prems by (simp add: unat_word_ariths)
  have "blist (link_bufs n d (a + d) ?m) (a + d) (bufs_from d (a + d) (Suc n))"
    by (rule Suc.IH) (use Suc.prems a in simp_all)
  moreover have "link_bufs n d (a + d) ?m a = ?m a"
    by (rule link_bufs_frame) (rule bufs_from_next [OF Suc.prems(2,3)])
  moreover have "a \<noteq> 0" using Suc.prems(1) by auto
  ultimately show ?case by simp
qed auto

section \<open>A pool hands out every buffer once\<close>

text \<open>\<open>free_bufs\<close> is the list of a pool; \<open>lent\<close> tells a buffer that carries the number of the pool.\<close>

definition free_bufs :: "int \<Rightarrow> pools \<Rightarrow> u32 set" where
  "free_bufs p P = {b. \<exists>xs. blist (bpmem P) (bpnext (buftab P p)) xs \<and> b \<in> set xs}"

definition pool_good :: "int \<Rightarrow> pools \<Rightarrow> bool" where
  "pool_good p P \<longleftrightarrow> (\<exists>xs. blist (bpmem P) (bpnext (buftab P p)) xs \<and> distinct xs)"

definition lent :: "int \<Rightarrow> pools \<Rightarrow> u32 \<Rightarrow> bool" where
  "lent p P b \<longleftrightarrow> b \<noteq> 0 \<and> b \<notin> free_bufs p P \<and> bpmem P b = of_int p"

lemma free_bufs_list: "blist (bpmem P) (bpnext (buftab P p)) xs \<Longrightarrow> free_bufs p P = set xs"
  unfolding free_bufs_def using blist_unique by blast

lemma upd_pool_simps [simp]:
  "bker (upd_pool p f P) = bker P" "bpmem (upd_pool p f P) = bpmem P" "bpconts (upd_pool p f P) = bpconts P"
  "nbpools (upd_pool p f P) = nbpools P" "buftab (upd_pool p f P) = (buftab P)(p := f (buftab P p))"
  by (simp_all add: upd_pool_def)

lemma take_buf_list:
  assumes "blist (bpmem P) (bpnext (buftab P p)) (x # xs)" "distinct (x # xs)"
  shows "fst (take_buf p P) = x" "blist (bpmem (snd (take_buf p P))) (bpnext (buftab (snd (take_buf p P)) p)) xs"
    "bpmem (snd (take_buf p P)) = (bpmem P)(x := of_int p)"
  using assms by (simp_all add: take_buf_def Let_def blist_upd)

lemma put_buf_list:
  assumes "blist (bpmem P) (bpnext (buftab P p)) xs" "b \<noteq> 0" "b \<notin> set xs"
  shows "blist (bpmem (put_buf p b P)) (bpnext (buftab (put_buf p b P) p)) (b # xs)"
    "bpmem (put_buf p b P) = (bpmem P)(b := bpnext (buftab P p))"
  using assms by (simp_all add: put_buf_def Let_def blist_upd)

interpretation buffer_pool: pool "pool_good p" "free_bufs p" "take_buf p" "put_buf p" "lent p" for p
proof unfold_locales
  fix P :: pools and b c :: u32
  assume g: "pool_good p P"
  then obtain xs where xs: "blist (bpmem P) (bpnext (buftab P p)) xs" "distinct xs" by (auto simp: pool_good_def)
  note F = free_bufs_list [OF xs(1)]
  {
    assume "free_bufs p P \<noteq> {}"
    then obtain y ys where ys: "xs = y # ys" using F by (cases xs) auto
    note T = take_buf_list [OF xs [unfolded ys]]
    note F' = free_bufs_list [OF T(2)]
    show "pool_good p (snd (take_buf p P))" using T(2) xs(2) ys by (auto simp: pool_good_def)
    show "fst (take_buf p P) \<in> free_bufs p P \<and> free_bufs p (snd (take_buf p P)) = free_bufs p P - {fst (take_buf p P)}"
      using F F' T(1) xs(2) ys by auto
    show "lent p (snd (take_buf p P)) b \<longleftrightarrow> lent p P b \<or> b = fst (take_buf p P)"
      using F F' T(1,3) xs(2) ys blist_nonzero [OF xs(1), of y] by (auto simp: lent_def)
  }
  {
    assume b: "b \<notin> free_bufs p P" "lent p P b"
    then have nb: "b \<noteq> 0" "b \<notin> set xs" using F by (auto simp: lent_def)
    note T = put_buf_list [OF xs(1) nb]
    note F' = free_bufs_list [OF T(1)]
    show "pool_good p (put_buf p b P)" using T(1) xs(2) nb unfolding pool_good_def by (intro exI [of _ "b # xs"]) simp
    show "free_bufs p (put_buf p b P) = insert b (free_bufs p P)" using F F' by simp
    show "c \<noteq> b \<Longrightarrow> lent p (put_buf p b P) c \<longleftrightarrow> lent p P c" using F F' T(2) by (auto simp: lent_def)
  }
qed

end
