(* ===== verification/Poolsystem.thy ===== *)
theory Poolsystem
  imports Bufpool Samples
begin

text \<open>
  Buffer pools used by many processes at once. The invariant ties the count of a pool's semaphore to the
  buffers on its list and to the processes that have passed \<open>wait\<close> but have not taken their buffer yet,
  so that such a process finds one although \<open>getbuf\<close> does not look.
\<close>

section \<open>The invariant\<close>

definition takers :: "pools \<Rightarrow> int \<Rightarrow> int set" where
  "takers P p = {i. bpconts P i = Some p}"

definition pool_ok :: "bool \<Rightarrow> pools \<Rightarrow> int \<Rightarrow> u32 list \<Rightarrow> bool" where
  "pool_ok tight P p xs \<longleftrightarrow> blist (bpmem P) (bpnext (buftab P p)) xs \<and> distinct xs \<and> good_sem (bker P) (bpsem (buftab P p))
     \<and> scount (semtab (bker P) (bpsem (buftab P p))) + int (card (takers P p)) \<le> int (length xs)
     \<and> (tight \<longrightarrow> scount (semtab (bker P) (bpsem (buftab P p))) + int (card (takers P p)) = int (length xs))
     \<and> waiters (bker P) (bpsem (buftab P p)) \<subseteq> takers P p"

definition pools_apart :: "pools \<Rightarrow> (int \<Rightarrow> u32 list) \<Rightarrow> bool" where
  "pools_apart P L \<longleftrightarrow> (\<forall>p q. 0 \<le> p \<longrightarrow> p < q \<longrightarrow> q < nbpools P \<longrightarrow> set (L p) \<inter> set (L q) = {} \<and> bpsem (buftab P p) \<noteq> bpsem (buftab P q))"

definition bpinvs :: "bool \<Rightarrow> pools \<Rightarrow> bool" where
  "bpinvs tight P \<longleftrightarrow> kok (bker P) \<and> 0 \<le> nbpools P \<and> nbpools P \<le> NBPOOLS
     \<and> (\<forall>i p. bpconts P i = Some p \<longrightarrow> 0 \<le> i \<and> i < NPROC \<and> 0 \<le> p \<and> p < nbpools P)
     \<and> (\<exists>L. (\<forall>p. 0 \<le> p \<longrightarrow> p < nbpools P \<longrightarrow> pool_ok tight P p (L p)) \<and> pools_apart P L)"

text \<open>The invariant of every reachable state is the one with \<open>\<le>\<close>.\<close>

abbreviation bpinv :: "pools \<Rightarrow> bool" where "bpinv \<equiv> bpinvs False"

lemma pools_apartD:
  "pools_apart P L \<Longrightarrow> 0 \<le> p \<Longrightarrow> 0 \<le> q \<Longrightarrow> p < nbpools P \<Longrightarrow> q < nbpools P \<Longrightarrow> p \<noteq> q \<Longrightarrow>
   set (L p) \<inter> set (L q) = {} \<and> bpsem (buftab P p) \<noteq> bpsem (buftab P q)"
  unfolding pools_apart_def by (metis Int_commute linorder_neqE)

lemma bpinvE:
  assumes "bpinvs tight P"
  obtains L where "kok (bker P)" "\<And>p. 0 \<le> p \<Longrightarrow> p < nbpools P \<Longrightarrow> pool_ok tight P p (L p)" "pools_apart P L"
    "\<And>i p. bpconts P i = Some p \<Longrightarrow> 0 \<le> i \<and> i < NPROC \<and> 0 \<le> p \<and> p < nbpools P"
  using assms unfolding bpinvs_def by blast

lemma takers_finite: "(\<And>i p. bpconts P i = Some p \<Longrightarrow> 0 \<le> i \<and> i < NPROC) \<Longrightarrow> finite (takers P p)"
proof -
  assume "\<And>i p. bpconts P i = Some p \<Longrightarrow> 0 \<le> i \<and> i < NPROC"
  then have "takers P p \<subseteq> {0..<NPROC}" by (auto simp: takers_def)
  then show ?thesis using finite_subset by blast
qed

text \<open>A step on pool \<open>p\<close> leaves the other pools alone.\<close>

lemma pool_step:
  assumes L: "\<And>q. 0 \<le> q \<Longrightarrow> q < nbpools P \<Longrightarrow> pool_ok tight P q (L q)" "pools_apart P L" and k: "kok (bker P')"
    and n: "nbpools P' = nbpools P" "0 \<le> nbpools P" "nbpools P \<le> NBPOOLS" "0 \<le> p" "p < nbpools P"
    and pc: "\<And>i q. bpconts P' i = Some q \<Longrightarrow> 0 \<le> i \<and> i < NPROC \<and> 0 \<le> q \<and> q < nbpools P"
    and others: "\<And>q. q \<noteq> p \<Longrightarrow> takers P' q = takers P q" "\<And>q. q \<noteq> p \<Longrightarrow> buftab P' q = buftab P q"
      "bpsem (buftab P' p) = bpsem (buftab P p)"
    and mem: "\<And>b q. 0 \<le> q \<Longrightarrow> q < nbpools P \<Longrightarrow> q \<noteq> p \<Longrightarrow> b \<in> set (L q) \<Longrightarrow> bpmem P' b = bpmem P b"
    and sem: "only_sem (bpsem (buftab P p)) (bker P) (bker P')"
    and new: "pool_ok tight P' p xs" "\<And>q. 0 \<le> q \<Longrightarrow> q < nbpools P \<Longrightarrow> q \<noteq> p \<Longrightarrow> set xs \<inter> set (L q) = {}"
  shows "bpinvs tight P'"
proof -
  let ?L = "L(p := xs)"
  have sems: "bpsem (buftab P' q) = bpsem (buftab P q)" for q using others(2,3) by (cases "q = p") simp_all
  have "pool_ok tight P' q (?L q)" if q: "0 \<le> q" "q < nbpools P" for q
  proof (cases "q = p")
    case False
    have o: "pool_ok tight P q (L q)" by (rule L(1) [OF q])
    have d: "bpsem (buftab P q) \<noteq> bpsem (buftab P p)" using pools_apartD [OF L(2) q(1) n(4) q(2) n(5) False] by blast
    have "semtab (bker P') (bpsem (buftab P q)) = semtab (bker P) (bpsem (buftab P q))"
      "waiters (bker P') (bpsem (buftab P q)) = waiters (bker P) (bpsem (buftab P q))"
      using sem d o by (simp_all add: only_sem_def pool_ok_def)
    moreover have "blist (bpmem P') (bpnext (buftab P q)) (L q) = blist (bpmem P) (bpnext (buftab P q)) (L q)"
      by (rule blist_cong) (rule mem [OF q False])
    ultimately show ?thesis using o False by (simp add: pool_ok_def others good_sem_def)
  qed (use new in simp)
  moreover have "pools_apart P' ?L"
  proof -
    have "set (?L q) \<inter> set (?L r) = {} \<and> bpsem (buftab P' q) \<noteq> bpsem (buftab P' r)" if "0 \<le> q" "q < r" "r < nbpools P'" for q r
      using pools_apartD [OF L(2), of q r] new(2) [of q] new(2) [of r] that n(1) sems by auto
    then show ?thesis unfolding pools_apart_def by blast
  qed
  ultimately have "\<exists>L. (\<forall>q. 0 \<le> q \<longrightarrow> q < nbpools P' \<longrightarrow> pool_ok tight P' q (L q)) \<and> pools_apart P' L" using n(1) by (intro exI [of _ ?L]) auto
  then show ?thesis using k n pc unfolding bpinvs_def by auto
qed

section \<open>Every operation keeps it\<close>

lemma bgive_bpinv:
  assumes P: "bpinvs tight P" and i: "bpconts P (currpid (bker P)) = None" and r: "\<And>pid. r \<noteq> KillK pid"
  shows "returns (bgive r (currpid (bker P)) P) (bpinvs tight)"
proof -
  have e: "bpconts (P\<lparr>bpconts := (bpconts P)(currpid (bker P) := None)\<rparr>) = bpconts P" using i by (simp add: fun_upd_idem)
  obtain L where L: "kok (bker P)" "\<And>p. 0 \<le> p \<Longrightarrow> p < nbpools P \<Longrightarrow> pool_ok tight P p (L p)" "pools_apart P L" by (rule bpinvE [OF P]) (rule that)
  define P' where "P' = P\<lparr>bker := set_cont (currpid (bker P)) r (bker P), bpconts := (bpconts P)(currpid (bker P) := None)\<rparr>"
  have c: "bpconts P' = bpconts P" using i by (simp add: P'_def fun_upd_idem)
  have "kok (bker P')" using L(1) r by (auto simp: kok_def conts_ok_def P'_def)
  moreover have "takers P' = takers P" by (simp add: takers_def c fun_eq_iff)
  then have "pool_ok tight P' p xs = pool_ok tight P p xs" for p xs by (simp add: pool_ok_def P'_def)
  moreover have "pools_apart P' L" using L(3) by (simp add: pools_apart_def P'_def)
  ultimately have "bpinvs tight P'" using P L(2) c unfolding bpinvs_def by (auto simp: P'_def)
  then show ?thesis by (simp add: bgive_def P'_def)
qed

lemma getbuf_bpinv:
  assumes P: "bpinvs tight P" and i: "bpconts P (currpid (bker P)) = None" and z: "currpid (bker P) \<noteq> NULLPROC"
  shows "returns (getbuf p P) (bpinvs tight)"
proof (cases "p < 0 \<or> nbpools P \<le> p")
  case True
  then show ?thesis using bgive_bpinv [OF P i] by (simp add: getbuf_def)
next
  case False
  let ?i = "currpid (bker P)" and ?x = "bpsem (buftab P p)"
  obtain L where L: "kok (bker P)" "\<And>q. 0 \<le> q \<Longrightarrow> q < nbpools P \<Longrightarrow> pool_ok tight P q (L q)" "pools_apart P L"
    "\<And>i q. bpconts P i = Some q \<Longrightarrow> 0 \<le> i \<and> i < NPROC \<and> 0 \<le> q \<and> q < nbpools P" by (rule bpinvE [OF P]) (rule that)
  have o: "pool_ok tight P p (L p)" using L(2) False by simp
  have x: "good_sem (bker P) ?x" using o by (simp add: pool_ok_def)
  obtain s' where s': "wait ?x (bker P) = Some s'" "kok s'" "only_sem ?x (bker P) s'"
    "semtab s' ?x = (semtab (bker P) ?x)\<lparr>scount := scount (semtab (bker P) ?x) - 1\<rparr>" "waiters s' ?x \<subseteq> insert ?i (waiters (bker P) ?x)"
    by (rule returnsE [OF wait_effect [OF L(1) x z]]) blast
  define P' where "P' = P\<lparr>bker := s', bpconts := (bpconts P)(?i := Some p)\<rparr>"
  have e: "getbuf p P = Some P'" using False s'(1) by (simp add: getbuf_def P'_def Let_def)
  have t: "takers P' p = insert ?i (takers P p)" "?i \<notin> takers P p" using i by (auto simp: takers_def P'_def)
  have "finite (takers P p)" by (rule takers_finite) (use L(4) in blast)
  then have c: "card (takers P' p) = Suc (card (takers P p))" using t by simp
  have r: "0 \<le> ?i" "?i < NPROC" using L(1) by (auto simp: kok_def elim: kinvE)
  have "bpinvs tight P'"
  proof (rule pool_step [OF L(2,3)])
    show "pool_ok tight P' p (L p)" using o s'(4,5) t(1) c by (auto simp: pool_ok_def P'_def good_sem_def)
    show "takers P' q = takers P q" if "q \<noteq> p" for q using that i by (auto simp: takers_def P'_def)
    show "set (L p) \<inter> set (L q) = {}" if "0 \<le> q" "q < nbpools P" "q \<noteq> p" for q using pools_apartD [OF L(3), of p q] that False by auto
    show "0 \<le> j \<and> j < NPROC \<and> 0 \<le> q \<and> q < nbpools P" if "bpconts P' j = Some q" for j q
      using that L(4) [of j q] r False by (auto simp: P'_def split: if_splits)
  qed (use P False s' in \<open>simp_all add: P'_def bpinvs_def\<close>)
  then show ?thesis using e by simp
qed

text \<open>A process that has passed \<open>wait\<close> finds a buffer.\<close>

lemma taker_finds:
  assumes k: "kok (bker P)" and o: "pool_ok tight P p xs" and i: "currpid (bker P) \<in> takers P p" and f: "finite (takers P p)"
  shows "xs \<noteq> []"
proof -
  let ?x = "bpsem (buftab P p)" and ?i = "currpid (bker P)"
  have x: "good_sem (bker P) ?x" "waiters (bker P) ?x \<subseteq> takers P p" using o by (simp_all add: pool_ok_def)
  have "insert ?i (waiters (bker P) ?x) \<subseteq> takers P p" using x i by blast
  then have "card (insert ?i (waiters (bker P) ?x)) \<le> card (takers P p)" by (rule card_mono [OF f])
  moreover have "card (insert ?i (waiters (bker P) ?x)) = Suc (card (waiters (bker P) ?x))"
    using current_not_waiting [OF k x(1)] by (simp add: waiters_def)
  moreover have "card (waiters (bker P) ?x) = nat (- scount (semtab (bker P) ?x))" by (rule waiting_count [OF k x(1)])
  ultimately show ?thesis using o by (auto simp: pool_ok_def)
qed

lemma getbuf_finish_bpinv:
  assumes P: "bpinvs tight P" and i: "bpconts P (currpid (bker P)) = Some p"
  shows "\<exists>x xs. blist (bpmem P) (bpnext (buftab P p)) (x # xs) \<and> distinct (x # xs)" "returns (getbuf_finish p P) (bpinvs tight)"
proof -
  let ?i = "currpid (bker P)" and ?x = "bpsem (buftab P p)"
  obtain L where L: "kok (bker P)" "\<And>q. 0 \<le> q \<Longrightarrow> q < nbpools P \<Longrightarrow> pool_ok tight P q (L q)" "pools_apart P L"
    "\<And>i q. bpconts P i = Some q \<Longrightarrow> 0 \<le> i \<and> i < NPROC \<and> 0 \<le> q \<and> q < nbpools P" by (rule bpinvE [OF P]) (rule that)
  have p: "0 \<le> p" "p < nbpools P" using L(4) [OF i] by auto
  have o: "pool_ok tight P p (L p)" by (rule L(2) [OF p])
  have fin: "finite (takers P p)" by (rule takers_finite) (use L(4) in blast)
  have it: "?i \<in> takers P p" using i by (simp add: takers_def)
  obtain x xs where xs: "L p = x # xs" using taker_finds [OF L(1) o it fin] by (cases "L p") auto
  have l: "blist (bpmem P) (bpnext (buftab P p)) (x # xs)" "distinct (x # xs)" using o xs by (simp_all add: pool_ok_def)
  then show "\<exists>x xs. blist (bpmem P) (bpnext (buftab P p)) (x # xs) \<and> distinct (x # xs)" by blast
  note T = take_buf_list [OF l]
  define P' where "P' = (snd (take_buf p P))\<lparr>bker := set_cont ?i (RetMsg (x + 4)) (bker P), bpconts := (bpconts P)(?i := None)\<rparr>"
  have frame: "bker (snd (take_buf p P)) = bker P" "bpconts (snd (take_buf p P)) = bpconts P" "nbpools (snd (take_buf p P)) = nbpools P"
    "\<And>q. q \<noteq> p \<Longrightarrow> buftab (snd (take_buf p P)) q = buftab P q" "bpsem (buftab (snd (take_buf p P)) p) = bpsem (buftab P p)"
    by (simp_all add: take_buf_def Let_def)
  have e: "getbuf_finish p P = Some P'" using frame T(1) by (simp add: getbuf_finish_def bgive_def P'_def case_prod_unfold)
  have t: "takers P' p = takers P p - {?i}" by (auto simp: takers_def P'_def)
  then have c: "card (takers P p) = Suc (card (takers P' p))" using card_Suc_Diff1 [OF fin it] by simp
  have nw: "?i \<notin> waiters (bker P) ?x" using current_not_waiting [OF L(1)] o by (simp add: pool_ok_def)
  have "bpinvs tight P'"
  proof (rule pool_step [OF L(2,3)])
    show "kok (bker P')" using inv_ret(2) [OF L(1)] by (simp add: P'_def)
    show "pool_ok tight P' p xs" using o T(2) l xs t c nw by (auto simp: pool_ok_def P'_def frame)
    show "takers P' q = takers P q" if "q \<noteq> p" for q using that i by (auto simp: takers_def P'_def)
    show d: "set xs \<inter> set (L q) = {}" if "0 \<le> q" "q < nbpools P" "q \<noteq> p" for q using pools_apartD [OF L(3), of p q] that p xs by auto
    show "bpmem P' b = bpmem P b" if "0 \<le> q" "q < nbpools P" "q \<noteq> p" "b \<in> set (L q)" for b q
      using pools_apartD [OF L(3), of p q] that p xs T(3) by (auto simp: P'_def)
    show "0 \<le> j \<and> j < NPROC \<and> 0 \<le> q \<and> q < nbpools P" if "bpconts P' j = Some q" for j q
      using that L(4) [of j q] by (auto simp: P'_def split: if_splits)
    show "only_sem (bpsem (buftab P p)) (bker P) (bker P')" by (simp add: only_sem_def P'_def)
  qed (use P p in \<open>simp_all add: P'_def bpinvs_def frame\<close>)
  then show "returns (getbuf_finish p P) (bpinvs tight)" using e by simp
qed

text \<open>A buffer is given back that is on no list.\<close>

definition outside :: "u32 \<Rightarrow> pools \<Rightarrow> bool" where
  "outside b P \<longleftrightarrow> b \<noteq> 0 \<and> (\<forall>p. 0 \<le> p \<longrightarrow> p < nbpools P \<longrightarrow> b \<notin> free_bufs p P)"

lemma freebuf_bpinv:
  assumes P: "bpinvs tight P" and i: "bpconts P (currpid (bker P)) = None" and b: "outside (a - 4) P"
  shows "returns (freebuf a P) (bpinvs tight)"
proof -
  define b p where "b = a - 4" and "p = sint (bpmem P b)"
  show ?thesis
  proof (cases "p < 0 \<or> nbpools P \<le> p")
    case True
    then show ?thesis using bgive_bpinv [OF P i] by (simp add: freebuf_def b_def p_def Let_def)
  next
    case False
    let ?i = "currpid (bker P)" and ?x = "bpsem (buftab P p)"
    obtain L where L: "kok (bker P)" "\<And>q. 0 \<le> q \<Longrightarrow> q < nbpools P \<Longrightarrow> pool_ok tight P q (L q)" "pools_apart P L"
      "\<And>i q. bpconts P i = Some q \<Longrightarrow> 0 \<le> i \<and> i < NPROC \<and> 0 \<le> q \<and> q < nbpools P" by (rule bpinvE [OF P]) (rule that)
    have p: "0 \<le> p" "p < nbpools P" using False by simp_all
    have out: "b \<noteq> 0" "b \<notin> set (L q)" if "0 \<le> q" "q < nbpools P" for q
      using assms(3) that free_bufs_list L(2) [OF that] by (auto simp: outside_def b_def pool_ok_def)
    have o: "pool_ok tight P p (L p)" by (rule L(2) [OF p])
    have l: "blist (bpmem P) (bpnext (buftab P p)) (L p)" and x: "good_sem (bker P) ?x" using o by (simp_all add: pool_ok_def)
    note T = put_buf_list [OF l out(1) [OF p] out(2) [OF p]]
    have frame: "bker (put_buf p b P) = bker P" "bpconts (put_buf p b P) = bpconts P" "nbpools (put_buf p b P) = nbpools P"
      "\<And>q. q \<noteq> p \<Longrightarrow> buftab (put_buf p b P) q = buftab P q" "bpsem (buftab (put_buf p b P) p) = bpsem (buftab P p)"
      by (simp_all add: put_buf_def Let_def)
    obtain s' where s': "signal ?x (bker P) = Some s'" "kok s'" "only_sem ?x (bker P) s'"
      "semtab s' ?x = (semtab (bker P) ?x)\<lparr>scount := scount (semtab (bker P) ?x) + 1\<rparr>" "waiters s' ?x \<subseteq> waiters (bker P) ?x"
      by (rule returnsE [OF signal_effect [OF L(1) x]]) blast
    define P' where "P' = (put_buf p b P)\<lparr>bker := set_cont ?i (Ret OK) s', bpconts := (bpconts P)(?i := None)\<rparr>"
    have pc: "bpconts P' = bpconts P" using i by (simp add: P'_def fun_upd_idem)
    have e: "freebuf a P = Some P'"
      using False s'(1) frame by (simp add: freebuf_def b_def [symmetric] p_def [symmetric] bgive_def P'_def Let_def)
    have t: "takers P' q = takers P q" for q by (simp add: takers_def pc)
    have "bpinvs tight P'"
    proof (rule pool_step [OF L(2,3)])
      show "kok (bker P')" using inv_ret(1) [OF s'(2)] by (simp add: P'_def)
      show "pool_ok tight P' p (b # L p)" using o T(1) out(2) [OF p] s'(4,5) t by (auto simp: pool_ok_def P'_def frame good_sem_def)
      show "set (b # L p) \<inter> set (L q) = {}" if "0 \<le> q" "q < nbpools P" "q \<noteq> p" for q
        using pools_apartD [OF L(3), of p q] that p out(2) by auto
      show "bpmem P' c = bpmem P c" if "0 \<le> q" "q < nbpools P" "q \<noteq> p" "c \<in> set (L q)" for c q
        using that out(2) T(2) by (auto simp: P'_def)
      show "only_sem ?x (bker P) (bker P')" using s'(3) by (simp add: only_sem_def P'_def)
      show "0 \<le> j \<and> j < NPROC \<and> 0 \<le> q \<and> q < nbpools P" if "bpconts P' j = Some q" for j q using that L(4) [of j q] pc by simp
    qed (use P p t in \<open>simp_all add: P'_def bpinvs_def frame\<close>)
    then show ?thesis using e by simp
  qed
qed

section \<open>Making a pool\<close>

lemma round4:
  fixes b :: int
  shows "(b + 3) AND NOT 3 = 4 * ((b + 3) div 4)" "b \<le> 4 * ((b + 3) div 4)" "4 * ((b + 3) div 4) \<le> b + 3"
proof -
  have m: "(3 :: int) = mask 2" by (simp add: mask_eq_exp_minus_1)
  have e: "Suc (Suc (n - 2)) = n" if "2 \<le> n" for n :: nat using that by simp
  have "(b + 3) AND NOT (mask 2) = push_bit 2 (drop_bit 2 (b + 3))" by (rule bit_eqI) (auto simp: bit_simps e not_less)
  then show "(b + 3) AND NOT 3 = 4 * ((b + 3) div 4)" unfolding m by (simp add: push_bit_eq_mult drop_bit_eq_div mask_eq_exp_minus_1)
  show "b \<le> 4 * ((b + 3) div 4)" "4 * ((b + 3) div 4) \<le> b + 3" by presburger+
qed

lemma pool_bytes:
  fixes b n :: int
  assumes "BP_MINB \<le> b" "b \<le> BP_MAXB" "1 \<le> n" "n \<le> BP_MAXN"
  defines "d \<equiv> of_int ((b + 3) AND NOT 3) + 4 :: u32"
  shows "int (unat d) = 4 * ((b + 3) div 4) + 4" "unat (of_int n * d) = nat n * unat d" "unat (of_int n * d) + 7 < 2 ^ 32" "0 < unat d"
proof -
  define k where "k = nat ((b + 3) div 4) + 1"
  have k: "2 \<le> k" "k \<le> 2049" using assms(1,2) by (simp_all add: k_def)
  have "of_int ((b + 3) AND NOT 3) + 4 = (of_nat (4 * k) :: u32)"
  proof -
    have "((b + 3) AND NOT 3) + 4 = int (4 * k)" unfolding round4(1) using assms(1) by (simp add: k_def)
    then have "(of_int (((b + 3) AND NOT 3) + 4) :: u32) = of_int (int (4 * k))" by (rule arg_cong)
    then show ?thesis by simp
  qed
  then have d: "d = of_nat (4 * k)" by (simp only: d_def)
  have ud: "unat d = 4 * k" unfolding d using k by (intro unat_of_nat_u32) simp
  have "0 \<le> (b + 3) div 4" using assms(1) by simp
  then show "int (unat d) = 4 * ((b + 3) div 4) + 4" unfolding ud k_def by simp
  show "0 < unat d" unfolding ud using k(1) by simp
  have b: "nat n * (4 * k) \<le> 2048 * (4 * 2049)" using assms(4) k by (intro mult_le_mono) simp_all
  have "of_int n * d = of_nat (nat n * (4 * k))" using assms(3) by (simp add: d)
  then have u: "unat (of_int n * d) = nat n * (4 * k)" using b by (simp only: unat_of_nat_u32)
  then show "unat (of_int n * d) = nat n * unat d" using ud by simp
  show "unat (of_int n * d) + 7 < 2 ^ 32" unfolding u using b by (simp add: algebra_simps)
qed

text \<open>The memory of the pools is not on the free list.\<close>

definition pools_kept :: "pools \<Rightarrow> block list \<Rightarrow> bool" where
  "pools_kept P bs \<longleftrightarrow> heap_wf (kheap (bker P)) bs \<and> (\<forall>p b. 0 \<le> p \<longrightarrow> p < nbpools P \<longrightarrow> b \<in> free_bufs p P \<longrightarrow> unat b \<notin> free_bytes bs)
     \<and> 0 \<le> nextsem (bker P) \<and> nextsem (bker P) < NSEM"

text \<open>The outcomes of \<open>mkbufpool\<close>: no pool, and the memory that was taken given back, or a new pool
  with all its buffers.\<close>

definition same_memory :: "kstate \<Rightarrow> kstate \<Rightarrow> block list \<Rightarrow> bool" where
  "same_memory s s' bs \<longleftrightarrow> (\<exists>bs'. heap_wf (kheap s') bs' \<and> free_bytes bs' = free_bytes bs) \<and> semtab s' = semtab s \<and> queuetab s' = queuetab s"

lemma mkbufpool_outcome:
  assumes k: "kok (bker P)" and wf: "heap_wf (kheap (bker P)) bs" "0 \<le> nextsem (bker P)" "nextsem (bker P) < NSEM"
  obtains (failed) P' where "mkbufpool b n P = Some P'" "kok (bker P')" "conts (bker P') (currpid (bker P)) = Ret SYSERR"
      "nbpools P' = nbpools P" "bpmem P' = bpmem P" "bpconts P' = (bpconts P)(currpid (bker P) := None)"
      "\<And>p. p \<noteq> nbpools P \<Longrightarrow> buftab P' p = buftab P p" "same_memory (bker P) (bker P') bs"
  | (made) P' a d x where "mkbufpool b n P = Some P'" "kok (bker P')" "conts (bker P') (currpid (bker P)) = Ret (nbpools P)"
      "1 \<le> n" "nbpools P < NBPOOLS" "nbpools P' = nbpools P + 1" "bpconts P' = (bpconts P)(currpid (bker P) := None)"
      "\<And>p. p \<noteq> nbpools P \<Longrightarrow> buftab P' p = buftab P p" "bpsem (buftab P' (nbpools P)) = x" "bpnext (buftab P' (nbpools P)) = a"
      "bpmem P' = link_bufs (nat (n - 1)) d a (bpmem P)" "b + 4 \<le> int (unat d)" "0 < unat a" "unat a + nat n * unat d < 2 ^ 32"
      "block_bytes (a, roundmb (of_int n * d)) \<subseteq> free_bytes bs" "unat (of_int n * d) = nat n * unat d" "unat (of_int n * d) + 7 < 2 ^ 32" "0 < unat d"
      "only_sem x (bker P) (bker P')" "sstate (semtab (bker P) x) = S_FREE"
      "good_sem (bker P') x" "scount (semtab (bker P') x) = n" "waiters (bker P') x = {}"
proof -
  let ?i = "currpid (bker P)" and ?s = "bker P"
  show thesis
  proof (cases "b < BP_MINB \<or> BP_MAXB < b \<or> n < 1 \<or> BP_MAXN < n \<or> NBPOOLS \<le> nbpools P")
    case True
    then have e: "mkbufpool b n P = Some (P\<lparr>bker := set_cont ?i (Ret SYSERR) ?s, bpconts := (bpconts P)(?i := None)\<rparr>)"
      by (simp add: mkbufpool_def bgive_def Let_def)
    show ?thesis by (rule failed [OF e]) (use inv_ret(1) [OF k] wf in \<open>auto simp: same_memory_def set_cont_def\<close>)
  next
    case False
    define d where "d = (of_int ((b + 3) AND NOT 3) + 4 :: u32)"
    have v: "BP_MINB \<le> b" "b \<le> BP_MAXB" "1 \<le> n" "n \<le> BP_MAXN" "nbpools P < NBPOOLS" using False by simp_all
    note B = pool_bytes [OF v(1-4), folded d_def]
    have db: "b + 4 \<le> int (unat d)" using B(1) round4(2) [of b] by linarith
    have n0: "of_int n * d \<noteq> 0" "unat (of_int n * d) + 7 < 2 ^ 32" using B v(3) by (auto simp: unat_eq_0 [symmetric])
    obtain a h where g: "getmem (of_int n * d) (kheap ?s) = Some (a, h)"
    proof -
      have "\<exists>r. getmem (of_int n * d) (kheap ?s) = Some r"
        using getmem_refines [OF heap_wfD(1) [OF wf(1)] n0] by (auto split: option.splits)
      then show ?thesis using that by force
    qed
    show ?thesis
    proof (cases "a = SYSERRp")
      case True
      have h: "h = kheap ?s" by (rule getmem_fails [OF wf(1) n0]) (use g True in simp)
      have e: "mkbufpool b n P = Some (P\<lparr>bker := set_cont ?i (Ret SYSERR) (?s\<lparr>kheap := h\<rparr>), bpconts := (bpconts P)(?i := None)\<rparr>)"
        using False g True by (simp add: mkbufpool_def bgive_def Let_def d_def)
      show ?thesis by (rule failed [OF e]) (use inv_ret(1) [OF k] wf h in \<open>auto simp: same_memory_def set_cont_def\<close>)
    next
      case ok: False
      note G = getmem_block [OF wf(1) n0 g ok]
      define s0 where "s0 = ?s\<lparr>kheap := h\<rparr>"
      have k0: "kok s0" using k kinv_cong [of s0 ?s] by (simp add: kok_def conts_ok_def s0_def)
      have c0: "currpid s0 = ?i" "semtab s0 = semtab ?s" "queuetab s0 = queuetab ?s" "kheap s0 = h" by (simp_all add: s0_def)
      have frees: "freemem a (of_int n * d) h \<noteq> None" "\<And>r h2. freemem a (of_int n * d) h = Some (r, h2) \<Longrightarrow>
          \<exists>bs2. heap_wf h2 bs2 \<and> free_bytes bs2 = free_bytes bs"
        using getmem_freemem [OF wf(1) n0 g ok] by auto
      have nx: "0 \<le> nextsem s0" "nextsem s0 < NSEM" "0 \<le> n" using wf v by (simp_all add: s0_def)
      define P1 where "P1 = upd_pool (nbpools P) (\<lambda>e. e\<lparr>bpnext := a, bpsize := of_int ((b + 3) AND NOT 3)\<rparr>) (P\<lparr>bker := s0, nbpools := nbpools P + 1\<rparr>)"
      have m: "mkbufpool b n P = semcreate n s0 \<bind> (\<lambda>s.
          let P3 = upd_pool (nbpools P) (\<lambda>e. e\<lparr>bpsem := retval s ?i\<rparr>) (P1\<lparr>bker := s\<rparr>) in
          if bpsem (buftab P3 (nbpools P)) = SYSERR then
            freemem a (of_int n * d) (kheap s) \<bind> (\<lambda>(_, h2).
            bgive (Ret SYSERR) ?i (P3\<lparr>bker := s\<lparr>kheap := h2\<rparr>, nbpools := nbpools P3 - 1\<rparr>))
          else bgive (Ret (nbpools P)) ?i (P3\<lparr>bpmem := link_bufs (nat (n - 1)) d a (bpmem P3)\<rparr>))"
        unfolding mkbufpool_def Let_def d_def [symmetric] using False g ok by (simp add: P1_def s0_def cong: if_cong)
      from k0 nx(3,1,2) show ?thesis
      proof (cases rule: semcreate_outcome)
        case (full s')
        have r: "retval s' ?i = SYSERR" using full(3) c0(1) by (simp add: retval_def)
        obtain r2 h2 where h2: "freemem a (of_int n * d) h = Some (r2, h2)" using frees(1) by fastforce
        have kh: "kheap s' = h" using full(6) c0(4) by simp
        define P' where "P' = (upd_pool (nbpools P) (\<lambda>e. e\<lparr>bpsem := SYSERR\<rparr>) P1)\<lparr>bker := set_cont ?i (Ret SYSERR) (s'\<lparr>kheap := h2\<rparr>),
          nbpools := nbpools P, bpconts := (bpconts P)(?i := None)\<rparr>"
        have e: "mkbufpool b n P = Some P'" unfolding m using full(1) r kh h2 by (simp add: bgive_def P'_def P1_def upd_pool_def)
        have "kok (s'\<lparr>kheap := h2\<rparr>)" using full(2) kinv_cong [of "s'\<lparr>kheap := h2\<rparr>" s'] by (simp add: kok_def conts_ok_def)
        then have "kok (bker P')" using inv_ret(1) by (simp add: P'_def)
        moreover have "same_memory ?s (bker P') bs" using frees(2) [OF h2] full(4,5) c0 by (simp add: same_memory_def P'_def)
        ultimately show ?thesis by (intro failed [OF e]) (simp_all add: P'_def P1_def set_cont_def)
      next
        case (found x s')
        have r: "retval s' ?i = x" using found c0(1) by simp
        define P' where "P' = (upd_pool (nbpools P) (\<lambda>e. e\<lparr>bpsem := x\<rparr>) P1)\<lparr>bker := set_cont ?i (Ret (nbpools P)) s',
          bpmem := link_bufs (nat (n - 1)) d a (bpmem P), bpconts := (bpconts P)(?i := None)\<rparr>"
        have e: "mkbufpool b n P = Some P'" unfolding m using found(1,4) r by (simp add: bgive_def P'_def P1_def upd_pool_def)
        have "kok (bker P')" using inv_ret(1) [OF found(2)] by (simp add: P'_def)
        moreover have w: "waiters s0 = waiters ?s" "good_sem s0 = good_sem ?s" by (simp_all add: waiters_def good_sem_def c0 fun_eq_iff)
        then have "only_sem x ?s (bker P')" using found(3) c0 by (simp add: only_sem_def P'_def)
        moreover have "unat a + nat n * unat d < 2 ^ 32" using G(2) B(2) by simp
        moreover have "conts (bker P') ?i = Ret (nbpools P)" by (simp add: P'_def set_cont_def)
        ultimately show ?thesis
          by (intro made [OF e, where a = a and x = x and d = d]) (use found v db G B c0 in \<open>simp_all add: P'_def P1_def\<close>)
      qed
    qed
  qed
qed

lemma mkbufpool_bpinv:
  assumes P: "bpinvs tight P" and i: "bpconts P (currpid (bker P)) = None" and kept: "pools_kept P bs"
  shows "returns (mkbufpool b n P) (bpinvs tight)"
proof -
  obtain L where L: "kok (bker P)" "\<And>q. 0 \<le> q \<Longrightarrow> q < nbpools P \<Longrightarrow> pool_ok tight P q (L q)" "pools_apart P L"
    "\<And>i q. bpconts P i = Some q \<Longrightarrow> 0 \<le> i \<and> i < NPROC \<and> 0 \<le> q \<and> q < nbpools P" by (rule bpinvE [OF P]) (rule that)
  have N: "0 \<le> nbpools P" "nbpools P \<le> NBPOOLS" using P by (simp_all add: bpinvs_def)
  have K: "heap_wf (kheap (bker P)) bs" "0 \<le> nextsem (bker P)" "nextsem (bker P) < NSEM" using kept by (simp_all add: pools_kept_def)
  have pc: "(bpconts P)(currpid (bker P) := None) = bpconts P" using i by (simp add: fun_upd_idem)
  from L(1) K show ?thesis
  proof (cases rule: mkbufpool_outcome [where b = b and n = n])
    case (failed P')
    have "semtab (bker P') = semtab (bker P)" "queuetab (bker P') = queuetab (bker P)" using failed(8) by (simp_all add: same_memory_def)
    moreover from this have "waiters (bker P') = waiters (bker P)" by (intro ext) (simp add: waiters_def)
    ultimately have "pool_ok tight P' q (L q) = pool_ok tight P q (L q)" if "q < nbpools P" for q
      using failed(5-7) that pc by (simp add: pool_ok_def takers_def good_sem_def)
    moreover have "pools_apart P' L" using L(3) failed(4,7) by (simp add: pools_apart_def)
    ultimately have "\<exists>L. (\<forall>p. 0 \<le> p \<longrightarrow> p < nbpools P' \<longrightarrow> pool_ok tight P' p (L p)) \<and> pools_apart P' L"
      using L(2) failed(4) by (intro exI [of _ L]) simp
    moreover have "\<forall>i p. bpconts P' i = Some p \<longrightarrow> 0 \<le> i \<and> i < NPROC \<and> 0 \<le> p \<and> p < nbpools P'"
      using L(4) failed(4,6) pc by simp
    ultimately show ?thesis using failed(1,2,4) N by (simp add: bpinvs_def)
  next
    case (made P' a d x)
    let ?new = "bufs_from d a (nat n)" and ?p = "nbpools P"
    have nn: "Suc (nat (n - 1)) = nat n" using made(4) by simp
    have nowrap: "unat a + unat d * nat n < 2 ^ 32" using made(14) by (simp add: mult.commute)
    have taken: "unat c \<in> free_bytes bs" if "c \<in> set ?new" for c
    proof -
      have "unat a \<le> unat c \<and> unat c < unat a + unat d * nat n"
        using bufs_from_range [OF nowrap that] made(18) by linarith
      moreover have "unat (of_int n * d) \<le> unat (roundmb (of_int n * d))" by (rule roundmb_bounds(1) [OF made(17)])
      ultimately have "unat c \<in> block_bytes (a, roundmb (of_int n * d))" using made(16) by (simp add: block_bytes_def mult.commute)
      then show ?thesis using made(15) by blast
    qed
    have old: "set (L q) \<inter> set ?new = {}" if "0 \<le> q" "q < ?p" for q
      using taken kept that free_bufs_list L(2) [OF that] unfolding pools_kept_def pool_ok_def by blast
    have same: "bpmem P' c = bpmem P c" if "c \<notin> set ?new" for c
      unfolding made(11) by (rule link_bufs_frame) (use that nn in simp)
    have t: "takers P' q = takers P q" for q using made(7) pc by (simp add: takers_def)
    have "takers P ?p = {}" using L(4) by (fastforce simp: takers_def)
    moreover have "blist (bpmem P') a ?new" unfolding made(11) using link_bufs_list [of a d "nat (n - 1)"] made(13,18) nowrap nn by simp
    moreover have "distinct ?new" by (rule bufs_from_distinct [OF nowrap made(18)])
    ultimately have new: "pool_ok tight P' ?p ?new" using made(4,9,10,21-23) t by (simp add: pool_ok_def)
    have prev: "pool_ok tight P' q (L q)" if q: "0 \<le> q" "q < ?p" for q
    proof -
      have o: "pool_ok tight P q (L q)" by (rule L(2) [OF q])
      then have "bpsem (buftab P q) \<noteq> x" using made(20) by (auto simp: pool_ok_def good_sem_def)
      then have "semtab (bker P') (bpsem (buftab P q)) = semtab (bker P) (bpsem (buftab P q))"
        "waiters (bker P') (bpsem (buftab P q)) = waiters (bker P) (bpsem (buftab P q))"
        using made(19) o by (simp_all add: only_sem_def pool_ok_def)
      moreover have "blist (bpmem P') (bpnext (buftab P q)) (L q) = blist (bpmem P) (bpnext (buftab P q)) (L q)"
        by (rule blist_cong) (use same old [OF q] in auto)
      ultimately show ?thesis using o q made(8) t by (simp add: pool_ok_def good_sem_def)
    qed
    have "pools_apart P' (L(?p := ?new))"
    proof -
      have "set ((L(?p := ?new)) q) \<inter> set ((L(?p := ?new)) r) = {} \<and> bpsem (buftab P' q) \<noteq> bpsem (buftab P' r)"
        if q: "0 \<le> q" "q < r" "r < nbpools P'" for q r
      proof (cases "r = ?p")
        case True
        have "good_sem (bker P) (bpsem (buftab P q))" using L(2) [of q] q True by (simp add: pool_ok_def)
        then have "bpsem (buftab P q) \<noteq> x" using made(20) by (auto simp: good_sem_def)
        then show ?thesis using old [of q] q made(8,9) True by auto
      next
        case False
        then show ?thesis using pools_apartD [OF L(3), of q r] q made(6,8) by auto
      qed
      then show ?thesis unfolding pools_apart_def by blast
    qed
    moreover have "\<forall>q. 0 \<le> q \<longrightarrow> q < nbpools P' \<longrightarrow> pool_ok tight P' q ((L(?p := ?new)) q)" using prev new made(6) by auto
    ultimately have "\<exists>L. (\<forall>p. 0 \<le> p \<longrightarrow> p < nbpools P' \<longrightarrow> pool_ok tight P' p (L p)) \<and> pools_apart P' L" by blast
    moreover have "\<forall>i p. bpconts P' i = Some p \<longrightarrow> 0 \<le> i \<and> i < NPROC \<and> 0 \<le> p \<and> p < nbpools P'"
      using L(4) made(6,7) pc by fastforce
    ultimately show ?thesis using made(1,2,5,6) N by (simp add: bpinvs_def)
  qed
qed

section \<open>Every reachable state\<close>

definition bidle :: "pools \<Rightarrow> bool" where "bidle P \<longleftrightarrow> bpconts P (currpid (bker P)) = None"

text \<open>Other code does not call \<open>wait\<close> or \<open>signal\<close> on the semaphores of the pools, but it may kill any process. A process that
  is killed while it waits, or after it was woken and before it took its buffer, will never take one.\<close>

definition bcalm :: "pools \<Rightarrow> kstate \<Rightarrow> bool" where
  "bcalm P s' \<longleftrightarrow> (\<forall>p. 0 \<le> p \<longrightarrow> p < nbpools P \<longrightarrow> kept_sem (bker P) s' (bpsem (buftab P p)))"

definition after_step :: "pools \<Rightarrow> kstate \<Rightarrow> pools" where
  "after_step P s' = P\<lparr>bker := s', bpconts := (\<lambda>i. if dead s' i then None else bpconts P i)\<rparr>"

inductive bpstep :: "pools \<Rightarrow> pools \<Rightarrow> bool" where
  get: "bidle P \<Longrightarrow> currpid (bker P) \<noteq> NULLPROC \<Longrightarrow> getbuf p P = Some P' \<Longrightarrow> bpstep P P'"
| finish: "bpconts P (currpid (bker P)) = Some p \<Longrightarrow> getbuf_finish p P = Some P' \<Longrightarrow> bpstep P P'"
| free: "bidle P \<Longrightarrow> outside (a - 4) P \<Longrightarrow> freebuf a P = Some P' \<Longrightarrow> bpstep P P'"
| make: "bidle P \<Longrightarrow> pools_kept P bs \<Longrightarrow> mkbufpool b n P = Some P' \<Longrightarrow> bpstep P P'"
| other: "bidle P \<Longrightarrow> step (bker P) s' \<Longrightarrow> bcalm P s' \<Longrightarrow> bpstep P (after_step P s')"

inductive_cases bpstepE: "bpstep P P'"

inductive breachable :: "pools \<Rightarrow> bool" where
  init: "kok (bker P) \<Longrightarrow> (\<forall>i. bpconts P i = None) \<Longrightarrow> breachable (bufinit P)"
| onward: "breachable P \<Longrightarrow> bpstep P P' \<Longrightarrow> breachable P'"

text \<open>A step that kills a process to which a buffer is due, and the states reached without such a step.\<close>

definition robs :: "pools \<Rightarrow> pools \<Rightarrow> bool" where
  "robs P P' \<longleftrightarrow> (\<exists>i p. bpconts P i = Some p \<and> i \<notin> waiters (bker P) (bpsem (buftab P p)) \<and> dead (bker P') i)"

inductive unrobbed :: "pools \<Rightarrow> bool" where
  init: "kok (bker P) \<Longrightarrow> (\<forall>i. bpconts P i = None) \<Longrightarrow> unrobbed (bufinit P)"
| onward: "unrobbed P \<Longrightarrow> bpstep P P' \<Longrightarrow> \<not> robs P P' \<Longrightarrow> unrobbed P'"

lemma bcalm_bpinv:
  assumes P: "bpinvs tight P" and s: "step (bker P) s'" and c: "bcalm P s'" and r: "tight \<Longrightarrow> \<not> robs P (after_step P s')"
  shows "bpinvs tight (after_step P s')"
proof -
  let ?P' = "after_step P s'"
  obtain L where L: "kok (bker P)" "\<And>q. 0 \<le> q \<Longrightarrow> q < nbpools P \<Longrightarrow> pool_ok tight P q (L q)" "pools_apart P L"
    "\<And>i q. bpconts P i = Some q \<Longrightarrow> 0 \<le> i \<and> i < NPROC \<and> 0 \<le> q \<and> q < nbpools P" by (rule bpinvE [OF P]) (rule that)
  have k: "kok s'" using step_keeps [OF s] L(1) by (simp add: kok_def)
  have t: "takers ?P' q = takers P q - {i. dead s' i}" for q by (auto simp: takers_def after_step_def split: if_splits)
  have "pool_ok tight ?P' q (L q)" if q: "0 \<le> q" "q < nbpools P" for q
  proof -
    let ?x = "bpsem (buftab P q)"
    have o: "pool_ok tight P q (L q)" by (rule L(2) [OF q])
    have x: "good_sem (bker P) ?x" "waiters (bker P) ?x \<subseteq> takers P q" using o by (simp_all add: pool_ok_def)
    have f: "finite (takers P q)" by (rule takers_finite) (use L(4) in blast)
    have ks: "kept_sem (bker P) s' ?x" using c q by (simp add: bcalm_def)
    note K = kept_sem_promises [OF k x(1) ks f x(2), folded t]
    have "\<forall>i\<in>takers P q. dead s' i \<longrightarrow> i \<in> waiters (bker P) ?x" if tight
      using r [OF that] by (auto simp: robs_def takers_def after_step_def)
    then show ?thesis using o K by (auto simp: pool_ok_def after_step_def)
  qed
  moreover have "pools_apart ?P' L" using L(3) by (simp add: pools_apart_def after_step_def)
  ultimately have "\<exists>L. (\<forall>p. 0 \<le> p \<longrightarrow> p < nbpools ?P' \<longrightarrow> pool_ok tight ?P' p (L p)) \<and> pools_apart ?P' L"
    by (intro exI [of _ L]) (simp add: after_step_def)
  then show ?thesis using P k L(4) unfolding bpinvs_def by (auto simp: after_step_def split: if_splits)
qed

lemma bpstep_bpinv: "bpstep P P' \<Longrightarrow> bpinvs tight P \<Longrightarrow> (tight \<Longrightarrow> \<not> robs P P') \<Longrightarrow> bpinvs tight P'"
proof (induction rule: bpstep.induct)
  case (get P p P')
  then show ?case using getbuf_bpinv [of tight P p] by (simp add: bidle_def)
next
  case (finish P p P')
  then show ?case using getbuf_finish_bpinv(2) [of tight P p] by simp
next
  case (free P a P')
  then show ?case using freebuf_bpinv [of tight P a] by (simp add: bidle_def)
next
  case (make P bs b n P')
  then show ?case using mkbufpool_bpinv [of tight P bs b n] by (simp add: bidle_def)
next
  case (other P s')
  then show ?case by (intro bcalm_bpinv)
qed

lemma bufinit_bpinv: "kok (bker P) \<Longrightarrow> (\<forall>i. bpconts P i = None) \<Longrightarrow> bpinvs tight (bufinit P)"
  by (simp add: bpinvs_def bufinit_def pools_apart_def)

lemma breachable_bpinv: "breachable P \<Longrightarrow> bpinvs False P"
  by (induction rule: breachable.induct) (use bufinit_bpinv bpstep_bpinv in blast)+

lemma unrobbed_bpinv: "unrobbed P \<Longrightarrow> bpinvs True P"
  by (induction rule: unrobbed.induct) (use bufinit_bpinv bpstep_bpinv in blast)+

section \<open>A system with one pool\<close>

definition no_pools :: pools where
  "no_pools = \<lparr>bker = demo, buftab = \<lambda>_. \<lparr>bpnext = 0, bpsem = 0, bpsize = 0\<rparr>, nbpools = 7, bpmem = \<lambda>_. 0, bpconts = \<lambda>_. None\<rparr>"

definition with_pool :: pools where "with_pool = the (mkbufpool 10 3 (bufinit no_pools))"
definition getting :: pools where "getting = the (getbuf 0 with_pool)"

lemma no_pools_ok: "breachable (bufinit no_pools)" "pools_kept (bufinit no_pools) [(0x180000, 0x10000)]"
proof -
  show "breachable (bufinit no_pools)" by (rule breachable.init) (simp_all add: no_pools_def demo_kok)
  have "heap_wf (kheap demo) [(0x180000, 0x10000)]" using demo_stacks by (simp add: stacks_at_def)
  then show "pools_kept (bufinit no_pools) [(0x180000, 0x10000)]" by (simp add: pools_kept_def bufinit_def no_pools_def) (simp add: demo_def)
qed

lemma with_pool_facts:
  "mkbufpool 10 3 (bufinit no_pools) = Some with_pool" "breachable with_pool" "nbpools with_pool = 1" "bpconts with_pool = (\<lambda>_. None)"
  "buftab with_pool 0 = \<lparr>bpnext = 0x180000, bpsem = 3, bpsize = 12\<rparr>" "currpid (bker with_pool) = 1"
  "semtab (bker with_pool) 3 = \<lparr>sstate = S_USED, scount = 3, squeue = 106\<rparr>"
  "bpmem with_pool 0x180000 = 0x180010" "bpmem with_pool 0x180010 = 0x180020" "bpmem with_pool 0x180020 = 0"
proof -
  have n: "newsem s = (nextsem s, upd_sem (nextsem s) (\<lambda>e. e\<lparr>sstate := S_USED\<rparr>) (s\<lparr>nextsem := nextsem s + 1\<rparr>))"
    if "sstate (semtab s (nextsem s)) = S_FREE" "nextsem s + 1 < NSEM" for s
    using newsem_loop.simps(2) [of 99 s] that by (simp add: newsem_def Let_def)
  have d: "nextsem demo = 3" "conts demo = (\<lambda>_. Ret OK)" by (simp_all add: demo_def power_on_def)
  have r: "(13 :: int) AND - 4 = 12" using round4(1) [of 10] by simp
  have lk: "link_bufs 2 w a m = m(a := a + w, a + w := a + w + w, a + w + w := 0)" for w a m by (simp add: numeral_2_eq_2)
  note U = mkbufpool_def bufinit_def no_pools_def getmem_def one_block_def roundmb_def getmem_scan.simps n d r semcreate_def give_def
    bgive_def retval_def upd_pool_def upd_sem_def set_cont_def demo_sems_def lk
  show e: "mkbufpool 10 3 (bufinit no_pools) = Some with_pool" by (simp add: with_pool_def U Let_def)
  show "nbpools with_pool = 1" "bpconts with_pool = (\<lambda>_. None)"
    "buftab with_pool 0 = \<lparr>bpnext = 0x180000, bpsem = 3, bpsize = 12\<rparr>" "currpid (bker with_pool) = 1"
    "semtab (bker with_pool) 3 = \<lparr>sstate = S_USED, scount = 3, squeue = 106\<rparr>"
    "bpmem with_pool 0x180000 = 0x180010" "bpmem with_pool 0x180010 = 0x180020" "bpmem with_pool 0x180020 = 0"
    by (simp_all add: with_pool_def U Let_def fun_eq_iff)
  show "breachable with_pool"
    by (rule breachable.onward [OF no_pools_ok(1) bpstep.make [OF _ no_pools_ok(2) e]]) (simp add: bidle_def bufinit_def no_pools_def)
qed

lemma getting_facts: "breachable getting" "bpconts getting = (\<lambda>_. None)(1 := Some 0)" "currpid (bker getting) = 1"
    "buftab getting = buftab with_pool" "bpmem getting = bpmem with_pool"
proof -
  note U = getbuf_def wait_def isbadsem_def with_pool_facts(3-7) give_def set_cont_def upd_sem_def Let_def
  have e: "getbuf 0 with_pool = Some getting" by (simp add: getting_def U)
  show "bpconts getting = (\<lambda>_. None)(1 := Some 0)" "currpid (bker getting) = 1"
    "buftab getting = buftab with_pool" "bpmem getting = bpmem with_pool" by (simp_all add: getting_def U)
  show "breachable getting"
    by (rule breachable.onward [OF with_pool_facts(2) bpstep.get [OF _ _ e]]) (simp_all add: bidle_def with_pool_facts)
qed

lemma getting_unrobbed: "nbpools getting = 1" "unrobbed getting"
proof -
  have r: "\<not> robs P P'" if "bpconts P = (\<lambda>_. None)" for P P' using that by (simp add: robs_def)
  have "unrobbed (bufinit no_pools)" by (rule unrobbed.init) (simp_all add: no_pools_def demo_kok)
  then have "unrobbed with_pool"
    by (rule unrobbed.onward [OF _ bpstep.make [OF _ no_pools_ok(2) with_pool_facts(1)]])
      (simp_all add: bidle_def robs_def bufinit_def no_pools_def)
  moreover have e: "getbuf 0 with_pool = Some getting"
    by (simp add: getting_def getbuf_def wait_def isbadsem_def with_pool_facts(3-7) give_def set_cont_def upd_sem_def Let_def)
  moreover have "bidle with_pool" "currpid (bker with_pool) \<noteq> NULLPROC" by (simp_all add: bidle_def with_pool_facts)
  ultimately show "unrobbed getting" using unrobbed.onward bpstep.get r with_pool_facts(4) by blast
  show "nbpools getting = 1"
    by (simp add: getting_def getbuf_def wait_def isbadsem_def with_pool_facts give_def set_cont_def upd_sem_def Let_def)
qed

lemma with_pool_list: "blist (bpmem with_pool) (bpnext (buftab with_pool 0)) [0x180000, 0x180010, 0x180020]"
  by (simp add: with_pool_facts)

section \<open>What holds of every reachable state\<close>

text \<open>C4. A process that comes back from the \<open>wait\<close> in \<open>getbuf\<close> finds a buffer, whatever other calls came in
  between: it gets the address behind the first word of a free buffer, and that buffer alone leaves the list.\<close>

theorem getbuf_gets_free_buffer:
  assumes "breachable P" "bpconts P (currpid (bker P)) = Some p"
  shows "\<exists>b. b \<in> free_bufs p P \<and> b \<noteq> 0 \<and> returns (getbuf_finish p P) (\<lambda>P'. conts (bker P') (currpid (bker P)) = RetMsg (b + 4)
    \<and> free_bufs p P' = free_bufs p P - {b} \<and> lent p P' b)"
proof -
  obtain x xs where l: "blist (bpmem P) (bpnext (buftab P p)) (x # xs)" "distinct (x # xs)"
    using getbuf_finish_bpinv(1) [OF breachable_bpinv [OF assms(1)] assms(2)] by blast
  note T = take_buf_list [OF l]
  have g: "pool_good p P" "free_bufs p P \<noteq> {}" unfolding pool_good_def using l free_bufs_list [OF l(1)] by (blast, simp)
  note A = buffer_pool.get_avail [OF g] and M = buffer_pool.get_mine [OF g, of x]
  define P' where "P' = the (getbuf_finish p P)"
  have e: "getbuf_finish p P = Some P'" "conts (bker P') (currpid (bker P)) = RetMsg (x + 4)"
    "bpmem P' = bpmem (snd (take_buf p P))" "buftab P' = buftab (snd (take_buf p P))"
    using T(1) by (simp_all add: P'_def getbuf_finish_def bgive_def case_prod_unfold set_cont_def Let_def)
  have "free_bufs p P' = free_bufs p (snd (take_buf p P))" "lent p P' x = lent p (snd (take_buf p P)) x"
    using e(3,4) by (simp_all add: free_bufs_def lent_def)
  then have "free_bufs p P' = free_bufs p P - {x}" "lent p P' x" "x \<in> free_bufs p P" using A M T(1) by auto
  then show ?thesis using e(1,2) blist_nonzero [OF l(1), of x] by (intro exI [of _ x]) simp
qed

theorem getbuf_gets_free_buffer_witness:
  "\<exists>b. b \<in> free_bufs 0 getting \<and> b \<noteq> 0 \<and> returns (getbuf_finish 0 getting) (\<lambda>P'. conts (bker P') 1 = RetMsg (b + 4)
    \<and> free_bufs 0 P' = free_bufs 0 getting - {b} \<and> lent 0 P' b)"
  using getbuf_gets_free_buffer [OF getting_facts(1), of 0] by (simp add: getting_facts(2,3))

text \<open>C10. In every reachable state the count of a pool's semaphore and the processes between \<open>wait\<close> and their buffer
  add up to at most the number of free buffers, exactly to it unless a process was killed after it had been woken and before it
  took its buffer, and no buffer is free in two pools.\<close>

theorem pool_count_exact:
  assumes "breachable P" "0 \<le> p" "p < nbpools P"
  defines "promised \<equiv> scount (semtab (bker P) (bpsem (buftab P p))) + int (card (takers P p))"
  shows "promised \<le> int (card (free_bufs p P)) \<and> (unrobbed P \<longrightarrow> promised = int (card (free_bufs p P)))
    \<and> (\<forall>q. 0 \<le> q \<longrightarrow> q < nbpools P \<longrightarrow> q \<noteq> p \<longrightarrow> free_bufs q P \<inter> free_bufs p P = {})"
proof -
  have c: "promised \<le> int (card (free_bufs p P)) \<and> (tight \<longrightarrow> promised = int (card (free_bufs p P)))
    \<and> (\<forall>q. 0 \<le> q \<longrightarrow> q < nbpools P \<longrightarrow> q \<noteq> p \<longrightarrow> free_bufs q P \<inter> free_bufs p P = {})" if t: "bpinvs tight P" for tight
  proof -
    obtain L where L: "\<And>q. 0 \<le> q \<Longrightarrow> q < nbpools P \<Longrightarrow> pool_ok tight P q (L q)" "pools_apart P L" by (rule bpinvE [OF t]) (rule that)
    have f: "free_bufs q P = set (L q)" if "0 \<le> q" "q < nbpools P" for q
      using free_bufs_list L(1) [OF that] by (simp add: pool_ok_def)
    have "pool_ok tight P p (L p)" by (rule L(1) [OF assms(2,3)])
    moreover have "free_bufs q P \<inter> free_bufs p P = {}" if "0 \<le> q" "q < nbpools P" "q \<noteq> p" for q
      using pools_apartD [OF L(2) that(1) assms(2) that(2) assms(3) that(3)] f that assms(2,3) by simp
    ultimately show ?thesis unfolding f [OF assms(2,3)] promised_def by (simp add: pool_ok_def distinct_card)
  qed
  show ?thesis using c [OF breachable_bpinv [OF assms(1)]] c [OF unrobbed_bpinv] by simp
qed

theorem pool_count_exact_witness:
  "scount (semtab (bker getting) (bpsem (buftab getting 0))) + int (card (takers getting 0)) = int (card (free_bufs 0 getting))"
  using pool_count_exact [OF getting_facts(1), of 0] getting_unrobbed by simp

text \<open>\<open>mkbufpool\<close> makes a pool of exactly the buffers asked for, each with room for its size and the number of
  the pool, in memory that was free; or it fails and leaves the pools, the semaphores and the free memory as they were.\<close>

theorem mkbufpool_contract:
  assumes "kok (bker P)" "heap_wf (kheap (bker P)) bs" "0 \<le> nextsem (bker P)" "nextsem (bker P) < NSEM"
  shows "returns (mkbufpool b n P) (\<lambda>P'.
    conts (bker P') (currpid (bker P)) = Ret SYSERR \<and> nbpools P' = nbpools P \<and> bpmem P' = bpmem P \<and> same_memory (bker P) (bker P') bs
    \<or> conts (bker P') (currpid (bker P)) = Ret (nbpools P) \<and> nbpools P' = nbpools P + 1
      \<and> scount (semtab (bker P') (bpsem (buftab P' (nbpools P)))) = n
      \<and> (\<exists>a d. free_bufs (nbpools P) P' = set (bufs_from d a (nat n)) \<and> card (free_bufs (nbpools P) P') = nat n
          \<and> b + 4 \<le> int (unat d) \<and> {unat a ..< unat a + nat n * unat d} \<subseteq> free_bytes bs))"
  using assms
proof (cases rule: mkbufpool_outcome [where b = b and n = n])
  case (made P' a d x)
  have nn: "Suc (nat (n - 1)) = nat n" using made(4) by simp
  have nowrap: "unat a + unat d * nat n < 2 ^ 32" using made(14) by (simp add: mult.commute)
  have "blist (bpmem P') (bpnext (buftab P' (nbpools P))) (bufs_from d a (nat n))"
    unfolding made(10,11) using link_bufs_list [of a d "nat (n - 1)"] made(13,18) nowrap nn by simp
  then have f: "free_bufs (nbpools P) P' = set (bufs_from d a (nat n))" by (rule free_bufs_list)
  moreover have "card (set (bufs_from d a (nat n))) = nat n" using bufs_from_distinct [OF nowrap made(18)] by (simp add: distinct_card)
  moreover have "{unat a ..< unat a + nat n * unat d} \<subseteq> block_bytes (a, roundmb (of_int n * d))"
    using roundmb_bounds(1) [OF made(17)] made(16) by (auto simp: block_bytes_def)
  then have "{unat a ..< unat a + nat n * unat d} \<subseteq> free_bytes bs" using made(15) by blast
  ultimately have "\<exists>a d. free_bufs (nbpools P) P' = set (bufs_from d a (nat n)) \<and> card (free_bufs (nbpools P) P') = nat n
          \<and> b + 4 \<le> int (unat d) \<and> {unat a ..< unat a + nat n * unat d} \<subseteq> free_bytes bs"
    using made(12) by (intro exI [of _ a] exI [of _ d]) simp
  then show ?thesis using made(1,3,6,9,22) by simp
qed simp

theorem mkbufpool_contract_witness:
  "returns (mkbufpool 10 3 (bufinit no_pools)) (\<lambda>P'. conts (bker P') 1 = Ret 0 \<and> card (free_bufs 0 P') = 3)"
proof -
  have k: "kok (bker (bufinit no_pools))" "heap_wf (kheap (bker (bufinit no_pools))) [(0x180000, 0x10000)]"
    "0 \<le> nextsem (bker (bufinit no_pools))" "nextsem (bker (bufinit no_pools)) < NSEM"
    using no_pools_ok(2) demo_kok by (simp_all add: pools_kept_def bufinit_def no_pools_def)
  have z: "nbpools (bufinit no_pools) = 0" "currpid (bker (bufinit no_pools)) = 1" by (simp_all add: bufinit_def no_pools_def)
  have "card (free_bufs 0 with_pool) = 3 \<and> conts (bker with_pool) 1 = Ret 0"
    using mkbufpool_contract [OF k, of 10 3] unfolding with_pool_facts(1) z returns_Some with_pool_facts(3) by auto
  then show ?thesis unfolding with_pool_facts(1) by simp
qed

text \<open>C31. Whatever sequence of takings and returnings a pool sees, no buffer is at the same time free and in the
  hands of a user, and none is lost.\<close>

theorem buffers_lent_once:
  assumes "pool_good p P" "H \<inter> free_bufs p P = {}" "\<And>b. b \<in> H \<Longrightarrow> lent p P b" "buffer_pool.run p ops (H, P) = Some (H', P')"
  shows "H' \<inter> free_bufs p P' = {} \<and> H' \<union> free_bufs p P' = H \<union> free_bufs p P"
proof -
  have "buffer_pool.separate p (H, P)" using assms(1-3) by (simp add: buffer_pool.separate_def)
  from buffer_pool.no_double_allocation [OF this assms(4)] show ?thesis by (auto simp: buffer_pool.separate_def)
qed

theorem buffers_lent_once_witness:
  "\<exists>H P. buffer_pool.run 0 [Get, Get, Give 0x180000] ({}, with_pool) = Some (H, P) \<and> H \<inter> free_bufs 0 P = {}
    \<and> H \<union> free_bufs 0 P = free_bufs 0 with_pool"
proof -
  have l: "distinct [0x180000, 0x180010, 0x180020 :: u32]" by simp
  note T = take_buf_list [OF with_pool_list l]
  have "free_bufs 0 with_pool \<noteq> {}" "free_bufs 0 (snd (take_buf 0 with_pool)) \<noteq> {}"
    using free_bufs_list [OF with_pool_list] free_bufs_list [OF T(2)] by simp_all
  then obtain H P where r: "buffer_pool.run 0 [Get, Get, Give 0x180000] ({}, with_pool) = Some (H, P)" using T(1) by simp
  have "pool_good 0 with_pool" using with_pool_list l unfolding pool_good_def by blast
  from buffers_lent_once [OF this _ _ r] show ?thesis using r by auto
qed

end
