(* ===== verification/Strings.thy ===== *)
theory Strings
  imports Prelude "HOL-Library.Sublist"
begin

text \<open>
  The string and memory routines of \<^verbatim>\<open>lib/\<close>, on a byte memory with 32-bit
  addresses that wrap around. \<open>char\<close> is signed on this machine, so comparisons read a byte with
  \<open>sint\<close>. A loop that only a terminating zero stops is a partial function. \<open>str_at m p xs\<close>: a
  string with the characters \<open>xs\<close> starts at \<open>p\<close>.
\<close>

section \<open>Memory\<close>

type_synonym mem = "u32 \<Rightarrow> u8"

primrec str_at :: "mem \<Rightarrow> u32 \<Rightarrow> u8 list \<Rightarrow> bool" where
  "str_at m p [] = (m p = 0)"
| "str_at m p (x # xs) = (m p = x \<and> x \<noteq> 0 \<and> str_at m (p + 1) xs)"

primrec bytes_at :: "mem \<Rightarrow> u32 \<Rightarrow> nat \<Rightarrow> u8 list" where
  "bytes_at m p 0 = []"
| "bytes_at m p (Suc n) = m p # bytes_at m (p + 1) n"

section \<open>Strings\<close>

partial_function (option) strlen_loop :: "mem \<Rightarrow> u32 \<Rightarrow> int \<Rightarrow> int option" where
  "strlen_loop m str len = (if m str \<noteq> 0 then strlen_loop m (str + 1) (len + 1) else Some len)"

declare strlen_loop.simps [code]

definition strlen :: "mem \<Rightarrow> u32 \<Rightarrow> int option" where "strlen m str = strlen_loop m str 0"

primrec strnlen_loop :: "nat \<Rightarrow> mem \<Rightarrow> u32 \<Rightarrow> int \<Rightarrow> int" where
  "strnlen_loop 0 m s n = n"
| "strnlen_loop (Suc k) m s n = (if m s \<noteq> 0 then strnlen_loop k m (s + 1) (n + 1) else n)"

definition strnlen :: "mem \<Rightarrow> u32 \<Rightarrow> u32 \<Rightarrow> int" where "strnlen m s len = strnlen_loop (unat len) m s 0"

partial_function (option) strcpy_loop :: "mem \<Rightarrow> u32 \<Rightarrow> u32 \<Rightarrow> mem option" where
  "strcpy_loop m tar src =
     (if m src \<noteq> 0 then strcpy_loop (m(tar := m src)) (tar + 1) (src + 1) else Some (m(tar := m src)))"

declare strcpy_loop.simps [code]

definition strcpy :: "mem \<Rightarrow> u32 \<Rightarrow> u32 \<Rightarrow> (int \<times> mem) option" where
  "strcpy m tar src = strcpy_loop m tar src \<bind> (\<lambda>m'. Some (0, m'))"

primrec fill :: "nat \<Rightarrow> u8 \<Rightarrow> mem \<Rightarrow> u32 \<Rightarrow> mem" where
  "fill 0 c m p = m"
| "fill (Suc k) c m p = fill k c (m(p := c)) (p + 1)"

primrec strncpy_loop :: "nat \<Rightarrow> mem \<Rightarrow> u32 \<Rightarrow> u32 \<Rightarrow> mem" where
  "strncpy_loop 0 m s1 s2 = m"
| "strncpy_loop (Suc k) m s1 s2 =
     (let m1 = m(s1 := m s2)
      in if m s2 = 0 then fill k 0 m1 (s1 + 1) else strncpy_loop k m1 (s1 + 1) (s2 + 1))"

definition strncpy :: "mem \<Rightarrow> u32 \<Rightarrow> u32 \<Rightarrow> int \<Rightarrow> u32 \<times> mem" where
  "strncpy m s1 s2 n = (s1, strncpy_loop (nat n) m s1 s2)"

partial_function (option) strcmp :: "mem \<Rightarrow> u32 \<Rightarrow> u32 \<Rightarrow> int option" where
  "strcmp m str1 str2 =
     (if m str1 = m str2 then if m str1 = 0 then Some 0 else strcmp m (str1 + 1) (str2 + 1)
      else Some (if sint (m str1) < sint (m str2) then - 1 else 1))"

declare strcmp.simps [code]

primrec strncmp_loop :: "nat \<Rightarrow> mem \<Rightarrow> u32 \<Rightarrow> u32 \<Rightarrow> int" where
  "strncmp_loop 0 m s1 s2 = 0"
| "strncmp_loop (Suc k) m s1 s2 =
     (if m s1 = m s2 then if m s1 = 0 then 0 else strncmp_loop k m (s1 + 1) (s2 + 1)
      else sint (m s1) - sint (m s2))"

definition strncmp :: "mem \<Rightarrow> u32 \<Rightarrow> u32 \<Rightarrow> int \<Rightarrow> int" where
  "strncmp m s1 s2 n = strncmp_loop (nat n) m s1 s2"

partial_function (option) find_end :: "mem \<Rightarrow> u32 \<Rightarrow> u32 option" where
  "find_end m s = (if m s \<noteq> 0 then find_end m (s + 1) else Some s)"

declare find_end.simps [code]

text \<open>The character after the last one allowed is stored first and then overwritten.\<close>

primrec strncat_loop :: "nat \<Rightarrow> mem \<Rightarrow> u32 \<Rightarrow> u32 \<Rightarrow> mem" where
  "strncat_loop 0 m s1 s2 = (let m1 = m(s1 := m s2) in if m s2 \<noteq> 0 then m1(s1 := 0) else m1)"
| "strncat_loop (Suc k) m s1 s2 =
     (let m1 = m(s1 := m s2) in if m s2 \<noteq> 0 then strncat_loop k m1 (s1 + 1) (s2 + 1) else m1)"

definition strncat :: "mem \<Rightarrow> u32 \<Rightarrow> u32 \<Rightarrow> int \<Rightarrow> (u32 \<times> mem) option" where
  "strncat m s1 s2 n = find_end m s1 \<bind> (\<lambda>e. Some (s1, strncat_loop (nat n) m e s2))"

partial_function (option) strchr_loop :: "mem \<Rightarrow> u32 \<Rightarrow> u8 \<Rightarrow> u32 option" where
  "strchr_loop m s c =
     (if m s \<noteq> 0 then if m s = c then Some s else strchr_loop m (s + 1) c
      else Some (if c = m s then s else 0))"

declare strchr_loop.simps [code]

definition strchr :: "mem \<Rightarrow> u32 \<Rightarrow> int \<Rightarrow> u32 option" where
  "strchr m s c = strchr_loop m s (word_of_int c)"

partial_function (option) strrchr_loop :: "mem \<Rightarrow> u32 \<Rightarrow> u8 \<Rightarrow> u32 \<Rightarrow> u32 option" where
  "strrchr_loop m s c r =
     (if m s \<noteq> 0 then strrchr_loop m (s + 1) c (if m s = c then s else r)
      else Some (if c = m s then s else r))"

declare strrchr_loop.simps [code]

definition strrchr :: "mem \<Rightarrow> u32 \<Rightarrow> int \<Rightarrow> u32 option" where
  "strrchr m s c = strrchr_loop m s (word_of_int c) 0"

partial_function (option) match_loop :: "mem \<Rightarrow> u32 \<Rightarrow> u32 \<Rightarrow> u32 option" where
  "match_loop m cq cr =
     (if m cq \<noteq> 0 \<and> m cr \<noteq> 0 \<and> m cq = m cr then match_loop m (cq + 1) (cr + 1) else Some cr)"

declare match_loop.simps [code]

partial_function (option) strstr :: "mem \<Rightarrow> u32 \<Rightarrow> u32 \<Rightarrow> u32 option" where
  "strstr m cs ct =
     (if m cs = 0 then Some 0
      else if m cs = m ct then
        match_loop m cs ct \<bind> (\<lambda>cr. if m cr = 0 then Some cs else strstr m (cs + 1) ct)
      else strstr m (cs + 1) ct)"

declare strstr.simps [code]

section \<open>Blocks of memory\<close>

primrec memcpy_loop :: "nat \<Rightarrow> mem \<Rightarrow> u32 \<Rightarrow> u32 \<Rightarrow> mem" where
  "memcpy_loop 0 m dst src = m"
| "memcpy_loop (Suc k) m dst src = memcpy_loop k (m(dst := m src)) (dst + 1) (src + 1)"

definition memcpy :: "mem \<Rightarrow> u32 \<Rightarrow> u32 \<Rightarrow> int \<Rightarrow> u32 \<times> mem" where
  "memcpy m s ct n = (s, memcpy_loop (nat n) m s ct)"

definition memset :: "mem \<Rightarrow> u32 \<Rightarrow> int \<Rightarrow> int \<Rightarrow> u32 \<times> mem" where
  "memset m s c n = (s, fill (nat n) (word_of_int c) m s)"

primrec memcmp_loop :: "nat \<Rightarrow> mem \<Rightarrow> u32 \<Rightarrow> u32 \<Rightarrow> int" where
  "memcmp_loop 0 m c1 c2 = 0"
| "memcmp_loop (Suc k) m c1 c2 =
     (if m c1 \<noteq> m c2 then uint (m c1) - uint (m c2) else memcmp_loop k m (c1 + 1) (c2 + 1))"

definition memcmp :: "mem \<Rightarrow> u32 \<Rightarrow> u32 \<Rightarrow> int \<Rightarrow> int" where
  "memcmp m s1 s2 n = memcmp_loop (nat n) m s1 s2"

definition bzero :: "mem \<Rightarrow> u32 \<Rightarrow> int \<Rightarrow> mem" where
  "bzero m p len = (if len \<le> 0 then m else fill (nat len) 0 m p)"

section \<open>Numbers\<close>

definition abs_c :: "int \<Rightarrow> int" where "abs_c arg = (if arg < 0 then - arg else arg)"
definition labs :: "int \<Rightarrow> int" where "labs arg = (if arg < 0 then - arg else arg)"

text \<open>Blanks, then at most one sign; \<open>f\<close> counts minus signs.\<close>

partial_function (option) atoi_skip :: "mem \<Rightarrow> u32 \<Rightarrow> int \<Rightarrow> (u32 \<times> int) option" where
  "atoi_skip m p f =
     (if m p = 32 \<or> m p = 9 then atoi_skip m (p + 1) f
      else if m p = 45 then Some (p + 1, f + 1)
      else if m p = 43 then Some (p + 1, f)
      else Some (p, f))"

declare atoi_skip.simps [code]

definition is_digit :: "u8 \<Rightarrow> bool" where "is_digit c \<longleftrightarrow> 48 \<le> sint c \<and> sint c \<le> 57"

partial_function (option) atoi_digits :: "mem \<Rightarrow> u32 \<Rightarrow> int \<Rightarrow> int option" where
  "atoi_digits m p n =
     (if is_digit (m p) then atoi_digits m (p + 1) (n * 10 + sint (m p) - 48) else Some n)"

declare atoi_digits.simps [code]

definition atoi :: "mem \<Rightarrow> u32 \<Rightarrow> int option" where
  "atoi m p = atoi_skip m p 0 \<bind> (\<lambda>pf. atoi_digits m (fst pf) 0 \<bind> (\<lambda>n. Some (if snd pf \<noteq> 0 then - n else n)))"

definition atol :: "mem \<Rightarrow> u32 \<Rightarrow> int option" where
  "atol m p = atoi_skip m p 0 \<bind> (\<lambda>pf. atoi_digits m (fst pf) 0 \<bind> (\<lambda>n. Some (if snd pf \<noteq> 0 then - n else n)))"

definition rand_r :: "u32 \<Rightarrow> int \<times> u32" where
  "rand_r seed = (let s = 16807 * seed mod 2147483647 in (sint s, s))"

definition rand :: "u32 \<Rightarrow> int \<times> u32" where "rand rand_seed = rand_r rand_seed"
definition srand :: "u32 \<Rightarrow> u32 \<Rightarrow> u32" where "srand seed rand_seed = seed"


section \<open>Ranges of memory\<close>

text \<open>\<open>inside p n a\<close>: \<open>a\<close> is one of the \<open>n\<close> bytes from \<open>p\<close>, around the end of memory if need be.\<close>

definition inside :: "u32 \<Rightarrow> nat \<Rightarrow> u32 \<Rightarrow> bool" where "inside p n a \<longleftrightarrow> unat (a - p) < n"

definition apart :: "u32 \<Rightarrow> u32 \<Rightarrow> nat \<Rightarrow> bool" where
  "apart p q n \<longleftrightarrow> (\<forall>a. inside p n a \<longrightarrow> \<not> inside q n a)"

lemma inside_0 [simp]: "\<not> inside p 0 a" by (simp add: inside_def)

lemma inside_Suc: "inside p (Suc n) a \<longleftrightarrow> a = p \<or> inside (p + 1) n a"
proof (cases "a = p")
  case False
  then have z: "a - p \<noteq> 0" by simp
  have "unat (a - (p + 1)) = unat (a - p - 1)" by (simp add: algebra_simps)
  also have "\<dots> = unat (a - p) - 1" using z by (rule unat_minus_one)
  finally have e: "unat (a - (p + 1)) = unat (a - p) - 1" .
  have "0 < unat (a - p)" using z unat_gt_0 by blast
  then have "unat (a - p) < Suc n \<longleftrightarrow> unat (a - p) - 1 < n" by linarith
  then show ?thesis using False e by (simp add: inside_def)
qed (simp add: inside_def)

lemma inside_move: "inside q n (a - p + q) \<longleftrightarrow> inside p n a" by (simp add: inside_def)

lemma apart_Suc: "apart p q (Suc n) \<Longrightarrow> apart (p + 1) (q + 1) n"
  by (auto simp: apart_def inside_Suc)

lemma fill_eq: "fill n c m p = (\<lambda>a. if inside p n a then c else m a)"
  by (induction n arbitrary: m p) (auto simp: inside_Suc fun_eq_iff)

lemma memcpy_loop_eq:
  "apart dst src n \<Longrightarrow> memcpy_loop n m dst src = (\<lambda>a. if inside dst n a then m (a - dst + src) else m a)"
proof (induction n arbitrary: m dst src)
  case (Suc n)
  have "a - dst + src \<noteq> dst" if "inside dst (Suc n) a" for a
  proof
    assume e: "a - dst + src = dst"
    have "inside src (Suc n) (a - dst + src)" using that by (simp only: inside_move)
    moreover have "inside dst (Suc n) dst" by (simp add: inside_Suc)
    ultimately show False using Suc.prems unfolding e apart_def by blast
  qed
  then have ne: "inside dst (Suc n) a \<Longrightarrow> a - dst + src \<noteq> dst" for a by blast
  have sh: "a - (dst + 1) + (src + 1) = a - dst + src" for a by (simp add: algebra_simps)
  have "memcpy_loop n (m(dst := m src)) (dst + 1) (src + 1) a = (if inside dst (Suc n) a then m (a - dst + src) else m a)" for a
    unfolding Suc.IH [OF apart_Suc [OF Suc.prems]] sh using ne [of a] by (auto simp: inside_Suc [of dst])
  then show ?case by (simp add: fun_eq_iff)
qed simp

lemma str_at_cong: "(\<And>a. inside p (Suc (length xs)) a \<Longrightarrow> m' a = m a) \<Longrightarrow> str_at m' p xs = str_at m p xs"
proof (induction xs arbitrary: p)
  case (Cons x xs)
  have "m' p = m p" using Cons.prems [of p] by (simp add: inside_Suc)
  moreover have "str_at m' (p + 1) xs = str_at m (p + 1) xs"
    by (rule Cons.IH) (use Cons.prems in \<open>simp add: inside_Suc [of p]\<close>)
  ultimately show ?case by simp
qed (simp add: inside_Suc)

lemma str_at_move:
  "str_at m q xs \<Longrightarrow> (\<And>a. inside p (Suc (length xs)) a \<Longrightarrow> m' a = m (a - p + q)) \<Longrightarrow> str_at m' p xs"
proof (induction xs arbitrary: p q)
  case (Cons x xs)
  have "m' p = m q" using Cons.prems(2) [of p] by (simp add: inside_Suc)
  moreover have "str_at m' (p + 1) xs"
  proof (rule Cons.IH)
    show "str_at m (q + 1) xs" using Cons.prems(1) by simp
    fix a assume "inside (p + 1) (Suc (length xs)) a"
    then have "m' a = m (a - p + q)" using Cons.prems(2) [of a] by (simp add: inside_Suc [of p])
    then show "m' a = m (a - (p + 1) + (q + 1))" by (simp add: algebra_simps)
  qed
  ultimately show ?case using Cons.prems(1) by simp
next
  case Nil
  then show ?case using Nil(2) [of p] by (simp add: inside_Suc)
qed

section \<open>Lengths\<close>

lemma strlen_loop_str: "str_at m p xs \<Longrightarrow> strlen_loop m p n = Some (n + int (length xs))"
  by (induction xs arbitrary: p n) (subst strlen_loop.simps, simp)+

lemma strlen_loop_only: "strlen_loop m p n = Some k \<Longrightarrow> \<exists>xs. str_at m p xs \<and> k = n + int (length xs)"
proof (erule strlen_loop.raw_induct [rotated])
  fix loop and m :: mem and p n k
  assume IH: "\<And>m p n k. loop m p n = Some k \<Longrightarrow> \<exists>xs. str_at m p xs \<and> k = n + int (length xs)"
    and e: "(if m p \<noteq> 0 then loop m (p + 1) (n + 1) else Some n) = Some k"
  show "\<exists>xs. str_at m p xs \<and> k = n + int (length xs)"
  proof (cases "m p = 0")
    case True
    then show ?thesis using e by (intro exI [of _ "[]"]) simp
  next
    case False
    then obtain xs where "str_at m (p + 1) xs" "k = n + 1 + int (length xs)" using IH [of m "p + 1" "n + 1" k] e by auto
    then show ?thesis using False by (intro exI [of _ "m p # xs"]) simp
  qed
qed

lemma str_at_zero: "str_at m p xs \<Longrightarrow> m (p + of_nat (length xs)) = 0"
proof (induction xs arbitrary: p)
  case (Cons x xs)
  then have "m (p + 1 + of_nat (length xs)) = 0" by simp
  then show ?case by (simp add: add.assoc)
qed simp

lemma str_at_first:
  "(\<And>i. i < n \<Longrightarrow> m (p + of_nat i) \<noteq> 0) \<Longrightarrow> m (p + of_nat n) = 0 \<Longrightarrow> str_at m p (bytes_at m p n)"
proof (induction n arbitrary: p)
  case (Suc n)
  have "str_at m (p + 1) (bytes_at m (p + 1) n)"
  proof (rule Suc.IH)
    show "m (p + 1 + of_nat n) = 0" using Suc.prems(2) by (simp add: algebra_simps)
    fix i assume "i < n"
    then show "m (p + 1 + of_nat i) \<noteq> 0" using Suc.prems(1) [of "Suc i"] by (simp add: algebra_simps)
  qed
  then show ?case using Suc.prems(1) [of 0] by simp
qed simp

lemma str_at_exists: assumes "m a = 0" shows "\<exists>xs. str_at m p xs"
proof -
  have z: "m (p + of_nat (unat (a - p))) = 0" using assms by simp
  define n where "n = (LEAST i. m (p + of_nat i) = 0)"
  have "m (p + of_nat n) = 0" unfolding n_def by (rule LeastI [of _ "unat (a - p)"]) (rule z)
  moreover have "m (p + of_nat i) \<noteq> 0" if "i < n" for i
    using not_less_Least [of i "\<lambda>i. m (p + of_nat i) = 0"] that unfolding n_def by blast
  ultimately show ?thesis using str_at_first by blast
qed

text \<open>\<open>strlen\<close> returns exactly the number of characters before the first zero byte; it
  fails to return only when no byte of the memory is zero.\<close>

theorem strlen_correct:
  "(strlen m p = Some k \<longleftrightarrow> (\<exists>xs. str_at m p xs \<and> k = int (length xs))) \<and> (strlen m p = None \<longleftrightarrow> (\<forall>a. m a \<noteq> 0))"
proof -
  have only: "strlen m p = Some k \<Longrightarrow> \<exists>xs. str_at m p xs \<and> k = int (length xs)" for k
    unfolding strlen_def by (drule strlen_loop_only) simp
  have str: "str_at m p xs \<Longrightarrow> strlen m p = Some (int (length xs))" for xs
    by (simp add: strlen_def strlen_loop_str)
  have "strlen m p \<noteq> None" if "m a = 0" for a
    using str_at_exists [of m a p] that str by (metis option.distinct(1))
  moreover have "\<exists>a. m a = 0" if "strlen m p \<noteq> None"
    using that only str_at_zero by (metis option.exhaust)
  ultimately show ?thesis using only str by blast
qed

section \<open>Copies\<close>

lemma strcpy_loop_memcpy:
  "str_at m src xs \<Longrightarrow> apart dst src (Suc (length xs)) \<Longrightarrow>
    strcpy_loop m dst src = Some (memcpy_loop (Suc (length xs)) m dst src)"
proof (induction xs arbitrary: m dst src)
  case Nil
  then show ?case by (subst strcpy_loop.simps) simp
next
  case (Cons x xs)
  have "\<not> inside src (Suc (Suc (length xs))) dst" using Cons.prems(2) by (auto simp: apart_def inside_Suc)
  then have "str_at (m(dst := m src)) (src + 1) xs = str_at m (src + 1) xs"
    by (intro str_at_cong) (auto simp: inside_Suc [of src])
  then have "strcpy_loop (m(dst := m src)) (dst + 1) (src + 1)
      = Some (memcpy_loop (Suc (length xs)) (m(dst := m src)) (dst + 1) (src + 1))"
    using Cons.prems by (intro Cons.IH) (simp_all add: apart_Suc del: fun_upd_apply)
  then show ?case using Cons.prems(1) by (subst strcpy_loop.simps) simp
qed

text \<open>\<open>strcpy\<close> of a string whose target does not overlap it returns 0, leaves the same string at
  the target and changes no other byte.\<close>

theorem strcpy_copies:
  assumes "str_at m src xs" "apart tar src (Suc (length xs))"
  shows "returns (strcpy m tar src) (\<lambda>(r, m'). r = 0 \<and> str_at m' tar xs \<and> str_at m' src xs
    \<and> (\<forall>a. \<not> inside tar (Suc (length xs)) a \<longrightarrow> m' a = m a))"
proof -
  let ?m = "memcpy_loop (Suc (length xs)) m tar src"
  have e: "?m = (\<lambda>a. if inside tar (Suc (length xs)) a then m (a - tar + src) else m a)"
    by (rule memcpy_loop_eq [OF assms(2)])
  have "str_at ?m tar xs" unfolding e by (rule str_at_move [OF assms(1)]) simp
  moreover have "str_at ?m src xs = str_at m src xs"
    unfolding e by (rule str_at_cong) (use assms(2) in \<open>auto simp: apart_def\<close>)
  moreover have "\<not> inside tar (Suc (length xs)) a \<longrightarrow> ?m a = m a" for a unfolding e by simp
  ultimately show ?thesis using assms(1) strcpy_loop_memcpy [OF assms] by (simp add: strcpy_def)
qed

definition hello :: mem where "hello = (\<lambda>_. 0)(10 := 104, 11 := 105)"

lemma hello_at: "str_at hello 10 [104, 105]" by (simp add: hello_def)

theorem strcpy_copies_witness:
  "returns (strcpy hello 20 10) (\<lambda>(r, m'). r = 0 \<and> str_at m' 20 [104, 105] \<and> str_at m' 10 [104, 105] \<and> m' 23 = 0)"
proof -
  have "apart 20 10 (Suc (length [104 :: u8, 105]))" "\<not> inside 20 (Suc (length [104 :: u8, 105])) (23 :: u32)"
    by (simp_all add: apart_def inside_Suc)
  moreover have "hello 23 = 0" by (simp add: hello_def)
  ultimately show ?thesis using strcpy_copies [OF hello_at, of 20] by (auto elim!: returns_mono)
qed

section \<open>Comparisons\<close>

lemma sint_char_eq [simp]: "sint (x :: u8) = sint y \<longleftrightarrow> x = y"
  by (metis signed_word_eqI)

lemma sint_char_zero [simp]: "sint (x :: u8) = 0 \<longleftrightarrow> x = 0" "0 = sint (x :: u8) \<longleftrightarrow> x = 0"
  using sint_char_eq [of x 0] by auto

text \<open>\<open>strcmp\<close> of two strings returns 0 exactly when they are equal, and otherwise -1 or 1 by the
  order of the first characters that differ, characters being signed and the end a zero.\<close>

theorem strcmp_correct:
  assumes "str_at m p xs" "str_at m q ys"
  shows "strcmp m p q = Some (if xs = ys then 0
    else if ord_class.lexordp (map sint (xs @ [0])) (map sint (ys @ [0])) then - 1 else 1)"
  using assms
proof (induction xs arbitrary: p q ys)
  case Nil
  then show ?case by (cases ys) (subst strcmp.simps, auto)+
next
  case (Cons x xs)
  show ?case
  proof (cases ys)
    case Nil
    then show ?thesis using Cons.prems by (subst strcmp.simps) simp
  next
    case (Cons y zs)
    then have s: "str_at m (p + 1) xs" "str_at m (q + 1) zs" using Cons.prems by simp_all
    show ?thesis using Cons.prems Cons.IH [OF s] Cons by (subst strcmp.simps) (auto simp: sint_word_ariths)
  qed
qed

theorem strcmp_correct_witness: "strcmp hello 10 11 = Some (- 1)"
  using strcmp_correct [OF hello_at, of 11 "[105]"] by (simp add: hello_def)

lemma memcmp_loop_bytes:
  "(memcmp_loop n m p q = 0 \<longleftrightarrow> bytes_at m p n = bytes_at m q n)
    \<and> (memcmp_loop n m p q < 0 \<longleftrightarrow> ord_class.lexordp (map uint (bytes_at m p n)) (map uint (bytes_at m q n)))"
proof (induction n arbitrary: p q)
  case (Suc n)
  have "uint (m p) = uint (m q) \<longleftrightarrow> m p = m q" by (metis unsigned_word_eqI)
  then show ?case using Suc.IH [of "p + 1" "q + 1"] by auto
qed simp

text \<open>\<open>memcmp\<close> returns 0 exactly when the two blocks hold the same bytes, and a negative value
  exactly when the first comes earlier in the lexicographic order of unsigned bytes.\<close>

theorem memcmp_correct:
  "(memcmp m p q n = 0 \<longleftrightarrow> bytes_at m p (nat n) = bytes_at m q (nat n))
    \<and> (memcmp m p q n < 0 \<longleftrightarrow> ord_class.lexordp (map uint (bytes_at m p (nat n))) (map uint (bytes_at m q (nat n))))"
  unfolding memcmp_def by (rule memcmp_loop_bytes)

section \<open>Searching\<close>

lemma match_loop_str:
  "str_at m p xs \<Longrightarrow> str_at m q ys \<Longrightarrow>
    \<exists>r. match_loop m p q = Some r \<and> (m r = 0 \<longleftrightarrow> prefix ys xs)"
proof (induction xs arbitrary: p q ys)
  case Nil
  then show ?case by (cases ys) (subst match_loop.simps, auto)+
next
  case (Cons x xs)
  show ?case
  proof (cases ys)
    case Nil
    then show ?thesis using Cons.prems by (subst match_loop.simps) simp
  next
    case (Cons y zs)
    then have "str_at m (p + 1) xs" "str_at m (q + 1) zs" using Cons.prems by simp_all
    then show ?thesis using Cons.prems Cons.IH Cons by (subst match_loop.simps) auto
  qed
qed

primrec first_match :: "u8 list \<Rightarrow> u8 list \<Rightarrow> nat option" where
  "first_match ys [] = None"
| "first_match ys (x # xs) = (if prefix ys (x # xs) then Some 0 else map_option Suc (first_match ys xs))"

lemma strstr_first_match:
  "str_at m p xs \<Longrightarrow> str_at m q ys \<Longrightarrow>
    strstr m p q = Some (if ys = [] then 0 else case first_match ys xs of None \<Rightarrow> 0 | Some i \<Rightarrow> p + of_nat i)"
proof (induction xs arbitrary: p)
  case Nil
  then show ?case by (subst strstr.simps) simp
next
  case (Cons x xs)
  have s: "str_at m (p + 1) xs" "m p = x" "x \<noteq> 0" using Cons.prems by auto
  obtain r where r: "match_loop m p q = Some r" "m r = 0 \<longleftrightarrow> prefix ys (x # xs)"
    using match_loop_str [OF Cons.prems] by blast
  have "strstr m p q = (if x = m q \<and> prefix ys (x # xs) then Some p else strstr m (p + 1) q)"
    using s r by (subst strstr.simps) simp
  moreover have "prefix ys (x # xs) \<and> x \<noteq> m q \<Longrightarrow> ys = []" using Cons.prems(2) by (cases ys) auto
  moreover have "ys = [] \<Longrightarrow> x \<noteq> m q" using Cons.prems(2) s(3) by auto
  ultimately show ?case using Cons.IH [OF s(1) Cons.prems(2)] by (auto split: option.splits simp: add.assoc)
qed

lemma first_match_None: "first_match ys xs = None \<longleftrightarrow> (\<forall>i < length xs. \<not> prefix ys (drop i xs))"
proof (induction xs)
  case (Cons x xs)
  show ?case by (auto simp: Cons.IH less_Suc_eq_0_disj)
qed simp

lemma first_match_Some:
  "first_match ys xs = Some i \<longleftrightarrow> i < length xs \<and> prefix ys (drop i xs) \<and> (\<forall>j < i. \<not> prefix ys (drop j xs))"
proof (induction xs arbitrary: i)
  case (Cons x xs)
  show ?case by (cases i) (auto simp: Cons.IH less_Suc_eq_0_disj)
qed simp

text \<open>C30. \<open>strstr\<close> returns the address of the first occurrence of a non-empty substring and NULL
  when there is none.\<close>

theorem strstr_finds:
  assumes "str_at m cs xs" "str_at m ct ys" "ys \<noteq> []"
  shows "(\<exists>i < length xs. prefix ys (drop i xs) \<and> (\<forall>j < i. \<not> prefix ys (drop j xs)) \<and> strstr m cs ct = Some (cs + of_nat i))
    \<or> (\<forall>i < length xs. \<not> prefix ys (drop i xs)) \<and> strstr m cs ct = Some 0"
  using strstr_first_match [OF assms(1,2)] assms(3)
  by (cases "first_match ys xs") (auto simp: first_match_None first_match_Some)

theorem strstr_finds_witness: "strstr hello 10 11 = Some 11"
proof -
  have "str_at hello 11 [105]" by (simp add: hello_def)
  from strstr_finds [OF hello_at this] show ?thesis by (auto simp: less_Suc_eq numeral_2_eq_2)
qed

text \<open>The standard makes every string begin with the empty one; \<open>strstr\<close> never finds it.\<close>

theorem strstr_empty:
  assumes "str_at m cs xs" "m ct = 0"
  shows "strstr m cs ct = Some 0"
  using strstr_first_match [OF assms(1), of ct "[]"] assms(2) by simp

theorem strstr_empty_witness: "strstr hello 10 12 = Some 0"
  by (rule strstr_empty [OF hello_at]) (simp add: hello_def)

section \<open>Numbers\<close>

definition decimal :: "u8 list \<Rightarrow> int" where "decimal ds = foldl (\<lambda>n d. n * 10 + (sint d - 48)) 0 ds"

lemma atoi_digits_str:
  "str_at m p (ds @ rest) \<Longrightarrow> \<forall>d\<in>set ds. is_digit d \<Longrightarrow> rest = [] \<or> \<not> is_digit (hd rest) \<Longrightarrow>
    atoi_digits m p n = Some (foldl (\<lambda>n d. n * 10 + (sint d - 48)) n ds)"
proof (induction ds arbitrary: p n)
  case Nil
  then have "\<not> is_digit (m p)" by (cases rest) (auto simp: is_digit_def)
  then show ?case by (subst atoi_digits.simps) simp
next
  case (Cons d ds)
  then show ?case by (subst atoi_digits.simps) (simp add: algebra_simps)
qed

lemma atoi_skip_blanks:
  "str_at m p (bs @ xs) \<Longrightarrow> \<forall>b\<in>set bs. b = 32 \<or> b = 9 \<Longrightarrow> atoi_skip m p f = atoi_skip m (p + of_nat (length bs)) f"
  by (induction bs arbitrary: p) (simp, subst atoi_skip.simps, auto simp: add.assoc)

lemma str_at_append: "str_at m p (xs @ ys) \<Longrightarrow> str_at m (p + of_nat (length xs)) ys"
proof (induction xs arbitrary: p)
  case (Cons x xs)
  have "str_at m (p + 1 + of_nat (length xs)) ys" by (rule Cons.IH) (use Cons.prems in simp)
  then show ?case by (simp add: add.assoc)
qed simp

lemma digit_not_blank: "is_digit c \<Longrightarrow> c \<noteq> 32 \<and> c \<noteq> 9 \<and> c \<noteq> 45 \<and> c \<noteq> 43"
  by (auto simp: is_digit_def)

text \<open>\<open>atoi\<close> of blanks, an optional sign, digits and anything else gives the decimal value of the
  digits with that sign.\<close>

theorem atoi_decimal:
  assumes "str_at m p (bs @ sign @ ds @ rest)" "\<forall>b\<in>set bs. b = 32 \<or> b = 9"
    "sign = [] \<or> sign = [43] \<or> sign = [45]" "ds \<noteq> []" "\<forall>d\<in>set ds. is_digit d" "rest = [] \<or> \<not> is_digit (hd rest)"
  shows "atoi m p = Some (if sign = [45] then - decimal ds else decimal ds)"
proof -
  define p1 where "p1 = p + of_nat (length bs)"
  have s1: "str_at m p1 (sign @ ds @ rest)" unfolding p1_def by (rule str_at_append) (use assms(1) in simp)
  obtain d ds' where d: "ds = d # ds'" using assms(4) by (cases ds) auto
  have dd: "d \<noteq> 32 \<and> d \<noteq> 9 \<and> d \<noteq> 45 \<and> d \<noteq> 43" using digit_not_blank assms(5) d by simp
  have sk: "atoi_skip m p 0 = Some (p1 + of_nat (length sign), if sign = [45] then 1 else 0)"
    unfolding atoi_skip_blanks [OF assms(1,2)] p1_def [symmetric] using assms(3) s1 dd d
    by (subst atoi_skip.simps) auto
  have "str_at m (p1 + of_nat (length sign)) (ds @ rest)" by (rule str_at_append) (use s1 in simp)
  then have "atoi_digits m (p1 + of_nat (length sign)) 0 = Some (decimal ds)"
    unfolding decimal_def by (rule atoi_digits_str [OF _ assms(5,6)])
  then show ?thesis by (simp add: atoi_def sk)
qed

definition minus42 :: mem where "minus42 = (\<lambda>_. 0)(10 := 32, 11 := 45, 12 := 52, 13 := 50, 14 := 120)"

theorem atoi_decimal_witness: "atoi minus42 10 = Some (- 42)"
  using atoi_decimal [of minus42 10 "[32]" "[45]" "[52, 50]" "[120]"]
  by (simp add: minus42_def decimal_def is_digit_def)

end
