(* ===== verification/Format.thy ===== *)
theory Format
  imports Strings "HOL-Library.Signed_Division"
begin

text \<open>
  Formatted output: \<^verbatim>\<open>lib/doprnt.c\<close> (used by \<open>kprintf\<close>), \<^verbatim>\<open>lib/fdoprnt.c\<close>
  (used by \<open>printf\<close>, \<open>fprintf\<close> and \<open>sprintf\<close>) and \<^verbatim>\<open>lib/sprintf.c\<close>. The characters
  handed to the output function are the result, in order. A format is the list of its characters
  without the terminating zero. The result is \<open>None\<close> where C leaves the behaviour undefined: a
  missing argument, a write behind the 20 bytes of the local array \<open>string\<close>, a scan that leaves it.
  What the model does not have are doubles: \<open>dl d k\<close> is the argument with bits \<open>d\<close>, without its
  sign, multiplied by \<open>k\<close> and truncated, \<open>dneg d\<close> whether it is below zero.
\<close>

section \<open>Digits\<close>

text \<open>The conversions fill \<open>temp\<close> with the digits, last one first, behind a zero, and copy it out
  backwards without leading zeros, at least one digit and the final zero.\<close>

definition copy_out :: "u8 list \<Rightarrow> u8 list" where
  "copy_out temp = (let r = dropWhile (\<lambda>c. c = 48) (rev temp) in if length r = 1 then [temp ! 1, temp ! 0] else r)"

primrec digits10 :: "nat \<Rightarrow> int \<Rightarrow> u8 list" where
  "digits10 0 num = []"
| "digits10 (Suc k) num = of_int (num smod 10 + 48) # digits10 k (num sdiv 10)"

definition prtl10 :: "int \<Rightarrow> u8 list" where
  "prtl10 num = copy_out (0 # of_int ((if num < 0 then - (num smod 10) else num smod 10) + 48)
      # digits10 9 (num sdiv (if num < 0 then - 10 else 10)))"

primrec digits8 :: "nat \<Rightarrow> u32 \<Rightarrow> u8 list" where
  "digits8 0 num = []"
| "digits8 (Suc k) num = (ucast (num AND 7) + 48) # digits8 k (signed_drop_bit 3 num)"

definition prtl8 :: "u32 \<Rightarrow> u8 list" where
  "prtl8 num = (let ds = digits8 11 num in copy_out (0 # ds[10 := ds ! 10 AND 51]))"

definition hex_lower :: "u8 list" where
  "hex_lower = [48, 49, 50, 51, 52, 53, 54, 55, 56, 57, 97, 98, 99, 100, 101, 102]"
definition hex_upper :: "u8 list" where
  "hex_upper = [48, 49, 50, 51, 52, 53, 54, 55, 56, 57, 65, 66, 67, 68, 69, 70]"

primrec digits16 :: "u8 list \<Rightarrow> nat \<Rightarrow> u32 \<Rightarrow> u8 list" where
  "digits16 tab 0 num = []"
| "digits16 tab (Suc k) num = tab ! unat (num AND 15) # digits16 tab k (signed_drop_bit 4 num)"

definition prtl16 :: "u32 \<Rightarrow> u8 list" where "prtl16 num = copy_out (0 # digits16 hex_lower 8 num)"
definition prtX16 :: "u32 \<Rightarrow> u8 list" where "prtX16 num = copy_out (0 # digits16 hex_upper 8 num)"

primrec digits2 :: "nat \<Rightarrow> u32 \<Rightarrow> u8 list" where
  "digits2 0 num = []"
| "digits2 (Suc k) num = (if sint num smod 2 = 0 then 48 else 49) # digits2 k (signed_drop_bit 1 num)"

definition prtl2 :: "u32 \<Rightarrow> u8 list" where "prtl2 num = copy_out (0 # digits2 32 num)"

text \<open>The integral part, a point, and the part behind it as an integer, its own zero kept.\<close>

type_synonym dbl = "u32 \<times> u32"

definition prtdbl :: "(dbl \<Rightarrow> int \<Rightarrow> int) \<Rightarrow> dbl \<Rightarrow> u8 list" where
  "prtdbl dl d = (let w = dl d 1; p = dl d 1000000 - w * 1000000 in butlast (prtl10 w) @ 46 # prtl10 p)"

section \<open>Reading the format\<close>

type_synonym args = "u32 list"

primrec va_arg :: "args \<Rightarrow> (u32 \<times> args) option" where
  "va_arg [] = None"
| "va_arg (a # as) = Some (a, as)"

definition look :: "u8 list \<Rightarrow> u8" where "look fmt = (case fmt of [] \<Rightarrow> 0 | c # _ \<Rightarrow> c)"

primrec scan_num :: "int \<Rightarrow> u8 list \<Rightarrow> int \<times> u8 list" where
  "scan_num n [] = (n, [])"
| "scan_num n (c # cs) = (if is_digit c then scan_num (n * 10 + sint c - 48) cs else (n, c # cs))"

definition field_num :: "u8 list \<Rightarrow> args \<Rightarrow> (int \<times> u8 list \<times> args) option" where
  "field_num fmt ap =
     (if look fmt = 42 then va_arg ap \<bind> (\<lambda>(v, ap1). Some (sint v, tl fmt, ap1))
      else let (n, fmt1) = scan_num 0 fmt in Some (n, fmt1, ap))"

record spec =
  leftjust :: bool
  fillc :: u8
  fmin :: int
  fmax :: int

definition parse_spec :: "u8 list \<Rightarrow> args \<Rightarrow> (spec \<times> u8 list \<times> args) option" where
  "parse_spec fmt ap =
     (let (left, f1) = if look fmt = 45 then (True, tl fmt) else (False, fmt);
          (fl, f2) = if look f1 = 48 then (48, tl f1) else (32, f1)
      in field_num f2 ap \<bind> (\<lambda>(mn, f3, ap1).
           (if look f3 = 46 then field_num (tl f3) ap1 else Some (0, f3, ap1)) \<bind> (\<lambda>(mx, f4, ap2).
             Some (\<lparr>leftjust = left, fillc = fl, fmin = mn, fmax = mx\<rparr>, f4, ap2))))"

section \<open>Conversions\<close>

text \<open>\<open>put off cs buf\<close>: the bytes \<open>cs\<close> stored in the array \<open>string\<close> from index \<open>off\<close>.\<close>

definition put :: "nat \<Rightarrow> u8 list \<Rightarrow> u8 list \<Rightarrow> u8 list option" where
  "put off cs buf =
     (if off + length cs \<le> length buf then Some (take off buf @ cs @ drop (off + length cs) buf) else None)"

definition text_of :: "u8 list \<Rightarrow> u8 list option" where
  "text_of buf = (if 0 \<in> set buf then Some (takeWhile (\<lambda>c. c \<noteq> 0) buf) else None)"

definition cstr :: "mem \<Rightarrow> u32 \<Rightarrow> u8 list option" where
  "cstr m p = strlen m p \<bind> (\<lambda>n. Some (bytes_at m p (nat n)))"

definition null_text :: "u8 list" where "null_text = [40, 110, 117, 108, 108, 41]"

function u_adjust :: "u32 \<Rightarrow> u8 \<Rightarrow> u32 \<times> u8" where
  "u_adjust larg dig = (if sint larg < 0 then u_adjust (larg - 1000000000) (dig + 1) else (larg, dig))"
  by pat_completeness auto
termination
proof (relation "measure (\<lambda>(l, d). unat l)", simp, simp)
  fix l :: u32
  assume "sint l < 0"
  then have "2147483648 \<le> uint l" by (simp only: sint_u32_neg)
  then have l: "1000000000 \<le> l" by (simp add: word_le_def)
  then have "1000000000 \<le> unat l" by (simp add: word_le_nat_alt)
  moreover have "unat (l - 1000000000) = unat l - 1000000000" using l by (simp add: unat_sub)
  ultimately show "unat (l - 1000000000) < unat l" by linarith
qed

declare u_adjust.simps [simp del]

record item =
  echo :: "u8 list"
  body :: "u8 list"
  negative :: bool
  ispec :: spec

definition item_of :: "spec \<Rightarrow> u8 list \<Rightarrow> item" where
  "item_of sp b = \<lparr>echo = [], body = b, negative = False, ispec = sp\<rparr>"

text \<open>A conversion into \<open>string\<close>: the result is what is found there afterwards.\<close>

definition into :: "spec \<Rightarrow> bool \<Rightarrow> u8 list \<Rightarrow> args \<Rightarrow> u8 list \<Rightarrow> (item \<times> args \<times> u8 list) option" where
  "into sp neg cs ap buf =
     put 0 cs buf \<bind> (\<lambda>buf1. text_of buf1 \<bind> (\<lambda>b. Some ((item_of sp b)\<lparr>negative := neg\<rparr>, ap, buf1)))"

definition into_two :: "spec \<Rightarrow> (u32 \<Rightarrow> u8 list) \<Rightarrow> args \<Rightarrow> u8 list \<Rightarrow> (item \<times> args \<times> u8 list) option" where
  "into_two sp prt ap buf =
     va_arg ap \<bind> (\<lambda>(x, ap1). put 0 (prt x) buf \<bind> (\<lambda>buf1.
       va_arg ap1 \<bind> (\<lambda>(y, ap2). put 8 (prt y) buf1 \<bind> (\<lambda>buf2.
         text_of buf2 \<bind> (\<lambda>b. Some (item_of sp b, ap2, buf2))))))"

definition conv_c :: "spec \<Rightarrow> args \<Rightarrow> u8 list \<Rightarrow> (item \<times> args \<times> u8 list) option" where
  "conv_c sp ap buf = va_arg ap \<bind> (\<lambda>(x, ap1). into (sp\<lparr>fmax := 0, fillc := 32\<rparr>) False [ucast x, 0] ap1 buf)"

definition conv_s :: "mem \<Rightarrow> spec \<Rightarrow> args \<Rightarrow> u8 list \<Rightarrow> (item \<times> args \<times> u8 list) option" where
  "conv_s m sp ap buf =
     va_arg ap \<bind> (\<lambda>(x, ap1). (if x = 0 then Some null_text else cstr m x) \<bind> (\<lambda>b.
       Some (item_of (sp\<lparr>fillc := 32\<rparr>) b, ap1, buf)))"

definition conv_u :: "(int \<Rightarrow> u8 list) \<Rightarrow> spec \<Rightarrow> args \<Rightarrow> u8 list \<Rightarrow> (item \<times> args \<times> u8 list) option" where
  "conv_u prt sp ap buf =
     va_arg ap \<bind> (\<lambda>(x, ap1). let (larg, dig) = u_adjust x 0; ds = prt (sint larg)
       in into (sp\<lparr>fmax := 0\<rparr>) False (ds[0 := ds ! 0 + dig]) ap1 buf)"

definition conv_word :: "(u32 \<Rightarrow> u8 list) \<Rightarrow> spec \<Rightarrow> args \<Rightarrow> u8 list \<Rightarrow> (item \<times> args \<times> u8 list) option" where
  "conv_word prt sp ap buf = va_arg ap \<bind> (\<lambda>(x, ap1). into (sp\<lparr>fmax := 0\<rparr>) False (prt x) ap1 buf)"

text \<open>An unknown conversion echoes its letter and then prints whatever \<open>string\<close> holds.\<close>

definition conv_other :: "u8 \<Rightarrow> spec \<Rightarrow> args \<Rightarrow> u8 list \<Rightarrow> (item \<times> args \<times> u8 list) option" where
  "conv_other f sp ap buf = text_of buf \<bind> (\<lambda>b. Some ((item_of sp b)\<lparr>echo := [f]\<rparr>, ap, buf))"

definition convert :: "(dbl \<Rightarrow> int \<Rightarrow> int) \<Rightarrow> (dbl \<Rightarrow> bool) \<Rightarrow> mem \<Rightarrow> u8 \<Rightarrow> spec \<Rightarrow> args \<Rightarrow> u8 list \<Rightarrow> (item \<times> args \<times> u8 list) option" where
  "convert dl dneg m f sp ap buf =
     (if f = 99 then conv_c sp ap buf
      else if f = 115 then conv_s m sp ap buf
      else if f = 100 then va_arg ap \<bind> (\<lambda>(x, ap1). into sp (sint x < 0) (prtl10 (sint x)) ap1 buf)
      else if f = 102 then
        va_arg ap \<bind> (\<lambda>(x, ap1). va_arg ap1 \<bind> (\<lambda>(y, ap2). into sp (dneg (x, y)) (prtdbl dl (x, y)) ap2 buf))
      else if f = 117 then conv_u prtl10 sp ap buf
      else if f = 111 then conv_word prtl8 sp ap buf
      else if f = 88 then conv_word prtX16 sp ap buf
      else if f = 120 then conv_word prtl16 sp ap buf
      else if f = 72 then into_two (sp\<lparr>fmax := 0\<rparr>) prtX16 ap buf
      else if f = 104 then into_two (sp\<lparr>fmax := 0\<rparr>) prtl16 ap buf
      else if f = 98 then conv_word prtl2 sp ap buf
      else conv_other f sp ap buf)"

section \<open>Output\<close>

definition limit :: "int \<Rightarrow> int" where "limit n = (if n > 80 \<or> n < 0 then 0 else n)"

definition field :: "item \<Rightarrow> u8 list" where
  "field it =
     (let sp = ispec it; mn = limit (fmin sp); mx = limit (fmax sp);
          len = if mx \<noteq> 0 \<and> mx < int (length (body it)) then mx else int (length (body it));
          leading = if mx \<noteq> 0 \<or> mn \<noteq> 0 then (if mn \<noteq> 0 then mn - len else 0) - (if negative it then 1 else 0) else 0;
          pad = replicate (nat leading) (fillc sp)
      in echo it
         @ (if negative it \<and> fillc sp = 48 then [45] else [])
         @ (if leftjust sp then [] else pad)
         @ (if negative it \<and> fillc sp = 32 then [45] else [])
         @ take (nat len) (body it)
         @ (if leftjust sp then pad else []))"

definition emit :: "u8 list \<Rightarrow> u8 list option \<Rightarrow> u8 list option" where "emit cs out = map_option ((@) cs) out"

lemma scan_num_length: "length (snd (scan_num n fmt)) \<le> length fmt"
  by (induction fmt arbitrary: n) (auto simp: le_SucI)

lemma field_num_length: "field_num fmt ap = Some (n, fmt1, ap1) \<Longrightarrow> length fmt1 \<le> length fmt"
  using scan_num_length [of 0 fmt]
  by (auto simp: field_num_def bind_eq_Some_conv split: if_splits prod.splits)

lemma parse_spec_length: "parse_spec fmt ap = Some (sp, fmt1, ap1) \<Longrightarrow> length fmt1 \<le> length fmt"
  unfolding parse_spec_def Let_def
  by (fastforce simp: bind_eq_Some_conv split: if_splits prod.splits dest!: field_num_length)

function print_loop :: "(u8 \<Rightarrow> spec \<Rightarrow> args \<Rightarrow> u8 list \<Rightarrow> (item \<times> args \<times> u8 list) option) \<Rightarrow>
    u8 list \<Rightarrow> args \<Rightarrow> u8 list \<Rightarrow> u8 list option" where
  "print_loop conv [] ap buf = Some []"
| "print_loop conv (c # fmt) ap buf =
     (if c \<noteq> 37 then emit [c] (print_loop conv fmt ap buf)
      else if look fmt = 37 then emit [37] (print_loop conv (tl fmt) ap buf)
      else case parse_spec fmt ap of
        None \<Rightarrow> None
      | Some (sp, [], ap1) \<Rightarrow> Some [37]
      | Some (sp, f # fmt1, ap1) \<Rightarrow>
          (case conv f sp ap1 buf of None \<Rightarrow> None | Some (it, ap2, buf1) \<Rightarrow> emit (field it) (print_loop conv fmt1 ap2 buf1)))"
  by pat_completeness auto
termination
  by (relation "measure (\<lambda>(conv, fmt, ap, buf). length fmt)") (auto dest!: parse_spec_length)

definition doprnt :: "(dbl \<Rightarrow> int \<Rightarrow> int) \<Rightarrow> (dbl \<Rightarrow> bool) \<Rightarrow> mem \<Rightarrow> u8 list \<Rightarrow> args \<Rightarrow> u8 list \<Rightarrow> u8 list option" where
  "doprnt dl dneg m fmt ap string = print_loop (convert dl dneg m) fmt ap string"

section \<open>The variant with an argument for the output function\<close>

definition prtl10_f :: "int \<Rightarrow> u8 list" where "prtl10_f num = copy_out (0 # digits10 10 num)"

definition fconvert :: "mem \<Rightarrow> u8 \<Rightarrow> spec \<Rightarrow> args \<Rightarrow> u8 list \<Rightarrow> (item \<times> args \<times> u8 list) option" where
  "fconvert m f sp ap buf =
     (if f = 99 then conv_c sp ap buf
      else if f = 115 then conv_s m sp ap buf
      else if f = 100 then
        va_arg ap \<bind> (\<lambda>(x, ap1). if sint x < 0 then into sp True (prtl10_f (sint (- x))) ap1 buf
                              else into sp False (prtl10_f (sint x)) ap1 buf)
      else if f = 117 then conv_u prtl10_f sp ap buf
      else if f = 111 then conv_word prtl8 sp ap buf
      else if f = 88 then conv_word prtX16 sp ap buf
      else if f = 120 then conv_word prtl16 sp ap buf
      else if f = 98 then conv_word prtl2 sp ap buf
      else conv_other f sp ap buf)"

definition fdoprnt :: "mem \<Rightarrow> u8 list \<Rightarrow> args \<Rightarrow> u8 list \<Rightarrow> u8 list option" where
  "fdoprnt m fmt ap string = print_loop (fconvert m) fmt ap string"

primrec store :: "u8 list \<Rightarrow> mem \<Rightarrow> u32 \<Rightarrow> mem" where
  "store [] m p = m"
| "store (c # cs) m p = store cs (m(p := c)) (p + 1)"

text \<open>\<open>sprintf\<close>: the output function stores at the moving pointer \<open>s\<close>, the zero goes behind the
  last character. The arguments are read before the first store only if the target does not
  overlap the strings printed.\<close>

definition sprintf :: "mem \<Rightarrow> u32 \<Rightarrow> u8 list \<Rightarrow> args \<Rightarrow> u8 list \<Rightarrow> (int \<times> mem) option" where
  "sprintf m str fmt ap string =
     fdoprnt m fmt ap string \<bind> (\<lambda>out. Some (sint str, store (out @ [0]) m str))"

section \<open>What the conversions print\<close>

abbreviation digits_only :: "u8 list \<Rightarrow> bool" where "digits_only ds \<equiv> \<forall>d\<in>set ds. is_digit d"

definition significant :: "u8 list \<Rightarrow> u8 list" where
  "significant ds = (let r = dropWhile (\<lambda>c. c = 48) ds in if r = [] then [48] else r)"

lemma copy_out_digits:
  assumes "digits_only ds" "ds \<noteq> []"
  shows "copy_out (0 # ds) = significant (rev ds) @ [0]"
proof -
  let ?z = "\<lambda>c :: u8. c = 48"
  have "dropWhile ?z (rev ds @ [0]) = dropWhile ?z (rev ds) @ [0]"
    by (cases "\<forall>d\<in>set (rev ds). d = 48") (auto simp: dropWhile_append)
  moreover have "ds ! 0 = 48" if "dropWhile ?z (rev ds) = []" using that assms(2) by auto
  ultimately show ?thesis by (simp add: copy_out_def significant_def Let_def)
qed

lemma decimal_append: "decimal (xs @ [d]) = decimal xs * 10 + (sint d - 48)" by (simp add: decimal_def)

lemma decimal_drop_zeros: "decimal (dropWhile (\<lambda>c. c = 48) ds) = decimal ds"
proof (induction ds)
  case (Cons d ds)
  have "decimal (48 # ds) = decimal ds" by (simp add: decimal_def)
  then show ?case using Cons.IH by simp
qed simp

lemma decimal_significant: "decimal (significant ds) = decimal ds"
proof (cases "dropWhile (\<lambda>c. c = 48) ds = []")
  case True
  have "decimal (dropWhile (\<lambda>c. c = 48) ds) = decimal ds" by (rule decimal_drop_zeros)
  then have "decimal ds = decimal []" unfolding True by (rule sym)
  then show ?thesis using True by (simp add: significant_def decimal_def)
next
  case False
  then have "significant ds = dropWhile (\<lambda>c. c = 48) ds" unfolding significant_def Let_def by (rule if_not_P)
  then show ?thesis by (simp only: decimal_drop_zeros)
qed

lemma significant_digits: "digits_only ds \<Longrightarrow> digits_only (significant ds) \<and> significant ds \<noteq> []"
  by (auto simp: significant_def Let_def is_digit_def dest: set_dropWhileD)

lemma length_significant: "ds \<noteq> [] \<Longrightarrow> length (significant ds) \<le> length ds"
  using length_dropWhile_le [of "\<lambda>c. c = 48" ds] by (cases ds) (auto simp: significant_def Let_def)

lemma char_digit: "0 \<le> x \<Longrightarrow> x < 10 \<Longrightarrow> sint (of_int x + 48 :: u8) = x + 48"
proof -
  assume "0 \<le> x" "x < 10"
  then have "sint (word_of_int (x + 48) :: u8) = x + 48"
    unfolding sint_sbintrunc' by (intro signed_take_bit_int_eq_self) simp_all
  then show ?thesis by simp
qed

lemma smod_nonneg: "0 \<le> n \<Longrightarrow> n smod 10 = n mod (10 :: int)" "0 \<le> n \<Longrightarrow> n sdiv 10 = n div (10 :: int)"
  by (simp_all add: signed_modulo_int_def signed_divide_int_def abs_if sgn_if)

lemma digits10_only: "0 \<le> n \<Longrightarrow> digits_only (digits10 k n) \<and> length (digits10 k n) = k"
proof (induction k arbitrary: n)
  case (Suc k)
  then show ?case using Suc.IH [of "n div 10"] by (simp add: smod_nonneg is_digit_def char_digit pos_imp_zdiv_nonneg_iff)
qed simp

lemma digits10_value: "0 \<le> n \<Longrightarrow> decimal (rev (digits10 k n)) = n mod 10 ^ k"
proof (induction k arbitrary: n)
  case 0
  then show ?case by (simp add: decimal_def)
next
  case (Suc k)
  have "decimal (rev (digits10 (Suc k) n)) = (n div 10 mod 10 ^ k) * 10 + n mod 10"
    using Suc by (simp add: smod_nonneg decimal_append char_digit pos_imp_zdiv_nonneg_iff)
  also have "\<dots> = n mod (10 * 10 ^ k)" by (simp add: zmod_zmult2_eq)
  finally show ?case by simp
qed

definition printed :: "int \<Rightarrow> u8 list" where "printed n = significant (rev (digits10 10 n))"

lemma printed_facts:
  assumes "0 \<le> n" "n < 10 ^ 10"
  shows "decimal (printed n) = n" "digits_only (printed n)" "printed n \<noteq> []" "length (printed n) \<le> 10"
proof -
  have d: "digits_only (digits10 10 n)" "length (digits10 10 n) = 10" using digits10_only [OF assms(1), of 10] by auto
  show "decimal (printed n) = n"
    using digits10_value [OF assms(1), of 10] assms by (simp add: printed_def decimal_significant)
  show "digits_only (printed n)" "printed n \<noteq> []" using significant_digits [of "rev (digits10 10 n)"] d by (auto simp: printed_def)
  have "digits10 10 n \<noteq> []" using d(2) by force
  then show "length (printed n) \<le> 10" using length_significant [of "rev (digits10 10 n)"] d(2) by (simp add: printed_def)
qed

lemma prtl10_f_printed: "0 \<le> n \<Longrightarrow> prtl10_f n = printed n @ [0]"
proof -
  assume "0 \<le> n"
  then have d: "digits_only (digits10 10 n)" "length (digits10 10 n) = 10" using digits10_only [of n 10] by auto
  have "digits10 10 n \<noteq> []" using d(2) by force
  then show ?thesis using copy_out_digits [OF d(1)] by (simp add: prtl10_f_def printed_def)
qed

lemma digits10_10: "digits10 10 n = of_int (n smod 10 + 48) # digits10 9 (n sdiv 10)"
  using digits10.simps(2) [of 9 n] by (simp only: eval_nat_numeral BitM.simps pred_numeral_simps)

lemma prtl10_printed: "prtl10 n = printed \<bar>n\<bar> @ [0]"
proof -
  have "prtl10 n = copy_out (0 # digits10 10 \<bar>n\<bar>)"
    unfolding prtl10_def digits10_10
    by (cases "n < 0") (simp_all add: signed_modulo_int_def signed_divide_int_def abs_if sgn_if)
  then show ?thesis using prtl10_f_printed [of "\<bar>n\<bar>"] by (simp add: prtl10_f_def)
qed

lemma into_text:
  assumes "length ds < length buf" "0 \<notin> set ds"
  shows "into sp neg (ds @ [0]) ap buf
    = Some ((item_of sp ds)\<lparr>negative := neg\<rparr>, ap, ds @ 0 # drop (Suc (length ds)) buf)"
proof -
  have "takeWhile (\<lambda>c. c \<noteq> 0) (ds @ 0 # zs) = ds" for zs
    using assms(2) by (subst takeWhile_append2) auto
  then show ?thesis using assms by (simp add: into_def put_def text_of_def)
qed

lemma into_overflow: "length buf < length cs \<Longrightarrow> into sp neg cs ap buf = None"
  by (simp add: into_def put_def)

definition plain :: spec where "plain = \<lparr>leftjust = False, fillc = 32, fmin = 0, fmax = 0\<rparr>"

lemma parse_plain:
  "\<not> is_digit f \<Longrightarrow> f \<notin> {42, 45, 46} \<Longrightarrow> parse_spec (f # fmt) ap = Some (plain, f # fmt, ap)"
  by (auto simp: parse_spec_def look_def field_num_def plain_def is_digit_def)

lemma field_plain: "field ((item_of plain b)\<lparr>negative := neg\<rparr>) = (if neg then 45 # b else b)"
  by (simp add: field_def item_of_def plain_def limit_def Let_def)

text \<open>One conversion, no field width: what \<open>print_loop\<close> makes of \<open>%f\<close>.\<close>

lemma print_single:
  assumes "\<not> is_digit f" "f \<notin> {37, 42, 45, 46}"
  shows "print_loop conv [37, f] ap buf = (case conv f plain ap buf of None \<Rightarrow> None | Some (it, _, _) \<Rightarrow> Some (field it))"
proof -
  have "parse_spec [f] ap = Some (plain, [f], ap)" by (rule parse_plain) (use assms in auto)
  then show ?thesis using assms(2) by (auto simp: look_def emit_def split: option.splits)
qed

lemma digits_nonzero: "digits_only ds \<Longrightarrow> 0 \<notin> set ds" by (auto simp: is_digit_def)

lemma sint_u32_range: "- 2147483648 \<le> sint (x :: u32)" "sint (x :: u32) < 2147483648"
  using sint_greater_eq [of x] sint_less [of x] by simp_all

lemma doprnt_d:
  assumes "length string = 20"
  shows "doprnt dl dneg m [37, 100] [x] string = Some ((if sint x < 0 then [45] else []) @ printed \<bar>sint x\<bar>)"
proof -
  have r: "0 \<le> \<bar>sint x\<bar>" "\<bar>sint x\<bar> < 10 ^ 10" using sint_u32_range [of x] by auto
  have "length (printed \<bar>sint x\<bar>) < length string" using printed_facts(4) [OF r] assms by simp
  from into_text [OF this digits_nonzero [OF printed_facts(2) [OF r]]]
  show ?thesis unfolding doprnt_def
    by (subst print_single) (simp_all add: is_digit_def convert_def prtl10_printed field_plain)
qed

lemma fdoprnt_d:
  assumes "length string = 20" "x \<noteq> 0x80000000"
  shows "fdoprnt m [37, 100] [x] string = Some ((if sint x < 0 then [45] else []) @ printed \<bar>sint x\<bar>)"
proof -
  have r: "0 \<le> \<bar>sint x\<bar>" "\<bar>sint x\<bar> < 10 ^ 10" using sint_u32_range [of x] by auto
  have l: "length (printed \<bar>sint x\<bar>) < length string" using printed_facts(4) [OF r] assms by simp
  note t = into_text [OF l digits_nonzero [OF printed_facts(2) [OF r]]]
  have ng: "sint (- x) = - sint x"
  proof -
    have "sint x \<noteq> sint (0x80000000 :: u32)" using assms(2) by (metis signed_word_eqI)
    then have "sint x \<noteq> - 2147483648" by simp
    then have "signed_take_bit 31 (- sint x) = - sint x"
      using sint_u32_range [of x] by (intro signed_take_bit_int_eq_self) auto
    moreover have "- x = word_of_int (- sint x)" by simp
    ultimately show ?thesis using sint_sbintrunc' [of "- sint x", where ?'a = 32] by simp
  qed
  have p: "prtl10_f \<bar>sint x\<bar> = printed \<bar>sint x\<bar> @ [0]" by (rule prtl10_f_printed) simp
  show ?thesis unfolding fdoprnt_def
    by (subst print_single) (use t p in \<open>auto simp: is_digit_def fconvert_def field_plain ng abs_if split: if_splits\<close>)
qed

lemma store_outside: "\<not> inside p (length cs) a \<Longrightarrow> store cs m p a = m a"
  by (induction cs arbitrary: m p) (simp_all add: inside_Suc)

lemma store_str_at:
  "0 \<notin> set cs \<Longrightarrow> length cs < 4294967295 \<Longrightarrow> str_at (store (cs @ [0]) m p) p cs"
proof (induction cs arbitrary: m p)
  case (Cons c cs)
  have "unat (p - (p + 1)) = 4294967295" by (simp add: unsigned_minus_1_eq_mask mask_eq_exp_minus_1)
  then have "\<not> inside (p + 1) (length (cs @ [0])) p" using Cons.prems(2) by (simp add: inside_def)
  then have "store (cs @ [0]) (m(p := c)) (p + 1) p = c" by (subst store_outside) simp_all
  then show ?case using Cons by simp
qed simp

text \<open>C28. Round trip: \<open>atoi\<close> reads back what \<open>sprintf\<close> wrote for \<open>%d\<close>, for every integer but the
  smallest.\<close>

theorem sprintf_atoi:
  assumes "length string = 20" "x \<noteq> 0x80000000"
  shows "returns (sprintf m str [37, 100] [x] string) (\<lambda>(r, m'). r = sint str \<and> atoi m' str = Some (sint x))"
proof -
  have r: "0 \<le> \<bar>sint x\<bar>" "\<bar>sint x\<bar> < 10 ^ 10" using sint_u32_range [of x] by auto
  note P = printed_facts [OF r]
  define sign :: "u8 list" where "sign = (if sint x < 0 then [45] else [])"
  define out where "out = sign @ printed \<bar>sint x\<bar>"
  have o: "fdoprnt m [37, 100] [x] string = Some out" using fdoprnt_d [OF assms] by (simp add: out_def sign_def)
  have "str_at (store (out @ [0]) m str) str out"
    by (rule store_str_at) (use P(4) digits_nonzero [OF P(2)] in \<open>auto simp: out_def sign_def\<close>)
  then have "atoi (store (out @ [0]) m str) str
      = Some (if sign = [45] then - decimal (printed \<bar>sint x\<bar>) else decimal (printed \<bar>sint x\<bar>))"
    by (intro atoi_decimal [where bs = "[]" and rest = "[]"]) (use P in \<open>simp_all add: out_def sign_def\<close>)
  moreover have "(if sign = [45] then - decimal (printed \<bar>sint x\<bar>) else decimal (printed \<bar>sint x\<bar>)) = sint x"
    using P(1) by (simp add: sign_def)
  ultimately show ?thesis using o by (simp add: sprintf_def)
qed

theorem sprintf_atoi_witness:
  "returns (sprintf (\<lambda>_. 0) 100 [37, 100] [- 42] (replicate 20 0)) (\<lambda>(r, m'). r = sint (100 :: u32) \<and> atoi m' 100 = Some (sint (- 42 :: u32)))"
  by (rule sprintf_atoi) simp_all

text \<open>The smallest integer: \<open>doprnt\<close> prints it in decimal, \<open>fdoprnt\<close>, which negates it before
  taking remainders, prints characters below \<open>'0'\<close>.\<close>

theorem print_smallest:
  "doprnt dl dneg m [37, 100] [0x80000000] (replicate 20 0) = Some [45, 50, 49, 52, 55, 52, 56, 51, 54, 52, 56]
    \<and> fdoprnt m [37, 100] [0x80000000] (replicate 20 0) = Some [45, 46, 47, 44, 41, 44, 40, 45, 42, 44, 40]"
proof
  have "printed 2147483648 = [50, 49, 52, 55, 52, 56, 51, 54, 52, 56]" by code_simp
  then show "doprnt dl dneg m [37, 100] [0x80000000] (replicate 20 0) = Some [45, 50, 49, 52, 55, 52, 56, 51, 54, 52, 56]"
    by (subst doprnt_d) simp_all
  have p: "prtl10_f (- 2147483648) = [46, 47, 44, 41, 44, 40, 45, 42, 44, 40] @ [0]" by code_simp
  show "fdoprnt m [37, 100] [0x80000000] (replicate 20 0) = Some [45, 46, 47, 44, 41, 44, 40, 45, 42, 44, 40]"
    unfolding fdoprnt_def
    by (subst print_single) (simp_all add: is_digit_def fconvert_def p into_text del: append.simps, simp_all add: field_plain)
qed

section \<open>Unsigned decimal\<close>

lemma u_adjust_result:
  "u_adjust x d = (l, d') \<Longrightarrow> \<exists>k. d' = d + of_nat k \<and> uint x = uint l + 1000000000 * int k \<and> uint l < 2147483648
     \<and> (0 < k \<longrightarrow> 1000000000 \<le> uint l)"
proof (induction x d rule: u_adjust.induct)
  case (1 x d)
  show ?case
  proof (cases "sint x < 0")
    case False
    then have "l = x" "d' = d" using 1(2) by (simp_all add: u_adjust.simps [of x d])
    moreover have "uint x < 2147483648" using False sint_u32_neg [of x] by linarith
    ultimately show ?thesis by (intro exI [of _ 0]) simp
  next
    case True
    then have big: "2147483648 \<le> uint x" by (simp only: sint_u32_neg)
    then have s: "uint (x - 1000000000) = uint x - 1000000000" by (simp add: uint_sub_if')
    have "u_adjust (x - 1000000000) (d + 1) = (l, d')" using True 1(2) by (simp add: u_adjust.simps [of x d])
    from 1(1) [OF True this] obtain k where k: "d' = d + 1 + of_nat k" "uint x - 1000000000 = uint l + 1000000000 * int k"
      "uint l < 2147483648" "0 < k \<longrightarrow> 1000000000 \<le> uint l" unfolding s by blast
    have "1000000000 \<le> uint l" using k(2,4) big by (cases "k = 0") auto
    then show ?thesis using k by (intro exI [of _ "Suc k"]) simp
  qed
qed

lemma decimal_Cons: "decimal (d # ds) = (sint d - 48) * 10 ^ length ds + decimal ds"
proof (induction ds rule: rev_induct)
  case (snoc x xs)
  have "decimal (d # xs @ [x]) = decimal (d # xs) * 10 + (sint x - 48)" using decimal_append [of "d # xs"] by simp
  then show ?case using snoc by (simp add: decimal_append algebra_simps)
qed (simp add: decimal_def)

lemma decimal_less: "digits_only ds \<Longrightarrow> 0 \<le> decimal ds \<and> decimal ds < 10 ^ length ds"
proof (induction ds)
  case (Cons d ds)
  have "0 \<le> sint d - 48" "sint d - 48 \<le> 9" using Cons.prems by (auto simp: is_digit_def)
  then have "0 \<le> (sint d - 48) * 10 ^ length ds" "(sint d - 48) * 10 ^ length ds \<le> 9 * 10 ^ length ds"
    by (simp, intro mult_right_mono) simp_all
  moreover have "0 \<le> decimal ds" "decimal ds < 10 ^ length ds" using Cons by auto
  ultimately show ?case unfolding decimal_Cons length_Cons power_Suc by linarith
qed (simp add: decimal_def)

lemma printed_first:
  assumes "1000000000 \<le> n" "n < 2147483648"
  obtains d ds where "printed n = d # ds" "length ds = 9" "sint d = 48 + n div 10 ^ 9"
proof -
  have P: "decimal (printed n) = n" "digits_only (printed n)" "printed n \<noteq> []" "length (printed n) \<le> 10"
    using printed_facts [of n] assms by simp_all
  obtain d ds where e: "printed n = d # ds" using P(3) by (cases "printed n") auto
  have "\<not> length (printed n) < 10"
  proof
    assume "length (printed n) < 10"
    then have "(10 :: int) ^ length (printed n) \<le> 10 ^ 9" by (intro power_increasing) simp_all
    then show False using decimal_less [OF P(2)] P(1) assms(1) by simp
  qed
  then have l: "length ds = 9" using P(4) e by simp
  have "decimal ds < 10 ^ 9 \<and> 0 \<le> decimal ds" using decimal_less [of ds] P(2) e l by simp
  moreover have "n = decimal ds + (sint d - 48) * 10 ^ 9" using P(1) e l by (simp add: decimal_Cons)
  moreover have "(decimal ds + (sint d - 48) * 1000000000) div 1000000000 = (sint d - 48) + decimal ds div 1000000000"
    by (rule div_mult_self1) simp
  ultimately have "n div 10 ^ 9 = sint d - 48" by (simp only: power_numeral) simp
  then show thesis using that e l by simp
qed

text \<open>\<open>%u\<close> prints the unsigned decimal value in full, in both variants: no leading zero but
  for 0 itself.\<close>

theorem print_unsigned:
  assumes "length string = 20"
  shows "\<exists>ds. doprnt dl dneg m [37, 117] [x] string = Some ds \<and> fdoprnt m [37, 117] [x] string = Some ds
    \<and> digits_only ds \<and> decimal ds = uint x \<and> (hd ds = 48 \<longrightarrow> ds = [48])"
proof -
  obtain l d' where u: "u_adjust x 0 = (l, d')" by (cases "u_adjust x 0")
  then obtain k where k: "d' = of_nat k" "uint x = uint l + 1000000000 * int k" "uint l < 2147483648"
    "0 < k \<longrightarrow> 1000000000 \<le> uint l" using u_adjust_result [OF u] by auto
  have sl: "sint l = uint l" using k(3) by (simp only: sint_u32 if_True)
  note r = uint_nonnegative [of l]
  have P: "decimal (printed (uint l)) = uint l" "digits_only (printed (uint l))" "printed (uint l) \<noteq> []" "length (printed (uint l)) \<le> 10"
    using printed_facts [of "uint l"] k(3) r by simp_all
  define ds where "ds = (printed (uint l))[0 := printed (uint l) ! 0 + d']"
  have D: "digits_only ds \<and> decimal ds = uint x \<and> (hd ds = 48 \<longrightarrow> ds = [48])"
  proof (cases "k = 0")
    case True
    have "hd (printed n) = 48 \<longrightarrow> printed n = [48]" for n
      using hd_dropWhile [of "\<lambda>c. c = 48" "rev (digits10 10 n)"]
      unfolding printed_def significant_def Let_def by presburger
    then show ?thesis using True P k by (simp add: ds_def)
  next
    case False
    then have big: "1000000000 \<le> uint l" using k(4) by simp
    obtain d zs where e: "printed (uint l) = d # zs" "length zs = 9" "sint d = 48 + uint l div 10 ^ 9"
      by (rule printed_first [OF big k(3)])
    have "uint x < 4294967296" using uint_lt2p [of x] by simp
    then have kk: "int k < 4" using k(2) big by linarith
    have q: "1 \<le> uint l div 10 ^ 9" "uint l div 10 ^ 9 \<le> 2" using big k(3) by simp_all
    have "d + d' = of_int (sint d + int k - 48) + 48" using k(1) by simp
    moreover have "sint (of_int (sint d + int k - 48) + 48 :: u8) = sint d + int k - 48 + 48"
      by (rule char_digit) (use q kk e(3) in linarith)+
    ultimately have s: "sint (d + d') = sint d + int k" by (simp only:)
    then have "is_digit (d + d')" "d + d' \<noteq> 48" using q kk e(3) by (auto simp: is_digit_def)
    moreover have "decimal ((d + d') # zs) = uint x" using P(1) e s k(2) by (simp add: decimal_Cons algebra_simps)
    ultimately show ?thesis using P(2) e by (simp add: ds_def)
  qed
  have len: "length ds < length string" using P(4) assms by (simp add: ds_def)
  note t = into_text [OF len digits_nonzero]
  have p: "(printed (uint l) @ [0])[0 := (printed (uint l) @ [0]) ! 0 + d'] = ds @ [0]"
    using P(3) by (cases "printed (uint l)") (simp_all add: ds_def)
  have f: "field (item_of plain ds) = ds" using field_plain [where neg = False and b = ds] by (simp add: item_of_def)
  have i: "plain\<lparr>fmax := 0\<rparr> = plain" "(item_of plain ds)\<lparr>negative := False\<rparr> = item_of plain ds"
    by (simp_all add: plain_def item_of_def)
  have "doprnt dl dneg m [37, 117] [x] string = Some ds"
    unfolding doprnt_def
    by (subst print_single) (use t D in \<open>simp_all add: is_digit_def convert_def conv_u_def u sl p prtl10_printed i f\<close>)
  moreover have "fdoprnt m [37, 117] [x] string = Some ds"
    unfolding fdoprnt_def
    by (subst print_single) (use t D r in \<open>simp_all add: is_digit_def fconvert_def conv_u_def u sl p prtl10_f_printed i f\<close>)
  ultimately show ?thesis using D by blast
qed

theorem print_unsigned_witness:
  "\<exists>ds. doprnt (\<lambda>_ _. 0) (\<lambda>_. False) hello [37, 117] [3000000000] (replicate 20 0) = Some ds
    \<and> fdoprnt hello [37, 117] [3000000000] (replicate 20 0) = Some ds
    \<and> decimal ds = 3000000000"
  using print_unsigned [of "replicate 20 0" "\<lambda>_ _. 0" "\<lambda>_. False" hello 3000000000] by auto

section \<open>Binary and floating point\<close>

lemma length_dropWhile_ge: "i < length xs \<Longrightarrow> \<not> P (xs ! i) \<Longrightarrow> length xs - i \<le> length (dropWhile P xs)"
proof (induction xs arbitrary: i)
  case (Cons x xs)
  then show ?case by (cases i) auto
qed simp

lemma length_digits2: "length (digits2 k x) = k"
  by (induction k arbitrary: x) simp_all

lemma smod_2: "sint x smod 2 = 0 \<longleftrightarrow> \<not> bit x 0" for x :: u32
proof -
  have "sint x smod 2 = 0 \<longleftrightarrow> even (sint x)" by (auto simp: signed_modulo_int_def sgn_if abs_if even_iff_mod_2_eq_zero)
  moreover have "bit (sint x) 0 = bit x 0" by (simp add: bit_signed_iff)
  ultimately show ?thesis by (metis bit_0)
qed

lemma digits2_nth: "i < k \<Longrightarrow> k \<le> 32 \<Longrightarrow> digits2 k x ! i = 48 \<longleftrightarrow> \<not> bit x i"
proof (induction k arbitrary: i x)
  case (Suc k)
  show ?case
  proof (cases i)
    case 0
    then show ?thesis by (simp add: smod_2)
  next
    case (Suc j)
    then have "bit (signed_drop_bit 1 x) j = bit x i" using Suc.prems by (auto simp: bit_signed_drop_bit_iff)
    then show ?thesis using Suc Suc.IH [of j "signed_drop_bit 1 x"] Suc.prems by simp
  qed
qed simp

text \<open>\<open>%b\<close> of a number of more than nineteen binary digits writes behind the array \<open>string\<close>.\<close>

theorem print_binary_overflow:
  assumes "length string = 20" "bit x n" "19 \<le> n"
  shows "doprnt dl dneg m [37, 98] [x] string = None \<and> fdoprnt m [37, 98] [x] string = None"
proof -
  let ?ds = "digits2 32 x"
  have n: "n < 32" using assms(2) by (auto dest: bit_imp_le_length)
  have "rev ?ds ! (31 - n) = ?ds ! n" using n by (simp add: rev_nth length_digits2)
  then have "rev ?ds ! (31 - n) \<noteq> 48" using digits2_nth [of n 32 x] n assms(2) by simp
  then have "length (rev ?ds @ [0]) - (31 - n) \<le> length (dropWhile (\<lambda>c. c = 48) (rev ?ds @ [0]))"
    by (intro length_dropWhile_ge) (use n in \<open>simp_all add: length_digits2 nth_append\<close>)
  then have "20 < length (prtl2 x)" using assms(3) n by (simp add: prtl2_def copy_out_def Let_def length_digits2)
  then have o: "into sp neg (prtl2 x) ap string = None" for sp neg ap using assms(1) by (intro into_overflow) simp
  show ?thesis unfolding doprnt_def fdoprnt_def
    by (subst (1 2) print_single) (simp_all add: is_digit_def convert_def fconvert_def conv_word_def o)
qed

theorem print_binary_overflow_witness:
  "doprnt (\<lambda>_ _. 0) (\<lambda>_. False) hello [37, 98] [0x80000] (replicate 20 0) = None
    \<and> fdoprnt hello [37, 98] [0x80000] (replicate 20 0) = None"
  by (rule print_binary_overflow [of _ _ 19]) simp_all

text \<open>\<open>%f\<close> prints the digits behind the point without their leading zeros: 1.05 comes out as
  1.50000.\<close>

theorem print_double_zeros:
  assumes "dl d 1 = 1" "dl d 1000000 = 1050000" "\<not> dneg d" "length string = 20"
  shows "doprnt dl dneg m [37, 102] [fst d, snd d] string = Some [49, 46, 53, 48, 48, 48, 48]"
proof -
  have "printed 1 = [49]" "printed 50000 = [53, 48, 48, 48, 48]" by code_simp+
  then have p: "prtdbl dl d = [49, 46, 53, 48, 48, 48, 48] @ [0]" using assms(1,2) by (simp add: prtdbl_def prtl10_printed)
  have "into plain False ([49, 46, 53, 48, 48, 48, 48] @ [0]) [] string
      = Some ((item_of plain [49, 46, 53, 48, 48, 48, 48])\<lparr>negative := False\<rparr>, [],
          [49, 46, 53, 48, 48, 48, 48] @ 0 # drop (Suc (length [49 :: u8, 46, 53, 48, 48, 48, 48])) string)"
    by (rule into_text) (use assms(4) in simp_all)
  then show ?thesis unfolding doprnt_def
    by (subst print_single) (use assms(3) p field_plain [where neg = False and b = "[49, 46, 53, 48, 48, 48, 48]"] in \<open>simp_all add: is_digit_def convert_def\<close>)
qed

theorem print_double_zeros_witness:
  "doprnt (\<lambda>_ k. if k = 1 then 1 else 1050000) (\<lambda>_. False) hello [37, 102] [fst (0, 0), snd (0, 0)] (replicate 20 0)
    = Some [49, 46, 53, 48, 48, 48, 48]"
  using print_double_zeros [of "\<lambda>_ k. if k = 1 then 1 else 1050000" "(0, 0)" "\<lambda>_. False" "replicate 20 0" hello] by simp

end
