(* ===== verification/Dotted.thy ===== *)
theory Dotted
  imports Strings
begin

text \<open>
  Addresses in dotted decimal notation: \<^verbatim>\<open>net/dot2ip.c\<close>. The two nested loops are primitive recursive in the
  number of segments and of characters they may still read; \<open>None\<close> is the result \<open>SYSERR\<close>.
\<close>

section \<open>The parser\<close>

primrec dot_chars :: "nat \<Rightarrow> mem \<Rightarrow> u32 \<Rightarrow> int \<Rightarrow> int \<Rightarrow> u8 \<Rightarrow> (int \<times> u8 \<times> u32) option" where
  "dot_chars 0 m p nch val ch = Some (val, ch, p)"
| "dot_chars (Suc k) m p nch val ch =
     (let ch = m p; p = p + 1 in
      if ch = 0 \<or> ch = 46 then (if nch = 0 then None else Some (val, ch, p))
      else if sint ch < 48 \<or> 57 < sint ch then None
      else dot_chars k m p (nch + 1) (10 * val + (sint ch - 48)) ch)"

primrec dot_segs :: "nat \<Rightarrow> mem \<Rightarrow> u32 \<Rightarrow> int \<Rightarrow> u32 \<Rightarrow> u8 \<Rightarrow> (int \<times> u8 \<times> u32) option" where
  "dot_segs 0 m p seg ipaddr ch = Some (seg, ch, ipaddr)"
| "dot_segs (Suc k) m p seg ipaddr ch =
     dot_chars 4 m p 0 0 ch \<bind> (\<lambda>(val, ch, p).
       if 255 < val then None
       else let ipaddr = push_bit 8 ipaddr OR of_int val in
         if ch = 0 then Some (seg, ch, ipaddr) else dot_segs k m p (seg + 1) ipaddr ch)"

definition dot2ip :: "mem \<Rightarrow> u32 \<Rightarrow> u32 option" where
  "dot2ip m dotted =
     dot_segs 4 m dotted 0 0 0 \<bind> (\<lambda>(seg, ch, ipaddr). if seg \<noteq> 3 \<or> ch \<noteq> 0 then None else Some ipaddr)"

section \<open>Numbers of up to three digits\<close>

definition numeral_ok :: "nat list \<Rightarrow> bool" where
  "numeral_ok ds \<longleftrightarrow> ds \<noteq> [] \<and> length ds \<le> 3 \<and> (\<forall>d\<in>set ds. d < 10)"

definition numeral_value :: "nat list \<Rightarrow> nat" where "numeral_value = foldl (\<lambda>v d. 10 * v + d) 0"

definition digit :: "nat \<Rightarrow> u8" where "digit d = 48 + of_nat d"

lemma digit_sint: "d < 10 \<Longrightarrow> sint (digit d) = 48 + int d"
  and digit_not: "d < 10 \<Longrightarrow> digit d \<noteq> 0 \<and> digit d \<noteq> 46"
proof -
  have "sint (digit d) = 48 + int d \<and> digit d \<noteq> 0 \<and> digit d \<noteq> 46" if "d < 10" for d
  proof -
    have "d \<in> {0, 1, 2, 3, 4, 5, 6, 7, 8, 9}" using that by auto
    then show ?thesis by (auto simp: digit_def)
  qed
  then show "d < 10 \<Longrightarrow> sint (digit d) = 48 + int d" "d < 10 \<Longrightarrow> digit d \<noteq> 0 \<and> digit d \<noteq> 46" by blast+
qed

text \<open>The bytes of a list from an address on.\<close>

primrec bytes_are :: "mem \<Rightarrow> u32 \<Rightarrow> u8 list \<Rightarrow> bool" where
  "bytes_are m p [] = True"
| "bytes_are m p (x # xs) = (m p = x \<and> bytes_are m (p + 1) xs)"

lemma bytes_are_append: "bytes_are m p (xs @ ys) \<longleftrightarrow> bytes_are m p xs \<and> bytes_are m (p + of_nat (length xs)) ys"
  by (induction xs arbitrary: p) (auto simp: ac_simps)

lemma dot_chars_numeral:
  assumes "length ds < k" "\<forall>d\<in>set ds. d < 10" "bytes_are m p (map digit ds @ [c])" "c = 0 \<or> c = 46" "nch \<noteq> 0 \<or> ds \<noteq> []" "0 \<le> nch"
  shows "dot_chars k m p nch (int v) ch = Some (int (foldl (\<lambda>v d. 10 * v + d) v ds), c, p + of_nat (length ds) + 1)"
  using assms
proof (induction ds arbitrary: k p nch v ch)
  case Nil
  then obtain j where "k = Suc j" by (cases k) auto
  then show ?case using Nil.prems by auto
next
  case (Cons d ds)
  then obtain j where k: "k = Suc j" "length ds < j" by (cases k) auto
  have d: "d < 10" "m p = digit d" using Cons.prems by simp_all
  have "dot_chars j m (p + 1) (nch + 1) (int (10 * v + d)) (digit d)
    = Some (int (foldl (\<lambda>v d. 10 * v + d) (10 * v + d) ds), c, p + 1 + of_nat (length ds) + 1)"
    by (rule Cons.IH [OF k(2)]) (use Cons.prems in simp_all)
  then show ?case using d digit_sint [OF d(1)] digit_not [OF d(1)] by (simp add: k(1) Let_def ac_simps)
qed

definition dotted_text :: "nat list \<Rightarrow> nat list \<Rightarrow> nat list \<Rightarrow> nat list \<Rightarrow> u8 list" where
  "dotted_text a b c d = map digit a @ [46] @ map digit b @ [46] @ map digit c @ [46] @ map digit d @ [0]"

text \<open>C40. \<open>dot2ip\<close> reads every address written as four numbers of one to three digits and at most 255, leading zeros
  allowed, and yields the word with the numbers as its bytes.\<close>

theorem dot2ip_parses:
  assumes "bytes_are m p (dotted_text a b c d)" "numeral_ok a" "numeral_ok b" "numeral_ok c" "numeral_ok d"
    and "numeral_value a \<le> 255" "numeral_value b \<le> 255" "numeral_value c \<le> 255" "numeral_value d \<le> 255"
  shows "dot2ip m p = Some (of_nat (((numeral_value a * 256 + numeral_value b) * 256 + numeral_value c) * 256 + numeral_value d))"
proof -
  have seg: "dot_chars 4 m q 0 0 ch = Some (int (numeral_value ds), e, q + of_nat (length ds) + 1)"
    if "numeral_ok ds" "bytes_are m q (map digit ds @ [e])" "e = 0 \<or> e = 46" for q ds e ch
    using dot_chars_numeral [of ds 4 m q e 0 0 ch] that by (auto simp: numeral_ok_def numeral_value_def)
  have or: "push_bit 8 (of_nat x :: u32) OR of_nat y = of_nat (x * 256 + y)" if "y \<le> 255" for x y
  proof -
    have "(push_bit 8 (of_nat x) :: u32) OR of_nat y = push_bit 8 (of_nat x) + of_nat y"
    proof (rule disjunctive_add [symmetric])
      have "\<not> bit (of_nat y :: u32) n" if "8 \<le> n" for n
      proof -
        have "y < 2 ^ 8" using \<open>y \<le> 255\<close> by simp
        then have "y < 2 ^ n" using that by (meson order_less_le_trans power_increasing one_le_numeral)
        then have "\<not> bit y n" by (simp add: bit_iff_odd)
        then show ?thesis by (simp add: bit_of_nat_iff)
      qed
      then show "\<not> bit (push_bit 8 (of_nat x :: u32)) n \<or> \<not> bit (of_nat y :: u32) n" for n by (auto simp: bit_simps)
    qed
    then show ?thesis by (simp add: push_bit_eq_mult)
  qed
  define p1 p2 p3 where "p1 = p + of_nat (length a) + 1" and "p2 = p1 + of_nat (length b) + 1" and "p3 = p2 + of_nat (length c) + 1"
  have B: "bytes_are m p (map digit a @ [46])" "bytes_are m p1 (map digit b @ [46])" "bytes_are m p2 (map digit c @ [46])"
    "bytes_are m p3 (map digit d @ [0])"
    using assms(1) by (simp_all add: dotted_text_def bytes_are_append p1_def p2_def p3_def ac_simps)
  have e: "(46 :: u8) = 0 \<or> (46 :: u8) = 46" "(0 :: u8) = 0 \<or> (0 :: u8) = 46" by simp_all
  note S = seg [OF assms(2) B(1) e(1), folded p1_def] seg [OF assms(3) B(2) e(1), folded p2_def]
    seg [OF assms(4) B(3) e(1), folded p3_def] seg [OF assms(5) B(4) e(2)]
  have step: "dot_segs (Suc k) m q i (of_nat x) ch
      = (if e = 0 then Some (i, e, of_nat (x * 256 + v)) else dot_segs k m r (i + 1) (of_nat (x * 256 + v)) e)"
    if "\<And>ch. dot_chars 4 m q 0 0 ch = Some (int v, e, r)" "v \<le> 255" for k q i x ch e v r
    using that or [OF that(2), of x] by (simp add: Let_def)
  define A B C where "A = 0 * 256 + numeral_value a" and "B = A * 256 + numeral_value b" and "C = B * 256 + numeral_value c"
  have "dot_segs 4 m p 0 0 0 = dot_segs (Suc (Suc (Suc (Suc 0)))) m p 0 (of_nat 0) 0" by (simp add: eval_nat_numeral)
  also have "\<dots> = dot_segs (Suc (Suc (Suc 0))) m p1 (0 + 1) (of_nat A) 46"
    unfolding step [OF S(1) assms(6)] A_def by (simp del: dot_segs.simps)
  also have "\<dots> = dot_segs (Suc (Suc 0)) m p2 (0 + 1 + 1) (of_nat B) 46"
    unfolding step [OF S(2) assms(7)] B_def by (simp del: dot_segs.simps)
  also have "\<dots> = dot_segs (Suc 0) m p3 (0 + 1 + 1 + 1) (of_nat C) 46"
    unfolding step [OF S(3) assms(8)] C_def by (simp del: dot_segs.simps)
  also have "\<dots> = Some (3, 0, of_nat (C * 256 + numeral_value d))" unfolding step [OF S(4) assms(9)] by simp
  finally have "dot_segs 4 m p 0 0 0 = Some (3, 0, of_nat (C * 256 + numeral_value d))" .
  then show ?thesis by (simp add: dot2ip_def A_def B_def C_def)
qed

theorem dot2ip_parses_witness:
  "bytes_are ((!) (dotted_text [1, 0] [0] [0, 0, 0] [2, 5, 5]) \<circ> unat) 0 (dotted_text [1, 0] [0] [0, 0, 0] [2, 5, 5])
   \<and> dot2ip ((!) (dotted_text [1, 0] [0] [0, 0, 0] [2, 5, 5]) \<circ> unat) 0 = Some 0x0a0000ff"
proof -
  have b: "bytes_are ((!) (dotted_text [1, 0] [0] [0, 0, 0] [2, 5, 5]) \<circ> unat) 0 (dotted_text [1, 0] [0] [0, 0, 0] [2, 5, 5])"
    by code_simp
  then show ?thesis using dot2ip_parses [OF b] by (simp add: numeral_ok_def numeral_value_def)
qed

text \<open>A segment of four digits needs no dot behind it: the text has two dots and is read as 12.1.2.3.\<close>

lemma dot2ip_takes_two_dots: "dot2ip ((!) (map digit [0, 0, 1, 2, 1] @ [46] @ map digit [2] @ [46] @ map digit [3] @ [0]) \<circ> unat) 0 = Some 0x0c010203"
  by code_simp

end
