(* ===== verification/Packet.thy ===== *)
theory Packet
  imports Strings
begin

text \<open>
  Packets as bytes in memory: the layout of \<open>struct netpacket\<close> (\<^verbatim>\<open>include/net.h\<close>) and
  \<open>struct arppacket\<close> (\<^verbatim>\<open>include/arp.h\<close>), conversion between the byte orders of the machine and of the
  network, and the checksums of \<^verbatim>\<open>net/ip.c\<close> and \<^verbatim>\<open>net/icmp.c\<close>. A packet is the address of its first
  byte; the fields are at fixed offsets because both structures are packed. The machine keeps the low byte first.
\<close>

type_synonym u16 = "16 word"

section \<open>Fields\<close>

definition get16 :: "mem \<Rightarrow> u32 \<Rightarrow> u16" where
  "get16 m a = ucast (m a) OR push_bit 8 (ucast (m (a + 1)))"

definition set16 :: "u32 \<Rightarrow> u16 \<Rightarrow> mem \<Rightarrow> mem" where
  "set16 a v m = m(a := ucast v, a + 1 := ucast (drop_bit 8 v))"

definition get32 :: "mem \<Rightarrow> u32 \<Rightarrow> u32" where
  "get32 m a = ucast (get16 m a) OR push_bit 16 (ucast (get16 m (a + 2)))"

definition set32 :: "u32 \<Rightarrow> u32 \<Rightarrow> mem \<Rightarrow> mem" where
  "set32 a v m = set16 (a + 2) (ucast (drop_bit 16 v)) (set16 a (ucast v) m)"

text \<open>Offsets of the fields.\<close>

abbreviation (input) "net_ethdst \<equiv> 0 :: u32"
abbreviation (input) "net_ethsrc \<equiv> 6 :: u32"
abbreviation (input) "net_ethtype \<equiv> 12 :: u32"
abbreviation (input) "net_ipvh \<equiv> 14 :: u32"
abbreviation (input) "net_iptos \<equiv> 15 :: u32"
abbreviation (input) "net_iplen \<equiv> 16 :: u32"
abbreviation (input) "net_ipid \<equiv> 18 :: u32"
abbreviation (input) "net_ipfrag \<equiv> 20 :: u32"
abbreviation (input) "net_ipttl \<equiv> 22 :: u32"
abbreviation (input) "net_ipproto \<equiv> 23 :: u32"
abbreviation (input) "net_ipcksum \<equiv> 24 :: u32"
abbreviation (input) "net_ipsrc \<equiv> 26 :: u32"
abbreviation (input) "net_ipdst \<equiv> 30 :: u32"
abbreviation (input) "net_udpsport \<equiv> 34 :: u32"
abbreviation (input) "net_udpdport \<equiv> 36 :: u32"
abbreviation (input) "net_udplen \<equiv> 38 :: u32"
abbreviation (input) "net_udpcksum \<equiv> 40 :: u32"
abbreviation (input) "net_udpdata \<equiv> 42 :: u32"
abbreviation (input) "net_ictype \<equiv> 34 :: u32"
abbreviation (input) "net_iccode \<equiv> 35 :: u32"
abbreviation (input) "net_iccksum \<equiv> 36 :: u32"
abbreviation (input) "net_icident \<equiv> 38 :: u32"
abbreviation (input) "net_icseq \<equiv> 40 :: u32"
abbreviation (input) "net_icdata \<equiv> 42 :: u32"
abbreviation (input) "arp_htype \<equiv> 14 :: u32"
abbreviation (input) "arp_ptype \<equiv> 16 :: u32"
abbreviation (input) "arp_hlen \<equiv> 18 :: u32"
abbreviation (input) "arp_plen \<equiv> 19 :: u32"
abbreviation (input) "arp_op \<equiv> 20 :: u32"
abbreviation (input) "arp_sndha \<equiv> 22 :: u32"
abbreviation (input) "arp_sndpa \<equiv> 28 :: u32"
abbreviation (input) "arp_tarha \<equiv> 32 :: u32"
abbreviation (input) "arp_tarpa \<equiv> 38 :: u32"

section \<open>Byte order\<close>

definition htons :: "u16 \<Rightarrow> u16" where
  "htons x = (0xff AND drop_bit 8 x) OR push_bit 8 (0xff AND x)"

definition htonl :: "u32 \<Rightarrow> u32" where
  "htonl x = (drop_bit 24 x AND 0xff) OR (drop_bit 8 x AND 0xff00) OR (push_bit 8 x AND 0xff0000) OR (push_bit 24 x AND 0xff000000)"

definition swap16 :: "u32 \<Rightarrow> mem \<Rightarrow> mem" where "swap16 a m = set16 a (htons (get16 m a)) m"
definition swap32 :: "u32 \<Rightarrow> mem \<Rightarrow> mem" where "swap32 a m = set32 a (htonl (get32 m a)) m"

text \<open>The conversions from the order of the machine to that of the network and back are the same function.\<close>

definition eth_hton :: "u32 \<Rightarrow> mem \<Rightarrow> mem" where "eth_hton p = swap16 (p + net_ethtype)"

definition ip_hton :: "u32 \<Rightarrow> mem \<Rightarrow> mem" where
  "ip_hton p = swap32 (p + net_ipdst) \<circ> swap32 (p + net_ipsrc) \<circ> swap16 (p + net_ipfrag) \<circ> swap16 (p + net_ipid) \<circ> swap16 (p + net_iplen)"

definition udp_hton :: "u32 \<Rightarrow> mem \<Rightarrow> mem" where
  "udp_hton p = swap16 (p + net_udplen) \<circ> swap16 (p + net_udpdport) \<circ> swap16 (p + net_udpsport)"

definition icmp_hton :: "u32 \<Rightarrow> mem \<Rightarrow> mem" where
  "icmp_hton p = swap16 (p + net_icseq) \<circ> swap16 (p + net_icident) \<circ> swap16 (p + net_iccksum)"

definition arp_hton :: "u32 \<Rightarrow> mem \<Rightarrow> mem" where
  "arp_hton p = swap32 (p + arp_tarpa) \<circ> swap32 (p + arp_sndpa) \<circ> swap16 (p + arp_op) \<circ> swap16 (p + arp_ptype) \<circ> swap16 (p + arp_htype)"

definition eth_ntoh :: "u32 \<Rightarrow> mem \<Rightarrow> mem" where "eth_ntoh p = swap16 (p + net_ethtype)"

definition ip_ntoh :: "u32 \<Rightarrow> mem \<Rightarrow> mem" where
  "ip_ntoh p = swap32 (p + net_ipdst) \<circ> swap32 (p + net_ipsrc) \<circ> swap16 (p + net_ipfrag) \<circ> swap16 (p + net_ipid) \<circ> swap16 (p + net_iplen)"

definition udp_ntoh :: "u32 \<Rightarrow> mem \<Rightarrow> mem" where
  "udp_ntoh p = swap16 (p + net_udplen) \<circ> swap16 (p + net_udpdport) \<circ> swap16 (p + net_udpsport)"

definition icmp_ntoh :: "u32 \<Rightarrow> mem \<Rightarrow> mem" where
  "icmp_ntoh p = swap16 (p + net_icseq) \<circ> swap16 (p + net_icident) \<circ> swap16 (p + net_iccksum)"

definition arp_ntoh :: "u32 \<Rightarrow> mem \<Rightarrow> mem" where
  "arp_ntoh p = swap32 (p + arp_tarpa) \<circ> swap32 (p + arp_sndpa) \<circ> swap16 (p + arp_op) \<circ> swap16 (p + arp_ptype) \<circ> swap16 (p + arp_htype)"

section \<open>Checksums\<close>

text \<open>The sum of \<open>n\<close> 16-bit values from \<open>a\<close> on, in network byte order, in a 32-bit register.\<close>

primrec sum16 :: "nat \<Rightarrow> mem \<Rightarrow> u32 \<Rightarrow> u32 \<Rightarrow> u32" where
  "sum16 0 m a cksum = cksum"
| "sum16 (Suc n) m a cksum = sum16 n m (a + 2) (cksum + ucast (htons (get16 m a)))"

definition fold16 :: "u32 \<Rightarrow> u32" where
  "fold16 cksum = 0xffff AND NOT (cksum + drop_bit 16 cksum)"

definition ipcksum :: "mem \<Rightarrow> u32 \<Rightarrow> u16" where
  "ipcksum m p =
     (let cksum = fold16 (sum16 10 m (p + net_ipvh) 0)
      in if cksum = 0xffff then 0 else ucast cksum)"

definition icmp_cksum :: "mem \<Rightarrow> u32 \<Rightarrow> int \<Rightarrow> u16" where
  "icmp_cksum m buf buflen =
     (let scount = nat (buflen div 2);
          cksum = sum16 scount m buf 0;
          cksum = (if buflen mod 2 \<noteq> 0 then cksum + (0xFFFF AND push_bit 8 (ucast (m (buf + of_nat (2 * scount))))) else cksum)
      in ucast (fold16 cksum))"

section \<open>Fields and byte order\<close>

lemma get16_set16 [simp]: "get16 (set16 a v m) a = v"
  by (rule bit_eqI) (auto simp: get16_def set16_def bit_simps)

lemma get16_other: "b \<noteq> a \<Longrightarrow> b \<noteq> a + 1 \<Longrightarrow> b + 1 \<noteq> a \<Longrightarrow> get16 (set16 a v m) b = get16 m b"
  by (simp add: get16_def set16_def)

lemma set16_other: "b \<noteq> a \<Longrightarrow> b \<noteq> a + 1 \<Longrightarrow> set16 a v m b = m b"
  by (simp add: set16_def)

lemma set16_set16 [simp]: "set16 a v (set16 a w m) = set16 a v m"
  by (auto simp: set16_def fun_eq_iff)

lemma byte_bit: "bit (x :: u8) n \<Longrightarrow> n < 8"
  using bit_imp_le_length [of x n] by simp

lemma half_bit: "bit (x :: u16) n \<Longrightarrow> n < 16"
  using bit_imp_le_length [of x n] by simp

lemma get16_bytes: "ucast (get16 m a) = m a" "ucast (drop_bit 8 (get16 m a)) = m (a + 1)"
  by (rule bit_eqI; auto simp: get16_def bit_simps dest: byte_bit)+

lemma set16_get16 [simp]: "set16 a (get16 m a) m = m"
  by (simp add: set16_def get16_bytes fun_eq_iff)

lemma htons_bytes: "(ucast (htons x) :: u8) = ucast (drop_bit 8 x)" "(ucast (drop_bit 8 (htons x)) :: u8) = ucast x"
proof -
  have m: "(255 :: u16) = mask 8" by (simp add: mask_eq_exp_minus_1)
  have e: "8 + (n - 8) = n" if "8 \<le> n" for n :: nat using that by simp
  show "(ucast (htons x) :: u8) = ucast (drop_bit 8 x)" "(ucast (drop_bit 8 (htons x)) :: u8) = ucast x"
    unfolding htons_def m by (rule bit_eqI; auto simp: bit_simps e dest: half_bit)+
qed

text \<open>Converting a field exchanges its bytes.\<close>

lemma swap16_eq: "swap16 a m = m(a := m (a + 1), a + 1 := m a)"
  by (simp add: swap16_def set16_def htons_bytes get16_bytes)

lemma swap32_eq: "swap32 a m = m(a := m (a + 3), a + 1 := m (a + 2), a + 2 := m (a + 1), a + 3 := m a)"
proof -
  let ?x = "get32 m a"
  have f: "(255 :: u32) = mask 8" "(0xff00 :: u32) = push_bit 8 (mask 8)" "(0xff0000 :: u32) = push_bit 16 (mask 8)"
    "(0xff000000 :: u32) = push_bit 24 (mask 8)"
    by (simp_all add: mask_eq_exp_minus_1 push_bit_eq_mult)
  have e: "8 + (n - 8) = n" if "8 \<le> n" for n :: nat using that by simp
  have b: "(ucast (htonl x) :: u8) = ucast (drop_bit 24 x)" "(ucast (drop_bit 8 (htonl x)) :: u8) = ucast (drop_bit 16 x)"
    "(ucast (drop_bit 16 (htonl x)) :: u8) = ucast (drop_bit 8 x)" "(ucast (drop_bit 24 (htonl x)) :: u8) = ucast x" for x :: u32
    unfolding htonl_def f by (rule bit_eqI; auto simp: bit_simps e ac_simps)+
  have g: "(ucast ?x :: u8) = m a" "(ucast (drop_bit 8 ?x) :: u8) = m (a + 1)" "(ucast (drop_bit 16 ?x) :: u8) = m (a + 2)"
    "(ucast (drop_bit 24 ?x) :: u8) = m (a + 3)"
    by (rule bit_eqI; auto simp: get32_def get16_def bit_simps add.assoc dest: byte_bit)+
  have c: "(ucast (ucast x :: u16) :: u8) = ucast x" "(ucast (drop_bit 8 (ucast x :: u16)) :: u8) = ucast (drop_bit 8 x)"
    "(ucast (ucast (drop_bit 16 x) :: u16) :: u8) = ucast (drop_bit 16 x)"
    "(ucast (drop_bit 8 (ucast (drop_bit 16 x) :: u16)) :: u8) = ucast (drop_bit 24 x)" for x :: u32
    by (rule bit_eqI; auto simp: bit_simps ac_simps)+
  show ?thesis unfolding swap32_def set32_def set16_def c by (simp add: b g add.assoc fun_eq_iff)
qed

lemma swap16_swap16 [simp]: "swap16 a (swap16 a m) = m"
  by (simp add: swap16_eq fun_eq_iff)

lemma swap32_swap32 [simp]: "swap32 a (swap32 a m) = m"
  by (simp add: swap32_eq fun_eq_iff)

text \<open>For every protocol the conversion to the order of the network and back leaves every byte of memory as
  it was.\<close>

theorem byte_order_roundtrip:
  "eth_ntoh p (eth_hton p m) = m \<and> ip_ntoh p (ip_hton p m) = m \<and> udp_ntoh p (udp_hton p m) = m
    \<and> icmp_ntoh p (icmp_hton p m) = m \<and> arp_ntoh p (arp_hton p m) = m"
proof -
  have c: "swap16 (p + x) (swap16 (p + y) k) = swap16 (p + y) (swap16 (p + x) k)" if "x \<noteq> y" "x \<noteq> y + 1" "y \<noteq> x + 1" for x y k
    using that by (auto simp: swap16_eq fun_eq_iff add.assoc)
  have l: "swap32 (p + x) (swap16 (p + y) k) = swap16 (p + y) (swap32 (p + x) k)"
    if "y \<noteq> x" "y \<noteq> x + 1" "y \<noteq> x + 2" "y \<noteq> x + 3" "x \<noteq> y + 1" "y + 1 \<noteq> x + 1" "y + 1 \<noteq> x + 2" "y + 1 \<noteq> x + 3" for x y k
    using that by (auto simp: swap16_eq swap32_eq fun_eq_iff add.assoc)
  have d: "swap32 (p + 30) (swap32 (p + 26) k) = swap32 (p + 26) (swap32 (p + 30) k)"
    "swap32 (p + 38) (swap32 (p + 28) k) = swap32 (p + 28) (swap32 (p + 38) k)" for k
    by (auto simp: swap32_eq fun_eq_iff add.assoc)
  show ?thesis
    by (simp add: eth_ntoh_def eth_hton_def ip_ntoh_def ip_hton_def udp_ntoh_def udp_hton_def icmp_ntoh_def icmp_hton_def
      arp_ntoh_def arp_hton_def c l d)
qed

lemma htons_htons [simp]: "htons (htons x) = x"
proof -
  have a: "get16 (swap16 0 (swap16 0 m)) 0 = get16 m 0" for m :: mem by simp
  have "htons (htons (get16 m 0)) = get16 m 0" for m using a [of m] by (simp add: swap16_def)
  from this [of "set16 0 x (\<lambda>_. 0)"] show ?thesis by simp
qed

section \<open>What the checksums compute\<close>

text \<open>The sum without a bound on its size, the reference of RFC 1071: a block is valid when it is divisible by 65535.\<close>

primrec wsum :: "nat \<Rightarrow> mem \<Rightarrow> u32 \<Rightarrow> nat" where
  "wsum 0 m a = 0"
| "wsum (Suc n) m a = unat (htons (get16 m a)) + wsum n m (a + 2)"

lemma half_less: "unat (x :: u16) < 65536" using unsigned_less [of x] by simp

lemma unat_ucast_half: "unat (ucast (x :: u16) :: u32) = unat x"
  using half_less [of x] by (simp add: unsigned_ucast_eq take_bit_nat_eq_self)

lemma wsum_bound: "wsum n m a \<le> 65535 * n"
proof (induction n arbitrary: a)
  case (Suc n)
  show ?case using Suc.IH [of "a + 2"] half_less [of "htons (get16 m a)"] by simp
qed simp

lemma sum16_wsum: "unat c + 65535 * n < 2 ^ 32 \<Longrightarrow> unat (sum16 n m a c) = unat c + wsum n m a"
proof (induction n arbitrary: a c)
  case (Suc n)
  let ?v = "ucast (htons (get16 m a)) :: u32"
  have v: "unat ?v < 65536" "unat ?v = unat (htons (get16 m a))" using half_less by (simp_all add: unat_ucast_half)
  have c: "unat (c + ?v) = unat c + unat ?v" using Suc.prems v(1) by (simp add: unat_word_ariths)
  have "unat (sum16 n m (a + 2) (c + ?v)) = unat (c + ?v) + wsum n m (a + 2)" by (rule Suc.IH) (use Suc.prems v(1) c in simp)
  then show ?case using c v(2) by simp
qed simp

lemma wsum_cong: "(\<And>x. inside a (2 * n) x \<Longrightarrow> m' x = m x) \<Longrightarrow> wsum n m' a = wsum n m a"
proof (induction n arbitrary: a)
  case (Suc n)
  have i: "inside a (2 * Suc n) x \<longleftrightarrow> x = a \<or> x = a + 1 \<or> inside (a + 2) (2 * n) x" for x
    using inside_Suc [of a "Suc (2 * n)" x] inside_Suc [of "a + 1" "2 * n" x] by (simp add: add.assoc)
  have "m' a = m a" "m' (a + 1) = m (a + 1)" using Suc.prems i by blast+
  moreover have "wsum n m' (a + 2) = wsum n m (a + 2)" by (rule Suc.IH) (use Suc.prems i in blast)
  ultimately show ?case by (simp add: get16_def)
qed simp

lemma mod_complement:
  assumes "(u :: nat) < 4294967296"
  shows "(4294967295 - u) mod 65536 = 65535 - u mod 65536"
proof -
  define a b where "a = u div 65536" and "b = u mod 65536"
  have u: "u = 65536 * a + b" "b < 65536" by (simp_all add: a_def b_def)
  have a: "a < 65536" using assms u by simp
  have "4294967295 - u = 65535 - b + (65535 - a) * 65536" using u a by simp
  then have "(4294967295 - u) mod 65536 = (65535 - b) mod 65536" by (simp only: mod_mult_self1)
  then show ?thesis unfolding b_def [symmetric] using u(2) by simp
qed

lemma fold16_value:
  assumes "unat c + unat c div 65536 < 2 ^ 32"
  shows "unat (fold16 c) = 65535 - (unat c + unat c div 65536) mod 65536"
proof -
  let ?x = "c + drop_bit 16 c"
  have x: "unat ?x = unat c + unat c div 65536" using assms by (simp add: unat_word_ariths unat_drop_bit_eq drop_bit_eq_div)
  have n: "unat (NOT ?x) = 4294967295 - unat ?x"
  proof -
    have "NOT ?x = - 1 - ?x" by (simp add: not_eq_complement)
    moreover have "unat (- 1 - ?x) = unat (- 1 :: u32) - unat ?x" by (rule unat_sub) (rule word_order.extremum)
    moreover have "unat (- 1 :: u32) = 4294967295" by (simp add: unsigned_minus_1_eq_mask mask_eq_exp_minus_1)
    ultimately show ?thesis by simp
  qed
  have "(0xffff :: u32) = mask 16" by (simp add: mask_eq_exp_minus_1)
  then have F: "fold16 c = take_bit 16 (NOT ?x)" by (simp add: fold16_def take_bit_eq_mask ac_simps)
  have "unat (fold16 c) = (4294967295 - unat ?x) mod 65536" unfolding F unsigned_take_bit_eq n by (simp add: take_bit_eq_mod)
  moreover have "(4294967295 - unat ?x) mod 65536 = 65535 - unat ?x mod 65536" by (rule mod_complement [OF unat_u32_less])
  ultimately show ?thesis using x by simp
qed

definition carries :: "nat \<Rightarrow> bool" where "carries s \<longleftrightarrow> 65536 \<le> s mod 65536 + s div 65536"

definition refold :: "nat \<Rightarrow> nat" where "refold s = (s + s div 65536) mod 65536"

lemma fold16_refold: "unat c < 2 ^ 31 \<Longrightarrow> unat (fold16 c) = 65535 - refold (unat c)"
  unfolding refold_def using div_le_dividend [of "unat c" 65536] by (intro fold16_value) simp

lemma refold_less: "refold s < 65536" by (simp add: refold_def)

text \<open>The sum of a block whose checksum field was zero, with the checksum put in: unless folding carries a second
  time the block is valid; if it does, the sum is off by one.\<close>

lemma checksum_added:
  assumes "S < 65535 * 65536"
  shows "refold (S + (65535 - refold S)) = (if S mod 65536 + S div 65536 < 65536 then 65535 else 0)"
    "(S + (65535 - refold S)) mod 65535 = (if S mod 65536 + S div 65536 < 65536 then 0 else 1)"
proof -
  define q r where "q = S div 65536" and "r = S mod 65536"
  have S: "S = 65536 * q + r" "r < 65536" "q < 65535" using assms by (simp_all add: q_def r_def)
  have f: "refold S = (r + q) mod 65536"
  proof -
    have e: "S + q = (r + q) + q * 65536" using S(1) by simp
    show ?thesis unfolding refold_def q_def [symmetric] e by (rule mod_mult_self1)
  qed
  show "refold (S + (65535 - refold S)) = (if r + q < 65536 then 65535 else 0)" (is "?A")
    and "(S + (65535 - refold S)) mod 65535 = (if r + q < 65536 then 0 else 1)" (is "?B")
  proof (atomize (full), cases "r + q < 65536")
    case True
    then have "S + (65535 - refold S) = 65535 * (q + 1)" using f S by simp
    moreover have "refold (65535 * (q + 1)) = 65535"
    proof -
      have e: "65535 * (q + 1) = 65536 * q + (65535 - q)" using S(3) by simp
      then have d: "(65535 * (q + 1)) div 65536 = q" by simp
      have "65535 * (q + 1) + q = 65536 * q + 65535" using S(3) by simp
      then show ?thesis unfolding refold_def d by simp
    qed
    ultimately show "?A \<and> ?B" using True by simp
  next
    case False
    then have "(r + q) mod 65536 = r + q - 65536" using S by (simp add: mod_if)
    then have e: "S + (65535 - refold S) = 65535 * (q + 2) + 1" using f S False by simp
    moreover have "refold (65535 * (q + 2) + 1) = 0"
    proof -
      have "65535 * (q + 2) + 1 = 65536 * (q + 1) + (65535 - q)" using S(3) by simp
      then have d: "(65535 * (q + 2) + 1) div 65536 = q + 1" by simp
      have "65535 * (q + 2) + 1 + (q + 1) = 65536 * (q + 2)" using S(3) by simp
      then show ?thesis unfolding refold_def d by simp
    qed
    moreover have "(65535 * (q + 2) + 1) mod 65535 = 1" by (simp add: mod_mult_self4 add.commute)
    ultimately show "?A \<and> ?B" using False by simp
  qed
qed

lemma unat_ucast_word: "unat (x :: u32) < 65536 \<Longrightarrow> unat (ucast x :: u16) = unat x"
  by (simp add: unsigned_ucast_eq take_bit_nat_eq_self)

text \<open>The header sum, and the checksums as functions of the sums.\<close>

lemma ipcksum_refold:
  "unat (ipcksum m p) = (if refold (wsum 10 m (p + 14)) = 0 then 0 else 65535 - refold (wsum 10 m (p + 14)))"
proof -
  let ?s = "sum16 10 m (p + 14) 0"
  have s: "unat ?s = wsum 10 m (p + 14)" "wsum 10 m (p + 14) \<le> 655350"
    using sum16_wsum [of 0 10 m "p + 14"] wsum_bound [of 10 m "p + 14"] by simp_all
  have f: "unat (fold16 ?s) = 65535 - refold (wsum 10 m (p + 14))" using fold16_refold [of ?s] s by simp
  have e: "fold16 ?s = 0xffff \<longleftrightarrow> refold (wsum 10 m (p + 14)) = 0"
  proof -
    have "fold16 ?s = 0xffff \<longleftrightarrow> unat (fold16 ?s) = 65535" by (simp add: word_unat_eq_iff)
    then show ?thesis using f refold_less [of "wsum 10 m (p + 14)"] by auto
  qed
  have "unat (ucast (fold16 ?s) :: u16) = unat (fold16 ?s)" by (rule unat_ucast_word) (simp add: f)
  then show ?thesis using f e by (simp add: ipcksum_def Let_def)
qed

definition icmp_sum :: "mem \<Rightarrow> u32 \<Rightarrow> nat \<Rightarrow> nat" where
  "icmp_sum m buf n = wsum (n div 2) m buf + (if odd n then 256 * unat (m (buf + of_nat (n - 1))) else 0)"

lemma icmp_cksum_refold:
  assumes "n < 65536"
  shows "unat (icmp_cksum m buf (int n)) = 65535 - refold (icmp_sum m buf n)"
proof -
  let ?k = "n div 2" and ?s = "sum16 (n div 2) m buf 0"
  have s: "unat ?s = wsum ?k m buf" "wsum ?k m buf \<le> 65535 * ?k"
    using sum16_wsum [of 0 ?k m buf] wsum_bound [of ?k m buf] assms by simp_all
  have k: "?k \<le> 32767" using assms by simp
  define c where "c = (if odd n then ?s + (0xFFFF AND push_bit 8 (ucast (m (buf + of_nat (n - 1))))) else ?s)"
  have cv: "unat c = icmp_sum m buf n"
  proof (cases "odd n")
    case True
    let ?b = "m (buf + of_nat (n - 1))"
    have b: "unat ?b < 256" using unsigned_less [of ?b] by simp
    have k16: "(0xFFFF :: u32) = mask 16" by (simp add: mask_eq_exp_minus_1)
    have "(0xFFFF :: u32) AND push_bit 8 (ucast ?b) = push_bit 8 (ucast ?b)"
      unfolding k16 by (rule bit_eqI) (auto simp: bit_simps dest: byte_bit)
    moreover have ub: "unat (ucast ?b :: u32) = unat ?b" using b by (simp add: unsigned_ucast_eq take_bit_nat_eq_self)
    have "unat (push_bit 8 (ucast ?b) :: u32) = 256 * unat ?b"
      using b ub by (simp add: push_bit_eq_mult unat_word_ariths)
    moreover note this
    ultimately have "unat (?s + (0xFFFF AND push_bit 8 (ucast ?b))) = unat ?s + 256 * unat ?b"
      using s k b by (simp add: unat_word_ariths)
    then show ?thesis using True s(1) by (simp add: c_def icmp_sum_def)
  qed (use s(1) in \<open>simp add: c_def icmp_sum_def\<close>)
  have "unat (m (buf + of_nat (n - 1))) < 256" using unsigned_less [of "m (buf + of_nat (n - 1))"] by simp
  then have "icmp_sum m buf n \<le> 65535 * 32767 + 65280" using s(2) k by (auto simp: icmp_sum_def)
  then have f: "unat (fold16 c) = 65535 - refold (icmp_sum m buf n)" using fold16_refold [of c] cv by simp
  have "icmp_cksum m buf (int n) = ucast (fold16 c)"
  proof -
    have "nat (int n div 2) = n div 2" by (simp add: nat_div_distrib)
    moreover have "int n mod 2 \<noteq> 0 \<longleftrightarrow> odd n" by presburger
    moreover have "odd n \<Longrightarrow> 2 * (n div 2) = n - 1" by presburger
    ultimately show ?thesis by (auto simp: icmp_cksum_def c_def Let_def)
  qed
  then show ?thesis using unat_ucast_word [of "fold16 c"] f by simp
qed

section \<open>Headers and messages that pass the check\<close>

lemma refold_valid: "s mod 65535 = 0 \<Longrightarrow> 0 < s \<Longrightarrow> s < 65535 * 65536 \<Longrightarrow> refold s = 65535"
proof -
  assume a: "s mod 65535 = 0" "0 < s" "s < 65535 * 65536"
  then obtain k where "s = 65535 * k" by auto
  then obtain j where s: "s = 65535 * (j + 1)" "j < 65535" using a by (cases k) auto
  have e: "s = 65536 * j + (65535 - j)" using s by simp
  then have d: "s div 65536 = j" by simp
  have "s + j = 65535 + j * 65536" using e s(2) by simp
  then have "refold s = 65535 mod 65536" unfolding refold_def d by (simp only: mod_mult_self1)
  then show ?thesis by simp
qed

text \<open>Every header that is valid by RFC 1071, its ten words adding up to a multiple of 65535, passes the check of
  \<open>ip_in\<close>; of the others, exactly those whose folded sum carries to 65536 pass it too.\<close>

theorem ipcksum_accepts:
  "ipcksum m p = 0 \<longleftrightarrow> wsum 10 m (p + 14) mod 65535 = 0
    \<or> wsum 10 m (p + 14) mod 65536 + wsum 10 m (p + 14) div 65536 = 65536"
proof -
  let ?s = "wsum 10 m (p + 14)"
  define q r where "q = ?s div 65536" and "r = ?s mod 65536"
  have b: "?s \<le> 655350" using wsum_bound [of 10 m "p + 14"] by simp
  have qr: "?s = 65536 * q + r" "r < 65536" "q \<le> 9" using b by (simp_all add: q_def r_def)
  have "ipcksum m p = 0 \<longleftrightarrow> refold ?s = 0 \<or> refold ?s = 65535"
    using ipcksum_refold [of m p] refold_less [of ?s] by (auto simp: word_unat_eq_iff)
  moreover have f: "refold ?s = (r + q) mod 65536"
  proof -
    have e: "?s + q = (r + q) + q * 65536" using qr(1) by simp
    show ?thesis unfolding refold_def q_def [symmetric] e by (rule mod_mult_self1)
  qed
  have "refold ?s = 0 \<longleftrightarrow> r + q = 0 \<or> r + q = 65536" unfolding f using qr by (auto simp: mod_if)
  moreover have "refold ?s = 65535 \<longleftrightarrow> r + q = 65535" unfolding f using qr by (auto simp: mod_if)
  moreover have "?s mod 65535 = 0 \<longleftrightarrow> r + q = 0 \<or> r + q = 65535"
  proof -
    have e: "?s = (r + q) + q * 65535" using qr(1) by simp
    have "?s mod 65535 = (r + q) mod 65535" unfolding e by (rule mod_mult_self1)
    then show ?thesis using qr(2,3) by (auto simp: mod_if)
  qed
  ultimately show ?thesis unfolding q_def r_def by auto
qed

text \<open>The ten words of the header, the checksum among them.\<close>

lemma wsum_header:
  "wsum 10 m (p + 14) = unat (htons (get16 m (p + 24))) + (wsum 5 m (p + 14) + wsum 4 m (p + 26))"
  by (simp add: eval_nat_numeral add.assoc)

lemma header_set:
  "wsum 10 (set16 (p + 24) v m) (p + 14) = unat (htons v) + (wsum 5 m (p + 14) + wsum 4 m (p + 26))"
proof -
  have u: "unat (- 1 :: u32) = 4294967295" by (simp add: unsigned_minus_1_eq_mask mask_eq_exp_minus_1)
  have "wsum 5 (set16 (p + 24) v m) (p + 14) = wsum 5 m (p + 14)"
    by (rule wsum_cong) (auto simp: inside_def set16_def add.assoc u)
  moreover have "wsum 4 (set16 (p + 24) v m) (p + 26) = wsum 4 m (p + 26)"
    by (rule wsum_cong) (auto simp: inside_def set16_def add.assoc u)
  ultimately show ?thesis by (simp add: wsum_header)
qed

text \<open>C32. The checksum \<open>ip_out\<close> puts into a header always passes the check of \<open>ip_in\<close> on another machine that runs this
  code, but when folding the sum carries twice the header is not valid by RFC 1071, and other machines drop it.\<close>

theorem ip_header_checksum:
  assumes "m0 = set16 (p + 24) 0 m" "m1 = set16 (p + 24) (htons (ipcksum m0 p)) m0"
  shows "ipcksum m1 p = 0 \<and> wsum 10 m1 (p + 14) mod 65535 = (if carries (wsum 10 m0 (p + 14)) then 1 else 0)"
proof -
  define S C where "S = wsum 10 m0 (p + 14)" and "C = ipcksum m0 p"
  have z: "htons 0 = 0" by (simp add: htons_def)
  have S: "S = wsum 5 m (p + 14) + wsum 4 m (p + 26)" unfolding S_def assms(1) header_set by (simp add: z)
  have "m1 = set16 (p + 24) (htons C) m" using assms by (simp add: C_def)
  then have S1: "wsum 10 m1 (p + 14) = unat C + S" using header_set [of p "htons C" m] by (simp add: S)
  have b: "S \<le> 589815" using wsum_bound [of 5 m "p + 14"] wsum_bound [of 4 m "p + 26"] S by simp
  note added = checksum_added [of S, unfolded linorder_not_le [symmetric]]
  have "unat C = (if refold S = 0 then 0 else 65535 - refold S)" using ipcksum_refold [of m0 p] by (simp add: C_def S_def)
  then consider "refold S = 0" "wsum 10 m1 (p + 14) = S" | "wsum 10 m1 (p + 14) = S + (65535 - refold S)"
    using S1 by (auto split: if_splits)
  then have r: "refold (wsum 10 m1 (p + 14)) \<in> {0, 65535}"
    and v: "wsum 10 m1 (p + 14) mod 65535 = (if carries (wsum 10 m0 (p + 14)) then 1 else 0)"
    using b added(1) added(2) by (cases; auto simp: carries_def S_def [symmetric] split: if_splits)+
  have "unat (ipcksum m1 p) = 0" using ipcksum_refold [of m1 p] r by auto
  then show ?thesis using v by (simp add: word_unat_eq_iff)
qed

theorem ip_header_checksum_witness:
  "let m0 = set16 24 0 ((\<lambda>_. 0)(14 := 0x45)); m1 = set16 24 (htons (ipcksum m0 0)) m0 in ipcksum m1 0 = 0 \<and> wsum 10 m1 14 mod 65535 = 0"
proof -
  define m0 m1 where "m0 = set16 (0 + 24) 0 ((\<lambda>_. 0)(14 := 0x45 :: u8))" and "m1 = set16 (0 + 24) (htons (ipcksum m0 0)) m0"
  have n: "wsum 10 m0 14 = 0x4500" unfolding m0_def by code_simp
  show ?thesis using ip_header_checksum [OF m0_def m1_def] n by (simp add: Let_def m0_def m1_def carries_def)
qed

lemma icmp_sum_set:
  assumes "4 \<le> n" "n < 65536"
  shows "icmp_sum (set16 (b + 2) v m) b n = unat (htons v) + icmp_sum (set16 (b + 2) 0 m) b n"
proof -
  obtain k where k: "n div 2 = Suc (Suc k)" "k \<le> 32765"
  proof -
    have "2 \<le> n div 2" "n div 2 \<le> 32767" using assms by simp_all
    then show ?thesis by (intro that [of "n div 2 - 2"]) simp_all
  qed
  have u: "unat (- 1 :: u32) = 4294967295" "unat (- 2 :: u32) = 4294967294"
    by (simp_all add: unsigned_minus_1_eq_mask mask_eq_exp_minus_1 unat_bintrunc_neg take_bit_eq_mod)
  have "wsum k (set16 (b + 2) w m) (b + 4) = wsum k m (b + 4)" for w
    by (rule wsum_cong) (use k(2) in \<open>auto simp: inside_def set16_def add.assoc u\<close>)
  moreover have "get16 (set16 (b + 2) w m) b = get16 m b" for w by (rule get16_other) (auto simp: add.assoc)
  moreover have "set16 (b + 2) w m (b + of_nat (n - 1)) = m (b + of_nat (n - 1))" if odd: "odd n" for w
  proof (rule set16_other)
    have "unat (of_nat (n - 1) :: u32) = n - 1" using assms(2) by (intro unat_of_nat_u32) simp
    moreover have "n - 1 \<noteq> 2" "n - 1 \<noteq> 3" using assms(1) odd by presburger+
    ultimately have "(of_nat (n - 1) :: u32) \<noteq> 2" "(of_nat (n - 1) :: u32) \<noteq> 3" by (simp add: word_unat_eq_iff)+
    then show "b + of_nat (n - 1) \<noteq> b + 2" "b + of_nat (n - 1) \<noteq> b + 2 + 1" by (auto simp: add.assoc)
  qed
  moreover have "htons 0 = 0" by (simp add: htons_def)
  ultimately show ?thesis by (simp add: icmp_sum_def k(1) add.assoc)
qed

lemma icmp_sum_bound: "n < 65536 \<Longrightarrow> icmp_sum m b n \<le> 65535 * 32767 + 65280"
proof -
  assume n: "n < 65536"
  have "unat (m (b + of_nat (n - 1))) < 256" using unsigned_less [of "m (b + of_nat (n - 1))"] by simp
  moreover have "wsum (n div 2) m b \<le> 65535 * (n div 2)" by (rule wsum_bound)
  moreover have "n div 2 \<le> 32767" using n by simp
  ultimately show ?thesis by (auto simp: icmp_sum_def)
qed

text \<open>C33. An ICMP message sent with the checksum \<open>ip_out\<close> computes is accepted by \<open>ip_in\<close> unless folding its sum
  carries a second time; then the receiver, running the same code, drops the message.\<close>

theorem icmp_message_checksum:
  assumes "4 \<le> n" "n < 65536" "m0 = set16 (b + 2) 0 m" "m1 = set16 (b + 2) (htons (icmp_cksum m0 b (int n))) m0"
  shows "icmp_cksum m1 b (int n) = 0 \<longleftrightarrow> \<not> carries (icmp_sum m0 b n)"
proof -
  define S C where "S = icmp_sum m0 b n" and "C = icmp_cksum m0 b (int n)"
  have S1: "icmp_sum m1 b n = unat C + S"
  proof -
    have "m1 = set16 (b + 2) (htons C) m" by (simp add: C_def assms(3,4))
    then show ?thesis using icmp_sum_set [OF assms(1,2), of b "htons C" m] by (simp add: S_def assms(3))
  qed
  have b: "S < 65535 * 65536" using icmp_sum_bound [OF assms(2), of m0 b] by (simp add: S_def)
  have "unat C = 65535 - refold S" using icmp_cksum_refold [OF assms(2), of m0 b] by (simp add: C_def S_def)
  then have "refold (icmp_sum m1 b n) = (if carries S then 0 else 65535)"
    using S1 checksum_added(1) [OF b] by (simp add: carries_def not_le add.commute)
  then show ?thesis using icmp_cksum_refold [OF assms(2), of m1 b] by (simp add: word_unat_eq_iff S_def)
qed

theorem icmp_message_checksum_witness:
  "let m0 = set16 2 0 (\<lambda>_. 0); m1 = set16 2 (htons (icmp_cksum m0 0 (int 8))) m0 in icmp_cksum m1 0 (int 8) = 0"
proof -
  define m0 m1 where "m0 = set16 (0 + 2) 0 (\<lambda>_. 0 :: u8)" and "m1 = set16 (0 + 2) (htons (icmp_cksum m0 0 (int 8))) m0"
  have n: "icmp_sum m0 0 8 = 0" unfolding m0_def by code_simp
  show ?thesis using icmp_message_checksum [OF _ _ m0_def m1_def] n by (simp add: Let_def m0_def m1_def carries_def)
qed

end
