(* ===== verification/Net.thy ===== *)
theory Net
  imports Packet Bufpool
begin

text \<open>
  The state of the network stack: \<open>NetData\<close>, the ARP cache, the tables of UDP and ICMP endpoints and the queue of
  outgoing datagrams (\<^verbatim>\<open>include/net.h\<close>, \<^verbatim>\<open>arp.h\<close>, \<^verbatim>\<open>udp.h\<close>,
  \<^verbatim>\<open>icmp.h\<close>, \<^verbatim>\<open>ip.h\<close>), on top of the buffer pools and the kernel.

  A function of the stack that calls another one which may give the processor away is cut at the call: it
  pushes what it has left to do as a \<open>frame\<close> onto the stack of its process and makes the call. The value of a call is
  left in \<open>conts\<close> as for every system call; \<open>Ip.run_frame\<close> goes on when the process runs again. Packets and
  buffers of users are bytes of \<open>nmem\<close>; the words that link free buffers are kept apart, in \<open>bpmem\<close>.

  Of the Ethernet driver the functions \<open>ethwrite\<close> and \<open>ethread\<close> are modelled with their semaphores: \<open>txring\<close> is
  what has been handed to the device, \<open>rxring\<close> what the device has received. The device itself is the environment.
\<close>

section \<open>Data\<close>

datatype arstate = AR_FREE | AR_PENDING | AR_RESOLVED
datatype udstate = UDP_FREE | UDP_USED | UDP_RECV
datatype icstate = ICMP_FREE | ICMP_USED | ICMP_RECV

record network =
  ipucast :: u32
  ipbcast :: u32
  ipmask :: u32
  ipprefix :: u32
  iprouter :: u32
  ipvalid :: bool
  ethucast :: "u8 list"
  ethbcast :: "u8 list"

record arpentry =
  arstate :: arstate
  arpaddr :: u32
  arpid :: int
  arhaddr :: "u8 list"

record udpentry =
  udstate :: udstate
  udremip :: u32
  udremport :: u16
  udlocport :: u16
  udhead :: int
  udtail :: int
  udcount :: int
  udpid :: int
  udqueue :: "int \<Rightarrow> u32"

record icmpentry =
  icstate :: icstate
  icremip :: u32
  ichead :: int
  ictail :: int
  iccount :: int
  icpid :: int
  icqueue :: "int \<Rightarrow> u32"

record iqentry =
  iqhead :: int
  iqtail :: int
  iqsem :: int
  iqbuf :: "int \<Rightarrow> u32"

text \<open>What is to be written to the device: a buffer, or a packet in a local variable.\<close>

datatype source = Buf u32 | Local "u8 list"

datatype frame =
    FReturn cont
  | FEthWrite source int | FEthRead u32
  | FArpSent u32 u32 int nat "u8 list" | FArpAnswer u32 u32 int nat "u8 list" | FArpIn u32 | FArpDone u32
  | FIpOut u32 | FIpSend u32 | FIpout | FIpoutTake | FIpoutSend u32
  | FUdpRecv int u32 int | FUdpRecvaddr int u32 u32 u32 int
  | FUdpSend u32 u32 u16 u16 u32 int | FUdpSendto int u32 u16 u32 int
  | FIcmpEcho u32 | FIcmpEchoFree u32 | FIcmpRecv int u32 int | FIcmpSend u32 u16 u16 u16 u32 int
  | FNetin | FNetinRead | FNetinDemux u32

record net =
  npl :: pools
  nmem :: mem
  netdata :: network
  netbufpool :: int
  arpcache :: "int \<Rightarrow> arpentry"
  udptab :: "int \<Rightarrow> udpentry"
  icmptab :: "int \<Rightarrow> icmpentry"
  ipoqueue :: iqentry
  ipident :: u32
  send_ident :: u16
  sendto_ident :: u16
  nstack :: "int \<Rightarrow> frame list"
  ethup :: bool
  osem :: int
  isem :: int
  txring :: "u8 list list"
  rxring :: "u8 list list"

abbreviation ETH_ARP :: u16 where "ETH_ARP \<equiv> 0x0806"
abbreviation ETH_IP :: u16 where "ETH_IP \<equiv> 0x0800"
abbreviation IP_BCAST :: u32 where "IP_BCAST \<equiv> 0xffffffff"
abbreviation IP_UDP :: u8 where "IP_UDP \<equiv> 17"
abbreviation IP_ICMP :: u8 where "IP_ICMP \<equiv> 1"
abbreviation UDP_SLOTS :: int where "UDP_SLOTS \<equiv> 6"
abbreviation UDP_QSIZ :: int where "UDP_QSIZ \<equiv> 8"
abbreviation ICMP_SLOTS :: int where "ICMP_SLOTS \<equiv> 10"
abbreviation ICMP_QSIZ :: int where "ICMP_QSIZ \<equiv> 8"
abbreviation IP_OQSIZ :: int where "IP_OQSIZ \<equiv> 8"
abbreviation ARP_SIZ :: int where "ARP_SIZ \<equiv> 16"
abbreviation ARP_RETRY :: nat where "ARP_RETRY \<equiv> 3"
abbreviation ETH_HDR_LEN :: int where "ETH_HDR_LEN \<equiv> 14"
abbreviation IP_HDR_LEN :: int where "IP_HDR_LEN \<equiv> 20"
abbreviation PACKLEN :: int where "PACKLEN \<equiv> 1514"

section \<open>Calls and returns\<close>

definition me :: "net \<Rightarrow> int" where "me N = currpid (bker (npl N))"

definition push_frame :: "frame \<Rightarrow> net \<Rightarrow> net" where
  "push_frame f N = N\<lparr>nstack := (nstack N)(me N := f # nstack N (me N))\<rparr>"

definition on_pools :: "(pools \<Rightarrow> pools option) \<Rightarrow> net \<Rightarrow> net option" where
  "on_pools g N = g (npl N) \<bind> (\<lambda>P. Some (N\<lparr>npl := P\<rparr>))"

definition on_kern :: "(kstate \<Rightarrow> kstate option) \<Rightarrow> net \<Rightarrow> net option" where
  "on_kern g N = g (bker (npl N)) \<bind> (\<lambda>s. Some (N\<lparr>npl := (npl N)\<lparr>bker := s\<rparr>\<rparr>))"

definition ndone :: "cont \<Rightarrow> net \<Rightarrow> net option" where
  "ndone c N = on_kern (\<lambda>s. Some (set_cont (me N) c s)) N"

text \<open>The value of the last call of the running process.\<close>

definition msgval :: "net \<Rightarrow> u32" where
  "msgval N = (case conts (bker (npl N)) (me N) of RetMsg v \<Rightarrow> v | Ret r \<Rightarrow> of_int r | _ \<Rightarrow> 0)"

definition intval :: "net \<Rightarrow> int" where "intval N = retval (bker (npl N)) (me N)"

text \<open>\<open>freebuf(pkt); \<dots>; return v\<close>, and \<open>getbuf\<close> with the rest of its caller.\<close>

definition free_and_return :: "u32 \<Rightarrow> cont \<Rightarrow> net \<Rightarrow> net option" where
  "free_and_return pkt c N = on_pools (freebuf pkt) (push_frame (FReturn c) N)"

definition getbuf_then :: "frame \<Rightarrow> net \<Rightarrow> net option" where
  "getbuf_then f N = on_pools (getbuf (netbufpool N)) (push_frame f N)"

definition upd_mem :: "(mem \<Rightarrow> mem) \<Rightarrow> net \<Rightarrow> net" where "upd_mem f N = N\<lparr>nmem := f (nmem N)\<rparr>"

definition set_byte :: "u32 \<Rightarrow> u8 \<Rightarrow> mem \<Rightarrow> mem" where "set_byte a v m = m(a := v)"

primrec set_bytes :: "u32 \<Rightarrow> u8 list \<Rightarrow> mem \<Rightarrow> mem" where
  "set_bytes a [] m = m"
| "set_bytes a (b # bs) m = set_bytes (a + 1) bs (m(a := b))"

section \<open>The Ethernet driver\<close>

definition ethwrite :: "source \<Rightarrow> int \<Rightarrow> net \<Rightarrow> net option" where
  "ethwrite buf len N =
     (if \<not> ethup N \<or> len < ETH_HDR_LEN \<or> 1518 < len then ndone (Ret SYSERR) N
      else if len < 17 then ndone (Ret SYSERR) N
      else on_kern (wait (osem N)) (push_frame (FEthWrite buf len) N))"

definition ethwrite_finish :: "source \<Rightarrow> int \<Rightarrow> net \<Rightarrow> net option" where
  "ethwrite_finish buf len N =
     (let bs = (case buf of Buf a \<Rightarrow> bytes_at (nmem N) a (nat len) | Local xs \<Rightarrow> take (nat len) xs)
      in ndone (Ret len) (N\<lparr>txring := txring N @ [bs]\<rparr>))"

definition ethread :: "u32 \<Rightarrow> int \<Rightarrow> net \<Rightarrow> net option" where
  "ethread buf len N =
     (if \<not> ethup N \<or> len < ETH_HDR_LEN then ndone (Ret SYSERR) N
      else on_kern (wait (isem N)) (push_frame (FEthRead buf) N))"

definition ethread_finish :: "u32 \<Rightarrow> net \<Rightarrow> net option" where
  "ethread_finish buf N =
     (case rxring N of
        [] \<Rightarrow> ndone (Ret SYSERR) N
      | bs # rest \<Rightarrow> ndone (Ret (int (length bs))) (upd_mem (set_bytes buf bs) (N\<lparr>rxring := rest\<rparr>)))"

section \<open>The queue of outgoing datagrams\<close>

definition iq_put :: "u32 \<Rightarrow> iqentry \<Rightarrow> iqentry" where
  "iq_put pkt q =
     (let q1 = q\<lparr>iqbuf := (iqbuf q)(iqtail q := pkt), iqtail := iqtail q + 1\<rparr>
      in if IP_OQSIZ \<le> iqtail q1 then q1\<lparr>iqtail := 0\<rparr> else q1)"

definition iq_take :: "iqentry \<Rightarrow> u32 \<times> iqentry" where
  "iq_take q =
     (let pkt = iqbuf q (iqhead q); q1 = q\<lparr>iqhead := iqhead q + 1\<rparr>
      in (pkt, if IP_OQSIZ \<le> iqhead q1 then q1\<lparr>iqhead := 0\<rparr> else q1))"

definition ip_enqueue :: "u32 \<Rightarrow> net \<Rightarrow> net option" where
  "ip_enqueue pkt N =
     on_kern (semcount (iqsem (ipoqueue N))) N \<bind> (\<lambda>N1.
     if IP_OQSIZ \<le> intval N1 then free_and_return pkt (Ret SYSERR) N1
     else let N2 = N1\<lparr>ipoqueue := iq_put pkt (ipoqueue N1)\<rparr>
          in on_kern (signal (iqsem (ipoqueue N2))) (push_frame (FReturn (Ret OK)) N2))"

section \<open>Circular queues\<close>

definition ring :: "(int \<Rightarrow> 'a) \<Rightarrow> int \<Rightarrow> nat \<Rightarrow> 'a list" where
  "ring q h n = map (\<lambda>k. q ((h + int k) mod 8)) [0..<n]"

lemma ring_0 [simp]: "ring q h 0 = []" by (simp add: ring_def)

lemma length_ring [simp]: "length (ring q h n) = n" by (simp add: ring_def)

lemma ring_Nil [simp]: "ring q h n = [] \<longleftrightarrow> n = 0" by (simp add: ring_def)

lemma mod8_apart: "a < 8 \<Longrightarrow> b < 8 \<Longrightarrow> (h + int a) mod 8 = (h + int b) mod 8 \<Longrightarrow> a = b"
proof -
  assume a: "a < 8" "b < 8" "(h + int a) mod 8 = (h + int b) mod 8"
  have "8 dvd (h + int a) - (h + int b)" by (rule iffD1 [OF mod_eq_dvd_iff a(3)])
  moreover have "(h + int a) - (h + int b) = int a - int b" by (rule add_diff_cancel_left)
  ultimately have "8 dvd int a - int b" by (simp only:)
  then have "int a mod 8 = int b mod 8" by (rule iffD2 [OF mod_eq_dvd_iff])
  then show "a = b" using a(1,2) by simp
qed

lemma next8: "(x + 1) mod 8 = (if (x :: int) mod 8 = 7 then 0 else x mod 8 + 1)"
proof -
  have "0 \<le> x mod 8" "x mod 8 < 8" by simp_all
  moreover have "(x + 1) mod 8 = (x mod 8 + 1) mod 8" by (simp add: mod_add_left_eq)
  ultimately show ?thesis by (cases "x mod 8 = 7") simp_all
qed

lemma ring_put:
  assumes "n < 8" "t = (h + int n) mod 8"
  shows "ring (q(t := x)) h (Suc n) = ring q h n @ [x]"
proof -
  have "(q(t := x)) ((h + int k) mod 8) = q ((h + int k) mod 8)" if "k < n" for k
    using mod8_apart [of k n h] that assms by auto
  then show ?thesis by (simp add: ring_def assms(2))
qed

lemma ring_take:
  assumes "0 \<le> h" "h < 8"
  shows "ring q h (Suc n) = q h # ring q ((h + 1) mod 8) n"
proof -
  have "ring q h (Suc n) = q ((h + int 0) mod 8) # map (\<lambda>k. q ((h + int (Suc k)) mod 8)) [0..<n]"
    unfolding ring_def by (simp add: upt_conv_Cons map_Suc_upt [symmetric] del: upt_Suc)
  moreover have "(h + int (Suc k)) mod 8 = ((h + 1) mod 8 + int k) mod 8" for k by (simp add: mod_add_left_eq mod_add_right_eq ac_simps)
  ultimately show ?thesis using assms by (simp add: ring_def)
qed

lemma ring_wrap: "(0 :: int) \<le> h \<Longrightarrow> h < 8 \<Longrightarrow> (if 8 \<le> h + 1 then 0 else h + 1) = (h + 1) mod 8"
  using next8 [of h] by auto

text \<open>The output queue together with the number of packets on it, which its semaphore counts.\<close>

definition iq_good :: "iqentry \<times> nat \<Rightarrow> bool" where
  "iq_good = (\<lambda>(q, n). 0 \<le> iqhead q \<and> iqhead q < 8 \<and> n \<le> 8 \<and> iqtail q = (iqhead q + int n) mod 8)"

definition iq_packets :: "iqentry \<times> nat \<Rightarrow> u32 list" where
  "iq_packets = (\<lambda>(q, n). ring (iqbuf q) (iqhead q) n)"

interpretation ip_queue: fifo iq_good iq_packets "\<lambda>(q, n) _. n < 8" "\<lambda>p (q, n). (iq_put p q, Suc n)"
  "\<lambda>(q, n). (fst (iq_take q), snd (iq_take q), n - 1)"
proof unfold_locales
  fix s :: "iqentry \<times> nat" and x
  obtain q n where s: "s = (q, n)" by fastforce
  have r: "(iqhead q + int n) mod 8 < 8" by simp
  have w: "(iqhead q + (1 + int n)) mod 8 = (if (iqhead q + int n) mod 8 = 7 then 0 else (iqhead q + int n) mod 8 + 1)"
    using next8 [of "iqhead q + int n"] by (simp add: ac_simps)
  show "iq_good s \<Longrightarrow> (case s of (q, n) \<Rightarrow> \<lambda>_. n < 8) x \<Longrightarrow> iq_good (case s of (q, n) \<Rightarrow> (iq_put x q, Suc n))"
    using w r by (auto simp: s iq_good_def iq_put_def Let_def)
  show "iq_good s \<Longrightarrow> (case s of (q, n) \<Rightarrow> \<lambda>_. n < 8) x \<Longrightarrow> iq_packets (case s of (q, n) \<Rightarrow> (iq_put x q, Suc n)) = iq_packets s @ [x]"
    by (auto simp: s iq_good_def iq_packets_def iq_put_def Let_def ring_put)
next
  fix s :: "iqentry \<times> nat"
  assume g: "iq_good s" and ne: "iq_packets s \<noteq> []"
  obtain q n where s: "s = (q, Suc n)" using ne by (cases s; cases "snd s") (auto simp: iq_packets_def)
  have w: "(iqhead q + int (Suc n)) mod 8 = ((iqhead q + 1) mod 8 + int n) mod 8" by (simp add: mod_add_left_eq mod_add_right_eq ac_simps)
  have h: "0 \<le> iqhead q" "iqhead q < 8" using g by (simp_all add: s iq_good_def)
  have t: "iqhead (snd (iq_take q)) = (iqhead q + 1) mod 8" "iqtail (snd (iq_take q)) = iqtail q" "iqbuf (snd (iq_take q)) = iqbuf q"
    using ring_wrap [OF h] by (auto simp: iq_take_def Let_def)
  show "iq_good (snd (case s of (q, n) \<Rightarrow> (fst (iq_take q), snd (iq_take q), n - 1)))"
    using g w by (simp add: s iq_good_def t)
  show "iq_packets s = fst (case s of (q, n) \<Rightarrow> (fst (iq_take q), snd (iq_take q), n - 1))
    # iq_packets (snd (case s of (q, n) \<Rightarrow> (fst (iq_take q), snd (iq_take q), n - 1)))"
    using ring_take [OF h] by (simp add: s iq_packets_def t) (simp add: iq_take_def Let_def)
qed

section \<open>What calls leave alone\<close>

lemma on_pools_result: "on_pools g N = Some N' \<Longrightarrow> \<exists>P. g (npl N) = Some P \<and> N' = N\<lparr>npl := P\<rparr>"
  by (auto simp: on_pools_def bind_eq_Some_conv)

lemma on_kern_result: "on_kern g N = Some N' \<Longrightarrow> \<exists>s. g (bker (npl N)) = Some s \<and> N' = N\<lparr>npl := (npl N)\<lparr>bker := s\<rparr>\<rparr>"
  by (auto simp: on_kern_def bind_eq_Some_conv)

lemma ndone_eq: "ndone c N = Some (N\<lparr>npl := (npl N)\<lparr>bker := set_cont (me N) c (bker (npl N))\<rparr>\<rparr>)"
  by (simp add: ndone_def on_kern_def)

text \<open>\<open>always m J\<close>: if the step \<open>m\<close> leads anywhere, then to a state with \<open>J\<close>.\<close>

definition always :: "'a option \<Rightarrow> ('a \<Rightarrow> bool) \<Rightarrow> bool" where "always m J \<longleftrightarrow> (\<forall>x. m = Some x \<longrightarrow> J x)"

named_theorems always_rules \<open>steps of the network stack and what they keep\<close>

lemma always_simps [simp]: "always None J" "always (Some x) J \<longleftrightarrow> J x"
  by (simp_all add: always_def)

lemma always_bind: "always m J \<Longrightarrow> (\<And>x. J x \<Longrightarrow> always (f x) K) \<Longrightarrow> always (m \<bind> f) K"
  by (auto simp: always_def bind_eq_Some_conv)

lemma alwaysD: "always m J \<Longrightarrow> m = Some x \<Longrightarrow> J x" by (simp add: always_def)

end
