(* ===== verification/Udp.thy ===== *)
theory Udp
  imports Net
begin

text \<open>
  UDP endpoints: \<^verbatim>\<open>net/udp.c\<close> except the functions that send, which are in \<open>Ip\<close>. Delivery of
  an incoming packet, registration, receiving with a timeout and release.
\<close>

section \<open>Operations\<close>

definition upd_udp :: "int \<Rightarrow> (udpentry \<Rightarrow> udpentry) \<Rightarrow> net \<Rightarrow> net" where
  "upd_udp i f N = N\<lparr>udptab := (udptab N)(i := f (udptab N i))\<rparr>"

definition udp_init :: "net \<Rightarrow> net" where
  "udp_init N = fold (\<lambda>i. upd_udp i (\<lambda>e. e\<lparr>udstate := UDP_FREE\<rparr>)) [0..UDP_SLOTS - 1] N"

definition udp_match :: "mem \<Rightarrow> u32 \<Rightarrow> udpentry \<Rightarrow> bool" where
  "udp_match m p e \<longleftrightarrow> get16 m (p + net_udpdport) = udlocport e
     \<and> (udremport e = 0 \<or> get16 m (p + net_udpsport) = udremport e)
     \<and> (udremip e = 0 \<or> get32 m (p + net_ipsrc) = udremip e)"

definition udp_accepts :: "mem \<Rightarrow> u32 \<Rightarrow> udpentry \<Rightarrow> bool" where
  "udp_accepts m p e \<longleftrightarrow> udstate e \<noteq> UDP_FREE \<and> udp_match m p e \<and> udcount e < UDP_QSIZ"

definition ud_put :: "u32 \<Rightarrow> udpentry \<Rightarrow> udpentry" where
  "ud_put pkt e =
     (let e1 = e\<lparr>udcount := udcount e + 1, udqueue := (udqueue e)(udtail e := pkt), udtail := udtail e + 1\<rparr>
      in if UDP_QSIZ \<le> udtail e1 then e1\<lparr>udtail := 0\<rparr> else e1)"

definition ud_take :: "udpentry \<Rightarrow> u32 \<times> udpentry" where
  "ud_take e =
     (let pkt = udqueue e (udhead e); e1 = e\<lparr>udhead := udhead e + 1\<rparr>;
          e2 = (if UDP_QSIZ \<le> udhead e1 then e1\<lparr>udhead := 0\<rparr> else e1)
      in (pkt, e2\<lparr>udcount := udcount e2 - 1\<rparr>))"

definition udp_in :: "u32 \<Rightarrow> net \<Rightarrow> net option" where
  "udp_in pktptr N =
     (case find (\<lambda>i. udp_accepts (nmem N) pktptr (udptab N i)) [0..UDP_SLOTS - 1] of
        Some i \<Rightarrow>
          let N1 = upd_udp i (ud_put pktptr) N in
          if udstate (udptab N1 i) = UDP_RECV
          then on_kern (send (udpid (udptab N1 i)) (of_int OK)) (upd_udp i (\<lambda>e. e\<lparr>udstate := UDP_USED\<rparr>) N1)
          else Some N1
      | None \<Rightarrow> on_pools (freebuf pktptr) N)"

definition udp_same :: "u32 \<Rightarrow> u16 \<Rightarrow> u16 \<Rightarrow> udpentry \<Rightarrow> bool" where
  "udp_same remip remport locport e \<longleftrightarrow> udstate e \<noteq> UDP_FREE
     \<and> remport = udremport e \<and> locport = udlocport e \<and> remip = udremip e"

definition udp_register :: "u32 \<Rightarrow> u16 \<Rightarrow> u16 \<Rightarrow> net \<Rightarrow> net option" where
  "udp_register remip remport locport N =
     (if \<exists>slot\<in>set [0..UDP_SLOTS - 1]. udp_same remip remport locport (udptab N slot) then ndone (Ret SYSERR) N
      else case find (\<lambda>slot. udstate (udptab N slot) = UDP_FREE) [0..UDP_SLOTS - 1] of
          None \<Rightarrow> ndone (Ret SYSERR) N
        | Some slot \<Rightarrow> ndone (Ret slot) (upd_udp slot (\<lambda>e. e\<lparr>udlocport := locport, udremport := remport,
            udremip := remip, udcount := 0, udhead := 0, udtail := 0, udpid := - 1, udstate := UDP_USED\<rparr>) N))"

text \<open>The packet is taken from the queue, its data copied up to the length of the buffer, and the packet freed.\<close>

definition udp_copy :: "u32 \<Rightarrow> u32 \<Rightarrow> int \<Rightarrow> net \<Rightarrow> net option" where
  "udp_copy pkt buff len N =
     (let msglen = uint (get16 (nmem N) (pkt + net_udplen)) - 8;
          msglen = (if len < msglen then len else msglen)
      in free_and_return pkt (Ret msglen) (upd_mem (\<lambda>m. memcpy_loop (nat msglen) m buff (pkt + net_udpdata)) N))"

definition udp_dequeue :: "int \<Rightarrow> net \<Rightarrow> u32 \<times> net" where
  "udp_dequeue slot N = (let (pkt, e) = ud_take (udptab N slot) in (pkt, upd_udp slot (\<lambda>_. e) N))"

definition udp_take :: "int \<Rightarrow> u32 \<Rightarrow> int \<Rightarrow> net \<Rightarrow> net option" where
  "udp_take slot buff len N = (let (pkt, N1) = udp_dequeue slot N in udp_copy pkt buff len N1)"

definition udp_take_addr :: "int \<Rightarrow> u32 \<Rightarrow> u32 \<Rightarrow> u32 \<Rightarrow> int \<Rightarrow> net \<Rightarrow> net option" where
  "udp_take_addr slot remip remport buff len N =
     (let (pkt, N1) = udp_dequeue slot N;
          N2 = upd_mem (\<lambda>m. set32 remip (get32 m (pkt + net_ipsrc)) m) N1;
          N3 = upd_mem (\<lambda>m. set16 remport (get16 m (pkt + net_udpsport)) m) N2
      in udp_copy pkt buff len N3)"

text \<open>\<open>udp_recv\<close> up to \<open>recvtime\<close>; \<open>f\<close> is what is done with the message and \<open>k\<close> what is done with a packet that is there.\<close>

definition udp_await :: "int \<Rightarrow> u32 \<Rightarrow> frame \<Rightarrow> (net \<Rightarrow> net option) \<Rightarrow> net \<Rightarrow> net option" where
  "udp_await slot timeout f k N =
     (if slot < 0 \<or> UDP_SLOTS \<le> slot then ndone (Ret SYSERR) N
      else if udstate (udptab N slot) \<noteq> UDP_USED then ndone (Ret SYSERR) N
      else if udcount (udptab N slot) = 0 then
        on_kern recvclr (push_frame f (upd_udp slot (\<lambda>e. e\<lparr>udstate := UDP_RECV, udpid := me N\<rparr>) N))
          \<bind> on_kern (recvtime (sint timeout))
      else k N)"

definition udp_recv :: "int \<Rightarrow> u32 \<Rightarrow> int \<Rightarrow> u32 \<Rightarrow> net \<Rightarrow> net option" where
  "udp_recv slot buff len timeout = udp_await slot timeout (FUdpRecv slot buff len) (udp_take slot buff len)"

definition udp_recvaddr :: "int \<Rightarrow> u32 \<Rightarrow> u32 \<Rightarrow> u32 \<Rightarrow> int \<Rightarrow> u32 \<Rightarrow> net \<Rightarrow> net option" where
  "udp_recvaddr slot remip remport buff len timeout =
     udp_await slot timeout (FUdpRecvaddr slot remip remport buff len) (udp_take_addr slot remip remport buff len)"

text \<open>The rest after \<open>recvtime\<close>.\<close>

definition udp_awaited :: "int \<Rightarrow> (net \<Rightarrow> net option) \<Rightarrow> net \<Rightarrow> net option" where
  "udp_awaited slot k N =
     (let msg = msgval N; N1 = upd_udp slot (\<lambda>e. e\<lparr>udstate := UDP_USED\<rparr>) N
      in if msg = of_int TIMEOUT then ndone (Ret TIMEOUT) N1
         else if msg \<noteq> of_int OK then ndone (Ret SYSERR) N1
         else k N1)"

text \<open>\<open>while (udcount > 0)\<close>: freeing with rescheduling deferred does not give the processor away.\<close>

primrec udp_drain :: "nat \<Rightarrow> int \<Rightarrow> net \<Rightarrow> net option" where
  "udp_drain 0 slot N = Some N"
| "udp_drain (Suc n) slot N =
     (let e = udptab N slot; pkt = udqueue e (udhead e); e1 = e\<lparr>udhead := udhead e + 1\<rparr>;
          e2 = (if UDP_QSIZ \<le> udhead e1 then e1\<lparr>udhead := 0\<rparr> else e1)
      in on_pools (freebuf pkt) (upd_udp slot (\<lambda>_. e2) N) \<bind>
         (\<lambda>N1. udp_drain n slot (upd_udp slot (\<lambda>e. e\<lparr>udcount := udcount e - 1\<rparr>) N1)))"

definition udp_release :: "int \<Rightarrow> net \<Rightarrow> net option" where
  "udp_release slot N =
     (if slot < 0 \<or> UDP_SLOTS \<le> slot then ndone (Ret SYSERR) N
      else if udstate (udptab N slot) = UDP_FREE then ndone (Ret SYSERR) N
      else on_kern (\<lambda>s. map_option snd (resched_cntl DEFER_START s)) N \<bind> (\<lambda>N1.
        udp_drain (nat (udcount (udptab N1 slot))) slot N1 \<bind> (\<lambda>N2.
        let N3 = push_frame (FReturn (Ret OK)) (upd_udp slot (\<lambda>e. e\<lparr>udstate := UDP_FREE\<rparr>) N2)
        in on_kern (\<lambda>s. map_option snd (resched_cntl DEFER_STOP s)) N3)))"

section \<open>The queue of an endpoint\<close>

definition ud_good :: "udpentry \<Rightarrow> bool" where
  "ud_good e \<longleftrightarrow> 0 \<le> udhead e \<and> udhead e < 8 \<and> 0 \<le> udcount e \<and> udcount e \<le> 8 \<and> udtail e = (udhead e + udcount e) mod 8"

definition ud_packets :: "udpentry \<Rightarrow> u32 list" where
  "ud_packets e = ring (udqueue e) (udhead e) (nat (udcount e))"

interpretation udp_queue: fifo ud_good ud_packets "\<lambda>e _. udcount e < UDP_QSIZ" ud_put ud_take
proof unfold_locales
  fix e :: udpentry and x
  have r: "(udhead e + udcount e) mod 8 < 8" by simp
  have w: "(udhead e + (udcount e + 1)) mod 8 = (if (udhead e + udcount e) mod 8 = 7 then 0 else (udhead e + udcount e) mod 8 + 1)"
    using next8 [of "udhead e + udcount e"] by (simp add: ac_simps)
  show "ud_good e \<Longrightarrow> udcount e < UDP_QSIZ \<Longrightarrow> ud_good (ud_put x e)"
    using w r by (auto simp: ud_good_def ud_put_def Let_def)
  show "ud_good e \<Longrightarrow> udcount e < UDP_QSIZ \<Longrightarrow> ud_packets (ud_put x e) = ud_packets e @ [x]"
    by (auto simp: ud_good_def ud_packets_def ud_put_def Let_def nat_add_distrib ring_put)
next
  fix e
  assume g: "ud_good e" and ne: "ud_packets e \<noteq> []"
  then have c: "0 < udcount e" by (auto simp: ud_packets_def)
  have h: "0 \<le> udhead e" "udhead e < 8" using g by (simp_all add: ud_good_def)
  have w: "((udhead e + 1) mod 8 + (udcount e - 1)) mod 8 = (udhead e + udcount e) mod 8" by (simp add: mod_add_left_eq)
  have t: "udhead (snd (ud_take e)) = (udhead e + 1) mod 8" "udtail (snd (ud_take e)) = udtail e"
    "udqueue (snd (ud_take e)) = udqueue e" "udcount (snd (ud_take e)) = udcount e - 1" "fst (ud_take e) = udqueue e (udhead e)"
    using ring_wrap [OF h] by (auto simp: ud_take_def Let_def)
  show "ud_good (snd (ud_take e))" using g c w by (simp add: ud_good_def t)
  have "nat (udcount e) = Suc (nat (udcount e - 1))" using c by simp
  then show "ud_packets e = fst (ud_take e) # ud_packets (snd (ud_take e))"
    using ring_take [OF h] by (simp add: ud_packets_def t)
qed

end
