(* ===== verification/Icmp.thy ===== *)
theory Icmp
  imports Net
begin

text \<open>
  ICMP echo: \<^verbatim>\<open>net/icmp.c\<close> except \<open>icmp_send\<close>, which is in \<open>Ip\<close>. Echo requests
  are answered, echo replies put on the queue of the endpoint their identification names.

  The queue of an endpoint is an array of eight pointers; to read or write it elsewhere has no defined result
  and is \<open>None\<close>, as is the panic when no buffer can be had.
\<close>

section \<open>Operations\<close>

definition upd_icmp :: "int \<Rightarrow> (icmpentry \<Rightarrow> icmpentry) \<Rightarrow> net \<Rightarrow> net" where
  "upd_icmp i f N = N\<lparr>icmptab := (icmptab N)(i := f (icmptab N i))\<rparr>"

definition icmp_init :: "net \<Rightarrow> net" where
  "icmp_init N = fold (\<lambda>i. upd_icmp i (\<lambda>e. e\<lparr>icstate := ICMP_FREE\<rparr>)) [0..ICMP_SLOTS - 1] N"

text \<open>\<open>icmp_mkpkt\<close> after \<open>getbuf\<close>.\<close>

definition icmp_fill :: "u32 \<Rightarrow> u16 \<Rightarrow> u16 \<Rightarrow> u16 \<Rightarrow> u32 \<Rightarrow> int \<Rightarrow> u32 \<Rightarrow> net \<Rightarrow> net" where
  "icmp_fill remip type ident seq buf len pkt N =
     upd_mem (snd \<circ> (\<lambda>m. memcpy m (pkt + net_icdata) buf len)
       \<circ> set16 (pkt + net_icseq) seq \<circ> set16 (pkt + net_icident) ident \<circ> set16 (pkt + net_iccksum) 0
       \<circ> set_byte (pkt + net_iccode) 0 \<circ> set_byte (pkt + net_ictype) (ucast type)
       \<circ> set32 (pkt + net_ipdst) remip \<circ> set32 (pkt + net_ipsrc) (ipucast (netdata N)) \<circ> set16 (pkt + net_ipcksum) 0
       \<circ> set_byte (pkt + net_ipproto) IP_ICMP \<circ> set_byte (pkt + net_ipttl) 0xff \<circ> set16 (pkt + net_ipfrag) 0
       \<circ> set16 (pkt + net_ipid) (ucast (ipident N)) \<circ> set16 (pkt + net_iplen) (of_int (IP_HDR_LEN + 8 + len))
       \<circ> set_byte (pkt + net_iptos) 0 \<circ> set_byte (pkt + net_ipvh) 0x45 \<circ> set16 (pkt + net_ethtype) 0x800
       \<circ> set_bytes (pkt + net_ethsrc) (ethucast (netdata N)))
     (N\<lparr>ipident := ipident N + 1\<rparr>)"

definition icmp_mkpkt_finish :: "u32 \<Rightarrow> u16 \<Rightarrow> u16 \<Rightarrow> u16 \<Rightarrow> u32 \<Rightarrow> int \<Rightarrow> net \<Rightarrow> (u32 \<times> net) option" where
  "icmp_mkpkt_finish remip type ident seq buf len N =
     (if msgval N = of_int SYSERR then None else Some (msgval N, icmp_fill remip type ident seq buf len (msgval N) N))"

definition ic_put :: "u32 \<Rightarrow> icmpentry \<Rightarrow> icmpentry option" where
  "ic_put pkt e =
     (let e1 = e\<lparr>iccount := iccount e + 1\<rparr>
      in if ictail e1 < 0 \<or> ICMP_QSIZ \<le> ictail e1 then None
         else let e2 = e1\<lparr>icqueue := (icqueue e1)(ictail e1 := pkt), ictail := ictail e1 + 1\<rparr>
              in Some (if ICMP_QSIZ \<le> ictail e2 then e2\<lparr>ictail := 0\<rparr> else e2))"

text \<open>Taking a packet wraps the index at \<open>ICMP_SLOTS\<close>.\<close>

definition ic_take :: "icmpentry \<Rightarrow> (u32 \<times> icmpentry) option" where
  "ic_take e =
     (if ichead e < 0 \<or> ICMP_QSIZ \<le> ichead e then None
      else let pkt = icqueue e (ichead e); e1 = e\<lparr>ichead := ichead e + 1\<rparr>
           in Some (pkt, if ICMP_SLOTS \<le> ichead e1 then e1\<lparr>ichead := 0\<rparr> else e1))"

definition icmp_payload :: "mem \<Rightarrow> u32 \<Rightarrow> int" where
  "icmp_payload m pkt = uint (get16 m (pkt + net_iplen)) - IP_HDR_LEN - 8"

definition icmp_in :: "u32 \<Rightarrow> net \<Rightarrow> net option" where
  "icmp_in pkt N =
     (let m = nmem N; slot = uint (get16 m (pkt + net_icident)); e = icmptab N slot; src = get32 m (pkt + net_ipsrc) in
      if m (pkt + net_ictype) \<noteq> 0 \<and> m (pkt + net_ictype) \<noteq> 8 then on_pools (freebuf pkt) N
      else if m (pkt + net_ictype) = 8 then getbuf_then (FIcmpEcho pkt) N
      else if slot < 0 \<or> ICMP_SLOTS \<le> slot then on_pools (freebuf pkt) N
      else if icstate e = ICMP_FREE then on_pools (freebuf pkt) N
      else if src \<noteq> icremip e \<and> src \<noteq> ipucast (netdata N) \<and> (src AND 0x7f000000) \<noteq> 0x7f000000 then on_pools (freebuf pkt) N
      else ic_put pkt e \<bind> (\<lambda>e1.
        let N1 = upd_icmp slot (\<lambda>_. e1) N in
        if icstate e1 = ICMP_RECV
        then on_kern (send (icpid e1) (of_int OK)) (upd_icmp slot (\<lambda>e. e\<lparr>icstate := ICMP_USED\<rparr>) N1)
        else Some N1))"

definition icmp_echo :: "u32 \<Rightarrow> net \<Rightarrow> net option" where
  "icmp_echo pkt N =
     (let m = nmem N in
      icmp_mkpkt_finish (get32 m (pkt + net_ipsrc)) 0 (get16 m (pkt + net_icident)) (get16 m (pkt + net_icseq))
        (pkt + net_icdata) (icmp_payload m pkt) N \<bind> (\<lambda>(replypkt, N1).
      ip_enqueue replypkt (push_frame (FIcmpEchoFree pkt) N1)))"

definition icmp_register :: "u32 \<Rightarrow> net \<Rightarrow> net option" where
  "icmp_register remip N =
     (if \<exists>i\<in>set [0..ICMP_SLOTS - 1]. icstate (icmptab N i) \<noteq> ICMP_FREE \<and> icremip (icmptab N i) = remip then ndone (Ret SYSERR) N
      else case find (\<lambda>i. icstate (icmptab N i) = ICMP_FREE) [0..ICMP_SLOTS - 1] of
          None \<Rightarrow> ndone (Ret SYSERR) N
        | Some i \<Rightarrow> ndone (Ret i) (upd_icmp i (\<lambda>e. e\<lparr>icstate := ICMP_USED, icremip := remip, iccount := 0, ichead := 0,
            ictail := 0, icpid := - 1\<rparr>) N))"

definition icmp_take :: "int \<Rightarrow> u32 \<Rightarrow> int \<Rightarrow> net \<Rightarrow> net option" where
  "icmp_take slot buff len N =
     ic_take (icmptab N slot) \<bind> (\<lambda>(pkt, e).
     let N1 = upd_icmp slot (\<lambda>_. e\<lparr>iccount := iccount e - 1\<rparr>) N;
         i = max 0 (min (icmp_payload (nmem N1) pkt) len)
     in free_and_return pkt (Ret i) (upd_mem (\<lambda>m. memcpy_loop (nat i) m buff (pkt + net_icdata)) N1))"

definition icmp_recv :: "int \<Rightarrow> u32 \<Rightarrow> int \<Rightarrow> u32 \<Rightarrow> net \<Rightarrow> net option" where
  "icmp_recv icmpid buff len timeout N =
     (if icmpid < 0 \<or> ICMP_SLOTS \<le> icmpid then ndone (Ret SYSERR) N
      else if icstate (icmptab N icmpid) \<noteq> ICMP_USED then ndone (Ret SYSERR) N
      else if iccount (icmptab N icmpid) = 0 then
        on_kern recvclr (push_frame (FIcmpRecv icmpid buff len) (upd_icmp icmpid (\<lambda>e. e\<lparr>icstate := ICMP_RECV, icpid := me N\<rparr>) N))
          \<bind> on_kern (recvtime (sint timeout))
      else icmp_take icmpid buff len N)"

definition icmp_awaited :: "int \<Rightarrow> u32 \<Rightarrow> int \<Rightarrow> net \<Rightarrow> net option" where
  "icmp_awaited icmpid buff len N =
     (let msg = msgval N; N1 = upd_icmp icmpid (\<lambda>e. e\<lparr>icstate := ICMP_USED\<rparr>) N
      in if msg = of_int TIMEOUT then ndone (Ret TIMEOUT) N1
         else if msg \<noteq> of_int OK then ndone (Ret SYSERR) N1
         else icmp_take icmpid buff len N1)"

primrec icmp_drain :: "nat \<Rightarrow> int \<Rightarrow> net \<Rightarrow> net option" where
  "icmp_drain 0 slot N = Some N"
| "icmp_drain (Suc n) slot N =
     ic_take (icmptab N slot) \<bind> (\<lambda>(pkt, e).
     on_pools (freebuf pkt) (upd_icmp slot (\<lambda>_. e) N) \<bind>
       (\<lambda>N1. icmp_drain n slot (upd_icmp slot (\<lambda>e. e\<lparr>iccount := iccount e - 1\<rparr>) N1)))"

definition icmp_release :: "int \<Rightarrow> net \<Rightarrow> net option" where
  "icmp_release icmpid N =
     (if icmpid < 0 \<or> ICMP_SLOTS \<le> icmpid then ndone (Ret SYSERR) N
      else if icstate (icmptab N icmpid) \<noteq> ICMP_USED then ndone (Ret SYSERR) N
      else on_kern (\<lambda>s. map_option snd (resched_cntl DEFER_START s)) N \<bind> (\<lambda>N1.
        icmp_drain (nat (iccount (icmptab N1 icmpid))) icmpid N1 \<bind> (\<lambda>N2.
        let N3 = push_frame (FReturn (Ret OK)) (upd_icmp icmpid (\<lambda>e. e\<lparr>icstate := ICMP_FREE\<rparr>) N2)
        in on_kern (\<lambda>s. map_option snd (resched_cntl DEFER_STOP s)) N3)))"

end
