(* ===== verification/Arp.thy ===== *)
theory Arp
  imports Net
begin

text \<open>
  Address resolution: \<^verbatim>\<open>net/arp.c\<close>. \<open>arp_resolve\<close> looks an address up in the cache or sends up to three
  requests, waiting for an answer each time; \<open>arp_in\<close> handles a packet that has arrived.
\<close>

section \<open>The cache\<close>

definition upd_arp :: "int \<Rightarrow> (arpentry \<Rightarrow> arpentry) \<Rightarrow> net \<Rightarrow> net" where
  "upd_arp i f N = N\<lparr>arpcache := (arpcache N)(i := f (arpcache N i))\<rparr>"

text \<open>The first entry, entry 0, is left as it is.\<close>

definition arp_init :: "net \<Rightarrow> net" where
  "arp_init N = fold (\<lambda>i. upd_arp i (\<lambda>e. e\<lparr>arstate := AR_FREE\<rparr>)) [1..ARP_SIZ - 1] N"

definition arp_zero :: arpentry where
  "arp_zero = \<lparr>arstate = AR_FREE, arpaddr = 0, arpid = 0, arhaddr = replicate 6 0\<rparr>"

definition arp_alloc :: "net \<Rightarrow> int \<times> net" where
  "arp_alloc N =
     (case find (\<lambda>i. arstate (arpcache N i) = AR_FREE) [0..ARP_SIZ - 1] of
        Some slot \<Rightarrow> (slot, upd_arp slot (\<lambda>_. arp_zero) N)
      | None \<Rightarrow> (case find (\<lambda>i. arstate (arpcache N i) = AR_RESOLVED) [0..ARP_SIZ - 1] of
            Some slot \<Rightarrow> (slot, upd_arp slot (\<lambda>_. arp_zero) N)
          | None \<Rightarrow> (SYSERR, N)))"

definition arp_find :: "u32 \<Rightarrow> net \<Rightarrow> int option" where
  "arp_find a N = find (\<lambda>i. arstate (arpcache N i) \<noteq> AR_FREE \<and> arpaddr (arpcache N i) = a) [0..ARP_SIZ - 1]"

section \<open>arp_resolve\<close>

text \<open>A packet in a local variable, in the order of the network: destination, operation, target.\<close>

definition arp_packet :: "u8 list \<Rightarrow> u16 \<Rightarrow> u8 list \<Rightarrow> u32 \<Rightarrow> network \<Rightarrow> u8 list" where
  "arp_packet dst op tarha tarpa d =
     bytes_at ((eth_hton 0 \<circ> arp_hton 0
       \<circ> set32 arp_tarpa tarpa \<circ> set_bytes arp_tarha tarha \<circ> set32 arp_sndpa (ipucast d) \<circ> set_bytes arp_sndha (ethucast d)
       \<circ> set16 arp_op op \<circ> set_byte arp_plen 4 \<circ> set_byte arp_hlen 6 \<circ> set16 arp_ptype 0x0800 \<circ> set16 arp_htype 1
       \<circ> set16 net_ethtype ETH_ARP \<circ> set_bytes net_ethsrc (ethucast d) \<circ> set_bytes net_ethdst dst) (\<lambda>_. 0)) 0 42"

text \<open>The \<open>i\<close>-th request: written, then an answer is awaited.\<close>

definition arp_try :: "u32 \<Rightarrow> u32 \<Rightarrow> int \<Rightarrow> nat \<Rightarrow> u8 list \<Rightarrow> net \<Rightarrow> net option" where
  "arp_try nxthop mac slot i apkt N =
     (if i < ARP_RETRY then ethwrite (Local apkt) 42 (push_frame (FArpSent nxthop mac slot i apkt) N)
      else ndone (Ret TIMEOUT) (upd_arp slot (\<lambda>e. e\<lparr>arstate := AR_FREE\<rparr>) N))"

definition arp_resolve :: "u32 \<Rightarrow> u32 \<Rightarrow> net \<Rightarrow> net option" where
  "arp_resolve nxthop mac N =
     (let d = netdata N in
      if nxthop = IP_BCAST then ndone (Ret OK) (upd_mem (set_bytes mac (ethbcast d)) N)
      else if nxthop = ipbcast d then ndone (Ret OK) (upd_mem (set_bytes mac (ethbcast d)) N)
      else case arp_find nxthop N of
          Some i \<Rightarrow>
            if arstate (arpcache N i) = AR_RESOLVED
            then ndone (Ret OK) (upd_mem (set_bytes mac (arhaddr (arpcache N i))) N)
            else ndone (Ret SYSERR) N
        | None \<Rightarrow>
            let (slot, N1) = arp_alloc N in
            if slot = SYSERR then ndone (Ret SYSERR) N1
            else let N2 = upd_arp slot (\<lambda>e. e\<lparr>arstate := AR_PENDING, arpaddr := nxthop, arpid := me N1\<rparr>) N1;
                     apkt = arp_packet (ethbcast d) 1 (replicate 6 0) nxthop d
                 in on_kern recvclr N2 \<bind> arp_try nxthop mac slot 0 apkt)"

text \<open>The request has been written: \<open>recvtime(ARP_TIMEOUT)\<close>; then the message is looked at.\<close>

definition arp_sent :: "u32 \<Rightarrow> u32 \<Rightarrow> int \<Rightarrow> nat \<Rightarrow> u8 list \<Rightarrow> net \<Rightarrow> net option" where
  "arp_sent nxthop mac slot i apkt N = on_kern (recvtime 300) (push_frame (FArpAnswer nxthop mac slot i apkt) N)"

definition arp_answer :: "u32 \<Rightarrow> u32 \<Rightarrow> int \<Rightarrow> nat \<Rightarrow> u8 list \<Rightarrow> net \<Rightarrow> net option" where
  "arp_answer nxthop mac slot i apkt N =
     (let msg = msgval N in
      if msg = of_int TIMEOUT then arp_try nxthop mac slot (Suc i) apkt N
      else if msg = of_int SYSERR then ndone (Ret SYSERR) N
      else ndone (Ret OK) (upd_mem (set_bytes mac (arhaddr (arpcache N slot))) N))"

section \<open>arp_in\<close>

text \<open>What \<open>arp_in\<close> does after the sender's entry has been updated.\<close>

definition arp_in_rest :: "u32 \<Rightarrow> bool \<Rightarrow> net \<Rightarrow> net option" where
  "arp_in_rest pktptr found N =
     (let m = nmem N; d = netdata N; sndha = bytes_at m (pktptr + arp_sndha) 6; sndpa = get32 m (pktptr + arp_sndpa) in
      if get16 m (pktptr + arp_op) = 2 then on_pools (freebuf pktptr) N
      else if \<not> ipvalid d \<or> get32 m (pktptr + arp_tarpa) \<noteq> ipucast d then on_pools (freebuf pktptr) N
      else let reply = arp_packet sndha 2 sndha sndpa d in
        if found then ethwrite (Local reply) 42 (push_frame (FArpDone pktptr) N)
        else let (slot, N1) = arp_alloc N in
          if slot = SYSERR then on_pools (freebuf pktptr) N1
          else ethwrite (Local reply) 42 (push_frame (FArpDone pktptr)
                 (upd_arp slot (\<lambda>e. e\<lparr>arpaddr := sndpa, arhaddr := sndha, arstate := AR_RESOLVED\<rparr>) N1)))"

definition arp_in :: "u32 \<Rightarrow> net \<Rightarrow> net option" where
  "arp_in pktptr N =
     (let N1 = upd_mem (arp_ntoh pktptr) N; m = nmem N1 in
      if get16 m (pktptr + arp_htype) \<noteq> 1 \<or> get16 m (pktptr + arp_ptype) \<noteq> 0x0800 then on_pools (freebuf pktptr) N1
      else case arp_find (get32 m (pktptr + arp_sndpa)) N1 of
          None \<Rightarrow> arp_in_rest pktptr False N1
        | Some slot \<Rightarrow>
            let N2 = upd_arp slot (\<lambda>e. e\<lparr>arhaddr := bytes_at m (pktptr + arp_sndha) 6\<rparr>) N1 in
            if arstate (arpcache N2 slot) = AR_PENDING
            then let N3 = upd_arp slot (\<lambda>e. e\<lparr>arstate := AR_RESOLVED\<rparr>) N2
                 in on_kern (send (arpid (arpcache N3 slot)) (of_int OK)) (push_frame (FArpIn pktptr) N3)
            else arp_in_rest pktptr True N2)"

end
