(* ===== verification/Ip.thy ===== *)
theory Ip
  imports Arp Udp Icmp
begin

text \<open>
  The datagram layer and what rests on all of it: \<^verbatim>\<open>net/ip.c\<close>, the sending functions of
  \<^verbatim>\<open>net/udp.c\<close> and \<^verbatim>\<open>icmp.c\<close>, the input process and the initialization of \<^verbatim>\<open>net/net.c\<close>; and how a
  process goes on with the frames it has pushed.
\<close>

section \<open>Arriving datagrams\<close>

definition ip_local :: "u32 \<Rightarrow> net \<Rightarrow> net option" where
  "ip_local pktptr N =
     (if nmem N (pktptr + net_ipproto) = IP_UDP then udp_in pktptr N
      else if nmem N (pktptr + net_ipproto) = IP_ICMP then icmp_in pktptr N
      else on_pools (freebuf pktptr) N)"

definition ip_deliver :: "u32 \<Rightarrow> net \<Rightarrow> net option" where
  "ip_deliver pktptr N =
     (let d = netdata N; dst = get32 (nmem N) (pktptr + net_ipdst) in
      if dst = IP_BCAST then ip_local pktptr N
      else if \<not> ipvalid d then
        if nmem N (pktptr + net_ipproto) = IP_UDP then ip_local pktptr N else on_pools (freebuf pktptr) N
      else if dst = ipucast d \<or> dst = ipbcast d \<or> dst = IP_BCAST then ip_local pktptr N
      else on_pools (freebuf pktptr) N)"

definition ip_in :: "u32 \<Rightarrow> net \<Rightarrow> net option" where
  "ip_in pktptr N =
     (if ipcksum (nmem N) pktptr \<noteq> 0 then on_pools (freebuf pktptr) N
      else let N1 = upd_mem (ip_ntoh pktptr) N; m = nmem N1 in
        if m (pktptr + net_ipvh) \<noteq> 0x45 then on_pools (freebuf pktptr) N1
        else if m (pktptr + net_ipproto) = IP_UDP then ip_deliver pktptr (upd_mem (udp_ntoh pktptr) N1)
        else if m (pktptr + net_ipproto) = IP_ICMP then
          let icmplen = uint (get16 m (pktptr + net_iplen)) - IP_HDR_LEN in
          if icmp_cksum m (pktptr + net_ictype) icmplen \<noteq> 0 then on_pools (freebuf pktptr) N1
          else ip_deliver pktptr (upd_mem (icmp_ntoh pktptr) N1)
        else ip_deliver pktptr N1)"

section \<open>Leaving datagrams\<close>

definition icmp_add_cksum :: "u32 \<Rightarrow> int \<Rightarrow> mem \<Rightarrow> mem" where
  "icmp_add_cksum pktptr len m =
     (let m0 = set16 (pktptr + net_iccksum) 0 m
      in set16 (pktptr + net_iccksum) (htons (icmp_cksum m0 (pktptr + net_ictype) len)) m0)"

definition ip_add_cksum :: "u32 \<Rightarrow> mem \<Rightarrow> mem" where
  "ip_add_cksum pktptr m =
     (let m0 = set16 (pktptr + net_ipcksum) 0 m in set16 (pktptr + net_ipcksum) (htons (ipcksum m0 pktptr)) m0)"

text \<open>The packet as it is sent.\<close>

definition ip_encode :: "u32 \<Rightarrow> mem \<Rightarrow> mem" where
  "ip_encode pktptr m =
     (let m1 = (if m (pktptr + net_ipproto) = IP_UDP then udp_hton pktptr (set16 (pktptr + net_udpcksum) 0 m)
                else if m (pktptr + net_ipproto) = IP_ICMP
                then icmp_add_cksum pktptr (uint (get16 m (pktptr + net_iplen)) - IP_HDR_LEN) (icmp_hton pktptr m)
                else m)
      in eth_hton pktptr (ip_add_cksum pktptr (ip_hton pktptr m1)))"

definition ip_out :: "u32 \<Rightarrow> net \<Rightarrow> net option" where
  "ip_out pktptr N =
     (let pktlen = uint (get16 (nmem N) (pktptr + net_iplen)) + ETH_HDR_LEN
      in ethwrite (Buf pktptr) pktlen (push_frame (FIpOut pktptr) (upd_mem (ip_encode pktptr) N)))"

definition ip_out_finish :: "u32 \<Rightarrow> net \<Rightarrow> net option" where
  "ip_out_finish pktptr N = free_and_return pktptr (if intval N = SYSERR then Ret SYSERR else Ret OK) N"

definition next_hop :: "u32 \<Rightarrow> network \<Rightarrow> u32" where
  "next_hop dest d = (if dest AND ipmask d = ipprefix d then dest else iprouter d)"

definition ip_send :: "u32 \<Rightarrow> net \<Rightarrow> net option" where
  "ip_send pktptr N =
     (let d = netdata N; dest = get32 (nmem N) (pktptr + net_ipdst) in
      if dest AND 0xff000000 = 0x7f000000 then ip_local pktptr (push_frame (FReturn (Ret OK)) N)
      else if dest = ipucast d then ip_local pktptr (push_frame (FReturn (Ret OK)) N)
      else if dest = IP_BCAST \<or> dest = ipbcast d then ip_out pktptr (upd_mem (set_bytes (pktptr + net_ethdst) (ethbcast d)) N)
      else if next_hop dest d = 0 then free_and_return pktptr (Ret SYSERR) N
      else arp_resolve (next_hop dest d) (pktptr + net_ethdst) (push_frame (FIpSend pktptr) N))"

definition ip_send_resolved :: "u32 \<Rightarrow> net \<Rightarrow> net option" where
  "ip_send_resolved pktptr N =
     (if intval N \<noteq> OK then free_and_return pktptr (Ret SYSERR) N else ip_out pktptr N)"

section \<open>The output process\<close>

definition ipout :: "net \<Rightarrow> net option" where
  "ipout N = on_kern (wait (iqsem (ipoqueue N))) (push_frame FIpoutTake N)"

text \<open>The rest of an iteration; every path leads back to the head of the loop, \<open>FIpout\<close>.\<close>

definition ipout_packet :: "net \<Rightarrow> net option" where
  "ipout_packet N =
     (let (pktptr, q) = iq_take (ipoqueue N); d = netdata N;
          N1 = push_frame FIpout (upd_mem (set_bytes (pktptr + net_ethsrc) (ethucast d)) (N\<lparr>ipoqueue := q\<rparr>));
          destip = get32 (nmem N1) (pktptr + net_ipdst) in
      if destip = IP_BCAST \<or> destip = ipbcast d then on_pools (freebuf pktptr) N1
      else if destip = ipucast d then ip_local pktptr N1
      else if next_hop destip d = 0 then on_pools (freebuf pktptr) N1
      else arp_resolve (next_hop destip d) (pktptr + net_ethdst) (push_frame (FIpoutSend pktptr) N1))"

definition ipout_resolved :: "u32 \<Rightarrow> net \<Rightarrow> net option" where
  "ipout_resolved pktptr N = (if intval N \<noteq> OK then on_pools (freebuf pktptr) N else ip_out pktptr N)"

section \<open>Sending\<close>

text \<open>The packet the two sending functions of UDP make.\<close>

definition udp_fill :: "u32 \<Rightarrow> u32 \<Rightarrow> u16 \<Rightarrow> u16 \<Rightarrow> u32 \<Rightarrow> int \<Rightarrow> u16 \<Rightarrow> u32 \<Rightarrow> u8 list \<Rightarrow> mem \<Rightarrow> mem" where
  "udp_fill locip remip locport remport buff len ident pkt ethsrc =
     snd \<circ> (\<lambda>m. memcpy m (pkt + net_udpdata) buff len)
       \<circ> set16 (pkt + net_udpcksum) 0 \<circ> set16 (pkt + net_udplen) (of_int (8 + len)) \<circ> set16 (pkt + net_udpdport) remport
       \<circ> set16 (pkt + net_udpsport) locport \<circ> set32 (pkt + net_ipdst) remip \<circ> set32 (pkt + net_ipsrc) locip
       \<circ> set16 (pkt + net_ipcksum) 0 \<circ> set_byte (pkt + net_ipproto) IP_UDP \<circ> set_byte (pkt + net_ipttl) 0xff
       \<circ> set16 (pkt + net_ipfrag) 0 \<circ> set16 (pkt + net_ipid) ident \<circ> set16 (pkt + net_iplen) (of_int (42 + len - ETH_HDR_LEN))
       \<circ> set_byte (pkt + net_iptos) 0 \<circ> set_byte (pkt + net_ipvh) 0x45 \<circ> set16 (pkt + net_ethtype) 0x0800
       \<circ> set_bytes (pkt + net_ethsrc) ethsrc"

definition udp_send :: "int \<Rightarrow> u32 \<Rightarrow> int \<Rightarrow> net \<Rightarrow> net option" where
  "udp_send slot buff len N =
     (let e = udptab N slot in
      if slot < 0 \<or> UDP_SLOTS \<le> slot then ndone (Ret SYSERR) N
      else if udstate e = UDP_FREE then ndone (Ret SYSERR) N
      else if udremip e = 0 then ndone (Ret SYSERR) N
      else getbuf_then (FUdpSend (ipucast (netdata N)) (udremip e) (udremport e) (udlocport e) buff len) N)"

definition udp_send_finish :: "u32 \<Rightarrow> u32 \<Rightarrow> u16 \<Rightarrow> u16 \<Rightarrow> u32 \<Rightarrow> int \<Rightarrow> net \<Rightarrow> net option" where
  "udp_send_finish locip remip remport locport buff len N =
     (let pkt = msgval N in
      if pkt = of_int SYSERR then ndone (Ret SYSERR) N
      else let N1 = upd_mem (udp_fill locip remip locport remport buff len (send_ident N) pkt (ethucast (netdata N)))
                      (N\<lparr>send_ident := send_ident N + 1\<rparr>)
           in ip_send pkt (push_frame (FReturn (Ret OK)) N1))"

definition udp_sendto :: "int \<Rightarrow> u32 \<Rightarrow> u16 \<Rightarrow> u32 \<Rightarrow> int \<Rightarrow> net \<Rightarrow> net option" where
  "udp_sendto slot remip remport buff len N =
     (if slot < 0 \<or> UDP_SLOTS \<le> slot then ndone (Ret SYSERR) N
      else if udstate (udptab N slot) = UDP_FREE then ndone (Ret SYSERR) N
      else getbuf_then (FUdpSendto slot remip remport buff len) N)"

definition udp_sendto_finish :: "int \<Rightarrow> u32 \<Rightarrow> u16 \<Rightarrow> u32 \<Rightarrow> int \<Rightarrow> net \<Rightarrow> net option" where
  "udp_sendto_finish slot remip remport buff len N =
     (let pkt = msgval N in
      if pkt = of_int SYSERR then ndone (Ret SYSERR) N
      else let N1 = upd_mem (udp_fill (ipucast (netdata N)) remip (udlocport (udptab N slot)) remport buff len (sendto_ident N) pkt
                      (ethucast (netdata N))) (N\<lparr>sendto_ident := sendto_ident N + 1\<rparr>)
           in ip_send pkt (push_frame (FReturn (Ret OK)) N1))"

definition icmp_send :: "u32 \<Rightarrow> u16 \<Rightarrow> u16 \<Rightarrow> u16 \<Rightarrow> u32 \<Rightarrow> int \<Rightarrow> net \<Rightarrow> net option" where
  "icmp_send remip type ident seq buf len N = getbuf_then (FIcmpSend remip type ident seq buf len) N"

definition icmp_send_finish :: "u32 \<Rightarrow> u16 \<Rightarrow> u16 \<Rightarrow> u16 \<Rightarrow> u32 \<Rightarrow> int \<Rightarrow> net \<Rightarrow> net option" where
  "icmp_send_finish remip type ident seq buf len N =
     icmp_mkpkt_finish remip type ident seq buf len N \<bind> (\<lambda>(pkt, N1). ip_send pkt N1)"

section \<open>The input process\<close>

definition netin :: "net \<Rightarrow> net option" where "netin N = getbuf_then FNetinRead N"

definition netin_read :: "net \<Rightarrow> net option" where
  "netin_read N = ethread (msgval N) PACKLEN (push_frame (FNetinDemux (msgval N)) N)"

definition netin_demux :: "u32 \<Rightarrow> net \<Rightarrow> net option" where
  "netin_demux pkt N =
     (if intval N = SYSERR then None
      else let N1 = push_frame FNetin (upd_mem (eth_ntoh pkt) N) in
        if get16 (nmem N1) (pkt + net_ethtype) = ETH_ARP then arp_in pkt N1
        else if get16 (nmem N1) (pkt + net_ethtype) = ETH_IP then ip_in pkt N1
        else on_pools (freebuf pkt) N1)"

section \<open>Going on\<close>

fun run_frame :: "frame \<Rightarrow> net \<Rightarrow> net option" where
  "run_frame (FReturn c) N = ndone c N"
| "run_frame (FEthWrite buf len) N = ethwrite_finish buf len N"
| "run_frame (FEthRead buf) N = ethread_finish buf N"
| "run_frame (FArpSent nxthop mac slot i apkt) N = arp_sent nxthop mac slot i apkt N"
| "run_frame (FArpAnswer nxthop mac slot i apkt) N = arp_answer nxthop mac slot i apkt N"
| "run_frame (FArpIn pkt) N = arp_in_rest pkt True N"
| "run_frame (FArpDone pkt) N = on_pools (freebuf pkt) N"
| "run_frame (FIpOut pkt) N = ip_out_finish pkt N"
| "run_frame (FIpSend pkt) N = ip_send_resolved pkt N"
| "run_frame FIpout N = ipout N"
| "run_frame FIpoutTake N = ipout_packet N"
| "run_frame (FIpoutSend pkt) N = ipout_resolved pkt N"
| "run_frame (FUdpRecv slot buff len) N = udp_awaited slot (udp_take slot buff len) N"
| "run_frame (FUdpRecvaddr slot remip remport buff len) N = udp_awaited slot (udp_take_addr slot remip remport buff len) N"
| "run_frame (FUdpSend locip remip remport locport buff len) N = udp_send_finish locip remip remport locport buff len N"
| "run_frame (FUdpSendto slot remip remport buff len) N = udp_sendto_finish slot remip remport buff len N"
| "run_frame (FIcmpEcho pkt) N = icmp_echo pkt N"
| "run_frame (FIcmpEchoFree pkt) N = on_pools (freebuf pkt) N"
| "run_frame (FIcmpRecv slot buff len) N = icmp_awaited slot buff len N"
| "run_frame (FIcmpSend remip type ident seq buf len) N = icmp_send_finish remip type ident seq buf len N"
| "run_frame FNetin N = netin N"
| "run_frame FNetinRead N = netin_read N"
| "run_frame (FNetinDemux pkt) N = netin_demux pkt N"

text \<open>The running process finishes its kernel call, then its call of \<open>getbuf\<close>, then its topmost frame.\<close>

definition net_resume :: "net \<Rightarrow> net option" where
  "net_resume N =
     (let i = me N; s = bker (npl N) in
      if \<not> at_rest (conts s i) then on_kern (resume_cont (conts s i)) N
      else case bpconts (npl N) i of
          Some p \<Rightarrow> on_pools (getbuf_finish p) N
        | None \<Rightarrow> (case nstack N i of [] \<Rightarrow> None | f # fs \<Rightarrow> run_frame f (N\<lparr>nstack := (nstack N)(i := fs)\<rparr>)))"

section \<open>Initialization\<close>

text \<open>\<open>mac\<close> is the answer of the device; the two processes are created by the caller of this function.\<close>

definition net_init :: "u8 list \<Rightarrow> net \<Rightarrow> net option" where
  "net_init mac N =
     (let N1 = N\<lparr>netdata := \<lparr>ipucast = 0, ipbcast = 0, ipmask = 0, ipprefix = 0, iprouter = 0, ipvalid = False,
            ethucast = mac, ethbcast = replicate 6 0xFF\<rparr>\<rparr>
      in on_pools (mkbufpool PACKLEN (UDP_SLOTS * UDP_QSIZ + ICMP_SLOTS * ICMP_QSIZ + 1)) N1 \<bind> (\<lambda>N2.
      let N3 = icmp_init (udp_init (arp_init (N2\<lparr>netbufpool := intval N2\<rparr>)));
          N4 = N3\<lparr>ipoqueue := (ipoqueue N3)\<lparr>iqhead := 0, iqtail := 0\<rparr>\<rparr>
      in on_kern (semcreate 0) N4 \<bind> (\<lambda>N5.
      if intval N5 = SYSERR then None
      else Some (N5\<lparr>ipoqueue := (ipoqueue N5)\<lparr>iqsem := intval N5\<rparr>\<rparr>))))"

text \<open>\<open>getport\<close>: a 64-bit linear congruential generator.\<close>

definition getport :: "64 word \<Rightarrow> u16 \<times> 64 word" where
  "getport seed =
     (let seed = 6364136223846793005 * seed + 1
      in (50000 + (ucast (drop_bit 48 seed) :: u16) mod 15535, seed))"

end
