(* ===== verification/Datagram.thy ===== *)
theory Datagram
  imports Ip
begin

text \<open>
  Packets from one machine to another: what \<open>ip_out\<close> makes of a UDP datagram is, byte for byte, put into a
  buffer of the receiver, and \<open>netin\<close> there hands \<open>udp_in\<close> the datagram that was sent; and an ARP request that is
  answered. \<open>same_at m p n q L\<close>: the \<open>L\<close> bytes from \<open>p\<close> in \<open>m\<close> are those from \<open>q\<close> in \<open>n\<close>.
\<close>

section \<open>The same packet in two memories\<close>

definition same_at :: "mem \<Rightarrow> u32 \<Rightarrow> mem \<Rightarrow> u32 \<Rightarrow> nat \<Rightarrow> bool" where
  "same_at m p n q L \<longleftrightarrow> L < 65536 \<and> (\<forall>k<L. m (p + of_nat k) = n (q + of_nat k))"

lemma of_nat_same: "j < 65536 \<Longrightarrow> k < 65536 \<Longrightarrow> (of_nat j :: u32) = of_nat k \<longleftrightarrow> j = k"
  using unat_of_nat_u32 [of j] unat_of_nat_u32 [of k] by (auto simp: word_unat_eq_iff)

lemma same_upd:
  "same_at m p n q L \<Longrightarrow> j < 65536 \<Longrightarrow> same_at (m(p + of_nat j := v)) p (n(q + of_nat j := v)) q L"
  by (auto simp: same_at_def of_nat_same)

lemma same_byte: "same_at m p n q L \<Longrightarrow> j < L \<Longrightarrow> m (p + of_nat j) = n (q + of_nat j)"
  by (simp add: same_at_def)

lemma same_get16: "same_at m p n q L \<Longrightarrow> j + 1 < L \<Longrightarrow> get16 m (p + of_nat j) = get16 n (q + of_nat j)"
  using same_byte [of m p n q L j] same_byte [of m p n q L "Suc j"] by (simp add: get16_def ac_simps)

lemma same_get32: "same_at m p n q L \<Longrightarrow> j + 3 < L \<Longrightarrow> get32 m (p + of_nat j) = get32 n (q + of_nat j)"
  using same_get16 [of m p n q L j] same_get16 [of m p n q L "j + 2"] by (simp add: get32_def ac_simps)

lemma same_set16: "same_at m p n q L \<Longrightarrow> j < 65535 \<Longrightarrow> same_at (set16 (p + of_nat j) v m) p (set16 (q + of_nat j) v n) q L"
  unfolding set16_def using same_upd [OF same_upd, of m p n q L j "Suc j"] by (simp add: ac_simps)

lemma same_swap16: "same_at m p n q L \<Longrightarrow> j + 1 < L \<Longrightarrow> same_at (swap16 (p + of_nat j) m) p (swap16 (q + of_nat j) n) q L"
  unfolding swap16_def using same_get16 [of m p n q L j] same_set16 [of m p n q L j] by (simp add: same_at_def)

lemma same_set32: "same_at m p n q L \<Longrightarrow> j < 65533 \<Longrightarrow> same_at (set32 (p + of_nat j) v m) p (set32 (q + of_nat j) v n) q L"
  unfolding set32_def using same_set16 [OF same_set16, of m p n q L j "j + 2"] by (simp add: ac_simps)

lemma same_swap32: "same_at m p n q L \<Longrightarrow> j + 3 < L \<Longrightarrow> same_at (swap32 (p + of_nat j) m) p (swap32 (q + of_nat j) n) q L"
  unfolding swap32_def using same_get32 [of m p n q L j] same_set32 [of m p n q L j] by (simp add: same_at_def)

lemma same_wsum: "same_at m p n q L \<Longrightarrow> j + 2 * k \<le> L \<Longrightarrow> wsum k m (p + of_nat j) = wsum k n (q + of_nat j)"
proof (induction k arbitrary: j)
  case (Suc k)
  have "wsum k m (p + of_nat (j + 2)) = wsum k n (q + of_nat (j + 2))" by (rule Suc.IH [OF Suc.prems(1)]) (use Suc.prems(2) in simp)
  then show ?case using same_get16 [OF Suc.prems(1), of j] Suc.prems(2) by (simp add: ac_simps)
qed simp

lemma same_ipcksum: "same_at m p n q L \<Longrightarrow> 34 \<le> L \<Longrightarrow> ipcksum m p = ipcksum n q"
  using same_wsum [of m p n q L 14 10] ipcksum_refold [of m p] ipcksum_refold [of n q] by (simp add: word_unat_eq_iff)

lemma set_bytes_outside: "(\<And>k. k < length bs \<Longrightarrow> a \<noteq> q + of_nat k) \<Longrightarrow> set_bytes q bs n a = n a"
proof (induction bs arbitrary: q n)
  case (Cons b bs)
  have d: "a \<noteq> q" using Cons.prems [of 0] by simp
  have "set_bytes (q + 1) bs (n(q := b)) a = (n(q := b)) a"
    by (rule Cons.IH) (use Cons.prems [of "Suc _"] in \<open>simp add: ac_simps\<close>)
  then show ?case using d by simp
qed simp

lemma set_bytes_nth: "length bs < 65536 \<Longrightarrow> k < length bs \<Longrightarrow> set_bytes q bs n (q + of_nat k) = bs ! k"
proof (induction bs arbitrary: q n k)
  case (Cons b bs)
  show ?case
  proof (cases k)
    case 0
    have "set_bytes (q + 1) bs (n(q := b)) q = (n(q := b)) q"
    proof (rule set_bytes_outside)
      fix j
      assume "j < length bs"
      then have "(of_nat (Suc j) :: u32) \<noteq> of_nat 0" using Cons.prems(1) by (subst of_nat_same) simp_all
      then show "q \<noteq> q + 1 + of_nat j" by (simp add: add.assoc)
    qed
    then show ?thesis using 0 by simp
  next
    case (Suc j)
    have "set_bytes (q + 1) bs (n(q := b)) (q + 1 + of_nat j) = bs ! j" by (rule Cons.IH) (use Cons.prems Suc in simp_all)
    then show ?thesis using Suc by (simp add: add.assoc)
  qed
qed simp

lemma bytes_at_nth: "k < L \<Longrightarrow> bytes_at m p L ! k = m (p + of_nat k)"
proof (induction L arbitrary: p k)
  case (Suc L)
  then show ?case by (cases k) (simp_all add: ac_simps)
qed simp

lemma length_bytes_at [simp]: "length (bytes_at m p L) = L" by (induction L arbitrary: p) simp_all

lemma same_copied: "L < 65536 \<Longrightarrow> same_at m p (set_bytes q (bytes_at m p L) n) q L"
  by (simp add: same_at_def set_bytes_nth bytes_at_nth)

section \<open>A datagram on its way\<close>

lemma swap16_set16:
  "a \<noteq> b \<Longrightarrow> a \<noteq> b + 1 \<Longrightarrow> b \<noteq> a + 1 \<Longrightarrow> swap16 a (set16 b v m) = set16 b v (swap16 a m)"
  by (auto simp: swap16_eq set16_def fun_eq_iff)

lemma swap32_set16:
  "a \<noteq> b \<Longrightarrow> a \<noteq> b + 1 \<Longrightarrow> b \<noteq> a + 1 \<Longrightarrow> b \<noteq> a + 2 \<Longrightarrow> b \<noteq> a + 3 \<Longrightarrow> b + 1 \<noteq> a + 2 \<Longrightarrow> b + 1 \<noteq> a + 3 \<Longrightarrow>
   swap32 a (set16 b v m) = set16 b v (swap32 a m)"
  by (auto simp: swap32_eq set16_def fun_eq_iff)

lemma ip_ntoh_cksum: "ip_ntoh p (set16 (p + 24) c m) = set16 (p + 24) c (ip_ntoh p m)"
  by (simp add: ip_ntoh_def swap16_set16 swap32_set16 add.assoc)

lemma udp_ntoh_cksum: "udp_ntoh p (set16 (p + 24) c m) = set16 (p + 24) c (udp_ntoh p m)"
  by (simp add: udp_ntoh_def swap16_set16 add.assoc)

text \<open>What the receiver finds: the datagram with its two checksum fields changed.\<close>

definition received :: "u32 \<Rightarrow> mem \<Rightarrow> mem" where
  "received p m = set16 (p + net_ipcksum) (htons (ipcksum (set16 (p + net_ipcksum) 0 (ip_hton p (udp_hton p (set16 (p + net_udpcksum) 0 m)))) p))
     (set16 (p + net_udpcksum) 0 m)"

lemma encode_decode:
  assumes "m (p + net_ipproto) = IP_UDP"
  shows "ipcksum (eth_ntoh p (ip_encode p m)) p = 0" "udp_ntoh p (ip_ntoh p (eth_ntoh p (ip_encode p m))) = received p m"
proof -
  let ?m0 = "ip_hton p (udp_hton p (set16 (p + 40) 0 m))"
  let ?c = "htons (ipcksum (set16 (p + 24) 0 ?m0) p)"
  have e: "eth_ntoh p (ip_encode p m) = set16 (p + 24) ?c (set16 (p + 24) 0 ?m0)"
    using assms byte_order_roundtrip [of p] by (simp add: ip_encode_def ip_add_cksum_def Let_def)
  show "ipcksum (eth_ntoh p (ip_encode p m)) p = 0" unfolding e using ip_header_checksum [OF refl refl] by blast
  show "udp_ntoh p (ip_ntoh p (eth_ntoh p (ip_encode p m))) = received p m"
    unfolding e by (simp add: ip_ntoh_cksum udp_ntoh_cksum byte_order_roundtrip received_def)
qed

section \<open>The fields of a datagram\<close>

text \<open>\<open>only_header p f\<close>: the writes \<open>f\<close> are to the 42 bytes of the headers at \<open>p\<close>.\<close>

definition only_header :: "u32 \<Rightarrow> (mem \<Rightarrow> mem) \<Rightarrow> bool" where
  "only_header p f \<longleftrightarrow> (\<forall>m a. \<not> inside p 42 a \<longrightarrow> f m a = m a)"

lemma inside_plus: "inside p n (p + c) \<longleftrightarrow> unat c < n" by (simp add: inside_def)

lemma only_header_comp: "only_header p f \<Longrightarrow> only_header p g \<Longrightarrow> only_header p (f \<circ> g)"
  by (simp add: only_header_def)

lemma unat_next: "unat (c :: u32) < 100 \<Longrightarrow> unat (c + 1) = unat c + 1"
  by (simp add: unat_word_ariths)

lemma only_header_writes:
  "unat c < 42 \<Longrightarrow> only_header p (set_byte (p + c) b)" "unat c < 41 \<Longrightarrow> only_header p (set16 (p + c) v)"
  "unat c < 39 \<Longrightarrow> only_header p (set32 (p + c) w)"
proof -
  show "unat c < 42 \<Longrightarrow> only_header p (set_byte (p + c) b)" by (auto simp: only_header_def set_byte_def inside_plus)
  show h: "unat c < 41 \<Longrightarrow> only_header p (set16 (p + c) v)" for c v
    by (auto simp: only_header_def set16_def inside_plus unat_next add.assoc)
  assume c: "unat c < 39"
  then have "unat (c + 2) < 41" by (simp add: unat_word_ariths)
  then show "only_header p (set32 (p + c) w)"
    using h [of c "ucast w"] h [of "c + 2" "ucast (drop_bit 16 w)"] c by (simp add: set32_def only_header_def add.assoc)
qed

lemma only_header_src: "length bs = 6 \<Longrightarrow> only_header p (set_bytes (p + 6) bs)"
proof -
  assume l: "length bs = 6"
  have "a \<noteq> p + 6 + of_nat k" if "\<not> inside p 42 a" "k < length bs" for a k
  proof
    assume "a = p + 6 + of_nat k"
    moreover have "unat (6 + of_nat k :: u32) = 6 + k" using that(2) l by (simp add: unat_word_ariths unat_of_nat_u32)
    ultimately show False using that l by (simp add: add.assoc inside_plus)
  qed
  then show ?thesis unfolding only_header_def by (blast intro: set_bytes_outside)
qed

definition udp_headers :: "u32 \<Rightarrow> u32 \<Rightarrow> u16 \<Rightarrow> u16 \<Rightarrow> int \<Rightarrow> u16 \<Rightarrow> u32 \<Rightarrow> u8 list \<Rightarrow> mem \<Rightarrow> mem" where
  "udp_headers locip remip locport remport len ident p ethsrc =
     set16 (p + net_udpcksum) 0 \<circ> set16 (p + net_udplen) (of_int (8 + len)) \<circ> set16 (p + net_udpdport) remport
       \<circ> set16 (p + net_udpsport) locport \<circ> set32 (p + net_ipdst) remip \<circ> set32 (p + net_ipsrc) locip
       \<circ> set16 (p + net_ipcksum) 0 \<circ> set_byte (p + net_ipproto) IP_UDP \<circ> set_byte (p + net_ipttl) 0xff
       \<circ> set16 (p + net_ipfrag) 0 \<circ> set16 (p + net_ipid) ident \<circ> set16 (p + net_iplen) (of_int (42 + len - ETH_HDR_LEN))
       \<circ> set_byte (p + net_iptos) 0 \<circ> set_byte (p + net_ipvh) 0x45 \<circ> set16 (p + net_ethtype) 0x0800
       \<circ> set_bytes (p + net_ethsrc) ethsrc"

lemma udp_fill_headers:
  "udp_fill locip remip locport remport buff len ident p src m
   = memcpy_loop (nat len) (udp_headers locip remip locport remport len ident p src m) (p + 42) buff"
  by (simp add: udp_fill_def udp_headers_def memcpy_def)

lemma udp_headers_only: "length src = 6 \<Longrightarrow> only_header p (udp_headers locip remip locport remport len ident p src)"
  unfolding udp_headers_def by (intro only_header_comp only_header_writes only_header_src) simp_all

lemma get32_set32 [simp]: "get32 (set32 a v m) a = v"
proof -
  have "get16 (set16 (a + 2) w (set16 a x m)) a = x" for w x by (subst get16_other) (simp_all add: add.assoc)
  moreover have "ucast (ucast v :: u16) OR push_bit 16 (ucast (ucast (drop_bit 16 v) :: u16)) = v"
    by (rule bit_eqI) (auto simp: bit_simps)
  ultimately show ?thesis by (simp add: get32_def set32_def)
qed

lemma reads_through:
  "b \<noteq> a \<Longrightarrow> b + 1 \<noteq> a \<Longrightarrow> get16 (set_byte a v m) b = get16 m b"
  "b \<noteq> a \<Longrightarrow> b \<noteq> a + 1 \<Longrightarrow> b \<noteq> a + 2 \<Longrightarrow> b \<noteq> a + 3 \<Longrightarrow> b + 1 \<noteq> a \<Longrightarrow> b + 1 \<noteq> a + 2 \<Longrightarrow> get16 (set32 a w m) b = get16 m b"
  "b \<noteq> a \<Longrightarrow> b \<noteq> a + 1 \<Longrightarrow> b \<noteq> a + 2 \<Longrightarrow> b \<noteq> a + 3 \<Longrightarrow> set32 a w m b = m b"
  "b \<noteq> a \<Longrightarrow> set_byte a v m b = m b" "set_byte a v m a = v"
  by (auto simp: get16_def set32_def set_byte_def set16_def ac_simps)

lemma get32_through:
  assumes "\<And>k. k < 4 \<Longrightarrow> m' (b + of_nat k) = m (b + of_nat k)"
  shows "get32 m' b = get32 m b"
  using assms [of 0] assms [of 1] assms [of 2] assms [of 3] by (simp add: get32_def get16_def add.assoc)

lemma udp_headers_fields:
  assumes h_def: "h = udp_headers locip remip locport remport len ident p src m"
  shows "get16 h (p + 12) = 0x0800" "h (p + 14) = 0x45" "get16 h (p + 16) = of_int (28 + len)" "h (p + 23) = IP_UDP"
    "get32 h (p + 26) = locip" "get32 h (p + 30) = remip" "get16 h (p + 34) = locport" "get16 h (p + 36) = remport"
    "get16 h (p + 38) = of_int (8 + len)"
proof -
  show "get16 h (p + 12) = 0x0800" "h (p + 14) = 0x45" "get16 h (p + 16) = of_int (28 + len)" "h (p + 23) = IP_UDP"
    "get16 h (p + 34) = locport" "get16 h (p + 36) = remport" "get16 h (p + 38) = of_int (8 + len)"
    unfolding h_def udp_headers_def by (simp_all add: reads_through get16_other set16_other add.assoc)
  have g16: "get32 (set16 a v k) b = get32 k b"
    if "b \<noteq> a" "b \<noteq> a + 1" "b + 1 \<noteq> a" "b + 2 \<noteq> a" "b + 2 \<noteq> a + 1" "b + 3 \<noteq> a" for a b v and k :: mem
    using that by (simp add: get32_def get16_other add.assoc)
  have g32: "get32 (set32 (p + 30) w k) (p + 26) = get32 k (p + 26)" for w k
    by (simp add: get32_def reads_through add.assoc)
  show "get32 h (p + 26) = locip" "get32 h (p + 30) = remip"
    unfolding h_def udp_headers_def by (simp_all add: g16 g32 add.assoc)
qed

section \<open>The receiver\<close>

lemma same_ntoh:
  assumes "same_at m p n q L" "42 \<le> L"
  shows "same_at (eth_ntoh p m) p (eth_ntoh q n) q L" "same_at (ip_ntoh p m) p (ip_ntoh q n) q L" "same_at (udp_ntoh p m) p (udp_ntoh q n) q L"
proof -
  have s16: "same_at (swap16 (p + of_nat j) a) p (swap16 (q + of_nat j) b) q L" if "same_at a p b q L" "j < 41" for a b j
    using same_swap16 [OF that(1), of j] that(2) assms(2) by simp
  have s32: "same_at (swap32 (p + of_nat j) a) p (swap32 (q + of_nat j) b) q L" if "same_at a p b q L" "j < 39" for a b j
    using same_swap32 [OF that(1), of j] that(2) assms(2) by simp
  note t = s16 [of _ _ 12] s16 [of _ _ 16] s16 [of _ _ 18] s16 [of _ _ 20] s32 [of _ _ 26] s32 [of _ _ 30]
    s16 [of _ _ 34] s16 [of _ _ 36] s16 [of _ _ 38]
  show "same_at (eth_ntoh p m) p (eth_ntoh q n) q L" "same_at (ip_ntoh p m) p (ip_ntoh q n) q L" "same_at (udp_ntoh p m) p (udp_ntoh q n) q L"
    using assms(1) t by (simp_all add: eth_ntoh_def ip_ntoh_def udp_ntoh_def)
qed

lemma ntoh_keeps:
  "ip_ntoh p m (p + 12) = m (p + 12)" "ip_ntoh p m (p + 13) = m (p + 13)" "udp_ntoh p m (p + 12) = m (p + 12)" "udp_ntoh p m (p + 13) = m (p + 13)"
  "udp_ntoh p m (p + 14) = m (p + 14)" "udp_ntoh p m (p + 23) = m (p + 23)"
  by (simp_all add: ip_ntoh_def udp_ntoh_def swap16_eq swap32_eq add.assoc)

lemma received_byte: "unat c \<notin> {24, 25, 40, 41} \<Longrightarrow> received p m (p + c) = m (p + c)"
  by (auto simp: received_def set16_def add.assoc)

lemma received_fields:
  "get16 (received p m) (p + 12) = get16 m (p + 12)" "received p m (p + 14) = m (p + 14)" "received p m (p + 23) = m (p + 23)"
  "get32 (received p m) (p + 26) = get32 m (p + 26)" "get32 (received p m) (p + 30) = get32 m (p + 30)"
  "get16 (received p m) (p + 34) = get16 m (p + 34)" "get16 (received p m) (p + 36) = get16 m (p + 36)" "get16 (received p m) (p + 38) = get16 m (p + 38)"
proof -
  have g: "get16 (received p m) (p + c) = get16 m (p + c)" if "unat c \<notin> {24, 25, 40, 41}" "unat (c + 1) \<notin> {24, 25, 40, 41}" for c
    using received_byte [OF that(1)] received_byte [OF that(2)] by (simp add: get16_def add.assoc)
  show "received p m (p + 14) = m (p + 14)" "received p m (p + 23) = m (p + 23)" by (rule received_byte; simp)+
  show "get16 (received p m) (p + 12) = get16 m (p + 12)" "get16 (received p m) (p + 34) = get16 m (p + 34)"
    "get16 (received p m) (p + 36) = get16 m (p + 36)" "get16 (received p m) (p + 38) = get16 m (p + 38)" by (rule g; simp)+
  have "get16 (received p m) (p + 26) = get16 m (p + 26)" "get16 (received p m) (p + 28) = get16 m (p + 28)"
    "get16 (received p m) (p + 30) = get16 m (p + 30)" "get16 (received p m) (p + 32) = get16 m (p + 32)" by (rule g; simp)+
  then show "get32 (received p m) (p + 26) = get32 m (p + 26)" "get32 (received p m) (p + 30) = get32 m (p + 30)"
    by (simp_all add: get32_def add.assoc)
qed

text \<open>The buffer \<open>q\<close> holds the first \<open>L\<close> bytes of what \<open>ip_out\<close> has made of the packet at \<open>p\<close>.\<close>

lemma datagram_demux:
  assumes s: "same_at (ip_encode p m) p (nmem N) q L" and L: "42 \<le> L"
    and h: "get16 m (p + 12) = ETH_IP" "m (p + 14) = 0x45" "m (p + 23) = IP_UDP"
    and r: "intval N \<noteq> SYSERR" and dst: "get32 m (p + 30) \<in> {IP_BCAST, ipucast (netdata N), ipbcast (netdata N)} \<or> \<not> ipvalid (netdata N)"
  obtains n' where "netin_demux q N = udp_in q (push_frame FNetin (N\<lparr>nmem := n'\<rparr>))" "same_at (received p m) p n' q L"
proof -
  define X1 X2 where "X1 = eth_ntoh p (ip_encode p m)" and "X2 = ip_ntoh p X1"
  define Y1 Y2 Y3 where "Y1 = eth_ntoh q (nmem N)" and "Y2 = ip_ntoh q Y1" and "Y3 = udp_ntoh q Y2"
  have X: "ipcksum X1 p = 0" "udp_ntoh p X2 = received p m" using encode_decode [of m p] h(3) by (simp_all add: X1_def X2_def)
  have S: "same_at X1 p Y1 q L" "same_at X2 p Y2 q L" "same_at (received p m) p Y3 q L"
    using same_ntoh [OF s L] same_ntoh [of X1 p Y1 q L] same_ntoh [of X2 p Y2 q L] X(2) L by (simp_all add: X1_def X2_def Y1_def Y2_def Y3_def)
  have b: "X1 (p + 12) = m (p + 12)" "X1 (p + 13) = m (p + 13)" "X2 (p + 14) = m (p + 14)" "X2 (p + 23) = m (p + 23)"
    using ntoh_keeps [of p X1] ntoh_keeps [of p X2] X(2) received_byte [of 12 p m] received_byte [of 13 p m] received_byte [of 14 p m] received_byte [of 23 p m]
    by (simp_all add: X2_def)
  have y: "get16 Y1 (q + 12) = ETH_IP" "Y2 (q + 14) = 0x45" "Y2 (q + 23) = IP_UDP" "Y3 (q + 23) = IP_UDP" "get32 Y3 (q + 30) = get32 m (p + 30)"
    using same_get16 [OF S(1), of 12] same_byte [OF S(2), of 14] same_byte [OF S(2), of 23] same_byte [OF S(3), of 23] same_get32 [OF S(3), of 30]
      b h received_fields [of p m] L by (simp_all add: get16_def add.assoc)
  have c: "ipcksum Y1 q = 0" using same_ipcksum [OF S(1)] X(1) L by simp
  have u: "upd_mem f (N\<lparr>nmem := n\<rparr>) = N\<lparr>nmem := f n\<rparr>" "push_frame g (N\<lparr>nmem := n\<rparr>) = (push_frame g N)\<lparr>nmem := n\<rparr>"
    "upd_mem f ((push_frame g N)\<lparr>nmem := n\<rparr>) = (push_frame g N)\<lparr>nmem := f n\<rparr>" for f g n
    by (simp_all add: upd_mem_def push_frame_def me_def)
  define M where "M = (push_frame FNetin N)\<lparr>nmem := Y1\<rparr>"
  have "netin_demux q N = ip_in q M"
    using r y(1) u by (simp add: netin_demux_def Let_def M_def upd_mem_def [of _ N] Y1_def [symmetric] get16_def)
  also have "\<dots> = ip_deliver q ((push_frame FNetin N)\<lparr>nmem := Y3\<rparr>)"
    using c y(2,3) by (simp add: ip_in_def Let_def M_def u Y2_def [symmetric] Y3_def [symmetric])
  also have "\<dots> = ip_local q ((push_frame FNetin N)\<lparr>nmem := Y3\<rparr>)"
    using dst y(4,5) by (auto simp: ip_deliver_def Let_def push_frame_def)
  also have "\<dots> = udp_in q (push_frame FNetin (N\<lparr>nmem := Y3\<rparr>))"
    using y(4) by (simp add: ip_local_def u)
  finally show ?thesis using that [OF _ S(3)] by blast
qed

lemma inside_after: "n \<le> 1472 \<Longrightarrow> inside (p + 42) n a \<Longrightarrow> inside p (42 + n) a"
proof -
  assume n: "n \<le> 1472" "inside (p + 42) n a"
  define d where "d = a - (p + 42)"
  have "a - p = d + 42" by (simp add: d_def)
  moreover have "unat d < 1472" using n by (simp add: inside_def d_def)
  ultimately show ?thesis using n by (simp add: inside_def d_def [symmetric] unat_word_ariths)
qed

lemma not_after: "n \<le> 1472 \<Longrightarrow> unat c < 42 \<Longrightarrow> \<not> inside (p + 42) n (p + c)"
proof
  assume n: "n \<le> 1472" "unat c < 42" "inside (p + 42) n (p + c)"
  then have "inside p (42 + n) (p + c)" by (intro inside_after)
  have d: "p + c - (p + 42) = c - 42" by simp
  have "unat (c - 42) < 1472" using n by (simp add: inside_def d)
  moreover have "unat (d + 42) = unat d + 42" if "unat d < 1472" for d :: u32 using that by (simp add: unat_word_ariths)
  ultimately have "unat (c - 42 + 42) = unat (c - 42) + 42" by blast
  then show False using n(2) by simp
qed

lemma udp_fill_fields:
  assumes m: "m = udp_fill locip remip locport remport buff len ident p src m0" "length src = 6" "0 \<le> len" "len \<le> 1472"
    and apart: "\<forall>a. inside p (42 + nat len) a \<longrightarrow> \<not> inside buff (nat len) a"
  shows "get16 m (p + 12) = 0x0800" "m (p + 14) = 0x45" "get16 m (p + 16) = of_int (28 + len)" "m (p + 23) = IP_UDP"
    "get32 m (p + 26) = locip" "get32 m (p + 30) = remip" "get16 m (p + 34) = locport" "get16 m (p + 36) = remport"
    "get16 m (p + 38) = of_int (8 + len)" "k < nat len \<Longrightarrow> m (p + 42 + of_nat k) = m0 (buff + of_nat k)"
proof -
  define h where "h = udp_headers locip remip locport remport len ident p src m0"
  have n: "nat len \<le> 1472" using m(4) by simp
  have "Strings.apart (p + 42) buff (nat len)" unfolding Strings.apart_def using inside_after [OF n] apart by blast
  then have e: "m = (\<lambda>a. if inside (p + 42) (nat len) a then h (a - (p + 42) + buff) else h a)"
    unfolding m(1) udp_fill_headers h_def by (rule memcpy_loop_eq)
  have b: "m (p + c) = h (p + c)" if "unat c < 42" for c using not_after [OF n that] by (simp add: e)
  have g: "get16 m (p + c) = get16 h (p + c)" if "unat c < 41" for c
    using b [of c] b [of "c + 1"] that unat_next [of c] by (simp add: get16_def add.assoc)
  have g2: "get32 m (p + c) = get32 h (p + c)" if "unat c < 39" for c
    using g [of c] g [of "c + 2"] that by (simp add: get32_def add.assoc unat_word_ariths)
  note F = udp_headers_fields [OF h_def]
  show "get16 m (p + 12) = 0x0800" "get16 m (p + 16) = of_int (28 + len)"
    "get16 m (p + 34) = locport" "get16 m (p + 36) = remport" "get16 m (p + 38) = of_int (8 + len)" by (subst g; simp add: F)+
  show "m (p + 14) = 0x45" "m (p + 23) = IP_UDP" by (subst b; simp add: F)+
  show "get32 m (p + 26) = locip" "get32 m (p + 30) = remip" by (subst g2; simp add: F)+
  assume k: "k < nat len"
  then have u: "unat (of_nat k :: u32) = k" using n by (intro unat_of_nat_u32) simp
  have "\<not> inside p 42 (buff + of_nat k)"
  proof
    assume "inside p 42 (buff + of_nat k)"
    then have "inside p (42 + nat len) (buff + of_nat k)" by (simp add: inside_def)
    moreover have "inside buff (nat len) (buff + of_nat k)" using k by (simp add: inside_plus u)
    ultimately show False using apart by blast
  qed
  then have "h (buff + of_nat k) = m0 (buff + of_nat k)" using udp_headers_only [OF m(2)] by (simp add: h_def only_header_def)
  moreover have "inside (p + 42) (nat len) (p + 42 + of_nat k)" using k by (simp add: inside_plus u)
  ultimately show "m (p + 42 + of_nat k) = m0 (buff + of_nat k)" by (simp add: e add.commute)
qed

text \<open>C3. End to end: the frame that \<open>ip_out\<close> hands to the device for a datagram made by \<open>udp_sendto\<close>, copied into
  a buffer of a machine with the destination address, passes every check of \<open>netin\<close> and \<open>ip_in\<close> there and reaches
  \<open>udp_in\<close> with the ports, the address of the sender, the length and every byte of data as they were passed to the
  sender.\<close>

theorem udp_datagram_arrives:
  assumes "nmem A = udp_fill locip remip locport remport buff len ident p src m0" "length src = 6" "0 \<le> len" "len \<le> 1472"
    and "\<forall>a. inside p (42 + nat len) a \<longrightarrow> \<not> inside buff (nat len) a"
    and "run_frame (FEthWrite (Buf p) (uint (get16 (nmem A) (p + net_iplen)) + ETH_HDR_LEN)) (upd_mem (ip_encode p) A) = Some A'"
    and "nmem N = set_bytes q (last (txring A')) n" "intval N \<noteq> SYSERR"
    and "remip \<in> {IP_BCAST, ipucast (netdata N), ipbcast (netdata N)} \<or> \<not> ipvalid (netdata N)"
  shows "\<exists>n'. netin_demux q N = udp_in q (push_frame FNetin (N\<lparr>nmem := n'\<rparr>))
    \<and> get16 n' (q + net_udpsport) = locport \<and> get16 n' (q + net_udpdport) = remport \<and> get32 n' (q + net_ipsrc) = locip
    \<and> get16 n' (q + net_udplen) = of_int (8 + len) \<and> (\<forall>k < nat len. n' (q + net_udpdata + of_nat k) = m0 (buff + of_nat k))"
proof -
  define m where "m = nmem A"
  note F = udp_fill_fields [OF assms(1)[folded m_def] assms(2-5)]
  have "uint (of_int (28 + len) :: u16) = 28 + len" using assms(3,4) by (simp only: uint_word_of_int) simp
  then have l: "nat (uint (get16 m (p + 16)) + 14) = 42 + nat len" using assms(3) F(3) by simp
  have "last (txring A') = bytes_at (ip_encode p m) p (42 + nat len)"
    using assms(6) l by (auto simp: ethwrite_finish_def ndone_eq upd_mem_def m_def Let_def)
  then have s: "same_at (ip_encode p m) p (nmem N) q (42 + nat len)" using assms(4,7) same_copied by simp
  obtain n' where n': "netin_demux q N = udp_in q (push_frame FNetin (N\<lparr>nmem := n'\<rparr>))" "same_at (received p m) p n' q (42 + nat len)"
    by (rule datagram_demux [OF s _ F(1,2,4) assms(8)]) (use F(6) assms(9) in \<open>auto intro: that\<close>)
  have "n' (q + 42 + of_nat k) = m0 (buff + of_nat k)" if "k < nat len" for k
  proof -
    have "unat (42 + of_nat k :: u32) = 42 + k" using that assms(4) by (simp add: unat_word_ariths unat_of_nat_u32)
    then have "received p m (p + (42 + of_nat k)) = m (p + (42 + of_nat k))" by (intro received_byte) simp
    then show ?thesis using same_byte [OF n'(2), of "42 + k"] that F(10) [OF that] by (simp add: add.assoc)
  qed
  then show ?thesis
    using n'(1) same_get16 [OF n'(2), of 34] same_get16 [OF n'(2), of 36] same_get16 [OF n'(2), of 38] same_get32 [OF n'(2), of 26]
      received_fields [of p m] F by (intro exI [of _ n']) simp
qed

definition sample_data :: mem where "sample_data = (\<lambda>_. 0)(0x500000 := 7, 0x500003 := 8)"

text \<open>Four bytes from port 9 to port 53 of the machine 10.0.0.2.\<close>

definition sending :: "net \<Rightarrow> net" where
  "sending A = A\<lparr>nmem := udp_fill 0x0a000001 0x0a000002 9 53 0x500000 4 1 0x300004 [2, 0, 0, 0, 0, 1] sample_data\<rparr>"

definition written :: "net \<Rightarrow> net" where
  "written A = the (run_frame (FEthWrite (Buf 0x300004) (uint (get16 (nmem (sending A)) (0x300004 + net_iplen)) + ETH_HDR_LEN))
     (upd_mem (ip_encode 0x300004) (sending A)))"

theorem udp_datagram_arrives_witness:
  "\<exists>N. netdata N = \<lparr>ipucast = 0x0a000002, ipbcast = 0x0a0000ff, ipmask = 0xffffff00, ipprefix = 0x0a000000, iprouter = 0,
      ipvalid = True, ethucast = [2, 0, 0, 0, 0, 2], ethbcast = replicate 6 0xff\<rparr>
    \<and> (\<exists>n'. netin_demux 0x600004 N = udp_in 0x600004 (push_frame FNetin (N\<lparr>nmem := n'\<rparr>)) \<and> get16 n' (0x600004 + net_udpdport) = 53
        \<and> n' (0x600004 + net_udpdata) = 7)"
proof -
  obtain A :: net where "True" by simp
  define N where "N = A\<lparr>npl := (npl A)\<lparr>bker := set_cont (me A) (Ret 46) (bker (npl A))\<rparr>,
    netdata := \<lparr>ipucast = 0x0a000002, ipbcast = 0x0a0000ff, ipmask = 0xffffff00, ipprefix = 0x0a000000, iprouter = 0,
      ipvalid = True, ethucast = [2, 0, 0, 0, 0, 2], ethbcast = replicate 6 0xff\<rparr>,
    nmem := set_bytes 0x600004 (last (txring (written A))) (\<lambda>_. 0)\<rparr>"
  have f: "nmem (sending A) = udp_fill 0x0a000001 0x0a000002 9 53 0x500000 4 1 0x300004 [2, 0, 0, 0, 0, 1]
    sample_data" by (simp add: sending_def)
  have w: "run_frame (FEthWrite (Buf 0x300004) (uint (get16 (nmem (sending A)) (0x300004 + net_iplen)) + ETH_HDR_LEN))
     (upd_mem (ip_encode 0x300004) (sending A)) = Some (written A)"
    by (simp add: written_def ethwrite_finish_def ndone_eq Let_def)
  have i: "intval N \<noteq> SYSERR" by (simp add: N_def intval_def retval_def me_def)
  have ap: "\<forall>a. inside 0x300004 (42 + nat 4) a \<longrightarrow> \<not> inside 0x500000 (nat 4) a"
  proof (intro allI impI notI)
    fix a
    assume that: "inside 0x300004 (42 + nat 4) a" and "inside 0x500000 (nat 4) a"
    then have "unat (a - 0x500000) < 4" using that by (simp add: inside_def)
    moreover have "unat (d + 0x1ffffc) = unat d + 0x1ffffc" if "unat d < 4" for d :: u32 using that by (simp add: unat_word_ariths)
    ultimately have "unat (a - 0x500000 + 0x1ffffc) = unat (a - 0x500000) + 0x1ffffc" by blast
    moreover have "a - 0x500000 + 0x1ffffc = a - 0x300004" by simp
    ultimately show False using that by (simp add: inside_def)
  qed
  have nd: "netdata N = \<lparr>ipucast = 0x0a000002, ipbcast = 0x0a0000ff, ipmask = 0xffffff00, ipprefix = 0x0a000000, iprouter = 0,
      ipvalid = True, ethucast = [2, 0, 0, 0, 0, 2], ethbcast = replicate 6 0xff\<rparr>"
    "nmem N = set_bytes 0x600004 (last (txring (written A))) (\<lambda>_. 0)" by (simp_all add: N_def)
  obtain n' where n': "netin_demux 0x600004 N = udp_in 0x600004 (push_frame FNetin (N\<lparr>nmem := n'\<rparr>))" "get16 n' (0x600004 + net_udpdport) = 53"
    "\<forall>k < nat 4. n' (0x600004 + net_udpdata + of_nat k) = sample_data (0x500000 + of_nat k)"
    using udp_datagram_arrives [OF f _ _ _ ap w nd(2) i] nd(1) by auto
  have "n' (0x600004 + net_udpdata) = 7" using n'(3) [rule_format, of 0] by (simp add: sample_data_def)
  then show ?thesis using n' nd(1) by blast
qed

end
