(* ===== verification/Netlaws.thy ===== *)
theory Netlaws
  imports Ip Poolsystem
begin

text \<open>
  What the network stack keeps whatever happens around it: the indices of every queue of packets stay inside
  it, and the ARP cache has at most one entry for an address. The steps are calls of the interface, the
  rest of calls that gave the processor away, and anything other processes do to memory, buffers and the kernel.
\<close>

section \<open>The tables\<close>

definition ud_index_ok :: "udpentry \<Rightarrow> bool" where
  "ud_index_ok e \<longleftrightarrow> 0 \<le> udhead e \<and> udhead e < UDP_QSIZ \<and> 0 \<le> udtail e \<and> udtail e < UDP_QSIZ
     \<and> udcount e \<le> UDP_QSIZ \<and> udtail e = (udhead e + udcount e) mod UDP_QSIZ"

definition iq_index_ok :: "iqentry \<Rightarrow> bool" where
  "iq_index_ok q \<longleftrightarrow> 0 \<le> iqhead q \<and> iqhead q < IP_OQSIZ \<and> 0 \<le> iqtail q \<and> iqtail q < IP_OQSIZ"

definition arp_known :: "net \<Rightarrow> int \<Rightarrow> u32 \<Rightarrow> bool" where
  "arp_known N i a \<longleftrightarrow> 0 \<le> i \<and> i < ARP_SIZ \<and> arstate (arpcache N i) \<noteq> AR_FREE \<and> arpaddr (arpcache N i) = a"

definition arp_unique :: "net \<Rightarrow> bool" where
  "arp_unique N \<longleftrightarrow> (\<forall>i j a. arp_known N i a \<longrightarrow> arp_known N j a \<longrightarrow> i = j)"

definition tables_ok :: "net \<Rightarrow> bool" where
  "tables_ok N \<longleftrightarrow> (\<forall>i. ud_index_ok (udptab N i)) \<and> iq_index_ok (ipoqueue N) \<and> arp_unique N"

lemma tables_cong: "udptab N' = udptab N \<Longrightarrow> ipoqueue N' = ipoqueue N \<Longrightarrow> arpcache N' = arpcache N \<Longrightarrow> tables_ok N' = tables_ok N"
  by (simp add: tables_ok_def arp_unique_def arp_known_def)

lemma tables_push [simp]: "tables_ok (push_frame f N) = tables_ok N"
  by (rule tables_cong) (simp_all add: push_frame_def)

lemma tables_mem [simp]: "tables_ok (upd_mem f N) = tables_ok N"
  by (rule tables_cong) (simp_all add: upd_mem_def)

lemma tables_icmp [simp]: "tables_ok (upd_icmp i f N) = tables_ok N"
  by (rule tables_cong) (simp_all add: upd_icmp_def)

lemma tables_fields [simp]:
  "tables_ok (N\<lparr>npl := P\<rparr>) = tables_ok N" "tables_ok (N\<lparr>nstack := st\<rparr>) = tables_ok N" "tables_ok (N\<lparr>txring := tx\<rparr>) = tables_ok N"
  "tables_ok (N\<lparr>rxring := rx\<rparr>) = tables_ok N" "tables_ok (N\<lparr>ipident := x\<rparr>) = tables_ok N"
  "tables_ok (N\<lparr>send_ident := y\<rparr>) = tables_ok N" "tables_ok (N\<lparr>sendto_ident := y\<rparr>) = tables_ok N" "tables_ok (N\<lparr>nmem := m\<rparr>) = tables_ok N"
  by (rule tables_cong; simp)+

lemma tables_udp: "tables_ok N \<Longrightarrow> ud_index_ok (f (udptab N i)) \<Longrightarrow> tables_ok (upd_udp i f N)"
  by (auto simp: tables_ok_def upd_udp_def arp_unique_def arp_known_def)

lemma tables_udp_index: "tables_ok N \<Longrightarrow> ud_index_ok (udptab N i)" by (simp add: tables_ok_def)

lemma tables_udp_keep:
  assumes "tables_ok N" "\<And>e. udhead (f e) = udhead e" "\<And>e. udtail (f e) = udtail e" "\<And>e. udcount (f e) = udcount e"
  shows "tables_ok (upd_udp i f N)"
  by (rule tables_udp [OF assms(1)]) (use tables_udp_index [OF assms(1), of i] in \<open>simp add: ud_index_ok_def assms(2-4)\<close>)

section \<open>Steps that only make calls\<close>

lemma on_pools_tables [always_rules]: "tables_ok N \<Longrightarrow> always (on_pools g N) tables_ok"
  by (auto simp: always_def dest!: on_pools_result)

lemma on_kern_tables [always_rules]: "tables_ok N \<Longrightarrow> always (on_kern g N) tables_ok"
  by (auto simp: always_def dest!: on_kern_result)

lemma ndone_tables [always_rules]: "tables_ok N \<Longrightarrow> always (ndone c N) tables_ok"
  by (simp add: ndone_def on_kern_tables)

lemma free_tables [always_rules]: "tables_ok N \<Longrightarrow> always (free_and_return p c N) tables_ok"
  by (simp add: free_and_return_def on_pools_tables)

lemma getbuf_tables [always_rules]: "tables_ok N \<Longrightarrow> always (getbuf_then f N) tables_ok"
  by (simp add: getbuf_then_def on_pools_tables)

lemma ethwrite_tables [always_rules]: "tables_ok N \<Longrightarrow> always (ethwrite b n N) tables_ok" "tables_ok N \<Longrightarrow> always (ethwrite_finish b n N) tables_ok"
  by (simp_all add: ethwrite_def ethwrite_finish_def Let_def always_rules)

lemma ethread_tables [always_rules]: "tables_ok N \<Longrightarrow> always (ethread a n N) tables_ok" "tables_ok N \<Longrightarrow> always (ethread_finish a N) tables_ok"
  by (simp_all add: ethread_def ethread_finish_def always_rules split: list.split)

section \<open>UDP\<close>

lemma put_index: "ud_index_ok e \<Longrightarrow> udcount e < UDP_QSIZ \<Longrightarrow> ud_index_ok (ud_put p e)"
proof -
  assume e: "ud_index_ok e" "udcount e < UDP_QSIZ"
  have "(udhead e + (udcount e + 1)) mod 8 = (if (udhead e + udcount e) mod 8 = 7 then 0 else (udhead e + udcount e) mod 8 + 1)"
    using next8 [of "udhead e + udcount e"] by (simp add: ac_simps)
  then show ?thesis using e by (auto simp: ud_index_ok_def ud_put_def Let_def)
qed

lemma take_index: "ud_index_ok e \<Longrightarrow> ud_index_ok (snd (ud_take e))"
proof -
  assume e: "ud_index_ok e"
  have w: "((udhead e + 1) mod 8 + (udcount e - 1)) mod 8 = (udhead e + udcount e) mod 8" by (simp add: mod_add_left_eq)
  have h: "0 \<le> udhead e" "udhead e < 8" using e by (simp_all add: ud_index_ok_def)
  have "udhead (snd (ud_take e)) = (udhead e + 1) mod 8" "udtail (snd (ud_take e)) = udtail e" "udcount (snd (ud_take e)) = udcount e - 1"
    using ring_wrap [OF h] by (auto simp: ud_take_def Let_def)
  then show ?thesis using e w by (simp add: ud_index_ok_def)
qed

lemma udp_in_tables [always_rules]: "tables_ok N \<Longrightarrow> always (udp_in p N) tables_ok"
proof -
  assume N: "tables_ok N"
  show ?thesis
  proof (cases "find (\<lambda>i. udp_accepts (nmem N) p (udptab N i)) [0..UDP_SLOTS - 1]")
    case None
    then show ?thesis using N by (simp add: udp_in_def on_pools_tables)
  next
    case (Some i)
    then have "udcount (udptab N i) < UDP_QSIZ" by (auto simp: find_Some_iff udp_accepts_def)
    then have "tables_ok (upd_udp i (ud_put p) N)" by (intro tables_udp [OF N] put_index tables_udp_index [OF N])
    then show ?thesis using Some by (simp add: udp_in_def Let_def on_kern_tables tables_udp_keep)
  qed
qed

lemma dequeue_tables: "tables_ok N \<Longrightarrow> tables_ok (snd (udp_dequeue slot N))"
  by (simp add: udp_dequeue_def case_prod_unfold Let_def tables_udp take_index tables_udp_index)

lemma udp_copy_tables [always_rules]: "tables_ok N \<Longrightarrow> always (udp_copy p b n N) tables_ok"
  by (simp add: udp_copy_def Let_def always_rules)

lemma udp_take_tables [always_rules]:
  "tables_ok N \<Longrightarrow> always (udp_take slot b n N) tables_ok" "tables_ok N \<Longrightarrow> always (udp_take_addr slot ra rp b n N) tables_ok"
  by (simp_all add: udp_take_def udp_take_addr_def case_prod_unfold Let_def always_rules dequeue_tables)

lemma udp_await_tables [always_rules]:
  assumes N: "tables_ok N" and k: "always (k N) tables_ok"
  shows "always (udp_await slot t f k N) tables_ok"
proof -
  have "tables_ok (upd_udp slot (\<lambda>e. e\<lparr>udstate := UDP_RECV, udpid := me N\<rparr>) N)" using N by (simp add: tables_udp_keep)
  then show ?thesis using N k by (auto simp: udp_await_def always_rules intro!: always_bind [where J = tables_ok])
qed

lemma udp_awaited_tables [always_rules]:
  assumes N: "tables_ok N" and k: "\<And>N. tables_ok N \<Longrightarrow> always (k N) tables_ok"
  shows "always (udp_awaited slot k N) tables_ok"
  using N k by (simp add: udp_awaited_def Let_def always_rules tables_udp_keep)

lemma udp_register_tables [always_rules]: "tables_ok N \<Longrightarrow> always (udp_register ra rp lp N) tables_ok"
  by (auto simp: udp_register_def always_rules ud_index_ok_def intro!: ndone_tables tables_udp split: option.split)

lemma udp_drain_tables: "tables_ok N \<Longrightarrow> always (udp_drain n slot N) tables_ok"
proof (induction n arbitrary: N)
  case (Suc n)
  define e where "e = (udptab N slot)\<lparr>udhead := udhead (udptab N slot) + 1\<rparr>"
  define e2 where "e2 = (if UDP_QSIZ \<le> udhead e then e\<lparr>udhead := 0\<rparr> else e)"
  have t: "snd (ud_take (udptab N slot)) = e2\<lparr>udcount := udcount e2 - 1\<rparr>" by (simp add: ud_take_def Let_def e_def e2_def)
  have i: "ud_index_ok (e2\<lparr>udcount := udcount e2 - 1\<rparr>)" using take_index [OF tables_udp_index [OF Suc.prems]] t by metis
  have "tables_ok (upd_udp slot (\<lambda>e. e\<lparr>udcount := udcount e - 1\<rparr>) (upd_udp slot (\<lambda>_. e2) N\<lparr>npl := P\<rparr>))" for P
  proof -
    have "upd_udp slot (\<lambda>e. e\<lparr>udcount := udcount e - 1\<rparr>) (upd_udp slot (\<lambda>_. e2) N\<lparr>npl := P\<rparr>)
      = (upd_udp slot (\<lambda>_. e2\<lparr>udcount := udcount e2 - 1\<rparr>) N)\<lparr>npl := P\<rparr>" by (simp add: upd_udp_def)
    then show ?thesis using tables_udp [OF Suc.prems, of "\<lambda>_. e2\<lparr>udcount := udcount e2 - 1\<rparr>" slot] i by simp
  qed
  then have "always (on_pools g (upd_udp slot (\<lambda>_. e2) N)) (\<lambda>x. tables_ok (upd_udp slot (\<lambda>e. e\<lparr>udcount := udcount e - 1\<rparr>) x))" for g
    by (auto simp: always_def dest!: on_pools_result)
  then show ?case unfolding udp_drain.simps Let_def e_def [symmetric] e2_def [symmetric] by (rule always_bind) (rule Suc.IH)
qed simp

lemma udp_release_tables [always_rules]: "tables_ok N \<Longrightarrow> always (udp_release slot N) tables_ok"
  by (auto simp: udp_release_def Let_def always_rules tables_udp_keep intro!: always_bind [where J = tables_ok] udp_drain_tables)

section \<open>ICMP, ARP, IP\<close>

lemma ip_enqueue_tables [always_rules]: "tables_ok N \<Longrightarrow> always (ip_enqueue p N) tables_ok"
proof -
  assume N: "tables_ok N"
  have "tables_ok (M\<lparr>ipoqueue := iq_put p (ipoqueue M)\<rparr>)" if "tables_ok M" for M
    using that by (auto simp: tables_ok_def iq_index_ok_def iq_put_def Let_def arp_unique_def arp_known_def)
  then show ?thesis using N
    by (auto simp: ip_enqueue_def Let_def always_rules intro!: always_bind [where J = tables_ok])
qed

lemma icmp_in_tables [always_rules]: "tables_ok N \<Longrightarrow> always (icmp_in p N) tables_ok"
  by (auto simp: icmp_in_def Let_def always_rules intro!: always_bind [where J = "\<lambda>_. True"] simp: always_def [where J = "\<lambda>_. True"])

lemma mkpkt_tables: "tables_ok N \<Longrightarrow> always (icmp_mkpkt_finish a t i q b n N) (\<lambda>x. tables_ok (snd x))"
  by (simp add: icmp_mkpkt_finish_def icmp_fill_def)

lemma icmp_echo_tables [always_rules]: "tables_ok N \<Longrightarrow> always (icmp_echo p N) tables_ok"
  unfolding icmp_echo_def Let_def by (rule always_bind [OF mkpkt_tables]) (auto intro!: ip_enqueue_tables)

lemma icmp_register_tables [always_rules]: "tables_ok N \<Longrightarrow> always (icmp_register a N) tables_ok"
  by (auto simp: icmp_register_def intro!: ndone_tables split: option.split)

lemma icmp_take_tables [always_rules]: "tables_ok N \<Longrightarrow> always (icmp_take slot b n N) tables_ok"
  by (auto simp: icmp_take_def Let_def intro!: free_tables always_bind [where J = "\<lambda>_. True"] simp: always_def [where J = "\<lambda>_. True"])

lemma icmp_recv_tables [always_rules]: "tables_ok N \<Longrightarrow> always (icmp_recv slot b n t N) tables_ok"
  by (auto simp: icmp_recv_def always_rules intro!: always_bind [where J = tables_ok])

lemma icmp_awaited_tables [always_rules]: "tables_ok N \<Longrightarrow> always (icmp_awaited slot b n N) tables_ok"
  by (simp add: icmp_awaited_def Let_def always_rules)

lemma icmp_drain_tables: "tables_ok N \<Longrightarrow> always (icmp_drain n slot N) tables_ok"
proof (induction n arbitrary: N)
  case (Suc n)
  have "always (on_pools g (upd_icmp slot f N) \<bind> (\<lambda>N1. icmp_drain n slot (upd_icmp slot h N1))) tables_ok" for f g h
    by (rule always_bind [OF on_pools_tables]) (use Suc in simp_all)
  note step = this
  show ?case unfolding icmp_drain.simps
    by (rule always_bind [where J = "\<lambda>_. True"]) (auto simp: always_def [where J = "\<lambda>_. True"] intro!: step)
qed simp

lemma icmp_release_tables [always_rules]: "tables_ok N \<Longrightarrow> always (icmp_release slot N) tables_ok"
  by (auto simp: icmp_release_def Let_def always_rules intro!: always_bind [where J = tables_ok] icmp_drain_tables)

text \<open>An entry of the ARP cache that is made or changed.\<close>

lemma tables_arp:
  assumes "tables_ok N" "arstate (f (arpcache N i)) = AR_FREE
    \<or> arpaddr (f (arpcache N i)) = arpaddr (arpcache N i) \<and> arstate (arpcache N i) \<noteq> AR_FREE
    \<or> (\<forall>j. j \<noteq> i \<longrightarrow> \<not> arp_known N j (arpaddr (f (arpcache N i))))"
  shows "tables_ok (upd_arp i f N)"
proof -
  have "arp_unique (upd_arp i f N)"
    unfolding arp_unique_def
  proof (intro allI impI)
    fix j k a
    assume "arp_known (upd_arp i f N) j a" "arp_known (upd_arp i f N) k a"
    then show "j = k" using assms unfolding tables_ok_def arp_unique_def arp_known_def upd_arp_def by (auto split: if_splits; metis)
  qed
  then show ?thesis using assms(1) by (simp add: tables_ok_def upd_arp_def)
qed

lemma arp_find_None: "arp_find a N = None \<Longrightarrow> \<not> arp_known N j a"
  by (auto simp: arp_find_def find_None_iff arp_known_def)

lemma arp_find_Some: "arp_find a N = Some i \<Longrightarrow> arp_known N i a"
  by (auto simp: arp_find_def find_Some_iff arp_known_def)

lemma arp_alloc_cases:
  obtains (full) "arp_alloc N = (SYSERR, N)" "\<And>i. 0 \<le> i \<Longrightarrow> i < ARP_SIZ \<Longrightarrow> arstate (arpcache N i) = AR_PENDING"
  | (slot) i where "arp_alloc N = (i, upd_arp i (\<lambda>_. arp_zero) N)" "0 \<le> i" "i < ARP_SIZ" "arstate (arpcache N i) \<noteq> AR_PENDING"
      "arstate (arpcache N i) = AR_FREE \<or> (\<forall>j. 0 \<le> j \<longrightarrow> j < ARP_SIZ \<longrightarrow> arstate (arpcache N j) \<noteq> AR_FREE)"
proof (cases "find (\<lambda>i. arstate (arpcache N i) = AR_FREE) [0..ARP_SIZ - 1]")
  case (Some i)
  then have "arstate (arpcache N i) = AR_FREE" "0 \<le> i" "i < ARP_SIZ" by (auto simp: find_Some_iff)
  then show ?thesis using Some by (intro slot [of i]) (simp_all add: arp_alloc_def)
next
  case n: None
  then have nf: "\<forall>j. 0 \<le> j \<longrightarrow> j < ARP_SIZ \<longrightarrow> arstate (arpcache N j) \<noteq> AR_FREE" by (auto simp: find_None_iff)
  show ?thesis
  proof (cases "find (\<lambda>i. arstate (arpcache N i) = AR_RESOLVED) [0..ARP_SIZ - 1]")
    case (Some i)
    then have "arstate (arpcache N i) = AR_RESOLVED" "0 \<le> i" "i < ARP_SIZ" by (auto simp: find_Some_iff)
    then show ?thesis using Some n nf by (intro slot [of i]) (simp_all add: arp_alloc_def)
  next
    case None
    then have "\<And>i. 0 \<le> i \<Longrightarrow> i < ARP_SIZ \<Longrightarrow> arstate (arpcache N i) = AR_PENDING"
    proof -
      fix i :: int
      assume i: "0 \<le> i" "i < ARP_SIZ"
      then have "i \<in> set [0..ARP_SIZ - 1]" by simp
      then have "arstate (arpcache N i) \<noteq> AR_RESOLVED" using None unfolding find_None_iff by blast
      then show "arstate (arpcache N i) = AR_PENDING" using nf i by (cases "arstate (arpcache N i)") auto
    qed
    then show ?thesis using None n by (intro full) (simp_all add: arp_alloc_def)
  qed
qed

text \<open>An entry is allocated for an address that is not known.\<close>

lemma tables_alloc:
  assumes N: "tables_ok N" and new: "\<And>j. \<not> arp_known N j a" and i: "arp_alloc N = (i, N1)" "i \<noteq> SYSERR"
    and f: "arpaddr (f arp_zero) = a"
  shows "tables_ok (upd_arp i f N1)"
proof (cases rule: arp_alloc_cases [of N])
  case full
  then show ?thesis using i by simp
next
  case (slot k)
  then have k: "k = i" "N1 = upd_arp i (\<lambda>_. arp_zero) N" using i by simp_all
  then have "upd_arp i f N1 = upd_arp i (\<lambda>_. f arp_zero) N" by (simp add: upd_arp_def)
  then show ?thesis using tables_arp [OF N, of "\<lambda>_. f arp_zero" i] new f by simp
qed

lemma arp_alloc_tables: "tables_ok N \<Longrightarrow> tables_ok (snd (arp_alloc N))"
  by (cases rule: arp_alloc_cases [of N]) (simp_all add: tables_arp arp_zero_def)

lemma arp_try_tables [always_rules]: "tables_ok N \<Longrightarrow> always (arp_try a b slot i ap N) tables_ok"
  by (simp add: arp_try_def always_rules tables_arp)

lemma arp_resolve_tables [always_rules]:
  assumes N: "tables_ok N"
  shows "always (arp_resolve a b N) tables_ok"
proof (cases "arp_find a N")
  case None
  obtain i N1 where A: "arp_alloc N = (i, N1)" by fastforce
  have "tables_ok N1" using arp_alloc_tables [OF N] A by simp
  moreover have "i \<noteq> SYSERR \<Longrightarrow> tables_ok (upd_arp i (\<lambda>e. e\<lparr>arstate := AR_PENDING, arpaddr := a, arpid := me N1\<rparr>) N1)"
    by (rule tables_alloc [OF N arp_find_None [OF None] A]) simp_all
  ultimately show ?thesis using N None A
    by (auto simp: arp_resolve_def Let_def always_rules intro!: always_bind [where J = tables_ok])
qed (use N in \<open>auto simp: arp_resolve_def Let_def always_rules\<close>)

lemma arp_answer_tables [always_rules]: "tables_ok N \<Longrightarrow> always (arp_answer a b slot i ap N) tables_ok"
  by (simp add: arp_answer_def Let_def always_rules)

lemma arp_sent_tables [always_rules]: "tables_ok N \<Longrightarrow> always (arp_sent a b slot i ap N) tables_ok"
  by (simp add: arp_sent_def always_rules)

text \<open>\<open>arp_in\<close> adds the sender only if it has not found it.\<close>

lemma arp_in_rest_tables [always_rules]:
  assumes N: "tables_ok N" and new: "\<not> found \<Longrightarrow> \<not> (\<exists>j. arp_known N j (get32 (nmem N) (p + arp_sndpa)))"
  shows "always (arp_in_rest p found N) tables_ok"
proof -
  let ?a = "get32 (nmem N) (p + arp_sndpa)"
  obtain i N1 where A: "arp_alloc N = (i, N1)" by fastforce
  have "tables_ok N1" using arp_alloc_tables [OF N] A by simp
  moreover have "tables_ok (upd_arp i (\<lambda>e. e\<lparr>arpaddr := ?a, arhaddr := h, arstate := AR_RESOLVED\<rparr>) N1)" if "\<not> found" "i \<noteq> SYSERR" for h
    by (rule tables_alloc [OF N _ A]) (use new that in auto)
  ultimately show ?thesis using N A by (auto simp: arp_in_rest_def Let_def always_rules)
qed

lemma arp_in_tables [always_rules]:
  assumes N: "tables_ok N"
  shows "always (arp_in p N) tables_ok"
proof -
  define N1 where "N1 = upd_mem (arp_ntoh p) N"
  define a where "a = get32 (nmem N1) (p + arp_sndpa)"
  have t: "tables_ok N1" using N by (simp add: N1_def)
  show ?thesis
  proof (cases "arp_find a N1")
    case None
    then have "always (arp_in_rest p False N1) tables_ok" using arp_find_None [of a N1] t by (intro arp_in_rest_tables) (auto simp: a_def)
    then show ?thesis using None t by (simp add: arp_in_def Let_def N1_def [symmetric] a_def [symmetric] always_rules)
  next
    case (Some i)
    have k: "arstate (arpcache N1 i) \<noteq> AR_FREE" using arp_find_Some [OF Some] by (simp add: arp_known_def)
    then have "tables_ok (upd_arp i (\<lambda>e. e\<lparr>arhaddr := h\<rparr>) N1)" for h using t by (intro tables_arp) simp_all
    note h = this
    have "tables_ok (upd_arp i (\<lambda>e. e\<lparr>arstate := AR_RESOLVED\<rparr>) (upd_arp i (\<lambda>e. e\<lparr>arhaddr := h\<rparr>) N1))" for h
    proof (rule tables_arp)
      show "tables_ok (upd_arp i (\<lambda>e. e\<lparr>arhaddr := h\<rparr>) N1)" by (rule h)
    qed (use k in \<open>simp add: upd_arp_def\<close>)
    then show ?thesis using Some t h
      by (auto simp: arp_in_def Let_def N1_def [symmetric] a_def [symmetric] always_rules intro!: arp_in_rest_tables on_kern_tables)
  qed
qed

lemma ip_local_tables [always_rules]: "tables_ok N \<Longrightarrow> always (ip_local p N) tables_ok"
  by (simp add: ip_local_def always_rules)

lemma ip_deliver_tables [always_rules]: "tables_ok N \<Longrightarrow> always (ip_deliver p N) tables_ok"
  by (simp add: ip_deliver_def Let_def always_rules)

lemma ip_in_tables [always_rules]: "tables_ok N \<Longrightarrow> always (ip_in p N) tables_ok"
  by (simp add: ip_in_def Let_def always_rules)

lemma ip_out_tables [always_rules]: "tables_ok N \<Longrightarrow> always (ip_out p N) tables_ok"
  by (simp add: ip_out_def Let_def always_rules)

lemma ip_send_tables [always_rules]:
  "tables_ok N \<Longrightarrow> always (ip_send p N) tables_ok" "tables_ok N \<Longrightarrow> always (ip_send_resolved p N) tables_ok"
  "tables_ok N \<Longrightarrow> always (ipout_resolved p N) tables_ok" "tables_ok N \<Longrightarrow> always (ip_out_finish p N) tables_ok"
  by (simp_all add: ip_send_def ip_send_resolved_def ipout_resolved_def ip_out_finish_def Let_def always_rules)

lemma ipout_tables [always_rules]: "tables_ok N \<Longrightarrow> always (ipout N) tables_ok" "tables_ok N \<Longrightarrow> always (ipout_packet N) tables_ok"
proof -
  assume N: "tables_ok N"
  have q: "tables_ok (N\<lparr>ipoqueue := snd (iq_take (ipoqueue N))\<rparr>)"
    using N by (auto simp: tables_ok_def iq_index_ok_def iq_take_def Let_def arp_unique_def arp_known_def)
  show "always (ipout N) tables_ok" using N by (simp add: ipout_def always_rules)
  show "always (ipout_packet N) tables_ok" using q by (simp add: ipout_packet_def case_prod_unfold Let_def always_rules)
qed

lemma udp_send_tables [always_rules]:
  "tables_ok N \<Longrightarrow> always (udp_send slot b n N) tables_ok" "tables_ok N \<Longrightarrow> always (udp_sendto slot a rp b n N) tables_ok"
  "tables_ok N \<Longrightarrow> always (udp_send_finish l a rp lp b n N) tables_ok" "tables_ok N \<Longrightarrow> always (udp_sendto_finish slot a rp b n N) tables_ok"
  by (simp_all add: udp_send_def udp_sendto_def udp_send_finish_def udp_sendto_finish_def Let_def always_rules)

lemma icmp_send_tables [always_rules]:
  "tables_ok N \<Longrightarrow> always (icmp_send a t i q b n N) tables_ok" "tables_ok N \<Longrightarrow> always (icmp_send_finish a t i q b n N) tables_ok"
  unfolding icmp_send_finish_def by (simp add: icmp_send_def always_rules) (rule always_bind [OF mkpkt_tables], auto intro!: ip_send_tables)

lemma netin_tables [always_rules]:
  "tables_ok N \<Longrightarrow> always (netin N) tables_ok" "tables_ok N \<Longrightarrow> always (netin_read N) tables_ok" "tables_ok N \<Longrightarrow> always (netin_demux p N) tables_ok"
  by (simp_all add: netin_def netin_read_def netin_demux_def Let_def always_rules)

lemma frame_tables: "tables_ok N \<Longrightarrow> always (run_frame f N) tables_ok"
  by (cases f) (simp_all add: always_rules arp_in_rest_tables [where found = True, simplified])

section \<open>Every step of the network\<close>

datatype netcall =
    UdpRegister u32 u16 u16 | UdpRecv int u32 int u32 | UdpRecvaddr int u32 u32 u32 int u32 | UdpRelease int
  | UdpSend int u32 int | UdpSendto int u32 u16 u32 int
  | IcmpRegister u32 | IcmpRecv int u32 int u32 | IcmpRelease int | IcmpSend u32 u16 u16 u16 u32 int
  | IpEnqueue u32 | IpSend u32 | ArpResolve u32 u32

fun net_exec :: "netcall \<Rightarrow> net \<Rightarrow> net option" where
  "net_exec (UdpRegister a rp lp) N = udp_register a rp lp N"
| "net_exec (UdpRecv slot b n t) N = udp_recv slot b n t N"
| "net_exec (UdpRecvaddr slot a rp b n t) N = udp_recvaddr slot a rp b n t N"
| "net_exec (UdpRelease slot) N = udp_release slot N"
| "net_exec (UdpSend slot b n) N = udp_send slot b n N"
| "net_exec (UdpSendto slot a rp b n) N = udp_sendto slot a rp b n N"
| "net_exec (IcmpRegister a) N = icmp_register a N"
| "net_exec (IcmpRecv slot b n t) N = icmp_recv slot b n t N"
| "net_exec (IcmpRelease slot) N = icmp_release slot N"
| "net_exec (IcmpSend a t i q b n) N = icmp_send a t i q b n N"
| "net_exec (IpEnqueue p) N = ip_enqueue p N"
| "net_exec (IpSend p) N = ip_send p N"
| "net_exec (ArpResolve a b) N = arp_resolve a b N"

text \<open>\<open>start\<close>: a process whose program is one of the two network processes. \<open>world\<close>: whatever other processes,
  the kernel and the device do to memory, buffers, the kernel and the ring of arrived packets.\<close>

inductive netstep :: "net \<Rightarrow> net \<Rightarrow> bool" where
  call: "nstack N (me N) = [] \<Longrightarrow> net_exec c N = Some N' \<Longrightarrow> netstep N N'"
| resume: "net_resume N = Some N' \<Longrightarrow> netstep N N'"
| start: "f = FNetin \<or> f = FIpout \<Longrightarrow> netstep N (N\<lparr>nstack := (nstack N)(i := [f])\<rparr>)"
| world: "netstep N (N\<lparr>npl := P, nmem := m, rxring := r\<rparr>)"

inductive_cases netstepE: "netstep N N'"

text \<open>Global variables are zero when the system starts.\<close>

definition net_zero :: "net \<Rightarrow> bool" where
  "net_zero N \<longleftrightarrow> (\<forall>i. udhead (udptab N i) = 0 \<and> udtail (udptab N i) = 0 \<and> udcount (udptab N i) = 0)
     \<and> (\<forall>i. arstate (arpcache N i) = AR_FREE) \<and> iqhead (ipoqueue N) = 0 \<and> iqtail (ipoqueue N) = 0"

inductive net_reachable :: "net \<Rightarrow> bool" where
  init: "net_zero N0 \<Longrightarrow> net_init mac N0 = Some N \<Longrightarrow> net_reachable N"
| onward: "net_reachable N \<Longrightarrow> netstep N N' \<Longrightarrow> net_reachable N'"

lemma net_exec_tables: "tables_ok N \<Longrightarrow> always (net_exec c N) tables_ok"
  by (cases c) (simp_all add: always_rules udp_recv_def udp_recvaddr_def)

lemma net_resume_tables: "tables_ok N \<Longrightarrow> always (net_resume N) tables_ok"
  by (auto simp: net_resume_def Let_def always_rules frame_tables split: option.split list.split)

lemma netstep_tables: "netstep N N' \<Longrightarrow> tables_ok N \<Longrightarrow> tables_ok N'"
  by (erule netstepE) (auto dest: alwaysD [OF net_exec_tables] alwaysD [OF net_resume_tables])

lemma fold_keeps: "(\<And>x s. J s \<Longrightarrow> J (f x s)) \<Longrightarrow> J s \<Longrightarrow> J (fold f xs s)"
  by (induction xs arbitrary: s) auto

lemma net_init_tables:
  assumes z: "net_zero N0" and e: "net_init mac N0 = Some N"
  shows "tables_ok N"
proof -
  have k: "tables_ok (arp_init M)" "tables_ok (udp_init M)" "tables_ok (icmp_init M)" if "tables_ok M" for M
    using that unfolding arp_init_def udp_init_def icmp_init_def
    by (auto intro!: fold_keeps [where J = tables_ok] tables_udp_keep tables_arp)
  have iq: "tables_ok (M\<lparr>ipoqueue := q\<rparr>)" if "tables_ok M" "iq_index_ok q" for M q
    using that by (simp add: tables_ok_def arp_unique_def arp_known_def)
  have sem: "tables_ok (M\<lparr>ipoqueue := (ipoqueue M)\<lparr>iqsem := x\<rparr>\<rparr>) = tables_ok M" for M x
    by (simp add: tables_ok_def iq_index_ok_def arp_unique_def arp_known_def)
  have n: "tables_ok (M\<lparr>netdata := d\<rparr>) = tables_ok M" "tables_ok (M\<lparr>netbufpool := b\<rparr>) = tables_ok M" for M d b by (rule tables_cong; simp)+
  have "tables_ok N0" using z by (simp add: net_zero_def tables_ok_def ud_index_ok_def iq_index_ok_def arp_unique_def arp_known_def)
  then have "always (net_init mac N0) tables_ok"
    unfolding net_init_def Let_def
    by (intro always_bind [where J = tables_ok])
      (auto simp: n k sem iq_index_ok_def intro!: on_pools_tables on_kern_tables iq)
  then show ?thesis using e by (rule alwaysD)
qed

lemma reachable_tables: "net_reachable N \<Longrightarrow> tables_ok N"
  by (induction rule: net_reachable.induct) (auto intro: net_init_tables netstep_tables)

section \<open>A machine whose network has been initialized\<close>

definition my_mac :: "u8 list" where "my_mac = [2, 0, 0, 0, 0, 1]"

definition roomy :: pools where
  "roomy = (bufinit no_pools)\<lparr>bker := demo\<lparr>kheap := one_block 0x200000 0x100000\<rparr>\<rparr>"

definition net0 :: net where
  "net0 = \<lparr>npl = roomy, nmem = \<lambda>_. 0, netdata = \<lparr>ipucast = 0, ipbcast = 0, ipmask = 0, ipprefix = 0, iprouter = 0,
       ipvalid = False, ethucast = [], ethbcast = []\<rparr>, netbufpool = 0,
     arpcache = \<lambda>_. arp_zero,
     udptab = \<lambda>_. \<lparr>udstate = UDP_FREE, udremip = 0, udremport = 0, udlocport = 0, udhead = 0, udtail = 0, udcount = 0,
       udpid = 0, udqueue = \<lambda>_. 0\<rparr>,
     icmptab = \<lambda>_. \<lparr>icstate = ICMP_FREE, icremip = 0, ichead = 0, ictail = 0, iccount = 0, icpid = 0, icqueue = \<lambda>_. 0\<rparr>,
     ipoqueue = \<lparr>iqhead = 0, iqtail = 0, iqsem = 0, iqbuf = \<lambda>_. 0\<rparr>, ipident = 32767, send_ident = 1, sendto_ident = 1,
     nstack = \<lambda>_. [], ethup = True, osem = 1, isem = 2, txring = [], rxring = []\<rparr>"

definition netpools :: pools where "netpools = the (mkbufpool PACKLEN 129 roomy)"

lemma netpools_facts:
  "mkbufpool PACKLEN 129 roomy = Some netpools" "nbpools netpools = 1" "currpid (bker netpools) = 1" "proctab (bker netpools) = demo_procs"
  "semtab (bker netpools) = demo_sems(3 := \<lparr>sstate = S_USED, scount = 129, squeue = 106\<rparr>)" "nextsem (bker netpools) = 4"
  "conts (bker netpools) = (\<lambda>_. Ret OK)(1 := Ret 0)"
proof -
  have n: "newsem s = (nextsem s, upd_sem (nextsem s) (\<lambda>e. e\<lparr>sstate := S_USED\<rparr>) (s\<lparr>nextsem := nextsem s + 1\<rparr>))"
    if "sstate (semtab s (nextsem s)) = S_FREE" "nextsem s + 1 < NSEM" for s
    using newsem_loop.simps(2) [of 99 s] that by (simp add: newsem_def Let_def)
  have d: "nextsem demo = 3" "conts demo = (\<lambda>_. Ret OK)" by (simp_all add: demo_def power_on_def)
  have r: "(1517 :: int) AND - 4 = 1516" using round4(1) [of 1514] by simp
  note U = roomy_def mkbufpool_def bufinit_def no_pools_def getmem_def one_block_def roundmb_def getmem_scan.simps n d r
    semcreate_def give_def bgive_def retval_def upd_pool_def upd_sem_def set_cont_def demo_sems_def
  show "mkbufpool PACKLEN 129 roomy = Some netpools" "nbpools netpools = 1" "currpid (bker netpools) = 1"
    "proctab (bker netpools) = demo_procs" "nextsem (bker netpools) = 4" "conts (bker netpools) = (\<lambda>_. Ret OK)(1 := Ret 0)"
    "semtab (bker netpools) = demo_sems(3 := \<lparr>sstate = S_USED, scount = 129, squeue = 106\<rparr>)"
    unfolding netpools_def by (simp_all add: U Let_def fun_eq_iff)
qed

definition started :: net where "started = the (net_init my_mac net0)"

lemma net_init_net0: "net_init my_mac net0 = Some started" "netbufpool started = 0" "udptab started = udptab net0"
  "arpcache started = (\<lambda>_. arp_zero)" "netdata started = \<lparr>ipucast = 0, ipbcast = 0, ipmask = 0, ipprefix = 0,
     iprouter = 0, ipvalid = False, ethucast = my_mac, ethbcast = replicate 6 0xFF\<rparr>" "currpid (bker (npl started)) = 1"
  "proctab (bker (npl started)) = demo_procs" "semtab (bker (npl started)) 1 = \<lparr>sstate = S_USED, scount = 2, squeue = 102\<rparr>"
  "ethup started" "osem started = 1" "nstack started = (\<lambda>_. [])"
proof -
  have n: "newsem s = (nextsem s, upd_sem (nextsem s) (\<lambda>e. e\<lparr>sstate := S_USED\<rparr>) (s\<lparr>nextsem := nextsem s + 1\<rparr>))"
    if "sstate (semtab s (nextsem s)) = S_FREE" "nextsem s + 1 < NSEM" for s
    using newsem_loop.simps(2) [of 99 s] that by (simp add: newsem_def Let_def)
  have up: "[0..5 :: int] = [0, 1, 2, 3, 4, 5]" "[0..9 :: int] = [0, 1, 2, 3, 4, 5, 6, 7, 8, 9]"
    "[1..15 :: int] = [1, 2, 3, 4, 5, 6, 7, 8, 9, 10, 11, 12, 13, 14, 15]" by (simp_all add: upto.simps)
  have p: "mkbufpool 1514 129 roomy = Some netpools" using netpools_facts(1) by simp
  note U = net_init_def net0_def on_pools_def on_kern_def intval_def me_def p netpools_facts(2-) n semcreate_def give_def retval_def
    upd_sem_def set_cont_def demo_sems_def arp_init_def udp_init_def icmp_init_def up upd_arp_def upd_udp_def upd_icmp_def
  show "net_init my_mac net0 = Some started" "netbufpool started = 0" "udptab started = udptab net0"
    "arpcache started = (\<lambda>_. arp_zero)" "netdata started = \<lparr>ipucast = 0, ipbcast = 0, ipmask = 0, ipprefix = 0,
     iprouter = 0, ipvalid = False, ethucast = my_mac, ethbcast = replicate 6 0xFF\<rparr>" "currpid (bker (npl started)) = 1"
    "proctab (bker (npl started)) = demo_procs" "semtab (bker (npl started)) 1 = \<lparr>sstate = S_USED, scount = 2, squeue = 102\<rparr>"
    "ethup started" "osem started = 1" "nstack started = (\<lambda>_. [])"
    unfolding started_def by (simp_all add: U Let_def fun_eq_iff arp_zero_def)
qed

lemma started_reachable: "net_reachable started"
  by (rule net_reachable.init [OF _ net_init_net0(1)]) (simp add: net_zero_def net0_def arp_zero_def)

section \<open>What holds of every reachable state\<close>

text \<open>C34. However calls, arriving packets, timeouts and the work of other processes interleave, the head and the tail of
  every queue of UDP packets and of the queue of outgoing datagrams are indices into its array of eight, and a UDP queue
  never holds more than eight packets.\<close>

theorem queue_indices_in_range:
  assumes "net_reachable N"
  shows "0 \<le> udhead (udptab N i) \<and> udhead (udptab N i) < UDP_QSIZ \<and> 0 \<le> udtail (udptab N i) \<and> udtail (udptab N i) < UDP_QSIZ
    \<and> udcount (udptab N i) \<le> UDP_QSIZ \<and> 0 \<le> iqhead (ipoqueue N) \<and> iqhead (ipoqueue N) < IP_OQSIZ
    \<and> 0 \<le> iqtail (ipoqueue N) \<and> iqtail (ipoqueue N) < IP_OQSIZ"
  using reachable_tables [OF assms] unfolding tables_ok_def ud_index_ok_def iq_index_ok_def by blast

theorem queue_indices_in_range_witness: "udhead (udptab started 3) < UDP_QSIZ"
  using queue_indices_in_range [OF started_reachable, of 3] by blast

text \<open>C8. The ARP cache never holds two entries in use for the same address, although looking an address up, allocating
  an entry and waiting for the answer are done by different processes at different times.\<close>

theorem arp_cache_unique:
  assumes "net_reachable N" "0 \<le> i" "i < ARP_SIZ" "0 \<le> j" "j < ARP_SIZ" "i \<noteq> j"
    and "arstate (arpcache N i) \<noteq> AR_FREE" "arstate (arpcache N j) \<noteq> AR_FREE"
  shows "arpaddr (arpcache N i) \<noteq> arpaddr (arpcache N j)"
proof
  assume "arpaddr (arpcache N i) = arpaddr (arpcache N j)"
  then have "arp_known N i (arpaddr (arpcache N j))" "arp_known N j (arpaddr (arpcache N j))" using assms by (simp_all add: arp_known_def)
  then show False using reachable_tables [OF assms(1)] assms(6) unfolding tables_ok_def arp_unique_def by blast
qed

text \<open>Two processes that wait for the addresses of two machines.\<close>

definition asking :: net where "asking = the (net_exec (ArpResolve 0x0a000002 0x300000) started)"
definition asking' :: net where "asking' = asking\<lparr>npl := (npl asking)\<lparr>bker := (bker (npl asking))\<lparr>currpid := 2\<rparr>\<rparr>\<rparr>"
definition asking2 :: net where "asking2 = the (net_exec (ArpResolve 0x0a000003 0x300100) asking')"

lemma asking_facts: "net_reachable asking2" "arstate (arpcache asking2 0) = AR_PENDING" "arstate (arpcache asking2 1) = AR_PENDING"
proof -
  have up: "[0..15 :: int] = [0, 1, 2, 3, 4, 5, 6, 7, 8, 9, 10, 11, 12, 13, 14, 15]" by (simp add: upto.simps)
  note U = arp_resolve_def arp_find_def arp_alloc_def up me_def upd_arp_def on_kern_def recvclr_def arp_try_def ethwrite_def
    push_frame_def wait_def isbadsem_def give_def upd_sem_def set_cont_def arp_zero_def receive_finish_def upd_proc_def
    demo_procs_def demo_proc_def no_process_def
  have r1: "net_exec (ArpResolve 0x0a000002 0x300000) started = Some asking"
    unfolding asking_def by (simp add: U net_init_net0(2-) Let_def)
  have f1: "arpcache asking = (\<lambda>_. arp_zero)(0 := \<lparr>arstate = AR_PENDING, arpaddr = 0x0a000002, arpid = 1, arhaddr = replicate 6 0\<rparr>)"
    "netdata asking = netdata started" "proctab (bker (npl asking)) 2 = demo_procs 2"
    "semtab (bker (npl asking)) 1 = \<lparr>sstate = S_USED, scount = 1, squeue = 102\<rparr>" "ethup asking" "osem asking = 1" "nstack asking 2 = []"
    unfolding asking_def by (simp_all add: U net_init_net0(2-) Let_def fun_eq_iff)
  have r2: "net_exec (ArpResolve 0x0a000003 0x300100) asking' = Some asking2"
    unfolding asking2_def by (simp add: U asking'_def f1 net_init_net0(2-) Let_def)
  show "arstate (arpcache asking2 0) = AR_PENDING" "arstate (arpcache asking2 1) = AR_PENDING"
    unfolding asking2_def by (simp_all add: U asking'_def f1 net_init_net0(2-) Let_def)
  have "net_reachable asking" by (rule net_reachable.onward [OF started_reachable netstep.call [OF _ r1]]) (simp add: net_init_net0)
  moreover have "netstep asking asking'"
    using netstep.world [where N = asking and P = "(npl asking)\<lparr>bker := (bker (npl asking))\<lparr>currpid := 2\<rparr>\<rparr>" and m = "nmem asking" and r = "rxring asking"] by (simp add: asking'_def)
  ultimately have "net_reachable asking'" by (rule net_reachable.onward)
  then show "net_reachable asking2"
    by (rule net_reachable.onward [OF _ netstep.call [OF _ r2]]) (simp add: asking'_def me_def f1)
qed

theorem arp_cache_unique_witness: "arpaddr (arpcache asking2 0) \<noteq> arpaddr (arpcache asking2 1)"
  by (rule arp_cache_unique [OF asking_facts(1)]) (simp_all add: asking_facts)

end
