(* ===== verification/Netcontracts.thy ===== *)
theory Netcontracts
  imports Netlaws
begin

text \<open>
  What the operations on endpoints do, branch by branch: delivery of UDP packets, registration, receiving;
  and where the endpoints of ICMP and the release of a UDP endpoint go wrong.
\<close>

section \<open>Buffers that are freed\<close>

lemma freebuf_freed:
  assumes P: "bpinv P" and i: "bpconts P (currpid (bker P)) = None" and b: "outside (a - 4) P"
    and p: "p = sint (bpmem P (a - 4))" "0 \<le> p" "p < nbpools P"
  shows "returns (freebuf a P) (\<lambda>P'. bpinv P' \<and> nbpools P' = nbpools P \<and> free_bufs p P' = insert (a - 4) (free_bufs p P))"
proof -
  obtain P' where e: "freebuf a P = Some P'" "bpinv P'" using freebuf_bpinv [OF P i b] by (auto elim: returnsE)
  obtain L where L: "\<And>q. 0 \<le> q \<Longrightarrow> q < nbpools P \<Longrightarrow> pool_ok False P q (L q)" by (rule bpinvE [OF P]) (rule that)
  then have l: "blist (bpmem P) (bpnext (buftab P p)) (L p)" using p(2,3) by (simp add: pool_ok_def)
  have o: "a - 4 \<noteq> 0" "a - 4 \<notin> set (L p)" using b p free_bufs_list [OF l] by (auto simp: outside_def)
  have d: "bpmem P' = bpmem (put_buf p (a - 4) P) \<and> buftab P' = buftab (put_buf p (a - 4) P) \<and> nbpools P' = nbpools P"
    using e(1) p by (auto simp: freebuf_def Let_def bgive_def bind_eq_Some_conv put_buf_def)
  then have "blist (bpmem P') (bpnext (buftab P' p)) ((a - 4) # L p)" using put_buf_list(1) [OF l o] by simp
  then have "free_bufs p P' = set ((a - 4) # L p)" by (rule free_bufs_list)
  moreover have "nbpools P' = nbpools P" using d by simp
  ultimately show ?thesis using e free_bufs_list [OF l] by simp
qed

section \<open>Delivery of UDP packets\<close>

text \<open>\<open>told s pid msg\<close>: the message is in the mailbox of the process, which is not waiting for it any more.\<close>

definition told :: "kstate \<Rightarrow> int \<Rightarrow> u32 \<Rightarrow> bool" where
  "told s pid msg \<longleftrightarrow> prhasmsg (proctab s pid) \<and> prmsg (proctab s pid) = msg \<and> prstate (proctab s pid) \<noteq> PR_RECTIM"

lemma send_tells:
  assumes "kinv s" "\<not> isbadpid s pid" "\<not> prhasmsg (proctab s pid)"
  shows "returns (send pid msg s) (\<lambda>s'. told s' pid msg)"
proof -
  obtain r s' where m: "send_msg pid msg s = Some (r, s')"
    and f: "kframe {pid} (upd_proc pid (\<lambda>p. p\<lparr>prmsg := msg, prhasmsg := True\<rparr>) s) s'"
    and rn: "if prstate (proctab s pid) = PR_RECV \<or> prstate (proctab s pid) = PR_RECTIM then runs s' pid
      else s' = upd_proc pid (\<lambda>p. p\<lparr>prmsg := msg, prhasmsg := True\<rparr>) s"
    using send_msg_returns [OF assms(1), of pid msg] assms(2,3) by (auto elim!: returnsE split: prod.splits)
  have "prhasmsg (proctab s' pid)" "prmsg (proctab s' pid) = msg" using kframe_fields(13,14) [OF f, of pid] by simp_all
  then show ?thesis using m rn by (auto simp: send_def give_def told_def runs_def split: if_splits)
qed

text \<open>C35. An arriving UDP packet is put behind the packets of the first endpoint that matches its ports and its sender
  and has room, and no other endpoint changes; the process that waits there, if one does, is sent a message and is ready
  to run. If there is no such endpoint the buffer of the packet goes back to its pool.\<close>

theorem udp_in_delivers:
  assumes "bpinv (npl N)" "bpconts (npl N) (me N) = None" "outside (p - 4) (npl N)"
    "b = sint (bpmem (npl N) (p - 4))" "0 \<le> b" "b < nbpools (npl N)" "\<And>i. ud_good (udptab N i)"
  shows "returns (udp_in p N) (\<lambda>N'. nmem N' = nmem N \<and>
    (case find (\<lambda>i. udp_accepts (nmem N) p (udptab N i)) [0..UDP_SLOTS - 1] of
       None \<Rightarrow> udptab N' = udptab N \<and> free_bufs b (npl N') = insert (p - 4) (free_bufs b (npl N))
     | Some i \<Rightarrow> udptab N' = (udptab N)(i := udptab N' i) \<and> udstate (udptab N' i) = UDP_USED
         \<and> ud_packets (udptab N' i) = ud_packets (udptab N i) @ [p]
         \<and> (let pid = udpid (udptab N i); s = bker (npl N) in
            udstate (udptab N i) = UDP_RECV \<longrightarrow> \<not> isbadpid s pid \<longrightarrow> \<not> prhasmsg (proctab s pid) \<longrightarrow> told (bker (npl N')) pid 1)))"
proof (cases "find (\<lambda>i. udp_accepts (nmem N) p (udptab N i)) [0..UDP_SLOTS - 1]")
  case None
  have i: "bpconts (npl N) (currpid (bker (npl N))) = None" using assms(2) by (simp add: me_def)
  have f: "returns (freebuf p (npl N)) (\<lambda>P'. free_bufs b P' = insert (p - 4) (free_bufs b (npl N)))"
    by (rule returns_mono [OF freebuf_freed [OF assms(1) i assms(3-6)]]) simp
  have "udp_in p N = on_pools (freebuf p) N" using None by (simp add: udp_in_def)
  then show ?thesis using f None by (auto simp: on_pools_def elim!: returns_mono)
next
  case (Some i)
  then have acc: "udcount (udptab N i) < UDP_QSIZ" "udstate (udptab N i) \<noteq> UDP_FREE" by (auto simp: find_Some_iff udp_accepts_def)
  have put: "ud_packets (ud_put p (udptab N i)) = ud_packets (udptab N i) @ [p]" by (rule udp_queue.put_contents [OF assms(7) acc(1)])
  have st: "udstate (ud_put p (udptab N i)) = udstate (udptab N i)" "udpid (ud_put p (udptab N i)) = udpid (udptab N i)"
    by (simp_all add: ud_put_def Let_def)
  have pk: "ud_packets (e\<lparr>udstate := u\<rparr>) = ud_packets e" for e u by (simp add: ud_packets_def)
  show ?thesis
  proof (cases "udstate (udptab N i) = UDP_RECV")
    case False
    then show ?thesis using Some put st acc(2) by (cases "udstate (udptab N i)") (auto simp: udp_in_def upd_udp_def Let_def)
  next
    case True
    let ?s = "bker (npl N)" and ?pid = "udpid (udptab N i)"
    have k: "kinv ?s" using assms(1) by (simp add: bpinvs_def kok_def)
    have "returns (send ?pid 1 ?s) (\<lambda>s'. \<not> isbadpid ?s ?pid \<longrightarrow> \<not> prhasmsg (proctab ?s ?pid) \<longrightarrow> told s' ?pid 1)"
      using send_kinv [OF k, of ?pid 1] send_tells [OF k, of ?pid 1] by (auto simp: returns_def)
    then show ?thesis using Some put st True by (auto simp: udp_in_def upd_udp_def Let_def on_kern_def pk elim!: returns_mono)
  qed
qed

text \<open>Process 5 waits at endpoint 2 for packets to port 53.\<close>

definition waiting_net :: net where
  "waiting_net = net0\<lparr>npl := with_pool, nmem := set16 (0x300004 + net_udpdport) 53 (\<lambda>_. 0),
     udptab := (udptab net0)(2 := (udptab net0 2)\<lparr>udstate := UDP_RECV, udlocport := 53, udpid := 5\<rparr>)\<rparr>"

lemma with_pool_kernel: "proctab (bker with_pool) = demo_procs" "bpmem with_pool 0x300000 = 0"
proof -
  have n: "newsem s = (nextsem s, upd_sem (nextsem s) (\<lambda>e. e\<lparr>sstate := S_USED\<rparr>) (s\<lparr>nextsem := nextsem s + 1\<rparr>))"
    if "sstate (semtab s (nextsem s)) = S_FREE" "nextsem s + 1 < NSEM" for s
    using newsem_loop.simps(2) [of 99 s] that by (simp add: newsem_def Let_def)
  have d: "nextsem demo = 3" "conts demo = (\<lambda>_. Ret OK)" by (simp_all add: demo_def power_on_def)
  have r: "(13 :: int) AND - 4 = 12" using round4(1) [of 10] by simp
  have lk: "link_bufs 2 w a m = m(a := a + w, a + w := a + w + w, a + w + w := 0)" for w a m by (simp add: numeral_2_eq_2)
  note U = mkbufpool_def bufinit_def no_pools_def getmem_def one_block_def roundmb_def getmem_scan.simps n d r semcreate_def give_def
    bgive_def retval_def upd_pool_def upd_sem_def set_cont_def demo_sems_def lk
  show "proctab (bker with_pool) = demo_procs" "bpmem with_pool 0x300000 = 0" by (simp_all add: with_pool_def U Let_def)
qed

lemma outside_with_pool: "outside 0x300000 with_pool"
proof -
  have "0x300000 \<notin> free_bufs p with_pool" if "0 \<le> p" "p < 1" for p
  proof -
    have "p = 0" using that by simp
    then show ?thesis using free_bufs_list [OF with_pool_list] by simp
  qed
  then show ?thesis by (simp add: outside_def with_pool_facts(3))
qed

theorem udp_in_delivers_witness:
  "returns (udp_in 0x300004 waiting_net) (\<lambda>N'. ud_packets (udptab N' 2) = [0x300004] \<and> told (bker (npl N')) 5 1)"
proof -
  let ?N = waiting_net
  have up: "[0..UDP_SLOTS - 1] = [0, 1, 2, 3, 4, 5]" by (simp add: upto.simps)
  have pl: "npl ?N = with_pool" by (simp add: waiting_net_def)
  have f: "find (\<lambda>i. udp_accepts (nmem ?N) 0x300004 (udptab ?N i)) [0..UDP_SLOTS - 1] = Some 2"
    unfolding up by (simp add: waiting_net_def net0_def udp_accepts_def udp_match_def)
  have o: "outside (0x300004 - 4) (npl ?N)" using outside_with_pool by (simp add: pl)
  have g: "ud_good (udptab ?N i)" for i by (simp add: waiting_net_def net0_def ud_good_def)
  have e: "udstate (udptab ?N 2) = UDP_RECV" "udpid (udptab ?N 2) = 5" "ud_packets (udptab ?N 2) = []"
    by (simp_all add: waiting_net_def net0_def ud_packets_def)
  have d: "\<not> isbadpid (bker with_pool) 5" "\<not> prhasmsg (proctab (bker with_pool) 5)"
    by (simp_all add: isbadpid_def with_pool_kernel demo_procs_def demo_proc_def no_process_def)
  have "bpinv (npl ?N)" "bpconts (npl ?N) (me ?N) = None"
    using breachable_bpinv [OF with_pool_facts(2)] by (simp_all add: pl with_pool_facts(4))
  from udp_in_delivers [OF this o _ _ _ g, of 0] show ?thesis
    unfolding f by (rule returns_mono) (use e d with_pool_kernel in \<open>simp_all add: pl with_pool_facts(3) Let_def\<close>)
qed

section \<open>Registration\<close>

text \<open>\<open>udp_register\<close> gives out an endpoint that was free, with no packets, for the addresses asked for, and changes no
  other; it fails exactly if an endpoint in use has the same addresses or none is free.\<close>

theorem udp_register_contract:
  "\<exists>N'. udp_register a rp lp N = Some N' \<and>
    (if (\<exists>i\<in>set [0..UDP_SLOTS - 1]. udp_same a rp lp (udptab N i)) \<or> (\<forall>i\<in>set [0..UDP_SLOTS - 1]. udstate (udptab N i) \<noteq> UDP_FREE)
     then intval N' = SYSERR \<and> udptab N' = udptab N
     else \<exists>i\<in>set [0..UDP_SLOTS - 1]. intval N' = i \<and> udstate (udptab N i) = UDP_FREE \<and> udptab N' = (udptab N)(i := udptab N' i)
       \<and> udstate (udptab N' i) = UDP_USED \<and> ud_good (udptab N' i) \<and> ud_packets (udptab N' i) = []
       \<and> udp_same a rp lp (udptab N' i))"
proof -
  have v: "\<exists>N'. ndone (Ret r) M = Some N' \<and> intval N' = r \<and> udptab N' = udptab M" for r M
    by (simp add: ndone_eq intval_def retval_def me_def)
  show ?thesis
  proof (cases "\<exists>i\<in>set [0..UDP_SLOTS - 1]. udp_same a rp lp (udptab N i)")
    case True
    then show ?thesis using v [of SYSERR N] by (auto simp: udp_register_def)
  next
    case f: False
    show ?thesis
    proof (cases "find (\<lambda>slot. udstate (udptab N slot) = UDP_FREE) [0..UDP_SLOTS - 1]")
      case None
      then have "\<forall>i\<in>set [0..UDP_SLOTS - 1]. udstate (udptab N i) \<noteq> UDP_FREE" unfolding find_None_iff by blast
      then show ?thesis using v [of SYSERR N] None f unfolding udp_register_def by auto
    next
      case (Some i)
      define e where "e = (udptab N i)\<lparr>udlocport := lp, udremport := rp, udremip := a, udcount := 0, udhead := 0, udtail := 0,
        udpid := - 1, udstate := UDP_USED\<rparr>"
      have i: "i \<in> set [0..UDP_SLOTS - 1]" "udstate (udptab N i) = UDP_FREE" using Some by (auto simp: find_Some_iff)
      obtain N' where N': "ndone (Ret i) (upd_udp i (\<lambda>_. e) N) = Some N'" "intval N' = i" "udptab N' = (udptab N)(i := e)"
        using v [of i "upd_udp i (\<lambda>_. e) N"] by (auto simp: upd_udp_def)
      have "udp_register a rp lp N = Some N'" using f Some N'(1) unfolding udp_register_def by (simp add: e_def upd_udp_def)
      moreover have "ud_good e" "ud_packets e = []" "udp_same a rp lp e" "udstate e = UDP_USED"
        by (simp_all add: e_def ud_good_def ud_packets_def udp_same_def)
      ultimately show ?thesis using N' i f by (intro exI [of _ N']) auto
    qed
  qed
qed

text \<open>Nothing is assumed; an endpoint for port 53 is given out on a machine whose network has just been initialized.\<close>

theorem udp_register_contract_witness: "\<exists>N'. udp_register 0 0 53 started = Some N' \<and> intval N' \<noteq> SYSERR"
proof -
  have f: "udstate (udptab started i) = UDP_FREE" for i by (simp add: net_init_net0(3)) (simp add: net0_def)
  have "(0 :: int) \<in> set [0..UDP_SLOTS - 1]" by simp
  then have "\<not> ((\<exists>i\<in>set [0..UDP_SLOTS - 1]. udp_same 0 0 53 (udptab started i)) \<or> (\<forall>i\<in>set [0..UDP_SLOTS - 1]. udstate (udptab started i) \<noteq> UDP_FREE))"
    using f by (auto simp: udp_same_def)
  from udp_register_contract [of 0 0 53 started, unfolded if_not_P [OF this]] show ?thesis by fastforce
qed

section \<open>Receiving\<close>

lemma memcpy_loop_outside: "(\<And>k. k < n \<Longrightarrow> a \<noteq> dst + of_nat k) \<Longrightarrow> memcpy_loop n m dst src a = m a"
proof (induction n arbitrary: m dst src)
  case (Suc n)
  have d: "a \<noteq> dst" using Suc.prems [of 0] by simp
  have "memcpy_loop n (m(dst := m src)) (dst + 1) (src + 1) a = (m(dst := m src)) a"
    by (rule Suc.IH) (use Suc.prems [of "Suc _"] in \<open>simp add: ac_simps\<close>)
  then show ?case using d by simp
qed simp

definition udp_datalen :: "mem \<Rightarrow> u32 \<Rightarrow> int \<Rightarrow> int" where
  "udp_datalen m p len = min len (uint (get16 m (p + net_udplen)) - 8)"

text \<open>C36. A process that asks an endpoint with waiting packets for data gets that of the oldest one, the others stay in
  their order; no byte is written outside the buffer it passed, and the value is the length of the data, cut to the
  length of the buffer.\<close>

theorem udp_recv_oldest:
  assumes "bpinv (npl N)" "bpconts (npl N) (me N) = None" "outside (p - 4) (npl N)"
    and "0 \<le> slot" "slot < UDP_SLOTS" "udstate (udptab N slot) = UDP_USED" "ud_good (udptab N slot)"
    and "ud_packets (udptab N slot) = p # ps"
    and "n = udp_datalen (nmem N) p len"
  shows "returns (udp_recv slot buff len t N) (\<lambda>N'. ud_packets (udptab N' slot) = ps \<and> ud_good (udptab N' slot)
    \<and> nstack N' (me N) = FReturn (Ret n) # nstack N (me N)
    \<and> nmem N' = memcpy_loop (nat n) (nmem N) buff (p + net_udpdata)
    \<and> (\<forall>a. (\<forall>k < nat len. a \<noteq> buff + of_nat k) \<longrightarrow> nmem N' a = nmem N a))"
proof -
  let ?e = "udptab N slot"
  have ne: "ud_packets ?e \<noteq> []" using assms(8) by simp
  have c: "udcount ?e \<noteq> 0" using ne by (auto simp: ud_packets_def)
  have t: "fst (ud_take ?e) = p" "ud_packets (snd (ud_take ?e)) = ps" "ud_good (snd (ud_take ?e))"
    using udp_queue.take_contents [OF assms(7) ne] udp_queue.take_good [OF assms(7) ne] assms(8) by simp_all
  have r: "(if len < x then len else x) = min len x" for x by (simp add: min_def)
  have "a \<noteq> buff + of_nat k" if "\<forall>k < nat len. a \<noteq> buff + of_nat k" "k < nat n" for a k
    using that by (auto simp: assms(9) udp_datalen_def)
  then have o: "\<forall>a. (\<forall>k < nat len. a \<noteq> buff + of_nat k) \<longrightarrow> memcpy_loop (nat n) m buff src a = m a" for m src
    by (blast intro: memcpy_loop_outside)
  define N1 where "N1 = push_frame (FReturn (Ret n)) (upd_mem (\<lambda>m. memcpy_loop (nat n) m buff (p + net_udpdata)) (upd_udp slot (\<lambda>_. snd (ud_take ?e)) N))"
  have "udp_recv slot buff len t N = on_pools (freebuf p) N1"
    using assms(4-6) c t(1) by (simp add: udp_recv_def udp_await_def udp_take_def udp_dequeue_def case_prod_unfold Let_def udp_copy_def
      free_and_return_def N1_def assms(9) udp_datalen_def r upd_udp_def)
  moreover have "returns (on_pools (freebuf p) N1) (\<lambda>N'. nmem N' = nmem N1 \<and> udptab N' = udptab N1 \<and> nstack N' = nstack N1)"
    using freebuf_bpinv [OF assms(1) _ assms(3)] assms(2)
    by (auto simp: on_pools_def N1_def push_frame_def upd_mem_def upd_udp_def me_def elim!: returnsE)
  ultimately show ?thesis using t o by (auto simp: N1_def push_frame_def upd_mem_def upd_udp_def me_def elim!: returns_mono)
qed

text \<open>A packet with ten bytes of data waits at endpoint 2; the buffer of the caller has room for four.\<close>

definition arrived_net :: net where
  "arrived_net = net0\<lparr>npl := with_pool, nmem := set16 (0x300004 + net_udplen) 18 (\<lambda>_. 0),
     udptab := (udptab net0)(2 := ud_put 0x300004 ((udptab net0 2)\<lparr>udstate := UDP_USED, udlocport := 53\<rparr>))\<rparr>"

theorem udp_recv_oldest_witness:
  "returns (udp_recv 2 0x400000 4 1000 arrived_net) (\<lambda>N'. ud_packets (udptab N' 2) = [] \<and> nstack N' 1 = [FReturn (Ret 4)])"
proof -
  let ?N = arrived_net
  have pl: "npl ?N = with_pool" by (simp add: arrived_net_def)
  have o: "outside (0x300004 - 4) (npl ?N)" using outside_with_pool by (simp add: pl)
  have e0: "ud_good ((udptab net0 2)\<lparr>udstate := UDP_USED, udlocport := 53\<rparr>)" "ud_packets ((udptab net0 2)\<lparr>udstate := UDP_USED, udlocport := 53\<rparr>) = []"
    by (simp_all add: net0_def ud_good_def ud_packets_def)
  have e: "ud_good (udptab ?N 2)" "ud_packets (udptab ?N 2) = [0x300004]" "udstate (udptab ?N 2) = UDP_USED"
    using udp_queue.put_good [OF e0(1)] udp_queue.put_contents [OF e0(1), of "0x300004"] e0(2)
    by (simp_all add: arrived_net_def ud_put_def net0_def)
  have n: "4 = udp_datalen (nmem ?N) 0x300004 4" by (simp add: arrived_net_def udp_datalen_def)
  have i: "bpinv (npl ?N)" "bpconts (npl ?N) (me ?N) = None" "me ?N = 1" "nstack ?N = (\<lambda>_. [])"
    using breachable_bpinv [OF with_pool_facts(2)] by (simp_all add: pl me_def with_pool_facts) (simp add: arrived_net_def net0_def)
  show ?thesis
    using udp_recv_oldest [OF i(1,2) o _ _ e(3,1,2) n, where buff = "0x400000" and t = 1000] i by (auto elim: returns_mono)
qed

section \<open>Where it goes wrong\<close>

text \<open>When an endpoint is released while a process waits in \<open>udp_recv\<close> on it, and the wait times out, the endpoint is
  in use again although nobody owns it: its addresses cannot be registered any more.\<close>

theorem released_endpoint_comes_back:
  assumes "0 \<le> slot" "slot < UDP_SLOTS" "udstate (udptab N slot) = UDP_FREE" "msgval N = of_int TIMEOUT"
  shows "\<exists>N'. run_frame (FUdpRecv slot buff len) N = Some N' \<and> udstate (udptab N' slot) = UDP_USED
    \<and> (\<exists>N''. udp_register (udremip (udptab N slot)) (udremport (udptab N slot)) (udlocport (udptab N slot)) N' = Some N''
        \<and> intval N'' = SYSERR)"
proof -
  obtain N' where N': "run_frame (FUdpRecv slot buff len) N = Some N'" "udptab N' = udptab (upd_udp slot (\<lambda>e. e\<lparr>udstate := UDP_USED\<rparr>) N)"
    using assms(4) by (simp add: udp_awaited_def ndone_eq Let_def)
  have "udp_same (udremip (udptab N slot)) (udremport (udptab N slot)) (udlocport (udptab N slot)) (udptab N' slot)"
    by (simp add: N'(2) upd_udp_def udp_same_def)
  moreover have "slot \<in> set [0..UDP_SLOTS - 1]" using assms(1,2) by simp
  ultimately have "\<exists>N''. udp_register (udremip (udptab N slot)) (udremport (udptab N slot)) (udlocport (udptab N slot)) N' = Some N''
        \<and> intval N'' = SYSERR"
    unfolding udp_register_def by (auto simp: ndone_eq intval_def retval_def me_def)
  then show ?thesis using N' by (auto simp: upd_udp_def)
qed

text \<open>The process that waited at endpoint 2 finds it released.\<close>

definition timed_out :: net where
  "timed_out = net0\<lparr>npl := with_pool\<lparr>bker := set_cont 1 (RetMsg (of_int TIMEOUT)) (bker with_pool)\<rparr>\<rparr>"

theorem released_endpoint_comes_back_witness:
  "\<exists>N'. run_frame (FUdpRecv 2 0x400000 100) timed_out = Some N' \<and> udstate (udptab N' 2) = UDP_USED"
proof -
  have "udstate (udptab timed_out 2) = UDP_FREE" "msgval timed_out = of_int TIMEOUT"
    by (simp_all add: timed_out_def net0_def msgval_def me_def with_pool_facts(6))
  from released_endpoint_comes_back [OF _ _ this, where buff = "0x400000" and len = 100] show ?thesis by auto
qed

text \<open>A process that pings: replies arrive and are read one after the other.\<close>

primrec ping_rounds :: "u32 list \<Rightarrow> icmpentry \<Rightarrow> icmpentry option" where
  "ping_rounds [] e = Some e"
| "ping_rounds (p # ps) e = ic_put p e \<bind> ic_take \<bind> (\<lambda>(_, e1). ping_rounds ps (e1\<lparr>iccount := iccount e1 - 1\<rparr>))"

lemma ping_rounds_from:
  "ichead e = int h \<Longrightarrow> h \<le> 8 \<Longrightarrow> 0 \<le> ictail e \<Longrightarrow> ictail e < 8 \<Longrightarrow> ping_rounds ps e = None \<longleftrightarrow> 8 - h < length ps"
proof (induction ps arbitrary: e h)
  case (Cons p ps)
  obtain e1 where e1: "ic_put p e = Some e1" "ichead e1 = ichead e" "0 \<le> ictail e1" "ictail e1 < 8"
    using Cons.prems(3,4) by (simp add: ic_put_def Let_def)
  show ?case
  proof (cases "h = 8")
    case True
    then have "ic_take e1 = None" using e1(2) Cons.prems(1) by (simp add: ic_take_def)
    then show ?thesis using e1(1) True by simp
  next
    case False
    then obtain q e2 where e2: "ic_take e1 = Some (q, e2)" "ichead e2 = int (Suc h)" "ictail e2 = ictail e1"
      using e1(2) Cons.prems(1,2) by (simp add: ic_take_def Let_def)
    have "ping_rounds ps (e2\<lparr>iccount := iccount e2 - 1\<rparr>) = None \<longleftrightarrow> 8 - Suc h < length ps"
      by (rule Cons.IH) (use e2 e1 False Cons.prems(2) in simp_all)
    then show ?thesis using e1(1) e2(1) False Cons.prems(2) by auto
  qed
qed simp

text \<open>C37. The index at which \<open>icmp_recv\<close> reads is reset at the number of endpoints, ten, instead of the size of the queue,
  eight: a process can read eight replies from an endpoint it has registered, and reading a ninth leaves the array.\<close>

theorem icmp_ninth_reply:
  assumes "icmp_register a N = Some N'" "0 \<le> intval N'"
  shows "ping_rounds ps (icmptab N' (intval N')) = None \<longleftrightarrow> 9 \<le> length ps"
proof -
  have v: "ndone (Ret r) M = Some N' \<Longrightarrow> intval N' = r \<and> icmptab N' = icmptab M" for r M
    by (auto simp: ndone_eq intval_def retval_def me_def)
  have neg: "ndone (Ret SYSERR) N \<noteq> Some N'" using v [of SYSERR N] assms(2) by auto
  then have "\<not> (\<exists>i\<in>set [0..ICMP_SLOTS - 1]. icstate (icmptab N i) \<noteq> ICMP_FREE \<and> icremip (icmptab N i) = a)"
    using assms(1) unfolding icmp_register_def by metis
  note c = this
  show ?thesis
  proof (cases "find (\<lambda>i. icstate (icmptab N i) = ICMP_FREE) [0..ICMP_SLOTS - 1]")
    case None
    then show ?thesis using assms(1) neg unfolding icmp_register_def if_not_P [OF c] by simp
  next
    case (Some i)
    then have "ndone (Ret i) (upd_icmp i (\<lambda>e. e\<lparr>icstate := ICMP_USED, icremip := a, iccount := 0, ichead := 0, ictail := 0, icpid := - 1\<rparr>) N)
      = Some N'" using assms(1) unfolding icmp_register_def if_not_P [OF c] by simp
    then have e: "icmptab N' (intval N') = (icmptab N i)\<lparr>icstate := ICMP_USED, icremip := a, iccount := 0, ichead := 0, ictail := 0, icpid := - 1\<rparr>"
      by (auto dest!: v simp: upd_icmp_def)
    have "ping_rounds ps (icmptab N' (intval N')) = None \<longleftrightarrow> 8 - 0 < length ps" unfolding e by (rule ping_rounds_from) simp_all
    then show ?thesis by auto
  qed
qed

theorem icmp_ninth_reply_witness:
  "\<exists>N'. icmp_register 0x0a000001 net0 = Some N' \<and> ping_rounds (replicate 9 0x300004) (icmptab N' (intval N')) = None"
proof -
  have up: "[0..9 :: int] = [0, 1, 2, 3, 4, 5, 6, 7, 8, 9]" by (simp add: upto.simps)
  have z: "icstate (icmptab net0 i) = ICMP_FREE" for i by (simp add: net0_def)
  have v: "\<exists>N'. ndone (Ret r) M = Some N' \<and> intval N' = r" for r M by (simp add: ndone_eq intval_def retval_def me_def)
  obtain N' where N': "icmp_register 0x0a000001 net0 = Some N'" "intval N' = 0"
    using v by (auto simp: icmp_register_def up z)
  have "0 \<le> intval N'" using N'(2) by simp
  from icmp_ninth_reply [OF N'(1) this, of "replicate 9 0x300004"] N'(1) show ?thesis by auto
qed

end
