(* ===== verification/Arpexchange.thy ===== *)
theory Arpexchange
  imports Datagram Netcontracts
begin

text \<open>
  Two machines and the ARP packets between them: a request is recognised by the machine that has the address, which
  notes the sender and answers; the answer resolves the entry the request was sent for and wakes the process
  that waits for it.
\<close>

section \<open>ARP packets in the buffer of a receiver\<close>

lemma same_arp_ntoh:
  assumes "same_at m p n q L" "42 \<le> L"
  shows "same_at (arp_ntoh p m) p (arp_ntoh q n) q L"
proof -
  have s16: "same_at (swap16 (p + of_nat j) a) p (swap16 (q + of_nat j) b) q L" if "same_at a p b q L" "j < 41" for a b j
    using same_swap16 [OF that(1), of j] that(2) assms(2) by simp
  have s32: "same_at (swap32 (p + of_nat j) a) p (swap32 (q + of_nat j) b) q L" if "same_at a p b q L" "j < 39" for a b j
    using same_swap32 [OF that(1), of j] that(2) assms(2) by simp
  show ?thesis using assms(1) s16 [of _ _ 14] s16 [of _ _ 16] s16 [of _ _ 20] s32 [of _ _ 28] s32 [of _ _ 38] by (simp add: arp_ntoh_def)
qed

lemma arp_ntoh_keeps: "arp_ntoh p m (p + 12) = m (p + 12)" "arp_ntoh p m (p + 13) = m (p + 13)"
  by (simp_all add: arp_ntoh_def swap16_eq swap32_eq add.assoc)

lemma same_bytes: "same_at m p n q L \<Longrightarrow> j + k \<le> L \<Longrightarrow> bytes_at n (q + of_nat j) k = bytes_at m (p + of_nat j) k"
proof (induction k arbitrary: j)
  case (Suc k)
  have "bytes_at n (q + of_nat (Suc j)) k = bytes_at m (p + of_nat (Suc j)) k" by (rule Suc.IH [OF Suc.prems(1)]) (use Suc.prems(2) in simp)
  then show ?case using same_byte [OF Suc.prems(1), of j] Suc.prems(2) by (simp add: ac_simps)
qed simp

definition arp_fields :: "u8 list \<Rightarrow> u16 \<Rightarrow> u8 list \<Rightarrow> u32 \<Rightarrow> network \<Rightarrow> mem" where
  "arp_fields dst op tarha tarpa d =
     (set32 arp_tarpa tarpa \<circ> set_bytes arp_tarha tarha \<circ> set32 arp_sndpa (ipucast d) \<circ> set_bytes arp_sndha (ethucast d)
       \<circ> set16 arp_op op \<circ> set_byte arp_plen 4 \<circ> set_byte arp_hlen 6 \<circ> set16 arp_ptype 0x0800 \<circ> set16 arp_htype 1
       \<circ> set16 net_ethtype ETH_ARP \<circ> set_bytes net_ethsrc (ethucast d) \<circ> set_bytes net_ethdst dst) (\<lambda>_. 0)"

lemma six: "length bs = 6 \<Longrightarrow> \<exists>a b c d e f. bs = [a, b, c, d, e, f]"
  by (auto simp: numeral_eq_Suc length_Suc_conv)

lemma arp_fields_values:
  assumes "length dst = 6" "length tarha = 6" "length (ethucast d) = 6"
  shows "get16 (arp_fields dst op tarha tarpa d) 12 = ETH_ARP" "get16 (arp_fields dst op tarha tarpa d) 14 = 1"
    "get16 (arp_fields dst op tarha tarpa d) 16 = 0x0800" "get16 (arp_fields dst op tarha tarpa d) 20 = op"
    "bytes_at (arp_fields dst op tarha tarpa d) 22 6 = ethucast d" "get32 (arp_fields dst op tarha tarpa d) 28 = ipucast d"
    "get32 (arp_fields dst op tarha tarpa d) 38 = tarpa"
proof -
  obtain a1 a2 a3 a4 a5 a6 where a: "dst = [a1, a2, a3, a4, a5, a6]" using six [OF assms(1)] by blast
  obtain b1 b2 b3 b4 b5 b6 where b: "tarha = [b1, b2, b3, b4, b5, b6]" using six [OF assms(2)] by blast
  obtain c1 c2 c3 c4 c5 c6 where c: "ethucast d = [c1, c2, c3, c4, c5, c6]" using six [OF assms(3)] by blast
  have up: "get16 (m(x := v)) y = get16 m y" if "x \<noteq> y" "x \<noteq> y + 1" for m :: mem and x y v using that by (simp add: get16_def)
  have g: "get32 m' y = get32 m y" if "get16 m' y = get16 m y" "get16 m' (y + 2) = get16 m (y + 2)" for m m' y
    using that by (simp add: get32_def)
  have u32: "get32 (m(x := v)) y = get32 m y" if "x \<noteq> y" "x \<noteq> y + 1" "x \<noteq> y + 2" "x \<noteq> y + 3" for m :: mem and x y v
    using that by (intro g up) (simp_all add: add.assoc)
  have b6: "bytes_at m y 6 = [m y, m (y + 1), m (y + 2), m (y + 3), m (y + 4), m (y + 5)]" for m y
    by (simp add: eval_nat_numeral add.assoc)
  note R = arp_fields_def a b c up u32 b6 reads_through get16_other set16_other
  show "get16 (arp_fields dst op tarha tarpa d) 12 = ETH_ARP" "get16 (arp_fields dst op tarha tarpa d) 14 = 1"
    "get16 (arp_fields dst op tarha tarpa d) 16 = 0x0800" "get16 (arp_fields dst op tarha tarpa d) 20 = op" by (simp_all add: R)
  show "bytes_at (arp_fields dst op tarha tarpa d) 22 6 = ethucast d" by (simp add: R)
  have t: "get32 (set32 38 w m) 28 = get32 m 28" for w m by (rule g) (simp_all add: reads_through)
  show "get32 (arp_fields dst op tarha tarpa d) 28 = ipucast d" by (simp add: R t)
  show "get32 (arp_fields dst op tarha tarpa d) 38 = tarpa" by (simp add: R)
qed

text \<open>The packet in the buffer \<open>q\<close>, as \<open>netin\<close> and \<open>arp_in\<close> have converted it.\<close>

lemma arp_packet_read:
  assumes N: "n = set_bytes q (arp_packet dst op tarha tarpa d) n0" and l: "length dst = 6" "length tarha = 6" "length (ethucast d) = 6"
  defines "Y \<equiv> arp_ntoh q (eth_ntoh q n)"
  shows "get16 (eth_ntoh q n) (q + 12) = ETH_ARP" "get16 Y (q + 14) = 1" "get16 Y (q + 16) = 0x0800" "get16 Y (q + 20) = op"
    "bytes_at Y (q + 22) 6 = ethucast d" "get32 Y (q + 28) = ipucast d" "get32 Y (q + 38) = tarpa"
proof -
  let ?F = "arp_fields dst op tarha tarpa d"
  have "same_at (eth_hton 0 (arp_hton 0 ?F)) 0 n q 42" unfolding N arp_packet_def using same_copied [of 42] by (simp add: arp_fields_def)
  then have "same_at (eth_ntoh 0 (eth_hton 0 (arp_hton 0 ?F))) 0 (eth_ntoh q n) q 42" by (rule same_ntoh) simp
  then have E: "same_at (arp_hton 0 ?F) 0 (eth_ntoh q n) q 42" using byte_order_roundtrip [of 0 "arp_hton 0 ?F"] by simp
  have "same_at (arp_ntoh 0 (arp_hton 0 ?F)) 0 Y q 42" unfolding Y_def by (rule same_arp_ntoh [OF E]) simp
  then have S: "same_at ?F 0 Y q 42" using byte_order_roundtrip [of 0 ?F] by simp
  note V = arp_fields_values [OF l]
  show "get16 Y (q + 14) = 1" "get16 Y (q + 16) = 0x0800" "get16 Y (q + 20) = op"
    "bytes_at Y (q + 22) 6 = ethucast d" "get32 Y (q + 28) = ipucast d" "get32 Y (q + 38) = tarpa"
    using same_get16 [OF S, of 14] same_get16 [OF S, of 16] same_get16 [OF S, of 20] same_bytes [OF S, of 22 6]
      same_get32 [OF S, of 28] same_get32 [OF S, of 38] V by simp_all
  have "get16 Y (q + 12) = ETH_ARP" using same_get16 [OF S, of 12] V by simp
  then show "get16 (eth_ntoh q n) (q + 12) = ETH_ARP" unfolding Y_def get16_def using arp_ntoh_keeps [of q "eth_ntoh q n"] by (simp add: add.assoc)
qed

section \<open>Request and reply\<close>

text \<open>What \<open>netin\<close> does with an ARP packet: the two conversions, then the search for the sender.\<close>

lemma arp_demux:
  assumes "nmem N = set_bytes q (arp_packet dst op tarha tarpa d) n" "length dst = 6" "length tarha = 6" "length (ethucast d) = 6"
    and r: "intval N \<noteq> SYSERR"
  obtains Y where "get16 Y (q + arp_op) = op" "bytes_at Y (q + arp_sndha) 6 = ethucast d" "get32 Y (q + arp_sndpa) = ipucast d"
    "get32 Y (q + arp_tarpa) = tarpa"
    "netin_demux q N = (let N1 = push_frame FNetin (N\<lparr>nmem := Y\<rparr>) in
       case arp_find (ipucast d) N1 of
         None \<Rightarrow> arp_in_rest q False N1
       | Some slot \<Rightarrow>
           let N2 = upd_arp slot (\<lambda>e. e\<lparr>arhaddr := ethucast d\<rparr>) N1 in
           if arstate (arpcache N2 slot) = AR_PENDING
           then let N3 = upd_arp slot (\<lambda>e. e\<lparr>arstate := AR_RESOLVED\<rparr>) N2
                in on_kern (send (arpid (arpcache N3 slot)) (of_int OK)) (push_frame (FArpIn q) N3)
           else arp_in_rest q True N2)"
proof -
  define Y where "Y = arp_ntoh q (eth_ntoh q (nmem N))"
  note F = arp_packet_read [OF assms(1-4), folded Y_def]
  have u: "upd_mem f (push_frame g (upd_mem h N)) = push_frame g (N\<lparr>nmem := f (h (nmem N))\<rparr>)" "nmem (push_frame g (upd_mem h N)) = h (nmem N)"
    "nmem (push_frame g (N\<lparr>nmem := n'\<rparr>)) = n'" for f g h n'
    by (simp_all add: upd_mem_def push_frame_def me_def)
  have "netin_demux q N = arp_in q (push_frame FNetin (upd_mem (eth_ntoh q) N))" using r F(1) by (simp add: netin_demux_def Let_def u)
  moreover have "nmem (push_frame FNetin (N\<lparr>nmem := Y\<rparr>)) = Y" by (rule u(3))
  ultimately show ?thesis using F(2-)
    by (intro that [of Y]) (simp_all add: arp_in_def u Y_def [symmetric] Let_def cong: option.case_cong)
qed

lemma arp_find_eq: "arp_find a (push_frame f (N\<lparr>nmem := m\<rparr>)) = arp_find a N"
  by (simp add: arp_find_def push_frame_def)

text \<open>C38. A machine that receives an ARP request for its own address from a machine it does not know writes a reply that
  carries its Ethernet address to the sender, and its cache then holds the address of the sender, resolved; the entry
  it uses was free or resolved, never one that a process waits for.\<close>

theorem arp_request_answered:
  assumes "nmem N = set_bytes q (arp_packet (ethbcast dA) 1 (replicate 6 0) (ipucast (netdata N)) dA) n"
    and "length (ethbcast dA) = 6" "length (ethucast dA) = 6" "intval N \<noteq> SYSERR" "ipvalid (netdata N)"
    and "\<forall>j. \<not> arp_known N j (ipucast dA)" "0 \<le> j" "j < ARP_SIZ" "arstate (arpcache N j) \<noteq> AR_PENDING"
  shows "\<exists>M i. netin_demux q N = ethwrite (Local (arp_packet (ethucast dA) 2 (ethucast dA) (ipucast dA) (netdata N))) 42 (push_frame (FArpDone q) M)
    \<and> arp_known M i (ipucast dA) \<and> arstate (arpcache M i) = AR_RESOLVED \<and> arhaddr (arpcache M i) = ethucast dA
    \<and> arstate (arpcache N i) \<noteq> AR_PENDING \<and> (\<forall>k. k \<noteq> i \<longrightarrow> arpcache M k = arpcache N k)"
proof -
  have "length (replicate 6 (0 :: u8)) = 6" by simp
  then obtain Y where
    Y: "get16 Y (q + arp_op) = 1" "bytes_at Y (q + arp_sndha) 6 = ethucast dA" "get32 Y (q + arp_sndpa) = ipucast dA"
      "get32 Y (q + arp_tarpa) = ipucast (netdata N)"
    and D: "netin_demux q N = (let N1 = push_frame FNetin (N\<lparr>nmem := Y\<rparr>) in
       case arp_find (ipucast dA) N1 of
         None \<Rightarrow> arp_in_rest q False N1
       | Some slot \<Rightarrow>
           let N2 = upd_arp slot (\<lambda>e. e\<lparr>arhaddr := ethucast dA\<rparr>) N1 in
           if arstate (arpcache N2 slot) = AR_PENDING
           then let N3 = upd_arp slot (\<lambda>e. e\<lparr>arstate := AR_RESOLVED\<rparr>) N2
                in on_kern (send (arpid (arpcache N3 slot)) (of_int OK)) (push_frame (FArpIn q) N3)
           else arp_in_rest q True N2)" by (rule arp_demux [OF assms(1,2) _ assms(3,4)]) (rule that)
  define N1 where "N1 = push_frame FNetin (N\<lparr>nmem := Y\<rparr>)"
  have n1: "nmem N1 = Y" "netdata N1 = netdata N" "arpcache N1 = arpcache N" by (simp_all add: N1_def push_frame_def)
  have "arp_find (ipucast dA) N1 = None"
    using arp_find_Some [of "ipucast dA" N] assms(6) unfolding N1_def arp_find_eq by (cases "arp_find (ipucast dA) N") auto
  then have e: "netin_demux q N = arp_in_rest q False N1" using D by (simp add: N1_def [symmetric] Let_def)
  show ?thesis
  proof (cases rule: arp_alloc_cases [of N1])
    case full
    then show ?thesis using assms(7-9) n1 by simp
  next
    case (slot i)
    define M where "M = upd_arp i (\<lambda>e. e\<lparr>arpaddr := ipucast dA, arhaddr := ethucast dA, arstate := AR_RESOLVED\<rparr>) (upd_arp i (\<lambda>_. arp_zero) N1)"
    have "i \<noteq> SYSERR" using slot(2) by simp
    then have "netin_demux q N = ethwrite (Local (arp_packet (ethucast dA) 2 (ethucast dA) (ipucast dA) (netdata N))) 42 (push_frame (FArpDone q) M)"
      using Y assms(5) n1 slot(1) unfolding e arp_in_rest_def Let_def by (simp add: M_def)
    moreover have "arp_known M i (ipucast dA)" "arstate (arpcache M i) = AR_RESOLVED" "arhaddr (arpcache M i) = ethucast dA"
      using slot(2,3) by (simp_all add: M_def upd_arp_def arp_known_def)
    moreover have "\<forall>k. k \<noteq> i \<longrightarrow> arpcache M k = arpcache N k" by (simp add: M_def upd_arp_def n1)
    moreover have "arstate (arpcache N i) \<noteq> AR_PENDING" using slot(4) n1 by simp
    ultimately show ?thesis by blast
  qed
qed

text \<open>The machine 10.0.0.2 and a request of 10.0.0.1, whose Ethernet address ends in 1.\<close>

definition asker :: network where
  "asker = \<lparr>ipucast = 0x0a000001, ipbcast = 0x0a0000ff, ipmask = 0xffffff00, ipprefix = 0x0a000000, iprouter = 0, ipvalid = True,
     ethucast = [2, 0, 0, 0, 0, 1], ethbcast = replicate 6 0xff\<rparr>"

definition answerer :: network where
  "answerer = asker\<lparr>ipucast := 0x0a000002, ethucast := [2, 0, 0, 0, 0, 2]\<rparr>"

definition asked :: net where
  "asked = net0\<lparr>npl := with_pool\<lparr>bker := set_cont 1 (Ret 42) (bker with_pool)\<rparr>, netdata := answerer,
     nmem := set_bytes 0x300004 (arp_packet (replicate 6 0xff) 1 (replicate 6 0) 0x0a000002 asker) (\<lambda>_. 0)\<rparr>"

theorem arp_request_answered_witness:
  "\<exists>M i. netin_demux 0x300004 asked
      = ethwrite (Local (arp_packet [2, 0, 0, 0, 0, 1] 2 [2, 0, 0, 0, 0, 1] 0x0a000001 answerer)) 42 (push_frame (FArpDone 0x300004) M)
    \<and> arp_known M i 0x0a000001 \<and> arhaddr (arpcache M i) = [2, 0, 0, 0, 0, 1]"
proof -
  have v: "ethbcast asker = replicate 6 0xff" "ethucast asker = [2, 0, 0, 0, 0, 1]" "ipucast asker = 0x0a000001" "netdata asked = answerer"
    "ipucast answerer = 0x0a000002" "ipvalid answerer" by (simp_all add: asker_def answerer_def asked_def)
  have m: "nmem asked = set_bytes 0x300004 (arp_packet (ethbcast asker) 1 (replicate 6 0) (ipucast (netdata asked)) asker) (\<lambda>_. 0)"
    unfolding v by (simp add: asked_def)
  have i: "intval asked \<noteq> SYSERR" by (simp add: asked_def intval_def retval_def me_def with_pool_facts(6))
  have f: "\<forall>j. \<not> arp_known asked j (ipucast asker)" "arstate (arpcache asked 0) \<noteq> AR_PENDING"
    by (simp_all add: arp_known_def asked_def net0_def arp_zero_def)
  from arp_request_answered [OF m _ _ i _ f(1) _ _ f(2)] show ?thesis using v(6) unfolding v by auto
qed

text \<open>C39. The reply to a request resolves the pending entry with the Ethernet address of the machine that answered and
  sends a message to the process that waits for it; going on from there, that process copies this address into the
  packet it wants to send.\<close>

theorem arp_reply_resolves:
  assumes "nmem N = set_bytes q (arp_packet dst 2 dst tarpa dB) n" "length dst = 6" "length (ethucast dB) = 6" "intval N \<noteq> SYSERR"
    and "tables_ok N" "arp_known N i (ipucast dB)" "arstate (arpcache N i) = AR_PENDING" "pid = arpid (arpcache N i)"
    and "kinv (bker (npl N))" "\<not> isbadpid (bker (npl N)) pid" "\<not> prhasmsg (proctab (bker (npl N)) pid)"
  shows "returns (netin_demux q N) (\<lambda>N'. arstate (arpcache N' i) = AR_RESOLVED \<and> arhaddr (arpcache N' i) = ethucast dB
    \<and> told (bker (npl N')) pid 1
    \<and> (\<forall>a mac k ap. msgval N' = 1 \<longrightarrow> (\<exists>N''. run_frame (FArpAnswer a mac i k ap) N' = Some N'' \<and> intval N'' = OK
          \<and> nmem N'' = set_bytes mac (ethucast dB) (nmem N'))))"
proof -
  obtain Y where
    D: "netin_demux q N = (let N1 = push_frame FNetin (N\<lparr>nmem := Y\<rparr>) in
       case arp_find (ipucast dB) N1 of
         None \<Rightarrow> arp_in_rest q False N1
       | Some slot \<Rightarrow>
           let N2 = upd_arp slot (\<lambda>e. e\<lparr>arhaddr := ethucast dB\<rparr>) N1 in
           if arstate (arpcache N2 slot) = AR_PENDING
           then let N3 = upd_arp slot (\<lambda>e. e\<lparr>arstate := AR_RESOLVED\<rparr>) N2
                in on_kern (send (arpid (arpcache N3 slot)) (of_int OK)) (push_frame (FArpIn q) N3)
           else arp_in_rest q True N2)" by (rule arp_demux [OF assms(1,2,2,3,4)]) (rule that)
  have f: "arp_find (ipucast dB) N = Some i"
  proof (cases "arp_find (ipucast dB) N")
    case None
    then show ?thesis using arp_find_None assms(6) by blast
  next
    case (Some j)
    then show ?thesis using arp_find_Some [OF Some] assms(5,6) unfolding tables_ok_def arp_unique_def by blast
  qed
  define M where "M = push_frame (FArpIn q) (upd_arp i (\<lambda>e. e\<lparr>arstate := AR_RESOLVED\<rparr>) (upd_arp i (\<lambda>e. e\<lparr>arhaddr := ethucast dB\<rparr>)
    (push_frame FNetin (N\<lparr>nmem := Y\<rparr>))))"
  have m: "bker (npl M) = bker (npl N)" "arstate (arpcache M i) = AR_RESOLVED" "arhaddr (arpcache M i) = ethucast dB" "arpid (arpcache M i) = pid"
    using assms(8) by (simp_all add: M_def push_frame_def upd_arp_def)
  have "netin_demux q N = on_kern (send pid 1) M"
    using f assms(7,8) unfolding D Let_def arp_find_eq M_def by (simp add: push_frame_def upd_arp_def)
  moreover have "returns (on_kern (send pid 1) M) (\<lambda>N'. arpcache N' = arpcache M \<and> told (bker (npl N')) pid 1)"
    using send_tells [OF assms(9-11), of 1] by (auto simp: on_kern_def m elim!: returnsE)
  moreover have "\<exists>N''. run_frame (FArpAnswer a mac i k ap) N' = Some N'' \<and> intval N'' = OK \<and> nmem N'' = set_bytes mac (ethucast dB) (nmem N')"
    if "arpcache N' = arpcache M" "msgval N' = 1" for a mac k ap N'
    using that m by (simp add: arp_answer_def Let_def ndone_eq intval_def retval_def me_def upd_mem_def)
  ultimately show ?thesis using m by (auto elim!: returns_mono)
qed

text \<open>Process 5 waits for the Ethernet address of 10.0.0.2.\<close>

definition replied :: net where
  "replied = net0\<lparr>npl := with_pool\<lparr>bker := set_cont 1 (Ret 42) (bker with_pool)\<rparr>, netdata := asker,
     arpcache := (\<lambda>_. arp_zero)(3 := \<lparr>arstate = AR_PENDING, arpaddr = 0x0a000002, arpid = 5, arhaddr = replicate 6 0\<rparr>),
     nmem := set_bytes 0x300004 (arp_packet [2, 0, 0, 0, 0, 1] 2 [2, 0, 0, 0, 0, 1] 0x0a000001 answerer) (\<lambda>_. 0)\<rparr>"

theorem arp_reply_resolves_witness:
  "returns (netin_demux 0x300004 replied) (\<lambda>N'. arhaddr (arpcache N' 3) = [2, 0, 0, 0, 0, 2] \<and> told (bker (npl N')) 5 1)"
proof -
  have v: "ethucast answerer = [2, 0, 0, 0, 0, 2]" "ipucast answerer = 0x0a000002" by (simp_all add: asker_def answerer_def)
  have m: "nmem replied = set_bytes 0x300004 (arp_packet [2, 0, 0, 0, 0, 1] 2 [2, 0, 0, 0, 0, 1] 0x0a000001 answerer) (\<lambda>_. 0)"
    by (simp add: replied_def)
  have i: "intval replied \<noteq> SYSERR" by (simp add: replied_def intval_def retval_def me_def with_pool_facts(6))
  have t: "tables_ok replied"
    by (auto simp: tables_ok_def ud_index_ok_def iq_index_ok_def arp_unique_def arp_known_def replied_def net0_def arp_zero_def split: if_splits)
  have c: "arp_known replied 3 (ipucast answerer)" "arstate (arpcache replied 3) = AR_PENDING" "5 = arpid (arpcache replied 3)"
    by (simp_all add: arp_known_def replied_def v)
  have k: "kinv (bker (npl replied))" "\<not> isbadpid (bker (npl replied)) 5" "\<not> prhasmsg (proctab (bker (npl replied)) 5)"
    using breachable_bpinv [OF with_pool_facts(2)]
    by (simp_all add: replied_def bpinvs_def kok_def isbadpid_def with_pool_kernel demo_procs_def demo_proc_def no_process_def)
  show ?thesis by (rule returns_mono [OF arp_reply_resolves [OF m _ _ i t c k]]) (simp_all add: v)
qed

end
