(* ===== verification/Contracts.thy ===== *)
theory Contracts
  imports Samples Vmalloc Format
begin

text \<open>
  What the components promise their callers, each promise tried on a concrete state. The lemmas the
  proofs rest on are in the theories of the components.
\<close>

section \<open>Memory\<close>

text \<open>C26. \<open>getmem\<close> hands out 8-byte rounded blocks that were free and are free no longer, or fails
  when no free block is large enough; no other byte changes hands.\<close>

theorem getmem_takes_free_bytes:
  assumes "heap_rep h bs" "n \<noteq> 0" "unat n + 7 < 2 ^ 32"
  shows "(\<exists>p h' bs'. getmem n h = Some (p, h') \<and> heap_rep h' bs' \<and> block_bytes (p, roundmb n) \<subseteq> free_bytes bs
      \<and> free_bytes bs' = free_bytes bs - block_bytes (p, roundmb n))
    \<or> getmem n h = Some (SYSERRp, h) \<and> (\<forall>b\<in>set bs. snd b < roundmb n)"
proof (cases "first_fit (roundmb n) bs")
  case None
  then have "getmem n h = Some (SYSERRp, h)" using getmem_refines [OF assms] by simp
  moreover have "\<forall>b\<in>set bs. snd b < roundmb n" using None by (simp only: first_fit_None)
  ultimately show ?thesis by blast
next
  case (Some r)
  obtain p bs' where r: "r = (p, bs')" by (cases r)
  have "0 < unat n" using assms(2) by (simp add: unat_gt_0)
  then have "0 < unat (roundmb n)" "8 dvd unat (roundmb n)" using unat_roundmb [OF assms(3)] by simp_all
  note F = first_fit_Some [OF heap_repD(2,3) [OF assms(1)] this Some [unfolded r]]
  show ?thesis using getmem_refines [OF assms] Some r F(2,3) by auto
qed

theorem getmem_takes_free_bytes_witness:
  "\<exists>p h' bs'. getmem 100 (kheap demo) = Some (p, h') \<and> heap_rep h' bs' \<and> block_bytes (p, roundmb 100) \<subseteq> free_bytes [(0x180000, 0x10000)]
      \<and> free_bytes bs' = free_bytes [(0x180000, 0x10000)] - block_bytes (p, roundmb 100)"
proof -
  have "heap_rep (kheap demo) [(0x180000, 0x10000)]" using demo_stacks by (simp add: stacks_at_def heap_wf_def)
  moreover have "\<not> (0x10000 :: u32) < roundmb 100" by (simp add: roundmb_def)
  ultimately show ?thesis using getmem_takes_free_bytes [of "kheap demo" "[(0x180000, 0x10000)]" 100] by auto
qed

text \<open>C27. Giving back to \<open>freemem\<close> what \<open>getmem\<close> returned succeeds and makes exactly the same bytes
  free as before.\<close>

theorem getmem_freemem_roundtrip:
  assumes "heap_wf h bs" "n \<noteq> 0" "unat n + 7 < 2 ^ 32" "getmem n h = Some (p, h1)" "p \<noteq> SYSERRp"
  shows "\<exists>h2 bs2. freemem p n h1 = Some (OK, h2) \<and> heap_wf h2 bs2 \<and> free_bytes bs2 = free_bytes bs"
  by (rule getmem_freemem [OF assms])

theorem getmem_freemem_roundtrip_witness:
  "\<exists>h2 bs2. freemem 0x180000 100 (snd (the (getmem 100 (kheap demo)))) = Some (OK, h2) \<and> heap_wf h2 bs2
    \<and> free_bytes bs2 = free_bytes [(0x180000, 0x10000)]"
proof -
  have "fst (the (getmem 100 (kheap demo))) = 0x180000 \<and> getmem 100 (kheap demo) \<noteq> None"
    by (simp add: getmem_def one_block_def roundmb_def getmem_scan.simps Let_def)
  then obtain h1 where "getmem 100 (kheap demo) = Some (0x180000, h1)" by (cases "getmem 100 (kheap demo)") auto
  moreover have "heap_wf (kheap demo) [(0x180000, 0x10000)]" using demo_stacks by (simp add: stacks_at_def)
  ultimately show ?thesis using getmem_freemem_roundtrip [of "kheap demo" "[(0x180000, 0x10000)]" 100 "0x180000" h1] by simp
qed

text \<open>Rounding wraps: a request within 7 bytes of 4 GB gets the first free block and leaves it on
  the free list, so the next caller gets it too.\<close>

theorem getmem_wraps:
  assumes "heap_rep h ((a, l) # bs)" "2 ^ 32 \<le> unat n + 7"
  shows "\<exists>h'. getmem n h = Some (a, h') \<and> heap_rep h' ((a, l) # bs)"
proof -
  have c: "chain h Memlist ((a, l) # bs)" "fl_ok 1 (unat (maxheap h) + 1) ((a, l) # bs)" using assms(1) by (simp_all add: heap_rep_def)
  have l: "memlist_next h = a" "mlength h a = l" using c(1) by (simp_all add: chain_Cons)
  have z: "a \<noteq> 0" "l \<noteq> 0" using c(2) by auto
  have n0: "n \<noteq> 0" using assms(2) by auto
  define h' where "h' = (set_len a l (set_nxt (Blk a) (mnext h a) (set_nxt Memlist a h)))\<lparr>memlist_len := memlist_len h\<rparr>"
  have "getmem n h = Some (a, h')"
    using n0 l z roundmb_wraps [OF assms(2)]
    by (simp add: getmem_def getmem_scan.simps [of h 0] h'_def Let_def setter_simps word_gt_0)
  moreover have "heap_rep h' ((a, l) # bs)"
  proof -
    have "chain h' Memlist ((a, l) # bs)"
      by (rule chain_frame [OF c(1)]) (use l in \<open>auto simp: h'_def setter_simps\<close>)
    then show ?thesis using assms(1) by (simp add: heap_rep_def h'_def setter_simps)
  qed
  ultimately show ?thesis by blast
qed

theorem getmem_wraps_witness: "\<exists>h'. getmem 0xFFFFFFFF (kheap demo) = Some (0x180000, h') \<and> heap_rep h' [(0x180000, 0x10000)]"
  by (rule getmem_wraps) (use demo_stacks in \<open>simp_all add: stacks_at_def heap_wf_def\<close>)

section \<open>Page faults\<close>

text \<open>C13. A fault on a page the process has allocated maps it to a frame of the FFS area that no other
  mapped page has, and changes no table of the kernel; with no frame left nothing is mapped.\<close>

theorem pagefault_maps:
  assumes "fault_valid s" "isolated P (pmem (kvm s))" "fault_entry s \<in> P"
  shows "\<exists>v. pagefault_handler s = Some (s\<lparr>kvm := v\<rparr>) \<and> isolated P (pmem v)
    \<and> (if \<exists>k<MAX_FFS_SIZE. \<not> pt_valid (pmem (kvm s) (ffs k))
       then p_pres (pmem v (fault_entry s))
         \<and> (\<forall>e\<in>P. e \<noteq> fault_entry s \<longrightarrow> p_pres (pmem v e) \<longrightarrow> p_base (pmem v e) \<noteq> p_base (pmem v (fault_entry s)))
       else pmem v = pmem (kvm s))"
proof -
  let ?m = "map_page (fault_entry s) (pmem (kvm s))"
  let ?v = "load_pd (page_addr (proctab s (currpid s))) ((load_pd PAGE_DIR_ADDR_START (kvm s))\<lparr>pmem := ?m\<rparr>)"
  have iso: "isolated P ?m" by (rule map_page_isolated [OF assms(2,3)])
  have nf: "\<not> ffs_entry (fault_entry s)" using assms(2,3) by (simp add: isolated_def)
  have pres: "p_pres (?m (fault_entry s))" if "\<exists>k<MAX_FFS_SIZE. \<not> pt_valid (pmem (kvm s) (ffs k))"
  proof -
    have "find_ffs (pmem (kvm s)) \<noteq> None" using that by (simp add: find_ffs_None)
    then obtain k where k: "find_ffs (pmem (kvm s)) = Some k" by blast
    then have "ffs_entry (ffs k)" using find_ffs_Some [OF k] by simp
    then have "ffs k \<noteq> fault_entry s" using nf by metis
    then show ?thesis using k by (simp add: map_page_def upd_def)
  qed
  have same: "?m = pmem (kvm s)" if "\<not> (\<exists>k<MAX_FFS_SIZE. \<not> pt_valid (pmem (kvm s) (ffs k)))"
  proof -
    have "find_ffs (pmem (kvm s)) = None" using that by (simp add: find_ffs_None)
    then show ?thesis by (simp add: map_page_def)
  qed
  have distinct: "p_base (?m e) \<noteq> p_base (?m (fault_entry s))"
    if "e \<in> P" "e \<noteq> fault_entry s" "p_pres (?m e)" "p_pres (?m (fault_entry s))" for e
    using iso that assms(3) unfolding isolated_def by blast
  show ?thesis
    by (rule exI [of _ ?v]) (use assms(1) iso pres same distinct in \<open>simp add: pagefault_eq\<close>)
qed

text \<open>The process of \<^term>\<open>demo\<close> that runs has allocated the first page of its heap and touches it.\<close>

definition fault_mem :: pmem where
  "fault_mem e = (if ffs_entry e then blank_entry\<lparr>p_avail := 2, p_base := XINU_PAGES + (e - ent FFS_PT 0)\<rparr>
     else if e = ent 24610 8 then vm_pde 24611 else if e = ent 24611 0 then vm_pte\<lparr>p_avail := 3\<rparr> else blank_entry)"

definition faulting :: kstate where
  "faulting = upd_proc 1 (\<lambda>p. p\<lparr>page_addr := demo_dir\<rparr>) (demo\<lparr>kvm := \<lparr>pmem = fault_mem, cr3 = demo_dir, cr2 = 33554432, ints = True\<rparr>\<rparr>)"

lemma faulting_simps:
  "\<not> ffs_entry (ent 24610 8)" "\<not> ffs_entry (ent 24611 0)" "kvm faulting = \<lparr>pmem = fault_mem, cr3 = demo_dir, cr2 = 33554432, ints = True\<rparr>"
  "fault_entry faulting = ent 24611 0" "fault_valid faulting" "isolated {ent 24611 0} fault_mem"
proof -
  show f: "\<not> ffs_entry (ent 24610 8)" "\<not> ffs_entry (ent 24611 0)" by (simp_all add: ffs_entry_page)
  show k: "kvm faulting = \<lparr>pmem = fault_mem, cr3 = demo_dir, cr2 = 33554432, ints = True\<rparr>"
    by (simp add: faulting_def upd_proc_def)
  have a: "page_addr (proctab faulting (currpid faulting)) = demo_dir" by (simp add: faulting_def upd_proc_def)
  have m: "fault_mem (ent 24610 8) = vm_pde 24611" "fault_mem (ent 24611 0) = vm_pte\<lparr>p_avail := 3\<rparr>" using f by (simp_all add: fault_mem_def)
  show e: "fault_entry faulting = ent 24611 0" using m by (simp add: fault_entry_def k a demo_reads vm_pde_def)
  show "fault_valid faulting" using m by (simp add: fault_valid_def e) (simp add: k a demo_reads vm_pde_def vm_pte_def pt_valid_avail)
  show "isolated {ent 24611 0} fault_mem"
    using f m by (auto simp: isolated_def frames_ok_def fault_mem_def vm_pte_def)
qed

theorem pagefault_maps_witness:
  "\<exists>v. pagefault_handler faulting = Some (faulting\<lparr>kvm := v\<rparr>) \<and> p_pres (pmem v (ent 24611 0))"
proof -
  have "\<exists>k<MAX_FFS_SIZE. \<not> pt_valid (fault_mem (ffs k))"
    by (rule exI [of _ 0]) (simp add: fault_mem_def ffs_entry_page pt_valid_avail ent_def)
  then show ?thesis
    using pagefault_maps [of faulting "{ent 24611 0}"] faulting_simps by auto
qed

text \<open>C19. \<open>kill_vm\<close>, which \<open>kill\<close> calls for the process that runs and for no other, clears the page directory it is given
  and the tables of its heap, releases the FFS frames they map and changes no other word, when these tables are apart from
  each other, from the directory and from the tables of the FFS area.\<close>

theorem kill_vm_releases:
  fixes addr :: u32
  defines "pd \<equiv> frame_of addr"
  assumes "space_ok (pmem v) pd" "addr \<noteq> PAGE_DIR_ADDR_START"
  shows "pmem (kill_vm addr v) x =
    (if x div 1024 = pd \<or> x \<in> heap_entries (pmem v) pd 1024 then pte_zero
     else if ffs_entry x \<and> (\<exists>e\<in>heap_entries (pmem v) pd 1024. p_pres (pmem v e) \<and> p_base (pmem v e) = p_base (pmem v x))
     then (pmem v x)\<lparr>p_avail := 2\<rparr> else pmem v x)"
  using kill_pdes_apply [of "pmem v" pd 1024 x] assms by (simp add: kill_vm_def Let_def pd_def)

theorem kill_vm_releases_witness:
  "pmem (kill_vm demo_dir (kvm faulting)) (ent 24611 0) = pte_zero"
proof -
  have f: "frame_of demo_dir = 24610" by (simp add: demo_reads)
  have e: "fault_mem (ent 24610 8) = vm_pde 24611" by (simp add: fault_mem_def ffs_entry_page)
  have p: "p_pres (fault_mem (ent 24610 i)) \<longleftrightarrow> i = 8" if "i < 1024" for i
    using that by (auto simp: fault_mem_def ffs_entry_page vm_pde_def blank_entry_def)
  then have t: "heap_tables fault_mem 24610 1024 = {24611}"
    using e by (auto simp: heap_tables_def vm_pde_def intro!: exI [of _ 8])
  have "space_ok fault_mem 24610" using p by (simp add: space_ok_def t)
  then show ?thesis
    using kill_vm_releases [of "kvm faulting" demo_dir "ent 24611 0"] t unfolding f
    by (simp add: faulting_simps heap_entries_def)
qed

section \<open>Scheduling\<close>

text \<open>C20. After \<open>resched\<close> no process on the ready list has a higher key than the one that runs, the list is in
  descending order of its keys, and a process that was running is not lost. A key is the priority its process had when it was put on
  the list: if no ready process has had its priority changed since (\<open>chprio\<close> leaves the list alone), then no ready process has a
  higher priority than the one that runs.\<close>

theorem resched_highest:
  assumes "kinv s"
  shows "returns (resched s) (\<lambda>s'. kinv s'
    \<and> (\<forall>q\<in>set (queue_of (queuetab s') (readylist s)). qkey (queuetab s' q)
         \<le> (if currpid s' = currpid s then prprio (proctab s (currpid s)) else qkey (queuetab s (currpid s'))))
    \<and> desc_by (\<lambda>i. qkey (queuetab s' i)) (queue_of (queuetab s') (readylist s))
    \<and> insert (currpid s') (set (queue_of (queuetab s') (readylist s)))
        = insert (currpid s) (set (queue_of (queuetab s) (readylist s)))
    \<and> (\<forall>i. prprio (proctab s' i) = prprio (proctab s i))
    \<and> ((\<forall>q\<in>set (queue_of (queuetab s) (readylist s)). qkey (queuetab s q) = prprio (proctab s q)) \<longrightarrow>
         (\<forall>q\<in>set (queue_of (queuetab s') (readylist s)). prprio (proctab s' q) \<le> prprio (proctab s' (currpid s')))))"
proof -
  obtain L where L: "kq L s" "sem_ok L s" and cur: "prstate (proctab s (currpid s)) = PR_CURR" "ndefers s = 0"
    using kinvE [OF assms] by metis
  obtain s' L' where r: "resched s = Some s'" "kq L' s'" "\<And>q. q \<noteq> readylist s \<Longrightarrow> L' q = L q"
    "prstate (proctab s' (currpid s')) = PR_CURR" "switched s s'"
    "insert (currpid s') (set (L' (readylist s)))
      = (if prstate (proctab s (currpid s)) = PR_CURR then insert (currpid s) (set (L (readylist s))) else set (L (readylist s)))"
    "\<And>i. qkey (queuetab s' i) = (if i = currpid s \<and> currpid s' \<noteq> i \<and> prstate (proctab s i) = PR_CURR
        then prprio (proctab s i) else qkey (queuetab s i))"
    "\<And>q. q \<in> set (L' (readylist s)) \<Longrightarrow> qkey (queuetab s' q)
        \<le> (if currpid s' = currpid s then prprio (proctab s (currpid s)) else qkey (queuetab s (currpid s')))"
    by (rule resched_kq [OF L(1) cur(2)]) (use cur in simp_all)
  have rl: "readylist s' = readylist s" using kframe_fields(2) [OF switched_kframe [OF r(5)]] by simp
  have Q: "queue_of (queuetab s') (readylist s) = L' (readylist s)" "queue_of (queuetab s) (readylist s) = L (readylist s)"
    using queue_of_qrep [OF kqD(1) [OF r(2)] kqD(6) [OF r(2)]] queue_of_qrep [OF kqD(1) [OF L(1)] kqD(6) [OF L(1)]] rl by simp_all
  have "kinv s'" using resched_kinv [OF assms] r(1) by simp
  moreover have "desc_by (\<lambda>i. qkey (queuetab s' i)) (L' (readylist s))" using kqD(4) [OF r(2)] rl by (simp add: order_ok_def)
  moreover have "prprio (proctab s' q) \<le> prprio (proctab s' (currpid s'))"
    if keys: "\<forall>q\<in>set (L (readylist s)). qkey (queuetab s q) = prprio (proctab s q)" and q: "q \<in> set (L' (readylist s))" for q
  proof -
    have pr: "prprio (proctab s' i) = prprio (proctab s i)" for i using switched_fields(13) [OF r(5)] .
    have "insert (currpid s') (set (L' (readylist s))) = insert (currpid s) (set (L (readylist s)))" using r(6) cur(1) by simp
    then have "q = currpid s \<or> q \<in> set (L (readylist s))" "currpid s' = currpid s \<or> currpid s' \<in> set (L (readylist s))" using q by auto
    moreover have "q \<noteq> currpid s'" 
    proof
      assume c: "q = currpid s'"
      have "0 \<le> currpid s'" "currpid s' < NPROC" using kqD(5) [OF r(2)] by (simp_all add: procs_ok_def)
      then have "home s' (currpid s') = Some (readylist s')" using placed_iff [OF kqD(3) [OF r(2)] _ _ kqD(6) [OF r(2)]] q c rl by simp
      then show False using r(4) by (simp add: home_def split: option.splits)
    qed
    ultimately show ?thesis using r(7) [of q] r(8) [OF q] keys cur(1) unfolding pr by (auto split: if_splits)
  qed
  ultimately show ?thesis using r(6,8) cur switched_fields(13) [OF r(5)] unfolding r(1) returns_Some Q by simp
qed

theorem resched_highest_witness:
  "returns (chprio 1 (- 1) demo) (\<lambda>s. returns (resched s) (\<lambda>s'. kinv s' \<and> currpid s' = 0 \<and> 1 \<in> set (queue_of (queuetab s') 300)))"
proof -
  obtain s where c: "chprio 1 (- 1) demo = Some s" and k: "kinv s" using chprio_kinv [OF demo_kinv, of "- 1" 1] by (auto elim: returnsE)
  have s: "queuetab s = demo_qt" "currpid s = 1" "readylist s = 300" "prprio (proctab s 1) = - 1" "prprio (proctab s 0) = 0"
    using c by (auto simp: chprio_def give_def isbadpid_def demo_procs_def demo_proc_def Let_def upd_proc_def set_cont_def split: if_splits)
  have q: "queue_of demo_qt 300 = [0]" by (subst demo_queue) (simp_all add: isq_def demo_lists_def)
  have "kinv s' \<and> currpid s' = 0 \<and> 1 \<in> set (queue_of (queuetab s') 300)" if r: "resched s = Some s'" for s'
  proof -
    have i: "insert (currpid s') (set (queue_of (queuetab s') 300)) = {0, 1}" and k': "kinv s'"
      and pr: "prprio (proctab s' 0) = 0" "prprio (proctab s' 1) = - 1"
      and le: "\<forall>q\<in>set (queue_of (queuetab s') 300). prprio (proctab s' q) \<le> prprio (proctab s' (currpid s'))"
      using resched_highest [OF k] q s by (auto simp: r demo_qt_def)
    have "currpid s' \<noteq> 1" using i le pr by (metis insertE insertI1 neg_0_le_iff_le not_one_le_zero singletonD zero_neq_one)
    then have c: "currpid s' = 0" using i by auto
    then have "1 \<in> set (queue_of (queuetab s') 300)" using i by (metis insertE insertI1 insert_commute singletonD zero_neq_one)
    then show ?thesis using c k' by simp
  qed
  then show ?thesis unfolding c returns_Some using resched_kinv [OF k] by (auto elim!: returnsE)
qed

section \<open>Semaphores\<close>

text \<open>C21. \<open>wait\<close> decrements the count; when none is left the caller joins the end of the queue and
  gives the processor away, otherwise it goes on and nothing else changes.\<close>

theorem wait_contract:
  assumes "kinv s" "0 \<le> sem" "sem < NSEM" "sstate (semtab s sem) = S_USED" "currpid s \<noteq> NULLPROC"
  defines "q \<equiv> squeue (semtab s sem)"
  shows "returns (wait sem s) (\<lambda>s'. kinv s' \<and> conts s' (currpid s) = Ret OK
    \<and> semtab s' = (semtab s)(sem := (semtab s sem)\<lparr>scount := scount (semtab s sem) - 1\<rparr>)
    \<and> (if 0 < scount (semtab s sem) then currpid s' = currpid s \<and> proctab s' = proctab s \<and> queuetab s' = queuetab s
       else queue_of (queuetab s') q = queue_of (queuetab s) q @ [currpid s] \<and> currpid s' \<noteq> currpid s
         \<and> prstate (proctab s' (currpid s)) = PR_WAIT))"
  using wait_returns [OF assms(1-4)] assms(5) unfolding q_def by (auto elim!: returns_mono split: if_splits)

theorem wait_contract_witness:
  "returns (wait 2 demo) (\<lambda>s'. queue_of (queuetab s') 104 = [1] \<and> currpid s' \<noteq> 1 \<and> prstate (proctab s' 1) = PR_WAIT)"
proof -
  have "queue_of demo_qt 104 = []" by (subst demo_queue) (simp_all add: isq_def demo_lists_def)
  then show ?thesis using wait_contract [OF demo_kinv, of 2] by (auto simp: demo_sems_def elim: returns_mono)
qed

text \<open>C22. \<open>signal\<close> increments the count; when processes wait, the one that has waited longest leaves the
  queue and becomes ready or runs, the others stay in order.\<close>

theorem signal_contract:
  assumes "kinv s" "0 \<le> sem" "sem < NSEM" "sstate (semtab s sem) = S_USED"
  defines "q \<equiv> squeue (semtab s sem)"
  shows "returns (signal sem s) (\<lambda>s'. kinv s' \<and> conts s' (currpid s) = Ret OK
    \<and> semtab s' = (semtab s)(sem := (semtab s sem)\<lparr>scount := scount (semtab s sem) + 1\<rparr>)
    \<and> (if scount (semtab s sem) < 0
       then queue_of (queuetab s) q \<noteq> [] \<and> queue_of (queuetab s') q = tl (queue_of (queuetab s) q)
         \<and> runs s' (hd (queue_of (queuetab s) q))
       else proctab s' = proctab s \<and> queuetab s' = queuetab s \<and> currpid s' = currpid s))"
proof -
  have e: "signal sem s = signal_once sem s \<bind> give OK s" using assms(2-4) by (simp add: signal_def isbadsem_def)
  show ?thesis unfolding e returns_bind returns_give
    by (rule returns_mono [OF signal_once_done [OF assms(1-4)]]) (auto simp: q_def runs_def split: if_splits)
qed

theorem signal_contract_witness:
  "returns (signal 0 demo) (\<lambda>s'. queue_of (queuetab s') 100 = [] \<and> runs s' 2 \<and> scount (semtab s' 0) = 0)"
proof -
  have "queue_of demo_qt 100 = [2]" by (subst demo_queue) (simp_all add: isq_def demo_lists_def)
  then show ?thesis using signal_contract [OF demo_kinv, of 0] by (auto simp: demo_sems_def elim: returns_mono)
qed

text \<open>\<open>signaln\<close> with a count of n wakes the n processes that have waited longest, or all of them when
  fewer wait, and reschedules once at the end.\<close>

theorem signaln_contract:
  assumes "kinv s" "0 \<le> sem" "sem < NSEM" "sstate (semtab s sem) = S_USED" "0 \<le> n"
  defines "q \<equiv> squeue (semtab s sem)"
  shows "returns (signaln sem n s) (\<lambda>s'. kinv s'
    \<and> semtab s' = (semtab s)(sem := (semtab s sem)\<lparr>scount := scount (semtab s sem) + n\<rparr>)
    \<and> queue_of (queuetab s') q = drop (nat n) (queue_of (queuetab s) q)
    \<and> (\<forall>p\<in>set (take (nat n) (queue_of (queuetab s) q)). runs s' p))"
  using signaln_returns [OF assms(1-5)] unfolding q_def by (auto elim!: returns_mono)

theorem signaln_contract_witness:
  "returns (signaln 0 5 demo) (\<lambda>s'. queue_of (queuetab s') 100 = [] \<and> runs s' 2 \<and> scount (semtab s' 0) = 4)"
proof -
  have "queue_of demo_qt 100 = [2]" by (subst demo_queue) (simp_all add: isq_def demo_lists_def)
  then show ?thesis using signaln_contract [OF demo_kinv, of 0 5] by (auto simp: demo_sems_def elim: returns_mono)
qed

text \<open>\<open>semdelete\<close> frees the semaphore, empties its queue and makes every process that waited run;
  no other semaphore changes.\<close>

theorem semdelete_contract:
  assumes "kinv s" "0 \<le> sem" "sem < NSEM" "sstate (semtab s sem) = S_USED"
  defines "q \<equiv> squeue (semtab s sem)"
  shows "returns (semdelete sem s) (\<lambda>s'. kinv s' \<and> sstate (semtab s' sem) = S_FREE \<and> queue_of (queuetab s') q = []
    \<and> (\<forall>i. i \<noteq> sem \<longrightarrow> semtab s' i = semtab s i) \<and> (\<forall>p\<in>set (queue_of (queuetab s) q). runs s' p))"
  using semdelete_returns [OF assms(1-4)] unfolding q_def by (auto elim!: returns_mono)

theorem semdelete_contract_witness:
  "returns (semdelete 0 demo) (\<lambda>s'. sstate (semtab s' 0) = S_FREE \<and> runs s' 2)"
proof -
  have "queue_of demo_qt 100 = [2]" by (subst demo_queue) (simp_all add: isq_def demo_lists_def)
  then show ?thesis using semdelete_contract [OF demo_kinv, of 0] by (auto simp: demo_sems_def elim: returns_mono)
qed

section \<open>Time\<close>

text \<open>C14. A clock tick takes one off what every sleeper has to wait and wakes exactly those that are then due. If the first of
  them is due before the tick (as after \<open>recvtime(0)\<close>) it is woken with the others that are due, and the tick takes nothing off
  the rest.\<close>

theorem tick_contract:
  fixes s :: kstate
  defines "t \<equiv> if 0 < firstkey (queuetab s) (sleepq s) then 1 else 0"
  assumes "kinv s"
  shows "returns (clkhandler s) (\<lambda>s'. kinv s'
    \<and> queue_of (queuetab s') (sleepq s) = filter (\<lambda>p. t < delay s p) (queue_of (queuetab s) (sleepq s))
    \<and> (\<forall>p\<in>set (queue_of (queuetab s) (sleepq s)).
         if delay s p \<le> t then runs s' p else delay s' p = delay s p - t))"
  using clkhandler_returns [OF assms(2)] unfolding t_def [symmetric] by (auto elim!: returns_mono)

theorem tick_contract_witness:
  "returns (clkhandler demo) (\<lambda>s'. queue_of (queuetab s') 302 = [4] \<and> delay s' 4 = 2)"
proof -
  have q: "queue_of demo_qt 302 = [4]" by (subst demo_queue) (simp_all add: isq_def demo_lists_def)
  have d: "delay demo 4 = 3" "0 < firstkey demo_qt 302" by (simp_all add: delay_def q demo_qt_def firstkey_def macro_defs)
  show ?thesis using tick_contract [OF demo_kinv] q d by (auto elim: returns_mono)
qed

text \<open>C23. \<open>sleepms\<close> puts the caller on the sleep queue with the delay it asked for, whatever the others have
  still to wait, and changes no other delay.\<close>

theorem sleepms_contract:
  assumes "kinv s" "currpid s \<noteq> NULLPROC" "0 < d"
  shows "returns (sleepms d s) (\<lambda>s'. kinv s' \<and> conts s' (currpid s) = Ret OK \<and> currpid s' \<noteq> currpid s
    \<and> prstate (proctab s' (currpid s)) = PR_SLEEP \<and> delay s' (currpid s) = d
    \<and> (\<forall>i\<in>set (queue_of (queuetab s) (sleepq s)). delay s' i = delay s i))"
  using sleepms_returns [OF assms] by (auto elim!: returns_mono)

theorem sleepms_contract_witness:
  "returns (sleepms 2 demo) (\<lambda>s'. prstate (proctab s' 1) = PR_SLEEP \<and> delay s' 1 = 2 \<and> delay s' 4 = 3)"
proof -
  have q: "queue_of demo_qt 302 = [4]" by (subst demo_queue) (simp_all add: isq_def demo_lists_def)
  have d: "delay demo 4 = 3" by (simp add: delay_def q demo_qt_def)
  show ?thesis using sleepms_contract [OF demo_kinv, of 2] q d by (auto elim: returns_mono)
qed

section \<open>Messages\<close>

text \<open>C24. A message sent to a process without one is stored for it and wakes it if it is receiving; a
  process that has one keeps it and the sender gets SYSERR.\<close>

theorem send_contract:
  assumes "kinv s" "\<not> isbadpid s pid"
  shows "returns (send pid msg s) (\<lambda>s'. kinv s' \<and>
    (if prhasmsg (proctab s pid) then conts s' (currpid s) = Ret SYSERR \<and> proctab s' = proctab s
     else conts s' (currpid s) = Ret OK \<and> prhasmsg (proctab s' pid) \<and> prmsg (proctab s' pid) = msg
       \<and> (prstate (proctab s pid) \<in> {PR_RECV, PR_RECTIM} \<longrightarrow> runs s' pid)
       \<and> (\<forall>i. i \<noteq> pid \<longrightarrow> prhasmsg (proctab s' i) = prhasmsg (proctab s i) \<and> prmsg (proctab s' i) = prmsg (proctab s i))))"
proof -
  let ?s1 = "upd_proc pid (\<lambda>p. p\<lparr>prmsg := msg, prhasmsg := True\<rparr>) s"
  obtain r s' where m: "send_msg pid msg s = Some (r, s')" and k: "kinv s'"
    and c: "if \<not> prhasmsg (proctab s pid) then r = OK \<and> kframe {pid} ?s1 s'
        \<and> (if prstate (proctab s pid) = PR_RECV \<or> prstate (proctab s pid) = PR_RECTIM then runs s' pid else s' = ?s1)
      else r = SYSERR \<and> s' = s"
    using send_msg_returns [OF assms(1), of pid msg] assms(2) by (auto elim!: returnsE split: prod.splits)
  have e: "send pid msg s = give r s s'" by (simp add: send_def m)
  show ?thesis
  proof (cases "prhasmsg (proctab s pid)")
    case True
    then show ?thesis using c k unfolding e by simp
  next
    case False
    then have fr: "kframe {pid} ?s1 s'" and r: "r = OK" using c by auto
    have "prhasmsg (proctab s' i) = prhasmsg (proctab ?s1 i)" "prmsg (proctab s' i) = prmsg (proctab ?s1 i)" for i
      using kframe_fields(13,14) [OF fr] by simp_all
    then show ?thesis using False c k r unfolding e returns_give by (auto simp: runs_def split: if_splits)
  qed
qed

theorem send_contract_witness:
  "returns (send 5 77 demo) (\<lambda>s'. runs s' 5 \<and> prmsg (proctab s' 5) = 77)"
  using send_contract [OF demo_kinv, of 5 77] by (auto simp: isbadpid_def demo_procs_def demo_proc_def no_process_def elim: returns_mono)

section \<open>Life and death of a process\<close>

text \<open>C25. \<open>create\<close> either fails and changes no process, or returns an identifier that was free, for a
  suspended process whose stack overlaps neither the free list nor any other stack and holds the
  arguments and the return address where the first dispatch pops them.\<close>

theorem create_contract:
  assumes "kinv s" "stacks_ok s" "priority \<le> 32767"
  shows "returns (create initret funcaddr ssize priority name args s) (\<lambda>s'. kinv s' \<and> stacks_ok s'
    \<and> ((conts s' (currpid s) = Ret SYSERR \<and> proctab s' = proctab s)
       \<or> (\<exists>pid. conts s' (currpid s) = Ret pid \<and> created pid priority name s s'
            \<and> (prstkptr (proctab s' pid), stack s') = create_frame initret funcaddr args (prstkbase (proctab s' pid)) (stack s))))"
  by (rule returns_mono [OF create_returns [OF assms, of initret funcaddr ssize name args]]) (auto simp: prod_eq_iff)

theorem create_contract_witness:
  "returns (create 0x1000 0x2000 1024 25 ''shell'' [7, 8] demo) (\<lambda>s'. kinv s' \<and> stacks_ok s'
    \<and> ((conts s' (currpid demo) = Ret SYSERR \<and> proctab s' = proctab demo)
       \<or> (\<exists>pid. conts s' (currpid demo) = Ret pid \<and> created pid 25 ''shell'' demo s'
            \<and> (prstkptr (proctab s' pid), stack s') = create_frame 0x1000 0x2000 [7, 8] (prstkbase (proctab s' pid)) (stack demo))))"
  by (rule create_contract [OF demo_kinv]) (use demo_stacks in \<open>auto simp: stacks_ok_def\<close>)

text \<open>C9. \<open>kill\<close> of a live process that is not the last takes it off whatever queue it is on, frees its
  table entry and gives exactly its stack back to the free list, unless a parent of higher priority
  runs first.\<close>

theorem kill_contract:
  assumes "kinv s" "stacks_at bs s" "live s pid" "pid \<noteq> NULLPROC" "2 < prcount s"
  shows "returns (kill pid s) (\<lambda>s'. kinv s' \<and> prcount s' = prcount s - 1 \<and>
    (if conts s' (currpid s) = KillK pid \<and> currpid s' \<noteq> currpid s \<and> live s' pid then stacks_at bs s'
     else prstate (proctab s' pid) = PR_FREE
       \<and> (\<exists>bs'. stacks_at bs' s' \<and> free_bytes bs' = free_bytes bs \<union> block_bytes (stack_of (proctab s pid)))))"
  by (rule kill_returns [OF assms])

theorem kill_contract_witness:
  "returns (kill 2 demo) (\<lambda>s'. kinv s' \<and> prcount s' = prcount demo - 1 \<and>
    (if conts s' (currpid demo) = KillK 2 \<and> currpid s' \<noteq> currpid demo \<and> live s' 2 then stacks_at [(0x180000, 0x10000)] s'
     else prstate (proctab s' 2) = PR_FREE
       \<and> (\<exists>bs'. stacks_at bs' s' \<and> free_bytes bs' = free_bytes [(0x180000, 0x10000)] \<union> block_bytes (stack_of (proctab demo 2)))))"
  by (rule kill_contract [OF demo_kinv demo_stacks]) (simp_all add: live_def)

text \<open>A call of \<open>kill\<close> that was interrupted frees whatever process has the identifier when it goes
  on, be it the one that was meant or one created since.\<close>

theorem pending_kill_strikes:
  assumes "kinv s" "stacks_at bs s" "conts s (currpid s) = KillK pid" "live s pid" "pid \<noteq> NULLPROC"
  shows "returns (resume_cont (conts s (currpid s)) s) (\<lambda>s'. prstate (proctab s' pid) = PR_FREE)"
  using kill_finish_returns [OF assms(1,2,4,5)] assms(3) by (auto elim: returns_mono)

theorem pending_kill_strikes_witness:
  "returns (resume_cont (KillK 3) (set_cont 1 (KillK 3) demo)) (\<lambda>s'. prstate (proctab s' 3) = PR_FREE)"
proof -
  let ?s = "set_cont 1 (KillK 3) demo"
  have "stacks_at [(0x180000, 0x10000)] ?s" by (rule stacks_cong(1) [OF _ _ demo_stacks]) (simp_all add: live_def)
  moreover have "kinv ?s" using demo_kinv by simp
  ultimately show ?thesis using pending_kill_strikes [of ?s "[(0x180000, 0x10000)]" 3] by (simp add: live_def set_cont_def)
qed

text \<open>\<open>chprio\<close> changes the priority and nothing else: a process on the ready list keeps its place, and
  a running process is not preempted when another now has a higher priority.\<close>

theorem chprio_keeps_place:
  assumes "\<not> isbadpid s pid"
  shows "returns (chprio pid newprio s) (\<lambda>s'. prprio (proctab s' pid) = newprio \<and> queuetab s' = queuetab s \<and> currpid s' = currpid s
    \<and> conts s' (currpid s) = Ret (prprio (proctab s pid)))"
  using assms by (simp add: chprio_def Let_def set_cont_def)

theorem chprio_keeps_place_witness:
  "returns (chprio 0 100 demo) (\<lambda>s'. prprio (proctab s' 0) = 100 \<and> queuetab s' = queuetab demo \<and> currpid s' = currpid demo
    \<and> conts s' (currpid demo) = Ret (prprio (proctab demo 0)))"
  by (rule chprio_keeps_place) (simp add: isbadpid_def)

section \<open>Every reachable state\<close>

text \<open>Initialization ends with the tables in order, only the null process alive, on a stack of its
  own, and every semaphore free.\<close>

theorem boot_contract:
  assumes "fresh s" "heap_wf (kheap s) bs" "getstk NULLSTK (kheap s) \<noteq> Some (SYSERRp, kheap s)"
  shows "returns (boot s) (\<lambda>s'. kinv s' \<and> stacks_ok s' \<and> currpid s' = NULLPROC \<and> prcount s' = 1
    \<and> (\<forall>p. live s' p \<longleftrightarrow> p = NULLPROC) \<and> (\<forall>i. 0 \<le> i \<longrightarrow> i < NSEM \<longrightarrow> sstate (semtab s' i) = S_FREE))"
  by (rule boot_establishes [OF assms])

theorem boot_contract_witness:
  "returns (boot power_on) (\<lambda>s'. kinv s' \<and> stacks_ok s' \<and> currpid s' = NULLPROC \<and> prcount s' = 1
    \<and> \<not> live s' 3 \<and> sstate (semtab s' 5) = S_FREE)"
  by (rule returns_mono [OF boot_contract [OF power_on_ok]]) simp

text \<open>The state after initialization of \<open>power_on\<close>.\<close>

definition booted :: kstate where "booted = the (boot power_on)"

lemma booted_reachable: "reachable booted" "at_rest (conts booted (currpid booted))"
proof -
  obtain s where s: "boot power_on = Some s" using boot_establishes [OF power_on_ok] by (auto elim: returnsE)
  then show "reachable booted" using reachable.init [OF power_on_ok s] by (simp add: booted_def)
  have "conts booted = conts power_on" using conts_boot [OF s] s by (simp add: booted_def)
  then show "at_rest (conts booted (currpid booted))" by (simp add: power_on_def)
qed

lemma booted_ready: "isq (nextqid booted) (readylist booted)"
  using reachable_keeps [OF booted_reachable(1)] by (auto elim!: kinvE dest: kqD(6))

text \<open>C1. In every state that calls, clock interrupts and page faults lead to, exactly the current process
  is in state CURR, every process is on the queue its state names and on no other, once, and the null
  process runs or is ready.\<close>

theorem tables_in_order:
  assumes "reachable s"
  shows "0 \<le> currpid s \<and> currpid s < NPROC
    \<and> (\<forall>p. 0 \<le> p \<longrightarrow> p < NPROC \<longrightarrow> (prstate (proctab s p) = PR_CURR \<longleftrightarrow> p = currpid s)
        \<and> (\<forall>q. isq (nextqid s) q \<longrightarrow> (p \<in> set (queue_of (queuetab s) q) \<longleftrightarrow> home s p = Some q)))
    \<and> (\<forall>q. isq (nextqid s) q \<longrightarrow> distinct (queue_of (queuetab s) q))
    \<and> prstate (proctab s NULLPROC) \<in> {PR_CURR, PR_READY}"
proof -
  obtain L where L: "kq L s" and cur: "prstate (proctab s (currpid s)) = PR_CURR"
    using reachable_keeps [OF assms] by (auto elim: kinvE)
  note D = kqD [OF L] and P = procs_okD [OF kqD(5) [OF L]]
  have Q: "queue_of (queuetab s) q = L q" if "isq (nextqid s) q" for q by (rule queue_of_qrep [OF D(1) that])
  have pl: "p \<in> set (queue_of (queuetab s) q) \<longleftrightarrow> home s p = Some q" if "0 \<le> p" "p < NPROC" "isq (nextqid s) q" for p q
    using placed_iff [OF D(3) that] Q [OF that(3)] by simp
  have ds: "distinct (queue_of (queuetab s) q)" if "isq (nextqid s) q" for q
    using qrepD(2) [OF D(1) that] Q [OF that] by simp
  have cp: "prstate (proctab s p) = PR_CURR \<longleftrightarrow> p = currpid s" if "0 \<le> p" "p < NPROC" for p
    using P(6) [OF that] cur by metis
  have "prstate (proctab s NULLPROC) \<in> {PR_CURR, PR_READY}" using P(3) by blast
  then show ?thesis using P(1,2) pl ds cp by (intro conjI allI impI)
qed

theorem tables_in_order_witness:
  "prstate (proctab booted (currpid booted)) = PR_CURR \<and> distinct (queue_of (queuetab booted) (readylist booted))"
  using tables_in_order [OF booted_reachable(1)] booted_ready by simp

text \<open>C7. In every reachable state the count of a semaphore in use, when negative, is the number of processes
  on its queue, and a semaphore with a count of zero or more, or one that is free, has none.\<close>

theorem semaphore_counts:
  assumes "reachable s" "0 \<le> i" "i < NSEM"
  shows "int (length (queue_of (queuetab s) (squeue (semtab s i))))
    = (if sstate (semtab s i) = S_USED then max 0 (- scount (semtab s i)) else 0)"
proof -
  obtain L where L: "kq L s" "sem_ok L s"
    using reachable_keeps [OF assms(1)] by (auto elim: kinvE)
  have "isq (nextqid s) (squeue (semtab s i))" by (rule ids_okD(5) [OF kqD(2) [OF L(1)] assms(2,3)])
  then have "queue_of (queuetab s) (squeue (semtab s i)) = L (squeue (semtab s i))" by (rule queue_of_qrep [OF kqD(1) [OF L(1)]])
  then show ?thesis using L(2) assms(2,3) by (cases "sstate (semtab s i)") (auto simp: sem_ok_def sem_entry_ok_def)
qed

theorem semaphore_counts_witness:
  "int (length (queue_of (queuetab booted) (squeue (semtab booted 0))))
    = (if sstate (semtab booted 0) = S_USED then max 0 (- scount (semtab booted 0)) else 0)"
  by (rule semaphore_counts [OF booted_reachable(1)]) simp_all

text \<open>C11. From every reachable state, a call that does not allocate or free memory returns control: no
  queue it walks is circular, whatever has happened before.\<close>

theorem calls_return:
  assumes "reachable s" "admissible c s" "\<not> allocates c"
  shows "\<exists>s'. exec c s = Some s' \<and> (at_rest (conts s (currpid s)) \<longrightarrow> reachable s')"
proof -
  obtain s' where "exec c s = Some s'" using exec_returns [OF _ assms(2,3)] reachable_keeps [OF assms(1)] by (auto elim: returnsE)
  then show ?thesis using reachable.onward [OF assms(1) step.call] assms(2) by blast
qed

theorem calls_return_witness: "\<exists>s'. exec (SemCreate 1) booted = Some s' \<and> reachable s'"
  using calls_return [OF booted_reachable(1), of "SemCreate 1"] booted_reachable(2) by (simp add: admissible_def)

end
