(* ===== verification/Spec2Isabelle.thy ===== *)
theory Spec2Isabelle
  imports Prelude Interfaces Queue Memory Paging Vmalloc Kernel Invariant Semaphore Clock Message Process System Effects Ports Portsystem
    Portlaws Bufpool Poolsystem Strings Format Dotted Packet Net Udp Icmp Arp Ip Datagram Netlaws Netcontracts Arpexchange Samples Contracts
begin

text \<open>
  This library models Xinu for the x86 (Galileo and QEMU) with the demand-paged private heaps of this repository: the kernel
  under \<^verbatim>\<open>src/system\<close>, the C library under \<^verbatim>\<open>src/lib\<close> and the network stack under
  \<^verbatim>\<open>src/net\<close>, with the declarations of \<^verbatim>\<open>src/include\<close>.

  \<^bold>\<open>The program.\<close> A table of processes and a table of semaphores share one table of linked lists (\<^verbatim>\<open>queuetab\<close>): the
  ready list, the sleep queue (a delta list) and one queue for each semaphore. System calls run with interrupts disabled and
  change these tables; \<^verbatim>\<open>resched\<close> gives the processor away, from a call that blocks, from a call that makes
  another process ready, or from the clock handler. Stacks and dynamic memory of the kernel come from one free list. Each process
  made by \<^verbatim>\<open>vcreate\<close> has a page directory of its own that shares the tables of the kernel; \<^verbatim>\<open>vmalloc\<close> reserves pages of its heap,
  the page-fault handler gives them frames when they are touched, \<^verbatim>\<open>vfree\<close> and \<^verbatim>\<open>kill_vm\<close> take the frames back. Ports and
  buffer pools are built on semaphores; the network stack is built on buffer pools, messages and semaphores.

  \<^bold>\<open>Theories and code.\<close>
  \<^item> \<open>Prelude\<close>: integer types, return constants and configuration constants; lemmas on words, lists and results.
    \<open>Interfaces\<close>: three contracts as locales: a first-in first-out queue, a pool of blocks, a circular search of a table.
    They are interpreted on the queues of semaphores, ports, UDP endpoints and outgoing datagrams, on buffer pools, and on
    the tables of processes, semaphores and ports; a fourth, of an allocator, is stated and interpreted in \<open>Memory\<close>.
  \<^item> \<open>Queue\<close>: \<^verbatim>\<open>queue.c\<close>, \<^verbatim>\<open>getitem.c\<close>, \<^verbatim>\<open>insert.c\<close>, \<^verbatim>\<open>insertd.c\<close>, \<^verbatim>\<open>newqueue.c\<close>. The table is a function
    from indexes to entries; \<open>qrep\<close> says which lists it represents, and each operation is shown to refine the list operation.
  \<^item> \<open>Memory\<close>: \<^verbatim>\<open>getmem.c\<close>, \<^verbatim>\<open>freemem.c\<close>, \<^verbatim>\<open>getstk.c\<close>, \<^verbatim>\<open>meminit.c\<close>. Blocks are linked through memory; \<open>heap_rep\<close>
    gives the list of blocks, \<open>free_bytes\<close> the set of free addresses.
  \<^item> \<open>Paging\<close>: page directories and tables (\<^verbatim>\<open>paging.h\<close>, \<^verbatim>\<open>initialize.c\<close>, \<^verbatim>\<open>vcreate.c\<close>, \<^verbatim>\<open>kill_vm\<close> of \<^verbatim>\<open>kill.c\<close>,
    the mapping part of \<^verbatim>\<open>pagefault_handler.c\<close>, \<^verbatim>\<open>utility_functions.c\<close>). \<open>Vmalloc\<close>: \<^verbatim>\<open>vmalloc.c\<close> and \<^verbatim>\<open>vfree.c\<close>.
  \<^item> \<open>Kernel\<close>: the state of the kernel, \<^verbatim>\<open>resched.c\<close>, \<^verbatim>\<open>ready.c\<close>, \<^verbatim>\<open>yield.c\<close>. \<open>Invariant\<close>: \<open>kinv\<close>, a process is on
    exactly the queue its state names. \<open>Semaphore\<close>, \<open>Clock\<close>, \<open>Message\<close>, \<open>Process\<close>: the system calls on
    semaphores, time, messages and processes. \<open>System\<close>: \<^verbatim>\<open>sysinit\<close> of \<^verbatim>\<open>initialize.c\<close>, and the step relation \<open>step\<close> with
    \<open>reachable\<close>. \<open>Effects\<close>: what a step does to the semaphores it does not name, and to processes that it kills.
  \<^item> \<open>Ports\<close>: \<^verbatim>\<open>ptinit.c\<close> to \<^verbatim>\<open>ptreset.c\<close>. \<open>Portsystem\<close>: many processes on ports (\<open>pstep\<close>, \<open>preachable\<close>) and their invariant.
    \<open>Portlaws\<close>: the properties of ports.
  \<^item> \<open>Bufpool\<close>: \<^verbatim>\<open>bufinit.c\<close>, \<^verbatim>\<open>mkbufpool.c\<close>, \<^verbatim>\<open>getbuf.c\<close>, \<^verbatim>\<open>freebuf.c\<close>. \<open>Poolsystem\<close>: many processes on pools
    (\<open>bpstep\<close>, \<open>breachable\<close>), the invariant and the properties.
  \<^item> \<open>Strings\<close>: the string, memory and conversion routines of \<^verbatim>\<open>lib\<close>. \<open>Format\<close>: \<^verbatim>\<open>doprnt.c\<close>, \<^verbatim>\<open>fdoprnt.c\<close>,
    \<^verbatim>\<open>sprintf.c\<close>. \<open>Dotted\<close>: \<^verbatim>\<open>dot2ip.c\<close>.
  \<^item> \<open>Packet\<close>: packets as bytes and the checksums. \<open>Net\<close>: the state of the stack and the Ethernet calls it makes.
    \<open>Udp\<close>, \<open>Icmp\<close>, \<open>Arp\<close>, \<open>Ip\<close>: \<^verbatim>\<open>udp.c\<close>, \<^verbatim>\<open>icmp.c\<close>, \<^verbatim>\<open>arp.c\<close>, \<^verbatim>\<open>ip.c\<close> and \<^verbatim>\<open>net.c\<close>. \<open>Netlaws\<close>: the step relation
    \<open>netstep\<close> and its invariants. \<open>Netcontracts\<close>: what the operations on endpoints do. \<open>Datagram\<close>, \<open>Arpexchange\<close>: packets
    between two machines.
  \<^item> \<open>Samples\<close>: two concrete kernel states. \<open>Contracts\<close>: the properties of the kernel, each tried on a concrete state.

  \<^bold>\<open>How control is modelled.\<close> A call that gives the processor away in the middle is cut there. What is left is a value: \<open>conts\<close> for
  the kernel (\<open>RecvK\<close>, \<open>RecvtimeK\<close>, \<open>SuspendK\<close>, \<open>KillK\<close>, \<open>ClkK\<close>), \<open>pconts\<close> for ports, \<open>bpconts\<close> for buffer pools, a
  stack of \<open>frame\<close>s for the network. It is carried out in a step of its own, when its process is current again. A step is
  thus a stretch of code between two points at which the processor can change hands; a call that is over leaves its value in \<open>conts\<close>.
  A process that is killed loses what it had left to do.

  \<^bold>\<open>What the lemmas show.\<close> Of the kernel: the tables agree with the states of the processes in every reachable state, calls
  return, and what each call does on every branch. Of memory: the bytes taken were free and come back; mapped pages have
  frames of their own; what \<open>vmalloc\<close> and \<open>vfree\<close> do, and where they go wrong. Of ports and pools: the counts of the
  semaphores agree with what the port or pool holds, so that the code after \<^verbatim>\<open>wait\<close> need not look. Of the library: the
  loops return what they should on strings. Of the network: queues stay inside their arrays, the ARP cache has no duplicates,
  a datagram that is sent is the one that arrives, and when the checksums agree with RFC 1071.

  \<^bold>\<open>Loops.\<close> A loop with a bound in the code is structural recursion, or \<open>fold\<close>, over its index. A loop without a bound of its own
  (over a linked list, to a terminating zero, to a free page, in \<open>vmalloc\<close>) is a \<open>partial_function\<close> whose value \<open>None\<close>
  means that it does not return; the properties state that a value is returned (\<open>returns\<close>, or an equation with \<open>Some\<close>), or
  that there is none. No definition runs on fuel.

  \<^bold>\<open>Idealizations.\<close>
  \<^item> Counts of semaphores, priorities and keys are unbounded integers. In C their overflow is undefined; keys and
    priorities are kept within 16 bits by \<open>kinv\<close> where it matters, counts are not bounded.
  \<^item> The words of stacks (\<open>stack\<close>), the links of free buffers (\<open>bpmem\<close>), the links of the heap (\<open>kheap\<close>), packets (\<open>nmem\<close>) and page
    tables (\<open>pmem\<close>) are memories apart from each other. A process that writes outside what it was given is not modelled, nor is
    a first stack frame (\<open>create_frame\<close>) larger than its stack.
  \<^item> \<open>kill\<close> leaves out the loop that closes the three descriptors of the process: they are the console's, whose \<^verbatim>\<open>close\<close> routine is
    \<^verbatim>\<open>ionull\<close> in \<^verbatim>\<open>config/conf.c\<close>.
  \<^item> \<open>vmalloc\<close> takes its two uninitialised locals as arguments. The properties of \<open>vfree\<close> are stated for pointers below 2 GB, where
    the casts to \<^verbatim>\<open>int\<close> do not change the sign; the definition is not restricted.
  \<^item> The function that disposes of messages in \<open>ptreset\<close> and \<open>ptdelete\<close> is a parameter, assumed to touch neither ports
    nor semaphores and not to give the processor away (\<open>harmless\<close>). In \<open>pstep\<close> other code does not touch the semaphores of ports and kills no process that is resetting or deleting one (\<open>calm\<close>), and
    ports are created for fewer than 65536 messages while semaphores are free. In \<open>bpstep\<close> other code does not wait on or signal
    the semaphores of pools (\<open>bcalm\<close>), and buffers are given back by those who hold them.
  \<^item> In the network theories the interrupt mask is not modelled, \<open>rxring\<close> and \<open>txring\<close> stand for the device, and \<open>net_init\<close> ends before it
    creates the two network processes, which are started by a step of \<open>netstep\<close>.
  \<^item> Doubles in \<open>Format\<close> are arguments (\<open>dl\<close>, \<open>dneg\<close>): their scaling and sign.

  \<^bold>\<open>Not modelled.\<close> Device drivers but for \<open>ethread\<close> and \<open>ethwrite\<close>, the device switch, file systems, the terminal: they work on hardware registers and
  generated tables. Assembly, interrupt vectors, PCI and debugging output. The shell and the clients and dumps of the network
  (DHCP, DNS, TFTP, PXE), which are users of the calls modelled here. \<^verbatim>\<open>doscan.c\<close>, \<^verbatim>\<open>qsort.c\<close>, \<^verbatim>\<open>mark.c\<close>: no other modelled
  part depends on them. \<^verbatim>\<open>src/tmp\<close>, an older copy of the tree.
\<close>

end
